(* ===== verification/Prelude.thy ===== *)
theory Prelude
  imports Main "HOL-Library.Word"
begin

text \<open>
  Shared vocabulary of the development.

  The simulator stops in two ways: it calls \<^verbatim>\<open>panic\<close> (util/trace), or it does something
  that C++ leaves undefined: it reads or writes outside an array, uses an object that has been deleted, steps back from the first element of a list, overflows a signed integer, or goes through a null
  pointer. Both are values here, as is a loop that does not end (\<^verbatim>\<open>Diverges\<close>) and a tick beyond the 64-bit clock (\<^verbatim>\<open>ClockOverflow\<close>): every operation of the model that can stop returns a
  value of type \<^verbatim>\<open>'a res\<close>, a fault or a result. The combinator \<^verbatim>\<open>rbind\<close> is
  sequencing, \<^verbatim>\<open>rfold\<close> is a counted loop whose body may stop, and \<^verbatim>\<open>rnth\<close>, \<^verbatim>\<open>rupd\<close>
  are array accesses with the range check that the C++ code does not make.
\<close>

named_theorems res_simps "equations of the result combinators"
named_theorems res_intros "introduction rules for successful runs"

section \<open>Faults and results\<close>

datatype fault = Panic string | OutOfBounds | NullDeref | UseAfterFree | DivByZero | SignedOverflow | BeforeBegin | Diverges | ClockOverflow

type_synonym 'a res = "fault + 'a"

definition rbind :: "'a res \<Rightarrow> ('a \<Rightarrow> 'b res) \<Rightarrow> 'b res" where
  "rbind m f = (case m of Inl e \<Rightarrow> Inl e | Inr x \<Rightarrow> f x)"

lemma rbind_Inl [simp, res_simps]: "rbind (Inl e) f = Inl e"
  by (simp add: rbind_def)

lemma rbind_Inr [simp, res_simps]: "rbind (Inr x) f = f x"
  by (simp add: rbind_def)

lemma rbind_eq_Inr [res_simps]: "rbind m f = Inr y \<longleftrightarrow> (\<exists>x. m = Inr x \<and> f x = Inr y)"
  by (cases m) auto

lemma rbind_eq_Inl [res_simps]:
  "rbind m f = Inl e \<longleftrightarrow> m = Inl e \<or> (\<exists>x. m = Inr x \<and> f x = Inl e)"
  by (cases m) auto

lemma rbind_InrE [elim!]:
  assumes "rbind m f = Inr y"
  obtains x where "m = Inr x" and "f x = Inr y"
  using assms by (auto simp: res_simps)

lemma rbind_assoc: "rbind (rbind m f) g = rbind m (\<lambda>x. rbind (f x) g)"
  by (cases m) auto

lemma rbind_Inr_right [simp]: "rbind m Inr = m"
  by (cases m) auto

lemma rbind_cong [fundef_cong]:
  "m = m' \<Longrightarrow> (\<And>x. m' = Inr x \<Longrightarrow> f x = f' x) \<Longrightarrow> rbind m f = rbind m' f'"
  by (cases m') auto

text \<open>An operation that reached its end.\<close>

definition is_ok :: "'a res \<Rightarrow> bool" where
  "is_ok r = (case r of Inl _ \<Rightarrow> False | Inr _ \<Rightarrow> True)"

lemma is_ok_simps [simp]: "is_ok (Inr x)" "\<not> is_ok (Inl e)"
  by (simp_all add: is_ok_def)

lemma is_ok_iff: "is_ok r \<longleftrightarrow> (\<exists>x. r = Inr x)"
  by (cases r) auto

lemma is_ok_rbind: "is_ok (rbind m f) \<longleftrightarrow> (\<exists>x. m = Inr x \<and> is_ok (f x))"
  by (cases m) auto

section \<open>Loops whose body may stop\<close>

fun rfold :: "('a \<Rightarrow> 's \<Rightarrow> 's res) \<Rightarrow> 'a list \<Rightarrow> 's \<Rightarrow> 's res" where
  "rfold f [] s = Inr s"
| "rfold f (x # xs) s = rbind (f x s) (rfold f xs)"

lemma rfold_append: "rfold f (xs @ ys) s = rbind (rfold f xs s) (rfold f ys)"
proof (induction xs arbitrary: s)
  case (Cons x xs)
  show ?case by (cases "f x s") (simp_all add: Cons.IH)
qed simp

lemma rfold_pure: "(\<And>x s. x \<in> set xs \<Longrightarrow> f x s = Inr (g x s)) \<Longrightarrow> rfold f xs s = Inr (fold g xs s)"
  by (induction xs arbitrary: s) auto

text \<open>A property of the state that every iteration keeps holds after the loop.\<close>

lemma rfold_invariant:
  assumes "rfold f xs s = Inr t" and "P s"
    and "\<And>x s t. x \<in> set xs \<Longrightarrow> P s \<Longrightarrow> f x s = Inr t \<Longrightarrow> P t"
  shows "P t"
  using assms
proof (induction xs arbitrary: s)
  case (Cons x xs)
  from Cons.prems(1) obtain u where u: "f x s = Inr u" "rfold f xs u = Inr t" by auto
  from Cons.prems(2,3) u(1) have "P u" by auto
  with Cons.IH[OF u(2)] Cons.prems(3) show ?case by auto
qed simp

text \<open>If every iteration succeeds under an invariant, the loop does.\<close>

lemma rfold_ok:
  assumes "P s" and "\<And>x s. x \<in> set xs \<Longrightarrow> P s \<Longrightarrow> \<exists>t. f x s = Inr t \<and> P t"
  shows "\<exists>t. rfold f xs s = Inr t \<and> P t"
  using assms
proof (induction xs arbitrary: s)
  case (Cons x xs)
  from Cons.prems(1) Cons.prems(2)[of x s] obtain t where "f x s = Inr t" "P t" by auto
  with Cons.IH[of t] Cons.prems(2) show ?case by auto
qed simp

text \<open>A loop that replaces the elements one after the other.\<close>

lemma rfold_pointwise:
  assumes "\<And>i ds. i < n \<Longrightarrow> length ds = length ds0 \<Longrightarrow> f i ds = Inr (ds[i := g i (ds ! i)])"
    and "n \<le> length ds0"
  shows "\<exists>ds. rfold f [0..<n] ds0 = Inr ds \<and> length ds = length ds0
     \<and> (\<forall>i < length ds0. ds ! i = (if i < n then g i (ds0 ! i) else ds0 ! i))"
  using assms
proof (induction n)
  case (Suc n)
  then obtain ds where ds: "rfold f [0..<n] ds0 = Inr ds" "length ds = length ds0"
    "\<forall>i < length ds0. ds ! i = (if i < n then g i (ds0 ! i) else ds0 ! i)"
    by (metis Suc_leD less_SucI)
  have "f n ds = Inr (ds[n := g n (ds ! n)])" by (rule Suc.prems(1)) (use ds in auto)
  with ds Suc.prems(2) show ?case
    by (auto simp: rfold_append nth_list_update less_Suc_eq)
qed simp

section \<open>Array accesses\<close>

definition rnth :: "'a list \<Rightarrow> nat \<Rightarrow> 'a res" where
  "rnth xs i = (if i < length xs then Inr (xs ! i) else Inl OutOfBounds)"

definition rupd :: "'a list \<Rightarrow> nat \<Rightarrow> 'a \<Rightarrow> 'a list res" where
  "rupd xs i v = (if i < length xs then Inr (xs[i := v]) else Inl OutOfBounds)"

definition rderef :: "'a option \<Rightarrow> 'a res" where
  "rderef p = (case p of None \<Rightarrow> Inl NullDeref | Some x \<Rightarrow> Inr x)"

lemma rnth_ok [simp]: "i < length xs \<Longrightarrow> rnth xs i = Inr (xs ! i)"
  by (simp add: rnth_def)

lemma rnth_fault [simp]: "length xs \<le> i \<Longrightarrow> rnth xs i = Inl OutOfBounds"
  by (simp add: rnth_def)

lemma rnth_eq_Inr [res_simps]: "rnth xs i = Inr v \<longleftrightarrow> i < length xs \<and> v = xs ! i"
  by (auto simp: rnth_def)

lemma rupd_ok [simp]: "i < length xs \<Longrightarrow> rupd xs i v = Inr (xs[i := v])"
  by (simp add: rupd_def)

lemma rupd_fault [simp]: "length xs \<le> i \<Longrightarrow> rupd xs i v = Inl OutOfBounds"
  by (simp add: rupd_def)

lemma rupd_eq_Inr [res_simps]: "rupd xs i v = Inr ys \<longleftrightarrow> i < length xs \<and> ys = xs[i := v]"
  by (auto simp: rupd_def)

lemma rderef_Some [simp]: "rderef (Some x) = Inr x"
  by (simp add: rderef_def)

lemma rderef_None [simp]: "rderef None = Inl NullDeref"
  by (simp add: rderef_def)

lemma rderef_eq_Inr [res_simps]: "rderef p = Inr v \<longleftrightarrow> p = Some v"
  by (cases p) auto

end
