(* ===== verification/Bitsets.thy ===== *)
theory Bitsets
  imports Prelude
begin

text \<open>
  The class \<^verbatim>\<open>Bitset\<close> of util/bitset.hh and util/bitset.cc, and the bit counting routine of
  util/algorithm.hh that it calls.

  A bit set is a byte array with the number of bits it stands for and the number of bytes
  it holds. Bytes are 8-bit words; the 32-bit sizes and indices are natural numbers (they
  are only divided, compared and, in the two masks, subtracted from a larger value). A
  byte access outside the array is the fault \<^verbatim>\<open>OutOfBounds\<close>; a null data pointer is the
  empty array.
\<close>

unbundle bit_operations_syntax

section \<open>util/algorithm.hh\<close>

definition DIVCEIL :: "nat \<Rightarrow> nat \<Rightarrow> nat" where
  "DIVCEIL x y = (x - 1) div y + 1"

text \<open>The parallel bit count, at any width; \<^verbatim>\<open>(T)~(T)0\<close> is \<^verbatim>\<open>NOT 0\<close>.\<close>

definition popcount :: "'a::len word \<Rightarrow> 8 word" where
  "popcount v0 =
     (let m = NOT 0;
          v1 = v0 - (drop_bit 1 v0 AND m div 3);
          v2 = (v1 AND m div 15 * 3) + (drop_bit 2 v1 AND m div 15 * 3);
          v3 = (v2 + drop_bit 4 v2) AND m div 255 * 15;
          v4 = drop_bit ((LENGTH('a) div 8 - 1) * 8) (v3 * (m div 255))
      in ucast v4)"

section \<open>The class Bitset\<close>

record bitset =
  bs_data :: "8 word list"
  bs_dataSize :: nat
  bs_allocSize :: nat

definition bs_default :: bitset where
  "bs_default = \<lparr>bs_data = [], bs_dataSize = 0, bs_allocSize = 0\<rparr>"

definition bs_new :: "nat \<Rightarrow> bitset" where
  "bs_new sz =
     (if sz > 0
      then \<lparr>bs_data = replicate (DIVCEIL sz 8) 0, bs_dataSize = sz, bs_allocSize = DIVCEIL sz 8\<rparr>
      else bs_default)"

definition bs_mask :: "nat \<Rightarrow> 8 word" where
  "bs_mask i = push_bit (i mod 8) 1"

definition bs_test :: "bitset \<Rightarrow> nat \<Rightarrow> bool res" where
  "bs_test b i = rbind (rnth (bs_data b) (i div 8)) (\<lambda>d. Inr (d AND bs_mask i \<noteq> 0))"

definition bs_all :: "bitset \<Rightarrow> bool res" where
  "bs_all b =
     (let mask = push_bit (bs_dataSize b + 8 - bs_allocSize b * 8) (0xFF :: 8 word)
      in rbind (rfold (\<lambda>i r. rbind (rnth (bs_data b) i) (\<lambda>d. Inr (r AND d)))
                  [0..<bs_allocSize b - 1] 0xFF)
           (\<lambda>r. rbind (rnth (bs_data b) (bs_allocSize b - 1))
             (\<lambda>d. Inr (r AND (d OR mask) = 0xFF))))"

definition bs_none :: "bitset \<Rightarrow> bool res" where
  "bs_none b =
     rbind (rfold (\<lambda>i r. rbind (rnth (bs_data b) i) (\<lambda>d. Inr (r OR d)))
              [0..<bs_allocSize b] (0 :: 8 word))
       (\<lambda>r. Inr (r = 0))"

definition bs_any :: "bitset \<Rightarrow> bool res" where
  "bs_any b = rbind (bs_none b) (\<lambda>r. Inr (\<not> r))"

definition bs_count :: "bitset \<Rightarrow> nat res" where
  "bs_count b =
     rfold (\<lambda>i c. rbind (rnth (bs_data b) i) (\<lambda>d. Inr (c + unat (popcount d))))
       [0..<bs_allocSize b] 0"

definition bs_size :: "bitset \<Rightarrow> nat" where
  "bs_size b = bs_dataSize b"

definition bs_set_all :: "bitset \<Rightarrow> bitset res" where
  "bs_set_all b =
     (let mask = drop_bit (bs_allocSize b * 8 - bs_dataSize b) (0xFF :: 8 word)
      in rbind (rfold (\<lambda>i d. rupd d i 0xFF) [0..<bs_allocSize b - 1] (bs_data b))
           (\<lambda>d. rbind (rupd d (bs_allocSize b - 1) mask) (\<lambda>d. Inr (b\<lparr>bs_data := d\<rparr>))))"

definition bs_set :: "bitset \<Rightarrow> nat \<Rightarrow> bool \<Rightarrow> bitset res" where
  "bs_set b i v =
     rbind (rnth (bs_data b) (i div 8)) (\<lambda>d.
       let d1 = d AND NOT (bs_mask i);
           d2 = (if v then d1 OR bs_mask i else d1)
       in rbind (rupd (bs_data b) (i div 8) d2) (\<lambda>ds. Inr (b\<lparr>bs_data := ds\<rparr>)))"

definition bs_reset_all :: "bitset \<Rightarrow> bitset res" where
  "bs_reset_all b =
     rbind (rfold (\<lambda>i d. rupd d i 0) [0..<bs_allocSize b] (bs_data b))
       (\<lambda>d. Inr (b\<lparr>bs_data := d\<rparr>))"

definition bs_reset :: "bitset \<Rightarrow> nat \<Rightarrow> bitset res" where
  "bs_reset b i =
     rbind (rnth (bs_data b) (i div 8)) (\<lambda>d.
       rbind (rupd (bs_data b) (i div 8) (d AND NOT (bs_mask i)))
         (\<lambda>ds. Inr (b\<lparr>bs_data := ds\<rparr>)))"

definition bs_flip_all :: "bitset \<Rightarrow> bitset res" where
  "bs_flip_all b =
     (let mask = drop_bit (bs_allocSize b * 8 - bs_dataSize b) (0xFF :: 8 word)
      in rbind (rfold (\<lambda>i ds. rbind (rnth ds i) (\<lambda>d. rupd ds i (NOT d)))
                  [0..<bs_allocSize b] (bs_data b))
           (\<lambda>ds. rbind (rnth ds (bs_allocSize b - 1)) (\<lambda>d.
             rbind (rupd ds (bs_allocSize b - 1) (d AND mask)) (\<lambda>ds. Inr (b\<lparr>bs_data := ds\<rparr>)))))"

definition bs_flip :: "bitset \<Rightarrow> nat \<Rightarrow> bitset res" where
  "bs_flip b i =
     rbind (rnth (bs_data b) (i div 8)) (\<lambda>d.
       rbind (rupd (bs_data b) (i div 8)
                ((NOT d AND bs_mask i) OR (d AND NOT (bs_mask i))))
         (\<lambda>ds. Inr (b\<lparr>bs_data := ds\<rparr>)))"

text \<open>The loop of the compound assignments: byte \<^verbatim>\<open>i\<close> of the left side is combined with byte
  \<^verbatim>\<open>i\<close> of the right side.\<close>

definition bs_combine :: "(8 word \<Rightarrow> 8 word \<Rightarrow> 8 word) \<Rightarrow> bitset \<Rightarrow> bitset \<Rightarrow> bitset res" where
  "bs_combine f b rhs =
     (if bs_dataSize b \<noteq> bs_dataSize rhs then Inl (Panic ''Size does not match'')
      else rbind (rfold (\<lambda>i ds. rbind (rnth ds i) (\<lambda>x. rbind (rnth (bs_data rhs) i)
                    (\<lambda>y. rupd ds i (f x y)))) [0..<bs_allocSize b] (bs_data b))
             (\<lambda>ds. Inr (b\<lparr>bs_data := ds\<rparr>)))"

definition bs_and_assign :: "bitset \<Rightarrow> bitset \<Rightarrow> bitset res" where
  "bs_and_assign = bs_combine (AND)"

definition bs_or_assign :: "bitset \<Rightarrow> bitset \<Rightarrow> bitset res" where
  "bs_or_assign = bs_combine (OR)"

definition bs_xor_assign :: "bitset \<Rightarrow> bitset \<Rightarrow> bitset res" where
  "bs_xor_assign = bs_combine (XOR)"

definition bs_compl :: "bitset \<Rightarrow> bitset res" where
  "bs_compl b = bs_flip_all b"

text \<open>\<^verbatim>\<open>operator|\<close> takes its left side by value and returns what \<^verbatim>\<open>operator|=\<close> makes of the copy.\<close>

definition bs_union :: "bitset \<Rightarrow> bitset \<Rightarrow> bitset res" where
  "bs_union = bs_or_assign"

text \<open>\<^verbatim>\<open>operator==\<close>: the loop stops at the first byte that differs.\<close>

fun bs_eq_loop :: "bitset \<Rightarrow> bitset \<Rightarrow> nat list \<Rightarrow> bool res" where
  "bs_eq_loop a b [] = Inr True"
| "bs_eq_loop a b (i # is) =
     rbind (rnth (bs_data a) i) (\<lambda>x. rbind (rnth (bs_data b) i) (\<lambda>y.
       if x \<noteq> y then Inr False else bs_eq_loop a b is))"

definition bs_eq :: "bitset \<Rightarrow> bitset \<Rightarrow> bool res" where
  "bs_eq a b =
     (if bs_dataSize a \<noteq> bs_dataSize b then Inl (Panic ''Size does not match'')
      else bs_eq_loop a b [0..<bs_allocSize a])"

section \<open>Well-formed bit sets and the set they stand for\<close>

definition bs_bit :: "bitset \<Rightarrow> nat \<Rightarrow> bool" where
  "bs_bit b i = bit (bs_data b ! (i div 8)) (i mod 8)"

definition bs_elems :: "bitset \<Rightarrow> nat set" where
  "bs_elems b = {i. i < bs_dataSize b \<and> bs_bit b i}"

definition bs_wf :: "bitset \<Rightarrow> bool" where
  "bs_wf b \<longleftrightarrow> length (bs_data b) = bs_allocSize b
     \<and> bs_allocSize b = (if bs_dataSize b = 0 then 0 else DIVCEIL (bs_dataSize b) 8)
     \<and> (\<forall>i. bs_dataSize b \<le> i \<and> i < 8 * bs_allocSize b \<longrightarrow> \<not> bs_bit b i)"

lemma DIVCEIL_bounds: "0 < n \<Longrightarrow> 8 * (DIVCEIL n 8 - 1) < n \<and> n \<le> 8 * DIVCEIL n 8"
  unfolding DIVCEIL_def by presburger

lemma bs_wf_bounds:
  assumes "bs_wf b" "0 < bs_dataSize b"
  shows "8 * (bs_allocSize b - 1) < bs_dataSize b" "bs_dataSize b \<le> 8 * bs_allocSize b"
    "0 < bs_allocSize b" "length (bs_data b) = bs_allocSize b"
  using assms DIVCEIL_bounds[of "bs_dataSize b"] by (auto simp: bs_wf_def split: if_splits)

lemma bs_wf_byte: "bs_wf b \<Longrightarrow> i < bs_dataSize b \<Longrightarrow> i div 8 < length (bs_data b)"
  using bs_wf_bounds[of b] by force

lemma bit_bs_mask [simp]: "bit (bs_mask i) n \<longleftrightarrow> n = i mod 8"
  by (auto simp: bs_mask_def bit_simps)

lemma and_bs_mask [simp]: "(d AND bs_mask i = 0) \<longleftrightarrow> \<not> bit d (i mod 8)"
  by (simp add: bs_mask_def bit_iff_and_push_bit_not_eq_0)

lemma bs_new_wf [simp]: "bs_wf (bs_new n)"
  and bs_new_size [simp]: "bs_dataSize (bs_new n) = n"
  and bs_new_elems [simp]: "bs_elems (bs_new n) = {}"
proof -
  have "bs_bit (bs_new n) i = False" if "0 < n" "i < 8 * DIVCEIL n 8" for i
    using that by (auto simp: bs_bit_def bs_new_def)
  then show "bs_wf (bs_new n)" "bs_dataSize (bs_new n) = n" "bs_elems (bs_new n) = {}"
    using DIVCEIL_bounds[of n]
    by (fastforce simp: bs_wf_def bs_new_def bs_default_def bs_elems_def)+
qed

lemma bs_test_ok: "bs_wf b \<Longrightarrow> i < bs_dataSize b \<Longrightarrow> bs_test b i = Inr (i \<in> bs_elems b)"
  using bs_wf_byte[of b i] by (auto simp: bs_test_def bs_elems_def bs_bit_def)

text \<open>Replacing one byte: what every single-bit update does.\<close>

lemma bs_bit_update:
  "k < length (bs_data b) \<Longrightarrow>
   bs_bit (b\<lparr>bs_data := (bs_data b)[k := d]\<rparr>) i =
     (if i div 8 = k then bit d (i mod 8) else bs_bit b i)"
  by (simp add: bs_bit_def)

lemma div_mod_8_eq: "(j :: nat) div 8 = i div 8 \<Longrightarrow> j mod 8 = i mod 8 \<Longrightarrow> j = i"
  by (metis div_mult_mod_eq)

lemma bs_one_byte:
  assumes wf: "bs_wf b" and i: "i < bs_dataSize b"
    and d: "\<And>n. n < 8 \<Longrightarrow> bit d n = (if n = i mod 8 then v else bit (bs_data b ! (i div 8)) n)"
    and b': "b' = b\<lparr>bs_data := (bs_data b)[i div 8 := d]\<rparr>"
  shows "bs_wf b' \<and> bs_dataSize b' = bs_dataSize b
    \<and> bs_elems b' = (if v then insert i (bs_elems b) else bs_elems b - {i})"
proof -
  have bit: "bs_bit b' j = (if j = i then v else bs_bit b j)" for j
    unfolding b' bs_bit_update[OF bs_wf_byte[OF wf i]]
    using d[of "j mod 8"] div_mod_8_eq[of j i] by (auto simp: bs_bit_def)
  show ?thesis
    using wf i bit by (auto simp: bs_wf_def bs_elems_def b')
qed

lemma bs_set_ok:
  assumes "bs_wf b" "i < bs_dataSize b"
  shows "\<exists>b'. bs_set b i v = Inr b' \<and> bs_wf b' \<and> bs_dataSize b' = bs_dataSize b
    \<and> bs_elems b' = (if v then insert i (bs_elems b) else bs_elems b - {i})"
proof -
  let ?d1 = "bs_data b ! (i div 8) AND NOT (bs_mask i)"
  let ?d = "if v then ?d1 OR bs_mask i else ?d1"
  let ?b = "b\<lparr>bs_data := (bs_data b)[i div 8 := ?d]\<rparr>"
  have "bs_set b i v = Inr ?b"
    using bs_wf_byte[OF assms] by (simp add: bs_set_def Let_def)
  moreover have "bs_wf ?b \<and> bs_dataSize ?b = bs_dataSize b
    \<and> bs_elems ?b = (if v then insert i (bs_elems b) else bs_elems b - {i})"
    by (rule bs_one_byte[OF assms _ refl]) (auto simp: bit_simps)
  ultimately show ?thesis by blast
qed

lemma bs_reset_ok:
  assumes "bs_wf b" "i < bs_dataSize b"
  shows "\<exists>b'. bs_reset b i = Inr b' \<and> bs_wf b' \<and> bs_dataSize b' = bs_dataSize b
    \<and> bs_elems b' = bs_elems b - {i}"
proof -
  have "bs_reset b i = bs_set b i False" by (simp add: bs_reset_def bs_set_def)
  with bs_set_ok[OF assms, of False] show ?thesis by simp
qed

lemma bs_flip_ok:
  assumes "bs_wf b" "i < bs_dataSize b"
  shows "\<exists>b'. bs_flip b i = Inr b' \<and> bs_wf b' \<and> bs_dataSize b' = bs_dataSize b
    \<and> bs_elems b' = (if i \<notin> bs_elems b then insert i (bs_elems b) else bs_elems b - {i})"
proof -
  let ?d0 = "bs_data b ! (i div 8)"
  let ?d = "(NOT ?d0 AND bs_mask i) OR (?d0 AND NOT (bs_mask i))"
  let ?b = "b\<lparr>bs_data := (bs_data b)[i div 8 := ?d]\<rparr>"
  have "bs_flip b i = Inr ?b"
    using bs_wf_byte[OF assms] by (simp add: bs_flip_def)
  moreover have "bs_wf ?b \<and> bs_dataSize ?b = bs_dataSize b
    \<and> bs_elems ?b = (if i \<notin> bs_elems b then insert i (bs_elems b) else bs_elems b - {i})"
    by (rule bs_one_byte[OF assms _ refl])
       (use assms in \<open>auto simp: bit_simps bs_elems_def bs_bit_def\<close>)
  ultimately show ?thesis by blast
qed

text \<open>Whole-set updates: every byte is replaced, and the last one is masked.\<close>

lemma bs_all_bytes:
  assumes "bs_wf b" "length ds = bs_allocSize b"
    and "\<And>i. i < 8 * bs_allocSize b \<Longrightarrow> bit (ds ! (i div 8)) (i mod 8) \<longleftrightarrow> i < bs_dataSize b \<and> P i"
  shows "bs_wf (b\<lparr>bs_data := ds\<rparr>) \<and> bs_dataSize (b\<lparr>bs_data := ds\<rparr>) = bs_dataSize b
    \<and> bs_elems (b\<lparr>bs_data := ds\<rparr>) = {i. i < bs_dataSize b \<and> P i}"
proof (cases "bs_dataSize b = 0")
  case False
  then show ?thesis
    using assms bs_wf_bounds[OF assms(1)] by (fastforce simp: bs_wf_def bs_elems_def bs_bit_def)
next
  case True
  with assms show ?thesis by (auto simp: bs_wf_def bs_elems_def)
qed

text \<open>The mask of the last byte keeps exactly the bits below the size.\<close>

lemma last_mask:
  assumes "bs_wf b" "0 < bs_dataSize b" "i < 8 * bs_allocSize b" "i div 8 = bs_allocSize b - 1"
  shows "bit (drop_bit (bs_allocSize b * 8 - bs_dataSize b) (0xFF :: 8 word)) (i mod 8)
    \<longleftrightarrow> i < bs_dataSize b"
proof -
  have ff: "(0xFF :: 8 word) = mask 8" by (simp add: mask_eq_exp_minus_1)
  have "i = 8 * (bs_allocSize b - 1) + i mod 8" using assms(4) by (metis mult_div_mod_eq)
  with bs_wf_bounds[OF assms(1,2)] show ?thesis
    unfolding ff by (auto simp: bit_simps)
qed

lemma not_last_byte:
  assumes "bs_wf b" "0 < bs_dataSize b" "i < 8 * bs_allocSize b" "i div 8 \<noteq> bs_allocSize b - 1"
  shows "i < bs_dataSize b" "i div 8 < bs_allocSize b - 1"
  using bs_wf_bounds[OF assms(1,2)] assms(3,4) by linarith+


lemma bs_set_all_ok:
  assumes wf: "bs_wf b" and pos: "0 < bs_dataSize b"
  shows "\<exists>b'. bs_set_all b = Inr b' \<and> bs_wf b' \<and> bs_dataSize b' = bs_dataSize b
    \<and> bs_elems b' = {..<bs_dataSize b}"
proof -
  let ?n = "bs_allocSize b - 1"
  let ?m = "drop_bit (bs_allocSize b * 8 - bs_dataSize b) (0xFF :: 8 word)"
  note [simp] = bs_wf_bounds[OF wf pos]
  obtain ds where ds: "rfold (\<lambda>i d. rupd d i 0xFF) [0..<?n] (bs_data b) = Inr ds"
    "length ds = length (bs_data b)" "\<forall>i < length (bs_data b). ds ! i = (if i < ?n then 0xFF else bs_data b ! i)"
    using rfold_pointwise[of ?n "bs_data b" "\<lambda>i d. rupd d i 0xFF" "\<lambda>_ _. 0xFF"]
    by (fastforce simp: less_diff_conv)
  have run: "bs_set_all b = Inr (b\<lparr>bs_data := ds[?n := ?m]\<rparr>)"
    using ds by (simp add: bs_set_all_def Let_def)
  have ff: "(0xFF :: 8 word) = mask 8" by (simp add: mask_eq_exp_minus_1)
  have "bit (ds[?n := ?m] ! (i div 8)) (i mod 8) \<longleftrightarrow> i < bs_dataSize b \<and> True"
    if i: "i < 8 * bs_allocSize b" for i
  proof (cases "i div 8 = ?n")
    case True
    with ds last_mask[OF wf pos i True] show ?thesis by simp
  next
    case False
    with ds not_last_byte[OF wf pos i False] show ?thesis
      unfolding ff by (simp add: bit_simps)
  qed
  then have "bs_wf (b\<lparr>bs_data := ds[?n := ?m]\<rparr>) \<and> bs_dataSize (b\<lparr>bs_data := ds[?n := ?m]\<rparr>) = bs_dataSize b
    \<and> bs_elems (b\<lparr>bs_data := ds[?n := ?m]\<rparr>) = {i. i < bs_dataSize b \<and> True}"
    by (intro bs_all_bytes[OF wf]) (use ds in auto)
  with run show ?thesis by (auto simp: lessThan_def)
qed

lemma bs_reset_all_ok:
  assumes wf: "bs_wf b"
  shows "\<exists>b'. bs_reset_all b = Inr b' \<and> bs_wf b' \<and> bs_dataSize b' = bs_dataSize b
    \<and> bs_elems b' = {}"
proof -
  have len: "length (bs_data b) = bs_allocSize b" using wf by (simp add: bs_wf_def)
  obtain ds where ds: "rfold (\<lambda>i d. rupd d i 0) [0..<bs_allocSize b] (bs_data b) = Inr ds"
    "length ds = bs_allocSize b" "\<forall>i < bs_allocSize b. ds ! i = 0"
    using rfold_pointwise[of "bs_allocSize b" "bs_data b" "\<lambda>i d. rupd d i 0" "\<lambda>_ _. 0"] len by auto
  have "bs_wf (b\<lparr>bs_data := ds\<rparr>) \<and> bs_dataSize (b\<lparr>bs_data := ds\<rparr>) = bs_dataSize b
    \<and> bs_elems (b\<lparr>bs_data := ds\<rparr>) = {i. i < bs_dataSize b \<and> False}"
    by (rule bs_all_bytes[OF wf]) (use ds in auto)
  then show ?thesis using ds by (auto simp: bs_reset_all_def)
qed

lemma bs_flip_all_ok:
  assumes wf: "bs_wf b" and pos: "0 < bs_dataSize b"
  shows "\<exists>b'. bs_flip_all b = Inr b' \<and> bs_wf b' \<and> bs_dataSize b' = bs_dataSize b
    \<and> bs_elems b' = {..<bs_dataSize b} - bs_elems b"
proof -
  let ?n = "bs_allocSize b - 1"
  let ?m = "drop_bit (bs_allocSize b * 8 - bs_dataSize b) (0xFF :: 8 word)"
  note [simp] = bs_wf_bounds[OF wf pos]
  obtain ds where ds: "rfold (\<lambda>i ds. rbind (rnth ds i) (\<lambda>d. rupd ds i (NOT d))) [0..<bs_allocSize b] (bs_data b) = Inr ds"
    "length ds = bs_allocSize b" "\<forall>i < bs_allocSize b. ds ! i = NOT (bs_data b ! i)"
    using rfold_pointwise[of "bs_allocSize b" "bs_data b"
        "\<lambda>i ds. rbind (rnth ds i) (\<lambda>d. rupd ds i (NOT d))" "\<lambda>_ d. NOT d"] by auto
  have run: "bs_flip_all b = Inr (b\<lparr>bs_data := ds[?n := ds ! ?n AND ?m]\<rparr>)"
    using ds by (simp add: bs_flip_all_def Let_def)
  have "bit (ds[?n := ds ! ?n AND ?m] ! (i div 8)) (i mod 8) \<longleftrightarrow> i < bs_dataSize b \<and> \<not> bs_bit b i"
    if i: "i < 8 * bs_allocSize b" for i
  proof (cases "i div 8 = ?n")
    case True
    then show ?thesis
      using ds last_mask[OF wf pos i True] by (auto simp: bs_bit_def bit_simps)
  next
    case False
    with ds not_last_byte[OF wf pos i False] show ?thesis by (simp add: bs_bit_def bit_simps)
  qed
  then have "bs_wf (b\<lparr>bs_data := ds[?n := ds ! ?n AND ?m]\<rparr>)
    \<and> bs_dataSize (b\<lparr>bs_data := ds[?n := ds ! ?n AND ?m]\<rparr>) = bs_dataSize b
    \<and> bs_elems (b\<lparr>bs_data := ds[?n := ds ! ?n AND ?m]\<rparr>) = {i. i < bs_dataSize b \<and> \<not> bs_bit b i}"
    by (intro bs_all_bytes[OF wf]) (use ds in auto)
  with run show ?thesis by (auto simp: bs_elems_def)
qed

lemma bs_combine_ok:
  assumes wf: "bs_wf a" "bs_wf b" and sz: "bs_dataSize a = bs_dataSize b"
    and f: "\<And>x y n. n < 8 \<Longrightarrow> bit (f x y) n = F (bit x n) (bit y n)" and F: "\<not> F False False"
  shows "\<exists>c. bs_combine f a b = Inr c \<and> bs_wf c \<and> bs_dataSize c = bs_dataSize a
    \<and> bs_elems c = {i. i < bs_dataSize a \<and> F (i \<in> bs_elems a) (i \<in> bs_elems b)}"
proof -
  have len: "length (bs_data a) = bs_allocSize a" "length (bs_data b) = bs_allocSize a"
    using wf sz by (auto simp: bs_wf_def)
  have alloc: "bs_allocSize b = bs_allocSize a" using wf sz by (auto simp: bs_wf_def)
  let ?step = "\<lambda>i ds. rbind (rnth ds i) (\<lambda>x. rbind (rnth (bs_data b) i) (\<lambda>y. rupd ds i (f x y)))"
  obtain ds where ds: "rfold ?step [0..<bs_allocSize a] (bs_data a) = Inr ds"
    "length ds = bs_allocSize a" "\<forall>i < bs_allocSize a. ds ! i = f (bs_data a ! i) (bs_data b ! i)"
    using rfold_pointwise[of "bs_allocSize a" "bs_data a" ?step "\<lambda>i x. f x (bs_data b ! i)"] len by auto
  have "bit (ds ! (i div 8)) (i mod 8) \<longleftrightarrow> i < bs_dataSize a \<and> F (i \<in> bs_elems a) (i \<in> bs_elems b)"
    if i: "i < 8 * bs_allocSize a" for i
  proof -
    have "bit (ds ! (i div 8)) (i mod 8) = F (bs_bit a i) (bs_bit b i)"
      using i ds f[of "i mod 8"] by (simp add: bs_bit_def)
    moreover have "bs_dataSize a \<le> i \<longrightarrow> \<not> bs_bit a i \<and> \<not> bs_bit b i"
      using wf i alloc sz unfolding bs_wf_def by metis
    ultimately show ?thesis
      using F sz by (cases "i < bs_dataSize a") (auto simp: bs_elems_def)
  qed
  then have "bs_wf (a\<lparr>bs_data := ds\<rparr>) \<and> bs_dataSize (a\<lparr>bs_data := ds\<rparr>) = bs_dataSize a
    \<and> bs_elems (a\<lparr>bs_data := ds\<rparr>) = {i. i < bs_dataSize a \<and> F (i \<in> bs_elems a) (i \<in> bs_elems b)}"
    by (intro bs_all_bytes[OF wf(1)]) (use ds in auto)
  with ds sz show ?thesis by (auto simp: bs_combine_def)
qed

lemma bs_or_ok:
  assumes "bs_wf a" "bs_wf b" "bs_dataSize a = bs_dataSize b"
  shows "\<exists>c. bs_or_assign a b = Inr c \<and> bs_wf c \<and> bs_dataSize c = bs_dataSize a
    \<and> bs_elems c = bs_elems a \<union> bs_elems b"
proof -
  have "{i. i < bs_dataSize a \<and> (i \<in> bs_elems a \<or> i \<in> bs_elems b)} = bs_elems a \<union> bs_elems b"
    using assms(3) by (auto simp: bs_elems_def)
  with bs_combine_ok[OF assms, of "(OR)" "(\<or>)"] show ?thesis
    by (simp add: bs_or_assign_def bit_simps)
qed

lemma bs_and_ok:
  assumes "bs_wf a" "bs_wf b" "bs_dataSize a = bs_dataSize b"
  shows "\<exists>c. bs_and_assign a b = Inr c \<and> bs_wf c \<and> bs_dataSize c = bs_dataSize a
    \<and> bs_elems c = bs_elems a \<inter> bs_elems b"
proof -
  have "{i. i < bs_dataSize a \<and> (i \<in> bs_elems a \<and> i \<in> bs_elems b)} = bs_elems a \<inter> bs_elems b"
    using assms(3) by (auto simp: bs_elems_def)
  with bs_combine_ok[OF assms, of "(AND)" "(\<and>)"] show ?thesis
    by (simp add: bs_and_assign_def bit_simps)
qed

lemma bs_xor_ok:
  assumes "bs_wf a" "bs_wf b" "bs_dataSize a = bs_dataSize b"
  shows "\<exists>c. bs_xor_assign a b = Inr c \<and> bs_wf c \<and> bs_dataSize c = bs_dataSize a
    \<and> bs_elems c = (bs_elems a - bs_elems b) \<union> (bs_elems b - bs_elems a)"
proof -
  have "{i. i < bs_dataSize a \<and> ((i \<in> bs_elems a) \<noteq> (i \<in> bs_elems b))}
      = (bs_elems a - bs_elems b) \<union> (bs_elems b - bs_elems a)"
    using assms(3) by (auto simp: bs_elems_def)
  with bs_combine_ok[OF assms, of "(XOR)" "(\<noteq>)"] show ?thesis
    by (simp add: bs_xor_assign_def bit_simps)
qed


text \<open>The tests.\<close>

lemma bit_FF: "bit (0xFF :: int) k \<longleftrightarrow> k < 8"
proof -
  have ff: "(0xFF :: int) = mask 8" by (simp add: mask_eq_exp_minus_1)
  show ?thesis unfolding ff by (simp add: bit_mask_iff)
qed

lemma rfold_and_bytes:
  "n \<le> length ds \<Longrightarrow>
   \<exists>r. rfold (\<lambda>i r. rbind (rnth ds i) (\<lambda>d. Inr (r AND d))) [0..<n] (0xFF :: 8 word) = Inr r
     \<and> (\<forall>k < 8. bit r k \<longleftrightarrow> (\<forall>i < n. bit (ds ! i) k))"
  by (induction n) (auto simp: rfold_append bit_simps bit_FF less_Suc_eq)

lemma rfold_or_bytes:
  "n \<le> length ds \<Longrightarrow>
   \<exists>r. rfold (\<lambda>i r. rbind (rnth ds i) (\<lambda>d. Inr (r OR d))) [0..<n] (0 :: 8 word) = Inr r
     \<and> (\<forall>k < 8. bit r k \<longleftrightarrow> (\<exists>i < n. bit (ds ! i) k))"
  by (induction n) (auto simp: rfold_append bit_simps less_Suc_eq)

lemma byte_eq_iff: "(x :: 8 word) = y \<longleftrightarrow> (\<forall>k < 8. bit x k = bit y k)"
  by (auto intro: bit_word_eqI)

lemma bs_none_ok: "bs_wf b \<Longrightarrow> bs_none b = Inr (bs_elems b = {})"
proof -
  assume wf: "bs_wf b"
  then have len: "length (bs_data b) = bs_allocSize b" by (simp add: bs_wf_def)
  obtain r where r: "rfold (\<lambda>i r. rbind (rnth (bs_data b) i) (\<lambda>d. Inr (r OR d))) [0..<bs_allocSize b] (0 :: 8 word) = Inr r"
    "\<forall>k < 8. bit r k \<longleftrightarrow> (\<exists>i < bs_allocSize b. bit (bs_data b ! i) k)"
    using rfold_or_bytes[of "bs_allocSize b" "bs_data b"] len by auto
  have "r = 0 \<longleftrightarrow> (\<forall>j < 8 * bs_allocSize b. \<not> bs_bit b j)" (is "?L \<longleftrightarrow> ?R")
  proof
    assume ?L then show ?R using r(2) by (auto simp: bs_bit_def)
  next
    assume R: ?R
    have "\<not> bit (bs_data b ! i) k" if "i < bs_allocSize b" "k < 8" for i k
    proof -
      have "8 * i + k < 8 * bs_allocSize b" using that by linarith
      with R that show ?thesis by (auto simp: bs_bit_def dest: spec[of _ "8 * i + k"])
    qed
    with r(2) show ?L by (auto simp: byte_eq_iff)
  qed
  also have "\<dots> \<longleftrightarrow> bs_elems b = {}"
  proof -
    have "bs_bit b j \<and> j < 8 * bs_allocSize b \<longleftrightarrow> j \<in> bs_elems b" for j
    proof (cases "j < bs_dataSize b")
      case True
      with bs_wf_bounds(2)[OF wf] show ?thesis by (auto simp: bs_elems_def)
    next
      case False
      with wf show ?thesis by (auto simp: bs_elems_def bs_wf_def)
    qed
    then show ?thesis by blast
  qed
  finally show ?thesis using r(1) by (simp add: bs_none_def)
qed

lemma bs_any_ok: "bs_wf b \<Longrightarrow> bs_any b = Inr (bs_elems b \<noteq> {})"
  by (simp add: bs_any_def bs_none_ok)

lemma bs_all_ok:
  assumes wf: "bs_wf b" and pos: "0 < bs_dataSize b"
  shows "bs_all b = Inr (bs_elems b = {..<bs_dataSize b})"
proof -
  let ?n = "bs_allocSize b - 1"
  let ?s = "bs_dataSize b + 8 - bs_allocSize b * 8"
  let ?m = "push_bit ?s (0xFF :: 8 word)"
  note bounds [simp] = bs_wf_bounds[OF wf pos]
  obtain r where r: "rfold (\<lambda>i r. rbind (rnth (bs_data b) i) (\<lambda>d. Inr (r AND d))) [0..<?n] (0xFF :: 8 word) = Inr r"
    "\<forall>k < 8. bit r k \<longleftrightarrow> (\<forall>i < ?n. bit (bs_data b ! i) k)"
    using rfold_and_bytes[of ?n "bs_data b"] by auto
  have m: "bit ?m k \<longleftrightarrow> ?s \<le> k" if "k < 8" for k
    using that by (auto simp: bit_simps bit_FF)
  have "r AND (bs_data b ! ?n OR ?m) = 0xFF
     \<longleftrightarrow> (\<forall>k < 8. (\<forall>i < ?n. bit (bs_data b ! i) k) \<and> (bit (bs_data b ! ?n) k \<or> ?s \<le> k))"
    using r(2) m by (simp add: byte_eq_iff bit_simps bit_FF)
  also have "\<dots> \<longleftrightarrow> (\<forall>j < bs_dataSize b. bs_bit b j)" (is "?L \<longleftrightarrow> ?R")
  proof
    assume L: ?L
    show ?R
    proof (intro allI impI)
      fix j assume j: "j < bs_dataSize b"
      show "bs_bit b j"
      proof (cases "j div 8 = ?n")
        case True
        then have "j = 8 * ?n + j mod 8" by (metis mult_div_mod_eq)
        then have "j mod 8 < ?s" using j bounds(1,3) by linarith
        with L True show ?thesis by (auto simp: bs_bit_def dest: spec[of _ "j mod 8"])
      next
        case False
        have "j < 8 * bs_allocSize b" using j bounds(2) by linarith
        from not_last_byte(2)[OF wf pos this False] have "j div 8 < ?n" .
        with L show ?thesis by (auto simp: bs_bit_def)
      qed
    qed
  next
    assume R: ?R
    show ?L
    proof (intro allI impI conjI)
      fix k i :: nat assume k: "k < 8" and i: "i < ?n"
      have "8 * i + k < bs_dataSize b" using k i bounds(1) by linarith
      with R k show "bit (bs_data b ! i) k" by (auto simp: bs_bit_def dest: spec[of _ "8 * i + k"])
    next
      fix k :: nat assume k: "k < 8"
      show "bit (bs_data b ! ?n) k \<or> ?s \<le> k"
      proof (cases "8 * ?n + k < bs_dataSize b")
        case True
        with R k show ?thesis by (auto simp: bs_bit_def dest: spec[of _ "8 * ?n + k"])
      qed (use bounds(1) bounds(3) in linarith)
    qed
  qed
  also have "\<dots> \<longleftrightarrow> bs_elems b = {..<bs_dataSize b}" by (auto simp: bs_elems_def)
  finally show ?thesis using r(1) by (simp add: bs_all_def Let_def)
qed


section \<open>Counting\<close>

definition byte_of_bits :: "bool \<Rightarrow> bool \<Rightarrow> bool \<Rightarrow> bool \<Rightarrow> bool \<Rightarrow> bool \<Rightarrow> bool \<Rightarrow> bool \<Rightarrow> 8 word" where
  "byte_of_bits b0 b1 b2 b3 b4 b5 b6 b7 =
     of_bool b0 + 2 * of_bool b1 + 4 * of_bool b2 + 8 * of_bool b3
     + 16 * of_bool b4 + 32 * of_bool b5 + 64 * of_bool b6 + 128 * of_bool b7"

lemma upt8: "[0..<8] = [0, 1, 2, 3, 4, 5, 6, 7 :: nat]"
  by code_simp

lemma byte_cases:
  "byte_of_bits (bit v 0) (bit v 1) (bit v 2) (bit v 3) (bit v 4) (bit v 5) (bit v 6) (bit v 7)
     = (v :: 8 word)"
proof -
  have "v = horner_sum of_bool 2 (map (bit v) [0..<8])"
    by (simp add: horner_sum_bit_eq_take_bit take_bit_word_eq_self del: upt.simps upt_rec_numeral)
  then show ?thesis
    by (simp add: byte_of_bits_def upt8 algebra_simps del: upt.simps upt_rec_numeral)
qed

text \<open>The bit trick is right on every byte.\<close>

lemma popcount_byte_of_bits:
  "unat (popcount (byte_of_bits b0 b1 b2 b3 b4 b5 b6 b7)) =
     of_bool b0 + of_bool b1 + of_bool b2 + of_bool b3
     + of_bool b4 + of_bool b5 + of_bool b6 + of_bool b7"
  by (cases b0; cases b1; cases b2; cases b3; cases b4; cases b5; cases b6; cases b7)
     (simp_all add: popcount_def byte_of_bits_def Let_def)

lemma popcount_byte: "unat (popcount (v :: 8 word)) = card {k. k < 8 \<and> bit v k}"
proof -
  have "card {k. k < 8 \<and> bit v k} = (\<Sum>k \<in> {..<8}. of_bool (bit v k))"
    by (simp add: sum_of_bool_eq lessThan_def Collect_conj_eq)
  also have "\<dots> = (\<Sum>k \<leftarrow> [0..<8]. of_bool (bit v k))"
    by (simp add: sum_list_distinct_conv_sum_set atLeast0LessThan del: upt.simps upt_rec_numeral)
  also have "\<dots> = unat (popcount (byte_of_bits (bit v 0) (bit v 1) (bit v 2) (bit v 3)
      (bit v 4) (bit v 5) (bit v 6) (bit v 7)))"
    unfolding popcount_byte_of_bits by (simp add: upt8 del: upt.simps upt_rec_numeral)
  finally show ?thesis by (simp only: byte_cases)
qed

lemma bs_count_bytes:
  fixes ds :: "8 word list"
  shows "n \<le> length ds \<Longrightarrow>
   rfold (\<lambda>i c. rbind (rnth ds i) (\<lambda>d. Inr (c + unat (popcount d)))) [0..<n] 0
     = Inr (card {j. j < 8 * n \<and> bit (ds ! (j div 8)) (j mod 8)})"
proof (induction n)
  case (Suc n)
  let ?S = "\<lambda>n. {j. j < 8 * n \<and> bit (ds ! (j div 8)) (j mod 8)}"
  have "?S (Suc n) = ?S n \<union> (\<lambda>k. 8 * n + k) ` {k. k < 8 \<and> bit (ds ! n) k}" (is "_ = _ \<union> ?I")
  proof (intro set_eqI iffI)
    fix j assume j: "j \<in> ?S (Suc n)"
    show "j \<in> ?S n \<union> ?I"
    proof (cases "j < 8 * n")
      case False
      with j have n: "j div 8 = n" by auto
      then have "j = 8 * n + j mod 8" by (metis mult_div_mod_eq)
      with j n show ?thesis by (auto intro!: image_eqI[of _ _ "j mod 8"])
    qed (use j in auto)
  qed auto
  moreover have "card ?I = card {k. k < 8 \<and> bit (ds ! n) k}"
    by (rule card_image) (auto simp: inj_on_def)
  moreover have "?S n \<inter> ?I = {}" by auto
  ultimately have "card (?S (Suc n)) = card (?S n) + card {k. k < 8 \<and> bit (ds ! n) k}"
    by (simp add: card_Un_disjoint)
  with Suc show ?case by (simp add: rfold_append popcount_byte)
qed simp

lemma bs_count_ok:
  assumes "bs_wf b"
  shows "bs_count b = Inr (card (bs_elems b))"
proof -
  have "{j. j < 8 * bs_allocSize b \<and> bs_bit b j} = bs_elems b"
  proof (cases "bs_dataSize b = 0")
    case False
    with assms bs_wf_bounds(2)[OF assms] show ?thesis
      by (fastforce simp: bs_wf_def bs_elems_def not_less)
  qed (use assms in \<open>auto simp: bs_wf_def bs_elems_def\<close>)
  with bs_count_bytes[of "bs_allocSize b" "bs_data b"] assms show ?thesis
    by (simp add: bs_count_def bs_wf_def bs_bit_def)
qed

section \<open>The contract of a bit vector\<close>

text \<open>What the clients of the class (the flash blocks, the request maps) rely on: the operations
  are those of a finite set of indices below a size, and none of them stops when its index is
  below the size and the size is not zero.\<close>

locale bitvec =
  fixes size :: "'b \<Rightarrow> nat" and elems :: "'b \<Rightarrow> nat set" and wf :: "'b \<Rightarrow> bool"
    and test :: "'b \<Rightarrow> nat \<Rightarrow> bool res"
    and put :: "'b \<Rightarrow> nat \<Rightarrow> bool \<Rightarrow> 'b res"
    and reset :: "'b \<Rightarrow> nat \<Rightarrow> 'b res"
    and set_all :: "'b \<Rightarrow> 'b res" and reset_all :: "'b \<Rightarrow> 'b res"
    and count :: "'b \<Rightarrow> nat res"
    and join :: "'b \<Rightarrow> 'b \<Rightarrow> 'b res" and compl :: "'b \<Rightarrow> 'b res"
  assumes elems_size: "wf b \<Longrightarrow> elems b \<subseteq> {..<size b}"
    and test_law: "wf b \<Longrightarrow> i < size b \<Longrightarrow> test b i = Inr (i \<in> elems b)"
    and put_law: "wf b \<Longrightarrow> i < size b \<Longrightarrow>
      \<exists>b'. put b i v = Inr b' \<and> wf b' \<and> size b' = size b
        \<and> elems b' = (if v then insert i (elems b) else elems b - {i})"
    and reset_law: "wf b \<Longrightarrow> i < size b \<Longrightarrow>
      \<exists>b'. reset b i = Inr b' \<and> wf b' \<and> size b' = size b \<and> elems b' = elems b - {i}"
    and set_all_law: "wf b \<Longrightarrow> 0 < size b \<Longrightarrow>
      \<exists>b'. set_all b = Inr b' \<and> wf b' \<and> size b' = size b \<and> elems b' = {..<size b}"
    and reset_all_law: "wf b \<Longrightarrow>
      \<exists>b'. reset_all b = Inr b' \<and> wf b' \<and> size b' = size b \<and> elems b' = {}"
    and count_law: "wf b \<Longrightarrow> count b = Inr (card (elems b))"
    and join_law: "wf a \<Longrightarrow> wf b \<Longrightarrow> size a = size b \<Longrightarrow>
      \<exists>c. join a b = Inr c \<and> wf c \<and> size c = size a \<and> elems c = elems a \<union> elems b"
    and compl_law: "wf b \<Longrightarrow> 0 < size b \<Longrightarrow>
      \<exists>c. compl b = Inr c \<and> wf c \<and> size c = size b \<and> elems c = {..<size b} - elems b"
begin

lemma finite_elems: "wf b \<Longrightarrow> finite (elems b)"
  using elems_size finite_subset by blast

lemma put_E:
  assumes "wf b" "i < size b"
  obtains b' where "put b i v = Inr b'" "wf b'" "size b' = size b"
    "elems b' = (if v then insert i (elems b) else elems b - {i})"
  using put_law[OF assms] by blast

text \<open>A test sees the last update of its index and nothing else.\<close>

lemma test_put:
  assumes "wf b" "i < size b" "j < size b"
  shows "rbind (put b i v) (\<lambda>b'. test b' j) = (if j = i then Inr v else test b j)"
proof -
  obtain b' where b': "put b i v = Inr b'" "wf b'" "size b' = size b"
    "elems b' = (if v then insert i (elems b) else elems b - {i})"
    by (rule put_E[OF assms(1,2)])
  then show ?thesis using assms by (auto simp: test_law)
qed

lemma put_many:
  assumes "wf b" "set is \<subseteq> {..<size b}"
  shows "\<exists>b'. rfold (\<lambda>i b. put b i True) is b = Inr b' \<and> wf b' \<and> size b' = size b
    \<and> elems b' = elems b \<union> set is"
  using assms
proof (induction "is" arbitrary: b)
  case (Cons i "is")
  obtain b' where b': "put b i True = Inr b'" "wf b'" "size b' = size b" "elems b' = insert i (elems b)"
    using put_E[of b i True] Cons.prems by auto
  with Cons.IH[of b'] Cons.prems(2) show ?case by auto
qed simp

text \<open>Two disjoint sets and the complement of their union: the counts add up to the size.\<close>

lemma count_partition:
  assumes "wf a" "wf b" "size b = size a" "0 < size a" "elems a \<inter> elems b = {}"
  shows "\<exists>n. rbind (join a b) (\<lambda>c. rbind (compl c) count) = Inr n
    \<and> card (elems a) + card (elems b) + n = size a"
proof -
  obtain c where c: "join a b = Inr c" "wf c" "size c = size a" "elems c = elems a \<union> elems b"
    using join_law[OF assms(1,2)] assms(3) by auto
  obtain d where d: "compl c = Inr d" "wf d" "elems d = {..<size a} - (elems a \<union> elems b)"
    using compl_law[OF c(2)] c assms(4) by auto
  have sub: "elems a \<union> elems b \<subseteq> {..<size a}"
    using elems_size[OF assms(1)] elems_size[OF assms(2)] assms(3) by auto
  have fin: "finite (elems a \<union> elems b)" using sub finite_subset by blast
  then have un: "card (elems a \<union> elems b) = card (elems a) + card (elems b)"
    using assms(5) by (simp add: card_Un_disjoint)
  have "card (elems d) = size a - card (elems a \<union> elems b)"
    using d(3) sub fin by (simp add: card_Diff_subset)
  moreover have "card (elems a \<union> elems b) \<le> size a"
    using card_mono[OF _ sub] by simp
  ultimately show ?thesis
    using c(1) d(1) count_law[OF d(2)] un by simp
qed

end

lemma bs_elems_below: "bs_elems b \<subseteq> {..<bs_dataSize b}"
  by (auto simp: bs_elems_def)

interpretation bs: bitvec bs_dataSize bs_elems bs_wf bs_test bs_set bs_reset bs_set_all
  bs_reset_all bs_count bs_union bs_compl
proof (unfold_locales, goal_cases)
  case (9 b)
  then show ?case using bs_flip_all_ok[of b] by (simp add: bs_compl_def)
next
  case (8 a b)
  then show ?case using bs_or_ok[of a b] by (simp add: bs_union_def)
qed (use bs_set_ok bs_reset_ok bs_set_all_ok bs_reset_all_ok in
       \<open>simp_all add: bs_test_ok bs_count_ok bs_elems_below\<close>)

section \<open>Runs of operations against the abstract set\<close>

datatype bs_op = OpSet nat bool | OpReset nat | OpFlip nat | OpSetAll | OpResetAll | OpFlipAll

fun bs_step :: "bs_op \<Rightarrow> bitset \<Rightarrow> bitset res" where
  "bs_step (OpSet i v) b = bs_set b i v"
| "bs_step (OpReset i) b = bs_reset b i"
| "bs_step (OpFlip i) b = bs_flip b i"
| "bs_step OpSetAll b = bs_set_all b"
| "bs_step OpResetAll b = bs_reset_all b"
| "bs_step OpFlipAll b = bs_flip_all b"

fun set_step :: "nat \<Rightarrow> bs_op \<Rightarrow> nat set \<Rightarrow> nat set" where
  "set_step n (OpSet i v) s = (if v then insert i s else s - {i})"
| "set_step n (OpReset i) s = s - {i}"
| "set_step n (OpFlip i) s = (if i \<in> s then s - {i} else insert i s)"
| "set_step n OpSetAll s = {..<n}"
| "set_step n OpResetAll s = {}"
| "set_step n OpFlipAll s = {..<n} - s"

fun op_index_ok :: "nat \<Rightarrow> bs_op \<Rightarrow> bool" where
  "op_index_ok n (OpSet i v) = (i < n)"
| "op_index_ok n (OpReset i) = (i < n)"
| "op_index_ok n (OpFlip i) = (i < n)"
| "op_index_ok n _ = True"

lemma bs_step_refines:
  assumes "bs_wf b" "0 < bs_dataSize b" "op_index_ok (bs_dataSize b) op"
  shows "\<exists>b'. bs_step op b = Inr b' \<and> bs_wf b' \<and> bs_dataSize b' = bs_dataSize b
    \<and> bs_elems b' = set_step (bs_dataSize b) op (bs_elems b)"
proof (cases op)
  case (OpFlip i)
  with assms bs_flip_ok[of b i] show ?thesis by (cases "i \<in> bs_elems b") auto
qed (use assms bs.put_law bs.reset_law bs.set_all_law bs.reset_all_law bs_flip_all_ok in auto)

lemma bs_run_refines:
  assumes "bs_wf b" "0 < bs_dataSize b" "list_all (op_index_ok (bs_dataSize b)) ops"
  shows "\<exists>b'. rfold bs_step ops b = Inr b' \<and> bs_wf b' \<and> bs_dataSize b' = bs_dataSize b
    \<and> bs_elems b' = fold (set_step (bs_dataSize b)) ops (bs_elems b)"
  using assms
proof (induction ops arbitrary: b)
  case (Cons op ops)
  then obtain b' where "bs_step op b = Inr b'" "bs_wf b'" "bs_dataSize b' = bs_dataSize b"
    "bs_elems b' = set_step (bs_dataSize b) op (bs_elems b)"
    using bs_step_refines[of b op] by auto
  with Cons.IH[of b'] Cons.prems show ?case by auto
qed simp

section \<open>Properties\<close>

text \<open>C1: a bit set made with a size above zero never leaves its byte array, whatever
  sequence of updates is made on it with indices below the size, and afterwards \<^verbatim>\<open>test\<close>,
  \<^verbatim>\<open>count\<close>, \<^verbatim>\<open>none\<close>, \<^verbatim>\<open>any\<close> and \<^verbatim>\<open>all\<close> answer as the finite set of indices that the same
  updates build: the padding bits of the last byte never show.\<close>

theorem bitset_refines_set:
  assumes "0 < n" and "list_all (op_index_ok n) ops"
  shows "\<exists>b. rfold bs_step ops (bs_new n) = Inr b
    \<and> (let s = fold (set_step n) ops {} in
         (\<forall>i < n. bs_test b i = Inr (i \<in> s))
       \<and> bs_count b = Inr (card s)
       \<and> bs_none b = Inr (s = {})
       \<and> bs_any b = Inr (s \<noteq> {})
       \<and> bs_all b = Inr (s = {..<n})
       \<and> bs_size b = n)"
proof -
  obtain b where b: "rfold bs_step ops (bs_new n) = Inr b" "bs_wf b" "bs_dataSize b = n"
    "bs_elems b = fold (set_step n) ops {}"
    using bs_run_refines[of "bs_new n" ops] assms by auto
  then show ?thesis
    using assms(1) bs_test_ok[OF b(2)] bs_all_ok[OF b(2)]
    by (simp add: Let_def bs.count_law bs_none_ok bs_any_ok bs_size_def)
qed

theorem bitset_refines_set_witness:
  "\<exists>b. rfold bs_step [OpSetAll, OpFlip 2, OpReset 0] (bs_new 3) = Inr b
    \<and> bs_count b = Inr 1 \<and> bs_test b 1 = Inr True \<and> bs_test b 2 = Inr False"
proof -
  have s: "fold (set_step 3) [OpSetAll, OpFlip 2, OpReset 0] {} = {1}" by auto
  obtain b where "rfold bs_step [OpSetAll, OpFlip 2, OpReset 0] (bs_new 3) = Inr b"
    "\<forall>i < 3. bs_test b i = Inr (i \<in> {1})" "bs_count b = Inr (card {1 :: nat})"
    using bitset_refines_set[of 3 "[OpSetAll, OpFlip 2, OpReset 0]"] unfolding s Let_def by auto
  then show ?thesis by (intro exI[of _ b]) simp
qed

text \<open>The parallel bit count of util/algorithm.hh, at the width the class uses it with,
  is the number of bits that are set.\<close>

lemma popcount_counts_bits: "unat (popcount (v :: 8 word)) = card {k. k < 8 \<and> bit v k}"
  by (rule popcount_byte)

text \<open>The whole-set updates and the test \<^verbatim>\<open>all\<close> have no guard for a bit set without
  data: on \<^verbatim>\<open>Bitset()\<close> or \<^verbatim>\<open>Bitset(0)\<close> they access a byte before the array.\<close>

lemma empty_bitset_faults:
  "bs_set_all (bs_new 0) = Inl OutOfBounds \<and> bs_flip_all (bs_new 0) = Inl OutOfBounds
   \<and> bs_all (bs_new 0) = Inl OutOfBounds \<and> bs_reset_all (bs_new 0) = Inr (bs_new 0)"
  by (simp add: bs_set_all_def bs_flip_all_def bs_all_def bs_reset_all_def bs_new_def bs_default_def)

end
