(* ===== verification/Blocks.thy ===== *)
theory Blocks
  imports Bitsets
begin

text \<open>
  The class \<^verbatim>\<open>Block\<close> of ftl/common/block.hh and ftl/common/block.cc: one flash block of the
  translation layer, with the state of each of its pages.

  A block works in one of two modes. With one I/O unit in a page (\<^verbatim>\<open>ioUnitInPage == 1\<close>) the page
  states are three heap-allocated bit sets (valid, erased, cached) and a page table of logical
  page numbers; with more than one, they are vectors of bit sets, one bit per unit, and the
  pointers stay null. A null pointer is \<^verbatim>\<open>None\<close> (for the arrays: the empty list) and going
  through it is the fault \<^verbatim>\<open>NullDeref\<close>. The page numbers and counters are natural numbers. The
  counter \<^verbatim>\<open>test_read\<close>, a global that only statistics printing reads, is left out.
\<close>

section \<open>State\<close>

record block =
  blk_idx :: nat
  blk_pageCount :: nat
  blk_cachedpage :: nat
  blk_ioUnitInPage :: nat
  blk_pNextWritePageIndex :: "nat list"
  blk_pValidBits :: "bitset option"
  blk_pErasedBits :: "bitset option"
  blk_pCachedBits :: "bitset option"
  blk_pLPNs :: "nat list"
  blk_validBits :: "bitset list"
  blk_erasedBits :: "bitset list"
  blk_ppLPNs :: "nat list list"
  blk_accessCount :: nat
  blk_lastAccessed :: nat
  blk_firstAccessed :: nat
  blk_eraseCount :: nat

text \<open>A method call through one of the bit set pointers, and one on an element of a vector of bit
  sets (\<^verbatim>\<open>at\<close> throws out of range).\<close>

definition ptr_test :: "bitset option \<Rightarrow> nat \<Rightarrow> bool res" where
  "ptr_test p i = rbind (rderef p) (\<lambda>b. bs_test b i)"

definition ptr_update :: "(bitset \<Rightarrow> bitset res) \<Rightarrow> bitset option \<Rightarrow> bitset option res" where
  "ptr_update f p = rbind (rderef p) (\<lambda>b. rbind (f b) (\<lambda>b'. Inr (Some b')))"

definition vec_update :: "(bitset \<Rightarrow> bitset res) \<Rightarrow> bitset list \<Rightarrow> nat \<Rightarrow> bitset list res" where
  "vec_update f vs p = rbind (rnth vs p) (\<lambda>b. rbind (f b) (\<lambda>b'. rupd vs p b'))"

text \<open>The loop \<^verbatim>\<open>for (auto &iter : validBits) iter.f()\<close>.\<close>

fun each :: "(bitset \<Rightarrow> bitset res) \<Rightarrow> bitset list \<Rightarrow> bitset list res" where
  "each f [] = Inr []"
| "each f (b # bs) = rbind (f b) (\<lambda>b'. rbind (each f bs) (\<lambda>bs'. Inr (b' # bs')))"

section \<open>Construction and erasure\<close>

definition blk_erase :: "block \<Rightarrow> block res" where
  "blk_erase b =
     rbind (if blk_ioUnitInPage b = 1
            then rbind (ptr_update bs_reset_all (blk_pValidBits b)) (\<lambda>v.
                 rbind (ptr_update bs_set_all (blk_pErasedBits b)) (\<lambda>e.
                   Inr (b\<lparr>blk_accessCount := 0, blk_pValidBits := v, blk_pErasedBits := e\<rparr>)))
            else rbind (each bs_reset_all (blk_validBits b)) (\<lambda>v.
                 rbind (each bs_set_all (blk_erasedBits b)) (\<lambda>e.
                   Inr (b\<lparr>blk_accessCount := 0, blk_validBits := v, blk_erasedBits := e\<rparr>))))
       (\<lambda>b. Inr (b\<lparr>blk_pNextWritePageIndex := replicate (blk_ioUnitInPage b) 0,
                   blk_eraseCount := blk_eraseCount b + 1\<rparr>))"

definition blk_new :: "nat \<Rightarrow> nat \<Rightarrow> nat \<Rightarrow> block res" where
  "blk_new blockIdx count ioUnit =
     (let b = \<lparr>blk_idx = blockIdx, blk_pageCount = count, blk_cachedpage = 0,
               blk_ioUnitInPage = ioUnit, blk_pNextWritePageIndex = [],
               blk_pValidBits = None, blk_pErasedBits = None, blk_pCachedBits = None,
               blk_pLPNs = [], blk_validBits = [], blk_erasedBits = [], blk_ppLPNs = [],
               blk_accessCount = 0, blk_lastAccessed = 0, blk_firstAccessed = 0,
               blk_eraseCount = 0\<rparr>
      in rbind (if ioUnit = 1
                then Inr (b\<lparr>blk_pValidBits := Some (bs_new count),
                            blk_pErasedBits := Some (bs_new count),
                            blk_pCachedBits := Some (bs_new count),
                            blk_pLPNs := replicate count 0\<rparr>)
                else if ioUnit > 1
                then Inr (b\<lparr>blk_validBits := replicate count (bs_new ioUnit),
                            blk_erasedBits := replicate count (bs_new ioUnit),
                            blk_ppLPNs := replicate count (replicate ioUnit 0)\<rparr>)
                else Inl (Panic ''Invalid I/O unit in page''))
           (\<lambda>b. rbind (blk_erase (b\<lparr>blk_pNextWritePageIndex := replicate ioUnit 0\<rparr>))
             (\<lambda>b. Inr (b\<lparr>blk_eraseCount := 0, blk_cachedpage := 0\<rparr>))))"

text \<open>The copy constructor: the access counters and times keep their initial value.\<close>

definition blk_copy :: "block \<Rightarrow> block res" where
  "blk_copy old =
     rbind (blk_new (blk_idx old) (blk_pageCount old) (blk_ioUnitInPage old)) (\<lambda>b.
     rbind (if blk_ioUnitInPage b = 1
            then rbind (rderef (blk_pValidBits old)) (\<lambda>v.
                 rbind (rderef (blk_pErasedBits old)) (\<lambda>e.
                 rbind (rderef (blk_pCachedBits old)) (\<lambda>c.
                   Inr (b\<lparr>blk_pValidBits := Some v, blk_pErasedBits := Some e,
                          blk_pCachedBits := Some c, blk_cachedpage := blk_cachedpage old,
                          blk_pLPNs := blk_pLPNs old\<rparr>))))
            else Inr (b\<lparr>blk_validBits := blk_validBits old, blk_erasedBits := blk_erasedBits old,
                        blk_cachedpage := blk_cachedpage old, blk_ppLPNs := blk_ppLPNs old\<rparr>))
       (\<lambda>b. Inr (b\<lparr>blk_pNextWritePageIndex := blk_pNextWritePageIndex old,
                   blk_eraseCount := blk_eraseCount old\<rparr>)))"

text \<open>The move constructor. It has no initialiser for \<^verbatim>\<open>firstAccessed\<close>, so the new object holds
  whatever was in its memory: the parameter \<^verbatim>\<open>garbage\<close>. The old object is left without pages.\<close>

definition blk_move :: "nat \<Rightarrow> block \<Rightarrow> block \<times> block" where
  "blk_move garbage old =
     (old\<lparr>blk_firstAccessed := garbage\<rparr>,
      old\<lparr>blk_idx := 0, blk_pageCount := 0, blk_cachedpage := 0, blk_ioUnitInPage := 0,
          blk_pNextWritePageIndex := [], blk_pValidBits := None, blk_pErasedBits := None,
          blk_pCachedBits := None, blk_pLPNs := [], blk_validBits := [], blk_erasedBits := [],
          blk_ppLPNs := [], blk_accessCount := 0, blk_lastAccessed := 0, blk_firstAccessed := 0,
          blk_eraseCount := 0\<rparr>)"

section \<open>Queries\<close>

definition blk_getBlockIndex :: "block \<Rightarrow> nat" where "blk_getBlockIndex b = blk_idx b"
definition blk_getLastAccessedTime :: "block \<Rightarrow> nat" where
  "blk_getLastAccessedTime b = blk_lastAccessed b"
definition blk_getEraseCount :: "block \<Rightarrow> nat" where "blk_getEraseCount b = blk_eraseCount b"
definition blk_setAccessCountZero :: "block \<Rightarrow> block" where
  "blk_setAccessCountZero b = b\<lparr>blk_accessCount := 0\<rparr>"
definition blk_getBlockAccessCount :: "block \<Rightarrow> nat" where
  "blk_getBlockAccessCount b = blk_accessCount b"

definition blk_getValidPageCount :: "block \<Rightarrow> nat res" where
  "blk_getValidPageCount b =
     (if blk_ioUnitInPage b = 1 then rbind (rderef (blk_pValidBits b)) bs_count
      else rfold (\<lambda>v n. rbind (bs_any v) (\<lambda>a. Inr (if a then n + 1 else n))) (blk_validBits b) 0)"

definition blk_getValidPageCountRaw :: "block \<Rightarrow> nat res" where
  "blk_getValidPageCountRaw b =
     (if blk_ioUnitInPage b = 1 then rbind (rderef (blk_pValidBits b)) bs_count
      else rfold (\<lambda>v n. rbind (bs_count v) (\<lambda>c. Inr (n + c))) (blk_validBits b) 0)"

definition blk_getDirtyPageCount :: "block \<Rightarrow> nat res" where
  "blk_getDirtyPageCount b =
     (if blk_ioUnitInPage b = 1
      then rbind (rderef (blk_pValidBits b)) (\<lambda>v. rbind (rderef (blk_pErasedBits b)) (\<lambda>e.
             rbind (bs_union v e) (\<lambda>u. rbind (bs_compl u) bs_count)))
      else rfold (\<lambda>i n. rbind (rnth (blk_validBits b) i) (\<lambda>v.
                        rbind (rnth (blk_erasedBits b) i) (\<lambda>e.
                        rbind (bs_union v e) (\<lambda>u. rbind (bs_compl u) (\<lambda>c.
                        rbind (bs_any c) (\<lambda>a. Inr (if a then n + 1 else n)))))))
             [0..<blk_pageCount b] 0)"

definition blk_getNextWritePageIndex :: "block \<Rightarrow> nat res" where
  "blk_getNextWritePageIndex b =
     rfold (\<lambda>i idx. rbind (rnth (blk_pNextWritePageIndex b) i)
                      (\<lambda>n. Inr (if idx < n then n else idx)))
       [0..<blk_ioUnitInPage b] 0"

definition blk_getNextWritePageIndex_at :: "block \<Rightarrow> nat \<Rightarrow> nat res" where
  "blk_getNextWritePageIndex_at b i = rnth (blk_pNextWritePageIndex b) i"

definition blk_getCachedPageCount :: "block \<Rightarrow> nat res" where
  "blk_getCachedPageCount b =
     (case blk_pCachedBits b of None \<Rightarrow> Inr 0 | Some c \<Rightarrow> bs_count c)"

text \<open>The answer, the list of logical page numbers and the map that the caller passed by
  reference.\<close>

definition blk_getPageInfo :: "block \<Rightarrow> nat \<Rightarrow> bitset \<Rightarrow> (bool \<times> nat list \<times> bitset) res" where
  "blk_getPageInfo b pageIndex iomap =
     rbind (if blk_ioUnitInPage b = 1 \<and> bs_size iomap = 1
            then rbind (bs_set_all iomap) (\<lambda>iomap'. rbind (rnth (blk_pLPNs b) pageIndex)
                   (\<lambda>l. Inr ([l], iomap')))
            else if bs_size iomap = blk_ioUnitInPage b
            then rbind (rnth (blk_validBits b) pageIndex) (\<lambda>iomap'.
                 rbind (rnth (blk_ppLPNs b) pageIndex) (\<lambda>ls. Inr (ls, iomap')))
            else Inl (Panic ''I/O map size mismatch''))
       (\<lambda>(ls, iomap'). rbind (bs_any iomap') (\<lambda>a. Inr (a, ls, iomap')))"

definition blk_isCached :: "block \<Rightarrow> nat \<Rightarrow> bool res" where
  "blk_isCached b pageIndex = ptr_test (blk_pCachedBits b) pageIndex"

definition blk_isPageValid :: "block \<Rightarrow> nat \<Rightarrow> bool res" where
  "blk_isPageValid b pageIndex = ptr_test (blk_pValidBits b) pageIndex"

definition blk_test_cached :: "block \<Rightarrow> nat \<Rightarrow> bool res" where
  "blk_test_cached b pageIndex =
     (if blk_pCachedBits b = None then Inr False
      else if pageIndex \<ge> blk_pageCount b then Inr False
      else ptr_test (blk_pCachedBits b) pageIndex)"

section \<open>Page operations\<close>

definition blk_read :: "block \<Rightarrow> nat \<Rightarrow> nat \<Rightarrow> nat \<Rightarrow> (bool \<times> block) res" where
  "blk_read b pageIndex idx tick =
     (let b = b\<lparr>blk_accessCount := blk_accessCount b + 1\<rparr>
      in rbind (if blk_ioUnitInPage b = 1 \<and> idx = 0 then ptr_test (blk_pValidBits b) pageIndex
                else if idx < blk_ioUnitInPage b
                then rbind (rnth (blk_validBits b) pageIndex) (\<lambda>v. bs_test v idx)
                else Inl (Panic ''I/O map size mismatch''))
           (\<lambda>r. let b = (if r then b\<lparr>blk_lastAccessed := tick\<rparr> else b)
             in rbind (ptr_update (\<lambda>c. bs_set c pageIndex True) (blk_pCachedBits b))
                  (\<lambda>c. Inr (r, b\<lparr>blk_pCachedBits := c\<rparr>))))"

definition blk_write :: "block \<Rightarrow> nat \<Rightarrow> nat \<Rightarrow> nat \<Rightarrow> nat \<Rightarrow> (bool \<times> block) res" where
  "blk_write b pageIndex lpn idx tick =
     rbind (if blk_ioUnitInPage b = 1 \<and> idx = 0 then ptr_test (blk_pErasedBits b) pageIndex
            else if idx < blk_ioUnitInPage b
            then rbind (rnth (blk_erasedBits b) pageIndex) (\<lambda>e. bs_test e idx)
            else Inl (Panic ''I/O map size mismatch''))
       (\<lambda>w. if w
            then rbind (rnth (blk_pNextWritePageIndex b) idx) (\<lambda>next.
              if pageIndex < next then Inl (Panic ''Write to block should sequential'')
              else
                let b = b\<lparr>blk_lastAccessed := tick\<rparr> in
                rbind (if blk_ioUnitInPage b = 1
                       then rbind (ptr_update (\<lambda>e. bs_reset e pageIndex) (blk_pErasedBits b)) (\<lambda>e.
                            rbind (ptr_update (\<lambda>v. bs_set v pageIndex True) (blk_pValidBits b)) (\<lambda>v.
                            rbind (rupd (blk_pLPNs b) pageIndex lpn) (\<lambda>l.
                              Inr (b\<lparr>blk_pErasedBits := e, blk_pValidBits := v, blk_pLPNs := l\<rparr>))))
                       else rbind (vec_update (\<lambda>e. bs_reset e idx) (blk_erasedBits b) pageIndex) (\<lambda>e.
                            rbind (vec_update (\<lambda>v. bs_set v idx True) (blk_validBits b) pageIndex) (\<lambda>v.
                            rbind (rnth (blk_ppLPNs b) pageIndex) (\<lambda>row.
                            rbind (rupd row idx lpn) (\<lambda>row.
                            rbind (rupd (blk_ppLPNs b) pageIndex row) (\<lambda>l.
                              Inr (b\<lparr>blk_erasedBits := e, blk_validBits := v,
                                     blk_ppLPNs := l\<rparr>)))))))
                  (\<lambda>b. rbind (rupd (blk_pNextWritePageIndex b) idx (pageIndex + 1))
                    (\<lambda>n. Inr (True, b\<lparr>blk_pNextWritePageIndex := n\<rparr>))))
            else Inl (Panic ''Write to non erased page''))"

definition blk_invalidate :: "block \<Rightarrow> nat \<Rightarrow> nat \<Rightarrow> block res" where
  "blk_invalidate b pageIndex idx =
     rbind (if blk_ioUnitInPage b = 1
            then rbind (ptr_update (\<lambda>v. bs_reset v pageIndex) (blk_pValidBits b))
                   (\<lambda>v. Inr (b\<lparr>blk_pValidBits := v\<rparr>))
            else rbind (vec_update (\<lambda>v. bs_reset v idx) (blk_validBits b) pageIndex)
                   (\<lambda>v. Inr (b\<lparr>blk_validBits := v\<rparr>)))
       (\<lambda>b. Inr (b\<lparr>blk_accessCount := blk_accessCount b + 1\<rparr>))"

definition blk_deCache :: "block \<Rightarrow> nat \<Rightarrow> block res" where
  "blk_deCache b pageIndex =
     rbind (ptr_update (\<lambda>c. bs_reset c pageIndex) (blk_pCachedBits b))
       (\<lambda>c. Inr (b\<lparr>blk_pCachedBits := c\<rparr>))"

definition blk_test_decache :: "block \<Rightarrow> nat \<Rightarrow> block res" where
  "blk_test_decache b pageIndex = blk_deCache b pageIndex"

section \<open>Well-formed blocks\<close>

definition vec_wf :: "nat \<Rightarrow> nat \<Rightarrow> bitset list \<Rightarrow> bool" where
  "vec_wf m n vs \<longleftrightarrow> length vs = m \<and> (\<forall>b \<in> set vs. bs_wf b \<and> bs_dataSize b = n)"

lemma vec_wf_nth: "vec_wf m n vs \<Longrightarrow> p < m \<Longrightarrow> bs_wf (vs ! p) \<and> bs_dataSize (vs ! p) = n"
  by (auto simp: vec_wf_def)

lemma vec_update_ok:
  assumes "vec_wf m n vs" "p < m"
    and "\<exists>b'. f (vs ! p) = Inr b' \<and> bs_wf b' \<and> bs_dataSize b' = bs_dataSize (vs ! p) \<and> bs_elems b' = S"
  shows "\<exists>vs'. vec_update f vs p = Inr vs' \<and> vec_wf m n vs'
    \<and> (\<forall>q < m. bs_elems (vs' ! q) = (if q = p then S else bs_elems (vs ! q)))"
proof -
  obtain b' where b': "f (vs ! p) = Inr b'" "bs_wf b'" "bs_dataSize b' = n" "bs_elems b' = S"
    using assms vec_wf_nth[OF assms(1,2)] by auto
  then have "vec_update f vs p = Inr (vs[p := b'])"
    using assms by (simp add: vec_update_def vec_wf_def)
  moreover have "vec_wf m n (vs[p := b'])"
    using assms(1) b' set_update_subset_insert[of vs p b'] by (auto simp: vec_wf_def)
  ultimately show ?thesis using assms b' by (auto simp: vec_wf_def)
qed

lemma each_ok:
  assumes "vec_wf m n vs"
    and "\<And>b. bs_wf b \<Longrightarrow> bs_dataSize b = n \<Longrightarrow>
      \<exists>b'. f b = Inr b' \<and> bs_wf b' \<and> bs_dataSize b' = bs_dataSize b \<and> bs_elems b' = S"
  shows "\<exists>vs'. each f vs = Inr vs' \<and> vec_wf m n vs' \<and> (\<forall>q < m. bs_elems (vs' ! q) = S)"
  using assms(1)
proof (induction vs arbitrary: m)
  case (Cons b vs)
  then obtain k where m: "m = Suc k" and k: "vec_wf k n vs" and b: "bs_wf b" "bs_dataSize b = n"
    by (auto simp: vec_wf_def)
  from Cons.IH[OF k] assms(2)[OF b] b show ?case
    by (fastforce simp: m vec_wf_def nth_Cons split: nat.split)
qed (simp add: vec_wf_def)

lemma each_reset_all: "vec_wf m n vs \<Longrightarrow>
  \<exists>vs'. each bs_reset_all vs = Inr vs' \<and> vec_wf m n vs' \<and> (\<forall>q < m. bs_elems (vs' ! q) = {})"
  by (rule each_ok) (use bs.reset_all_law in auto)

lemma each_set_all: "vec_wf m n vs \<Longrightarrow> 0 < n \<Longrightarrow>
  \<exists>vs'. each bs_set_all vs = Inr vs' \<and> vec_wf m n vs' \<and> (\<forall>q < m. bs_elems (vs' ! q) = {..<n})"
  by (rule each_ok) (use bs.set_all_law in auto)

lemma vec_wf_replicate [simp]: "vec_wf m n (replicate m (bs_new n))"
  by (auto simp: vec_wf_def)

definition ptr_wf :: "nat \<Rightarrow> bitset option \<Rightarrow> bool" where
  "ptr_wf n p \<longleftrightarrow> (\<exists>b. p = Some b \<and> bs_wf b \<and> bs_dataSize b = n)"

lemma ptr_update_ok:
  assumes "ptr_wf n p"
    and "\<And>b. p = Some b \<Longrightarrow> bs_wf b \<Longrightarrow> bs_dataSize b = n \<Longrightarrow>
      \<exists>b'. f b = Inr b' \<and> bs_wf b' \<and> bs_dataSize b' = bs_dataSize b \<and> bs_elems b' = S (bs_elems b)"
  shows "\<exists>p'. ptr_update f p = Inr p' \<and> ptr_wf n p' \<and> bs_elems (the p') = S (bs_elems (the p))"
  using assms by (fastforce simp: ptr_wf_def ptr_update_def)

lemma ptr_put_ok: "ptr_wf n p \<Longrightarrow> i < n \<Longrightarrow>
  \<exists>p'. ptr_update (\<lambda>b. bs_set b i True) p = Inr p' \<and> ptr_wf n p' \<and> bs_elems (the p') = insert i (bs_elems (the p))"
  by (rule ptr_update_ok) (use bs.put_law[where v = True] in auto)

lemma ptr_reset_ok: "ptr_wf n p \<Longrightarrow> i < n \<Longrightarrow>
  \<exists>p'. ptr_update (\<lambda>b. bs_reset b i) p = Inr p' \<and> ptr_wf n p' \<and> bs_elems (the p') = bs_elems (the p) - {i}"
  by (rule ptr_update_ok) (use bs.reset_law in auto)

lemma ptr_reset_all_ok: "ptr_wf n p \<Longrightarrow>
  \<exists>p'. ptr_update bs_reset_all p = Inr p' \<and> ptr_wf n p' \<and> bs_elems (the p') = {}"
  by (rule ptr_update_ok) (use bs.reset_all_law in auto)

lemma ptr_set_all_ok: "ptr_wf n p \<Longrightarrow> 0 < n \<Longrightarrow>
  \<exists>p'. ptr_update bs_set_all p = Inr p' \<and> ptr_wf n p' \<and> bs_elems (the p') = {..<n}"
  by (rule ptr_update_ok) (use bs.set_all_law in auto)

lemma ptr_test_ok: "ptr_wf n p \<Longrightarrow> i < n \<Longrightarrow> ptr_test p i = Inr (i \<in> bs_elems (the p))"
  by (auto simp: ptr_wf_def ptr_test_def bs.test_law)

definition blk_wf :: "block \<Rightarrow> bool" where
  "blk_wf b \<longleftrightarrow> 0 < blk_pageCount b \<and> length (blk_pNextWritePageIndex b) = blk_ioUnitInPage b
     \<and> (if blk_ioUnitInPage b = 1
        then ptr_wf (blk_pageCount b) (blk_pValidBits b) \<and> ptr_wf (blk_pageCount b) (blk_pErasedBits b)
          \<and> ptr_wf (blk_pageCount b) (blk_pCachedBits b) \<and> length (blk_pLPNs b) = blk_pageCount b
        else 1 < blk_ioUnitInPage b
          \<and> vec_wf (blk_pageCount b) (blk_ioUnitInPage b) (blk_validBits b)
          \<and> vec_wf (blk_pageCount b) (blk_ioUnitInPage b) (blk_erasedBits b)
          \<and> length (blk_ppLPNs b) = blk_pageCount b
          \<and> (\<forall>row \<in> set (blk_ppLPNs b). length row = blk_ioUnitInPage b)
          \<and> blk_pCachedBits b = None)"

text \<open>The abstract page states, the same for the two modes: a cell is a page number and a unit in
  the page.\<close>

definition blk_validSet :: "block \<Rightarrow> (nat \<times> nat) set" where
  "blk_validSet b =
     (if blk_ioUnitInPage b = 1 then (\<lambda>p. (p, 0)) ` bs_elems (the (blk_pValidBits b))
      else {(p, i). p < blk_pageCount b \<and> i \<in> bs_elems (blk_validBits b ! p)})"

definition blk_erasedSet :: "block \<Rightarrow> (nat \<times> nat) set" where
  "blk_erasedSet b =
     (if blk_ioUnitInPage b = 1 then (\<lambda>p. (p, 0)) ` bs_elems (the (blk_pErasedBits b))
      else {(p, i). p < blk_pageCount b \<and> i \<in> bs_elems (blk_erasedBits b ! p)})"

definition blk_lpn :: "block \<Rightarrow> nat \<times> nat \<Rightarrow> nat" where
  "blk_lpn b c = (if blk_ioUnitInPage b = 1 then blk_pLPNs b ! fst c else blk_ppLPNs b ! fst c ! snd c)"

definition blk_cells :: "block \<Rightarrow> (nat \<times> nat) set" where
  "blk_cells b = {..<blk_pageCount b} \<times> {..<blk_ioUnitInPage b}"

record pages =
  pg_valid :: "(nat \<times> nat) set"
  pg_erased :: "(nat \<times> nat) set"
  pg_lpn :: "nat \<times> nat \<Rightarrow> nat"
  pg_next :: "nat \<Rightarrow> nat"

definition blk_abs :: "block \<Rightarrow> pages" where
  "blk_abs b = \<lparr>pg_valid = blk_validSet b, pg_erased = blk_erasedSet b,
     pg_lpn = (\<lambda>c. if c \<in> blk_cells b then blk_lpn b c else 0),
     pg_next = (\<lambda>i. if i < blk_ioUnitInPage b then blk_pNextWritePageIndex b ! i else 0)\<rparr>"

text \<open>The invariant: no cell is both valid and erased, and every cell from the write pointer on is
  erased.\<close>

definition pg_inv :: "(nat \<times> nat) set \<Rightarrow> pages \<Rightarrow> bool" where
  "pg_inv cs s \<longleftrightarrow> pg_valid s \<inter> pg_erased s = {}
     \<and> (\<forall>(p, i) \<in> cs. pg_next s i \<le> p \<longrightarrow> (p, i) \<in> pg_erased s)"

definition blk_inv :: "block \<Rightarrow> bool" where
  "blk_inv b \<longleftrightarrow> blk_wf b \<and> pg_inv (blk_cells b) (blk_abs b)"

lemma ptr_elems: "ptr_wf n p \<Longrightarrow> i \<in> bs_elems (the p) \<Longrightarrow> i < n"
  by (auto simp: ptr_wf_def bs_elems_def)

lemma vec_elems: "vec_wf m n vs \<Longrightarrow> p < m \<Longrightarrow> i \<in> bs_elems (vs ! p) \<Longrightarrow> i < n"
  using vec_wf_nth[of m n vs p] by (auto simp: bs_elems_def)

lemma blk_sets_cells:
  assumes "blk_wf b"
  shows "blk_validSet b \<subseteq> blk_cells b" "blk_erasedSet b \<subseteq> blk_cells b"
  using assms
  by (auto simp: blk_wf_def blk_validSet_def blk_erasedSet_def blk_cells_def
      dest: ptr_elems vec_elems split: if_splits)

section \<open>The abstract operations\<close>

definition spec_erase :: "(nat \<times> nat) set \<Rightarrow> pages \<Rightarrow> pages" where
  "spec_erase cs s = s\<lparr>pg_valid := {}, pg_erased := cs, pg_next := \<lambda>_. 0\<rparr>"

definition spec_write :: "nat \<times> nat \<Rightarrow> nat \<Rightarrow> pages \<Rightarrow> pages" where
  "spec_write c lpn s = s\<lparr>pg_valid := insert c (pg_valid s), pg_erased := pg_erased s - {c},
     pg_lpn := (pg_lpn s)(c := lpn), pg_next := (pg_next s)(snd c := fst c + 1)\<rparr>"

definition spec_invalidate :: "nat \<times> nat \<Rightarrow> pages \<Rightarrow> pages" where
  "spec_invalidate c s = s\<lparr>pg_valid := pg_valid s - {c}\<rparr>"

lemmas spec_defs = spec_erase_def spec_write_def spec_invalidate_def

lemma pg_inv_erase: "pg_inv cs (spec_erase cs s)"
  by (auto simp: pg_inv_def spec_defs)

lemma pg_inv_write:
  "pg_inv cs s \<Longrightarrow> (p, i) \<in> pg_erased s \<Longrightarrow> pg_next s i \<le> p \<Longrightarrow> pg_inv cs (spec_write (p, i) lpn s)"
  by (fastforce simp: pg_inv_def spec_defs)

lemma pg_inv_invalidate: "pg_inv cs s \<Longrightarrow> pg_inv cs (spec_invalidate c s)"
  by (auto simp: pg_inv_def spec_defs)

text \<open>What no page operation changes.\<close>

definition same_shape :: "block \<Rightarrow> block \<Rightarrow> bool" where
  "same_shape b b' \<longleftrightarrow> blk_idx b' = blk_idx b \<and> blk_pageCount b' = blk_pageCount b
     \<and> blk_ioUnitInPage b' = blk_ioUnitInPage b"

lemma same_shape_refl [simp]: "same_shape b b"
  by (simp add: same_shape_def)

lemma same_shape_trans: "same_shape a b \<Longrightarrow> same_shape b c \<Longrightarrow> same_shape a c"
  by (simp add: same_shape_def)

lemma same_shape_cells: "same_shape b b' \<Longrightarrow> blk_cells b' = blk_cells b"
  by (simp add: same_shape_def blk_cells_def)

section \<open>The operations implement the abstract ones\<close>

lemma blk_modes:
  assumes "blk_wf b"
  obtains (one) "blk_ioUnitInPage b = 1" | (many) "1 < blk_ioUnitInPage b"
  using assms by (auto simp: blk_wf_def split: if_splits)

lemma blk_erase_ok:
  assumes "blk_wf b"
  shows "\<exists>b'. blk_erase b = Inr b' \<and> blk_wf b' \<and> same_shape b b'
    \<and> blk_abs b' = spec_erase (blk_cells b) (blk_abs b)
    \<and> blk_eraseCount b' = blk_eraseCount b + 1 \<and> blk_accessCount b' = 0
    \<and> blk_pCachedBits b' = blk_pCachedBits b \<and> blk_lastAccessed b' = blk_lastAccessed b"
  using assms
proof (cases rule: blk_modes)
  case one
  let ?n = "blk_pageCount b"
  obtain v where v: "ptr_update bs_reset_all (blk_pValidBits b) = Inr v" "ptr_wf ?n v" "bs_elems (the v) = {}"
    using ptr_reset_all_ok[of ?n "blk_pValidBits b"] assms one by (auto simp: blk_wf_def)
  obtain e where e: "ptr_update bs_set_all (blk_pErasedBits b) = Inr e" "ptr_wf ?n e" "bs_elems (the e) = {..<?n}"
    using ptr_set_all_ok[of ?n "blk_pErasedBits b"] assms one by (auto simp: blk_wf_def)
  show ?thesis
    using v e one assms
    by (auto simp: blk_erase_def blk_wf_def same_shape_def blk_abs_def spec_defs blk_validSet_def
        blk_erasedSet_def blk_cells_def blk_lpn_def fun_eq_iff)
next
  case many
  let ?n = "blk_pageCount b" and ?u = "blk_ioUnitInPage b"
  obtain v where v: "each bs_reset_all (blk_validBits b) = Inr v" "vec_wf ?n ?u v" "\<forall>q < ?n. bs_elems (v ! q) = {}"
    using each_reset_all[of ?n ?u "blk_validBits b"] assms many by (auto simp: blk_wf_def)
  obtain e where e: "each bs_set_all (blk_erasedBits b) = Inr e" "vec_wf ?n ?u e" "\<forall>q < ?n. bs_elems (e ! q) = {..<?u}"
    using each_set_all[of ?n ?u "blk_erasedBits b"] assms many by (auto simp: blk_wf_def)
  show ?thesis
    using v e many assms
    by (auto simp: blk_erase_def blk_wf_def same_shape_def blk_abs_def spec_defs blk_validSet_def
        blk_erasedSet_def blk_cells_def blk_lpn_def fun_eq_iff)
qed

lemma blk_new_ok:
  assumes "0 < count" "0 < ioUnit"
  shows "\<exists>b. blk_new i count ioUnit = Inr b \<and> blk_inv b \<and> blk_idx b = i \<and> blk_pageCount b = count
    \<and> blk_ioUnitInPage b = ioUnit \<and> blk_eraseCount b = 0 \<and> blk_validSet b = {}
    \<and> blk_erasedSet b = blk_cells b
    \<and> blk_abs b = \<lparr>pg_valid = {}, pg_erased = blk_cells b, pg_lpn = \<lambda>_. 0, pg_next = \<lambda>_. 0\<rparr>"
proof -
  define b0 where "b0 = \<lparr>blk_idx = i, blk_pageCount = count, blk_cachedpage = 0,
     blk_ioUnitInPage = ioUnit, blk_pNextWritePageIndex = replicate ioUnit 0,
     blk_pValidBits = (if ioUnit = 1 then Some (bs_new count) else None),
     blk_pErasedBits = (if ioUnit = 1 then Some (bs_new count) else None),
     blk_pCachedBits = (if ioUnit = 1 then Some (bs_new count) else None),
     blk_pLPNs = (if ioUnit = 1 then replicate count 0 else []),
     blk_validBits = (if ioUnit = 1 then [] else replicate count (bs_new ioUnit)),
     blk_erasedBits = (if ioUnit = 1 then [] else replicate count (bs_new ioUnit)),
     blk_ppLPNs = (if ioUnit = 1 then [] else replicate count (replicate ioUnit 0)),
     blk_accessCount = 0, blk_lastAccessed = 0, blk_firstAccessed = 0, blk_eraseCount = 0\<rparr>"
  have "blk_wf b0" using assms by (auto simp: b0_def blk_wf_def ptr_wf_def)
  then obtain b' where b': "blk_erase b0 = Inr b'" "blk_wf b'" "same_shape b0 b'"
    "blk_abs b' = spec_erase (blk_cells b0) (blk_abs b0)"
    using blk_erase_ok by blast
  let ?b = "b'\<lparr>blk_eraseCount := 0, blk_cachedpage := 0\<rparr>"
  have "blk_new i count ioUnit = Inr ?b"
    using assms b'(1) by (auto simp: blk_new_def b0_def Let_def)
  moreover have "blk_wf ?b" using b'(2) by (auto simp: blk_wf_def)
  moreover have "blk_abs ?b = blk_abs b'" "blk_cells ?b = blk_cells b0"
    using b'(3) by (simp_all add: blk_abs_def blk_validSet_def blk_erasedSet_def
        blk_lpn_def blk_cells_def same_shape_def cong: if_cong)
  moreover have "blk_validSet ?b = pg_valid (blk_abs ?b)" "blk_erasedSet ?b = pg_erased (blk_abs ?b)"
    by (simp_all add: blk_abs_def)
  moreover have "pg_lpn (blk_abs b0) = (\<lambda>_. 0)"
    by (simp add: b0_def blk_abs_def blk_lpn_def blk_cells_def fun_eq_iff)
  ultimately show ?thesis
    using b' pg_inv_erase[of "blk_cells b0" "blk_abs b0"]
    by (auto simp: blk_inv_def same_shape_def b0_def spec_defs)
qed

lemma blk_write_one:
  assumes wf: "blk_wf b" and c: "p < blk_pageCount b" and one: "blk_ioUnitInPage b = 1"
    and er: "(p, 0) \<in> blk_erasedSet b" and nx: "blk_pNextWritePageIndex b ! 0 \<le> p"
  shows "\<exists>b'. blk_write b p lpn 0 t = Inr (True, b') \<and> blk_wf b' \<and> same_shape b b'
    \<and> blk_abs b' = spec_write (p, 0) lpn (blk_abs b)
    \<and> blk_eraseCount b' = blk_eraseCount b \<and> blk_lastAccessed b' = t"
proof -
  let ?n = "blk_pageCount b"
  have w: "ptr_wf ?n (blk_pValidBits b)" "ptr_wf ?n (blk_pErasedBits b)" "ptr_wf ?n (blk_pCachedBits b)"
    "length (blk_pLPNs b) = ?n" "length (blk_pNextWritePageIndex b) = 1"
    using wf one by (auto simp: blk_wf_def)
  obtain e where e: "ptr_update (\<lambda>e. bs_reset e p) (blk_pErasedBits b) = Inr e" "ptr_wf ?n e"
    "bs_elems (the e) = bs_elems (the (blk_pErasedBits b)) - {p}"
    using ptr_reset_ok[OF w(2) c] by auto
  obtain v where v: "ptr_update (\<lambda>v. bs_set v p True) (blk_pValidBits b) = Inr v" "ptr_wf ?n v"
    "bs_elems (the v) = insert p (bs_elems (the (blk_pValidBits b)))"
    using ptr_put_ok[OF w(1) c] by auto
  have "p \<in> bs_elems (the (blk_pErasedBits b))" using er one by (auto simp: blk_erasedSet_def)
  then have run: "blk_write b p lpn 0 t = Inr (True, b\<lparr>blk_lastAccessed := t, blk_pErasedBits := e,
      blk_pValidBits := v, blk_pLPNs := (blk_pLPNs b)[p := lpn],
      blk_pNextWritePageIndex := (blk_pNextWritePageIndex b)[0 := p + 1]\<rparr>)"
    using e(1) v(1) w one c nx by (simp add: blk_write_def ptr_test_ok)
  show ?thesis
    unfolding run using e v w wf one c
    by (auto simp: blk_wf_def same_shape_def blk_abs_def spec_defs blk_validSet_def
        blk_erasedSet_def blk_cells_def blk_lpn_def fun_eq_iff nth_list_update)
qed

lemma blk_write_many:
  assumes wf: "blk_wf b" and c: "p < blk_pageCount b" "i < blk_ioUnitInPage b"
    and many: "1 < blk_ioUnitInPage b"
    and er: "(p, i) \<in> blk_erasedSet b" and nx: "blk_pNextWritePageIndex b ! i \<le> p"
  shows "\<exists>b'. blk_write b p lpn i t = Inr (True, b') \<and> blk_wf b' \<and> same_shape b b'
    \<and> blk_abs b' = spec_write (p, i) lpn (blk_abs b)
    \<and> blk_eraseCount b' = blk_eraseCount b \<and> blk_lastAccessed b' = t"
proof -
  let ?n = "blk_pageCount b" and ?u = "blk_ioUnitInPage b"
  have w: "vec_wf ?n ?u (blk_validBits b)" "vec_wf ?n ?u (blk_erasedBits b)"
    "length (blk_ppLPNs b) = ?n" "length (blk_ppLPNs b ! p) = ?u"
    "length (blk_pNextWritePageIndex b) = ?u"
    using wf many c by (auto simp: blk_wf_def)
  note ve = vec_wf_nth[OF w(2) c(1)] and vv = vec_wf_nth[OF w(1) c(1)]
  obtain e where e: "vec_update (\<lambda>e. bs_reset e i) (blk_erasedBits b) p = Inr e" "vec_wf ?n ?u e"
    "\<forall>q < ?n. bs_elems (e ! q) = (if q = p then bs_elems (blk_erasedBits b ! p) - {i} else bs_elems (blk_erasedBits b ! q))"
    using vec_update_ok[OF w(2) c(1)] bs.reset_law[of "blk_erasedBits b ! p" i] ve c by metis
  obtain v where v: "vec_update (\<lambda>v. bs_set v i True) (blk_validBits b) p = Inr v" "vec_wf ?n ?u v"
    "\<forall>q < ?n. bs_elems (v ! q) = (if q = p then insert i (bs_elems (blk_validBits b ! p)) else bs_elems (blk_validBits b ! q))"
    using vec_update_ok[OF w(1) c(1)] bs.put_law[of "blk_validBits b ! p" i True] vv c by (metis (full_types))
  have "i \<in> bs_elems (blk_erasedBits b ! p)" using er many by (auto simp: blk_erasedSet_def)
  moreover have "p < length (blk_erasedBits b)" using w(2) c by (simp add: vec_wf_def)
  ultimately have run: "blk_write b p lpn i t = Inr (True, b\<lparr>blk_lastAccessed := t, blk_erasedBits := e,
      blk_validBits := v, blk_ppLPNs := (blk_ppLPNs b)[p := (blk_ppLPNs b ! p)[i := lpn]],
      blk_pNextWritePageIndex := (blk_pNextWritePageIndex b)[i := p + 1]\<rparr>)"
    using e(1) v(1) w many c nx ve by (simp add: blk_write_def bs.test_law)
  have rows: "\<forall>row \<in> set ((blk_ppLPNs b)[p := (blk_ppLPNs b ! p)[i := lpn]]). length row = ?u"
    using wf many c w(4) set_update_subset_insert[of "blk_ppLPNs b" p]
    by (fastforce simp: blk_wf_def)
  show ?thesis
    unfolding run using e v w wf many c rows
    by (auto simp: blk_wf_def same_shape_def blk_abs_def spec_defs blk_validSet_def
        blk_erasedSet_def blk_cells_def blk_lpn_def fun_eq_iff nth_list_update split: if_splits)
qed

lemma blk_inv_wf: "blk_inv b \<Longrightarrow> blk_wf b"
  by (simp add: blk_inv_def)

lemma blk_inv_next:
  "blk_inv b \<Longrightarrow> (p, i) \<in> blk_cells b \<Longrightarrow> blk_pNextWritePageIndex b ! i \<le> p \<Longrightarrow> (p, i) \<in> blk_erasedSet b"
  by (fastforce simp: blk_inv_def pg_inv_def blk_abs_def blk_cells_def)

lemma blk_inv_disjoint: "blk_inv b \<Longrightarrow> blk_validSet b \<inter> blk_erasedSet b = {}"
  by (simp add: blk_inv_def pg_inv_def blk_abs_def)

lemma blk_inv_step:
  "blk_wf b' \<Longrightarrow> same_shape b b' \<Longrightarrow> pg_inv (blk_cells b) (blk_abs b') \<Longrightarrow> blk_inv b'"
  by (simp add: blk_inv_def same_shape_cells)

text \<open>The check that both modes make first.\<close>

lemma erased_test_ok:
  assumes "blk_wf b" "(p, i) \<in> blk_cells b"
  shows "(if blk_ioUnitInPage b = 1 \<and> i = 0 then ptr_test (blk_pErasedBits b) p
          else if i < blk_ioUnitInPage b then rbind (rnth (blk_erasedBits b) p) (\<lambda>e. bs_test e i)
          else Inl (Panic ''I/O map size mismatch'')) = Inr ((p, i) \<in> blk_erasedSet b)"
  using assms(1)
proof (cases rule: blk_modes)
  case one
  with assms show ?thesis
    by (auto simp: blk_wf_def blk_cells_def blk_erasedSet_def ptr_test_ok)
next
  case many
  with assms vec_wf_nth[of "blk_pageCount b" "blk_ioUnitInPage b" "blk_erasedBits b" p] show ?thesis
    by (auto simp: blk_wf_def blk_cells_def blk_erasedSet_def bs.test_law vec_wf_def)
qed

lemma valid_test_ok:
  assumes "blk_wf b" "(p, i) \<in> blk_cells b"
  shows "(if blk_ioUnitInPage b = 1 \<and> i = 0 then ptr_test (blk_pValidBits b) p
          else if i < blk_ioUnitInPage b then rbind (rnth (blk_validBits b) p) (\<lambda>e. bs_test e i)
          else Inl (Panic ''I/O map size mismatch'')) = Inr ((p, i) \<in> blk_validSet b)"
  using assms(1)
proof (cases rule: blk_modes)
  case one
  with assms show ?thesis
    by (auto simp: blk_wf_def blk_cells_def blk_validSet_def ptr_test_ok)
next
  case many
  with assms vec_wf_nth[of "blk_pageCount b" "blk_ioUnitInPage b" "blk_validBits b" p] show ?thesis
    by (auto simp: blk_wf_def blk_cells_def blk_validSet_def bs.test_law vec_wf_def)
qed

lemma blk_write_ok:
  assumes "blk_inv b" "(p, i) \<in> blk_cells b" "(p, i) \<in> blk_erasedSet b"
    "blk_pNextWritePageIndex b ! i \<le> p"
  shows "\<exists>b'. blk_write b p lpn i t = Inr (True, b') \<and> blk_inv b' \<and> same_shape b b'
    \<and> blk_abs b' = spec_write (p, i) lpn (blk_abs b)
    \<and> blk_eraseCount b' = blk_eraseCount b \<and> blk_lastAccessed b' = t"
proof -
  note wf = blk_inv_wf[OF assms(1)]
  have "\<exists>b'. blk_write b p lpn i t = Inr (True, b') \<and> blk_wf b' \<and> same_shape b b'
    \<and> blk_abs b' = spec_write (p, i) lpn (blk_abs b)
    \<and> blk_eraseCount b' = blk_eraseCount b \<and> blk_lastAccessed b' = t"
    using wf
  proof (cases rule: blk_modes)
    case one
    with assms blk_write_one[OF wf, of p] show ?thesis by (auto simp: blk_cells_def)
  next
    case many
    with assms blk_write_many[OF wf, of p i] show ?thesis by (auto simp: blk_cells_def)
  qed
  moreover have "pg_inv (blk_cells b) (spec_write (p, i) lpn (blk_abs b))"
    by (rule pg_inv_write) (use assms in \<open>auto simp: blk_inv_def blk_abs_def blk_cells_def\<close>)
  ultimately show ?thesis by (metis blk_inv_step)
qed

lemma blk_write_non_erased:
  assumes "blk_wf b" "(p, i) \<in> blk_cells b" "(p, i) \<notin> blk_erasedSet b"
  shows "blk_write b p lpn i t = Inl (Panic ''Write to non erased page'')"
  unfolding blk_write_def erased_test_ok[OF assms(1,2)] using assms(3) by simp

lemma blk_write_not_sequential:
  assumes "blk_wf b" "(p, i) \<in> blk_cells b" "(p, i) \<in> blk_erasedSet b"
    "p < blk_pNextWritePageIndex b ! i"
  shows "blk_write b p lpn i t = Inl (Panic ''Write to block should sequential'')"
  unfolding blk_write_def erased_test_ok[OF assms(1,2)]
  using assms by (auto simp: blk_wf_def blk_cells_def)

lemma blk_read_run:
  assumes "blk_wf b" "(p, i) \<in> blk_cells b"
  shows "blk_read b p i t =
    rbind (ptr_update (\<lambda>c. bs_set c p True) (blk_pCachedBits b)) (\<lambda>c.
      Inr ((p, i) \<in> blk_validSet b, b\<lparr>blk_accessCount := blk_accessCount b + 1,
        blk_lastAccessed := if (p, i) \<in> blk_validSet b then t else blk_lastAccessed b,
        blk_pCachedBits := c\<rparr>))"
proof -
  let ?b = "b\<lparr>blk_accessCount := blk_accessCount b + 1\<rparr>"
  have "blk_wf ?b" "(p, i) \<in> blk_cells ?b" "blk_validSet ?b = blk_validSet b"
    using assms by (auto simp: blk_wf_def blk_cells_def blk_validSet_def)
  from valid_test_ok[OF this(1,2)] this(3) show ?thesis
    unfolding blk_read_def Let_def by (simp only:) simp
qed

lemma blk_read_one:
  assumes "blk_inv b" "(p, i) \<in> blk_cells b" "blk_ioUnitInPage b = 1"
  shows "\<exists>b'. blk_read b p i t = Inr ((p, i) \<in> blk_validSet b, b') \<and> blk_inv b' \<and> same_shape b b'
    \<and> blk_abs b' = blk_abs b \<and> blk_eraseCount b' = blk_eraseCount b
    \<and> blk_lastAccessed b' = (if (p, i) \<in> blk_validSet b then t else blk_lastAccessed b)
    \<and> bs_elems (the (blk_pCachedBits b')) = insert p (bs_elems (the (blk_pCachedBits b)))"
proof -
  note wf = blk_inv_wf[OF assms(1)]
  obtain c where c: "ptr_update (\<lambda>c. bs_set c p True) (blk_pCachedBits b) = Inr c"
    "ptr_wf (blk_pageCount b) c" "bs_elems (the c) = insert p (bs_elems (the (blk_pCachedBits b)))"
    using ptr_put_ok[of "blk_pageCount b" "blk_pCachedBits b" p] wf assms(2,3)
    by (auto simp: blk_wf_def blk_cells_def)
  let ?b = "b\<lparr>blk_accessCount := blk_accessCount b + 1,
    blk_lastAccessed := if (p, i) \<in> blk_validSet b then t else blk_lastAccessed b, blk_pCachedBits := c\<rparr>"
  have "blk_read b p i t = Inr ((p, i) \<in> blk_validSet b, ?b)"
    by (simp add: blk_read_run[OF wf assms(2)] c(1))
  moreover have "blk_wf ?b" "blk_abs ?b = blk_abs b" "blk_cells ?b = blk_cells b"
    using wf assms(3) c(2)
    by (auto simp: blk_wf_def blk_abs_def blk_validSet_def blk_erasedSet_def blk_cells_def blk_lpn_def fun_eq_iff)
  ultimately show ?thesis using assms(1) c(3) by (auto simp: blk_inv_def same_shape_def)
qed

lemma blk_read_many_faults:
  assumes "blk_wf b" "(p, i) \<in> blk_cells b" "1 < blk_ioUnitInPage b"
  shows "blk_read b p i t = Inl NullDeref"
proof -
  have "blk_pCachedBits b = None" using assms by (simp add: blk_wf_def)
  then show ?thesis
    by (simp add: blk_read_run[OF assms(1,2)] ptr_update_def)
qed

lemma blk_invalidate_ok:
  assumes "blk_inv b" "(p, i) \<in> blk_cells b"
  shows "\<exists>b'. blk_invalidate b p i = Inr b' \<and> blk_inv b' \<and> same_shape b b'
    \<and> blk_abs b' = spec_invalidate (p, i) (blk_abs b)
    \<and> blk_eraseCount b' = blk_eraseCount b \<and> blk_lastAccessed b' = blk_lastAccessed b"
proof -
  note wf = blk_inv_wf[OF assms(1)]
  have "\<exists>b'. blk_invalidate b p i = Inr b' \<and> blk_wf b' \<and> same_shape b b'
    \<and> blk_abs b' = spec_invalidate (p, i) (blk_abs b)
    \<and> blk_eraseCount b' = blk_eraseCount b \<and> blk_lastAccessed b' = blk_lastAccessed b"
    using wf
  proof (cases rule: blk_modes)
    case one
    obtain v where v: "ptr_update (\<lambda>v. bs_reset v p) (blk_pValidBits b) = Inr v" "ptr_wf (blk_pageCount b) v"
      "bs_elems (the v) = bs_elems (the (blk_pValidBits b)) - {p}"
      using ptr_reset_ok[of "blk_pageCount b" "blk_pValidBits b" p] wf assms(2) one
      by (auto simp: blk_wf_def blk_cells_def)
    with one wf assms(2) show ?thesis
      by (auto simp: blk_invalidate_def blk_wf_def same_shape_def blk_abs_def spec_defs blk_validSet_def
          blk_erasedSet_def blk_cells_def blk_lpn_def fun_eq_iff)
  next
    case many
    let ?n = "blk_pageCount b" and ?u = "blk_ioUnitInPage b"
    have c: "p < ?n" "i < ?u" using assms(2) by (auto simp: blk_cells_def)
    have w: "vec_wf ?n ?u (blk_validBits b)" using wf many by (auto simp: blk_wf_def)
    obtain v where v: "vec_update (\<lambda>v. bs_reset v i) (blk_validBits b) p = Inr v" "vec_wf ?n ?u v"
      "\<forall>q < ?n. bs_elems (v ! q) = (if q = p then bs_elems (blk_validBits b ! p) - {i} else bs_elems (blk_validBits b ! q))"
      using vec_update_ok[OF w c(1)] bs.reset_law[of "blk_validBits b ! p" i] vec_wf_nth[OF w c(1)] c by metis
    with many wf c show ?thesis
      by (auto simp: blk_invalidate_def blk_wf_def same_shape_def blk_abs_def spec_defs blk_validSet_def
          blk_erasedSet_def blk_cells_def blk_lpn_def fun_eq_iff split: if_splits)
  qed
  moreover have "pg_inv (blk_cells b) (spec_invalidate (p, i) (blk_abs b))"
    by (rule pg_inv_invalidate) (use assms in \<open>simp add: blk_inv_def\<close>)
  ultimately show ?thesis by (metis blk_inv_step)
qed

lemma blk_deCache_one:
  assumes "blk_inv b" "p < blk_pageCount b" "blk_ioUnitInPage b = 1"
  shows "\<exists>b'. blk_deCache b p = Inr b' \<and> blk_inv b' \<and> same_shape b b' \<and> blk_abs b' = blk_abs b
    \<and> blk_eraseCount b' = blk_eraseCount b
    \<and> bs_elems (the (blk_pCachedBits b')) = bs_elems (the (blk_pCachedBits b)) - {p}"
proof -
  note wf = blk_inv_wf[OF assms(1)]
  obtain c where c: "ptr_update (\<lambda>c. bs_reset c p) (blk_pCachedBits b) = Inr c"
    "ptr_wf (blk_pageCount b) c" "bs_elems (the c) = bs_elems (the (blk_pCachedBits b)) - {p}"
    using ptr_reset_ok[of "blk_pageCount b" "blk_pCachedBits b" p] wf assms(2,3) by (auto simp: blk_wf_def)
  let ?b = "b\<lparr>blk_pCachedBits := c\<rparr>"
  have "blk_wf ?b" "blk_abs ?b = blk_abs b" "blk_cells ?b = blk_cells b"
    using wf assms(3) c(2)
    by (auto simp: blk_wf_def blk_abs_def blk_validSet_def blk_erasedSet_def blk_cells_def blk_lpn_def fun_eq_iff)
  with c assms(1) show ?thesis by (auto simp: blk_deCache_def blk_inv_def same_shape_def)
qed

lemma blk_erase_inv:
  assumes "blk_inv b"
  shows "\<exists>b'. blk_erase b = Inr b' \<and> blk_inv b' \<and> same_shape b b'
    \<and> blk_abs b' = spec_erase (blk_cells b) (blk_abs b)
    \<and> blk_eraseCount b' = blk_eraseCount b + 1 \<and> blk_accessCount b' = 0
    \<and> blk_pCachedBits b' = blk_pCachedBits b \<and> blk_lastAccessed b' = blk_lastAccessed b"
  using blk_erase_ok[OF blk_inv_wf[OF assms]] blk_inv_step pg_inv_erase by metis

section \<open>Counts\<close>

lemma rfold_sum_counts:
  "(\<And>v. v \<in> set vs \<Longrightarrow> f v = Inr (g v)) \<Longrightarrow>
   rfold (\<lambda>v n. rbind (f v) (\<lambda>c. Inr (n + c))) vs k = Inr (k + sum_list (map g vs))"
  for k :: nat
  by (induction vs arbitrary: k) (auto simp: add.assoc)

lemma rfold_count_if:
  "(\<And>v. v \<in> set vs \<Longrightarrow> f v = Inr (P v)) \<Longrightarrow>
   rfold (\<lambda>v n. rbind (f v) (\<lambda>a. Inr (if a then n + 1 else n))) vs k = Inr (k + length (filter P vs))"
  for k :: nat
  by (induction vs arbitrary: k) auto

lemma length_filter_index: "length (filter P vs) = card {p. p < length vs \<and> P (vs ! p)}"
  by (simp add: length_filter_conv_card)

lemma sum_list_cards:
  assumes "\<And>p. p < length ss \<Longrightarrow> finite (ss ! p)"
  shows "sum_list (map card ss) = card {(p, i). p < length ss \<and> i \<in> ss ! p}"
proof -
  have "{(p, i). p < length ss \<and> i \<in> ss ! p} = Sigma {..<length ss} (\<lambda>p. ss ! p)" by auto
  then have "card {(p, i). p < length ss \<and> i \<in> ss ! p} = (\<Sum>p \<in> {..<length ss}. card (ss ! p))"
    using assms by simp
  also have "\<dots> = sum_list (map card ss)"
    by (simp add: sum_list_sum_nth atLeast0LessThan)
  finally show ?thesis ..
qed

text \<open>The pages with a cell in a set.\<close>

definition pages_of :: "(nat \<times> nat) set \<Rightarrow> nat set" where
  "pages_of cs = fst ` cs"

lemma blk_cells_one: "blk_ioUnitInPage b = 1 \<Longrightarrow> blk_cells b = (\<lambda>p. (p, 0)) ` {..<blk_pageCount b}"
  by (auto simp: blk_cells_def)

lemma pages_of_column:
  "pages_of ((\<lambda>p. (p, 0)) ` A - ((\<lambda>p. (p, 0)) ` B \<union> (\<lambda>p. (p, 0)) ` C)) = A - (B \<union> C)"
proof -
  have "(\<lambda>p. (p, 0)) ` A - ((\<lambda>p. (p, 0)) ` B \<union> (\<lambda>p. (p, 0)) ` C)
      = (\<lambda>p. (p, 0 :: nat)) ` (A - (B \<union> C))"
    by auto
  then show ?thesis by (simp add: pages_of_def image_image)
qed

lemma blk_valid_count_ok:
  assumes "blk_wf b"
  shows "blk_getValidPageCount b = Inr (card (pages_of (blk_validSet b)))"
  using assms
proof (cases rule: blk_modes)
  case one
  with assms show ?thesis
    by (auto simp: blk_getValidPageCount_def blk_wf_def ptr_wf_def bs.count_law blk_validSet_def
        pages_of_def image_image)
next
  case many
  have w: "vec_wf (blk_pageCount b) (blk_ioUnitInPage b) (blk_validBits b)"
    using assms many by (auto simp: blk_wf_def)
  have "{p. p < blk_pageCount b \<and> bs_elems (blk_validBits b ! p) \<noteq> {}} = pages_of (blk_validSet b)"
    using many by (force simp: pages_of_def blk_validSet_def)
  with many w show ?thesis
    using rfold_count_if[of "blk_validBits b" bs_any "\<lambda>v. bs_elems v \<noteq> {}" 0]
    by (simp add: blk_getValidPageCount_def vec_wf_def bs_any_ok length_filter_index)
qed

lemma blk_valid_count_raw_ok:
  assumes "blk_wf b"
  shows "blk_getValidPageCountRaw b = Inr (card (blk_validSet b))"
  using assms
proof (cases rule: blk_modes)
  case one
  have "card ((\<lambda>p. (p, 0 :: nat)) ` bs_elems (the (blk_pValidBits b))) = card (bs_elems (the (blk_pValidBits b)))"
    by (rule card_image) (auto simp: inj_on_def)
  moreover obtain v where "blk_pValidBits b = Some v" "bs_wf v"
    using assms one by (auto simp: blk_wf_def ptr_wf_def)
  ultimately show ?thesis
    using one by (simp add: blk_getValidPageCountRaw_def bs.count_law blk_validSet_def)
next
  case many
  have w: "vec_wf (blk_pageCount b) (blk_ioUnitInPage b) (blk_validBits b)"
    using assms many by (auto simp: blk_wf_def)
  have "sum_list (map card (map bs_elems (blk_validBits b)))
      = card {(p, i). p < length (map bs_elems (blk_validBits b)) \<and> i \<in> map bs_elems (blk_validBits b) ! p}"
    by (rule sum_list_cards) (use w bs.finite_elems in \<open>auto simp: vec_wf_def\<close>)
  moreover have "{(p, i). p < length (map bs_elems (blk_validBits b)) \<and> i \<in> map bs_elems (blk_validBits b) ! p}
      = blk_validSet b"
    using many w by (auto simp: blk_validSet_def vec_wf_def)
  ultimately show ?thesis
    using many w rfold_sum_counts[of "blk_validBits b" bs_count "\<lambda>v. card (bs_elems v)" 0]
    by (simp add: blk_getValidPageCountRaw_def vec_wf_def bs.count_law comp_def)
qed

text \<open>The bits that are neither valid nor erased.\<close>

lemma union_compl_ok:
  assumes "bs_wf v" "bs_wf e" "bs_dataSize v = n" "bs_dataSize e = n" "0 < n"
  shows "\<exists>c. rbind (bs_union v e) bs_compl = Inr c \<and> bs_wf c \<and> bs_elems c = {..<n} - (bs_elems v \<union> bs_elems e)"
proof -
  obtain u where u: "bs_union v e = Inr u" "bs_wf u" "bs_dataSize u = n"
    "bs_elems u = bs_elems v \<union> bs_elems e"
    using bs.join_law[OF assms(1,2)] assms(3,4) by auto
  with bs.compl_law[OF u(2)] assms(5) show ?thesis by auto
qed

lemma blk_dirty_count_ok:
  assumes wf: "blk_wf b"
  shows "blk_getDirtyPageCount b
    = Inr (card (pages_of (blk_cells b - (blk_validSet b \<union> blk_erasedSet b))))"
  using wf
proof (cases rule: blk_modes)
  case one
  obtain v e where ve: "blk_pValidBits b = Some v" "blk_pErasedBits b = Some e" "bs_wf v" "bs_wf e"
    "bs_dataSize v = blk_pageCount b" "bs_dataSize e = blk_pageCount b"
    using wf one by (auto simp: blk_wf_def ptr_wf_def)
  obtain c where c: "rbind (bs_union v e) bs_compl = Inr c" "bs_wf c"
    "bs_elems c = {..<blk_pageCount b} - (bs_elems v \<union> bs_elems e)"
    using union_compl_ok[OF ve(3-6)] wf by (auto simp: blk_wf_def)
  have "pages_of (blk_cells b - (blk_validSet b \<union> blk_erasedSet b)) = bs_elems c"
    unfolding c(3) blk_validSet_def blk_erasedSet_def blk_cells_one[OF one]
    using one ve(1,2) by (simp add: pages_of_column)
  moreover have "blk_getDirtyPageCount b = rbind (rbind (bs_union v e) bs_compl) bs_count"
    using one ve by (simp add: blk_getDirtyPageCount_def rbind_assoc)
  ultimately show ?thesis using c by (simp add: bs.count_law)
next
  case many
  let ?n = "blk_pageCount b" and ?u = "blk_ioUnitInPage b"
  let ?P = "\<lambda>p. {..<?u} - (bs_elems (blk_validBits b ! p) \<union> bs_elems (blk_erasedBits b ! p)) \<noteq> {}"
  let ?f = "\<lambda>i. rbind (rnth (blk_validBits b) i) (\<lambda>v. rbind (rnth (blk_erasedBits b) i) (\<lambda>e.
     rbind (bs_union v e) (\<lambda>u. rbind (bs_compl u) bs_any)))"
  have w: "vec_wf ?n ?u (blk_validBits b)" "vec_wf ?n ?u (blk_erasedBits b)"
    using wf many by (auto simp: blk_wf_def)
  have f: "?f p = Inr (?P p)" if p: "p < ?n" for p
  proof -
    obtain c where "rbind (bs_union (blk_validBits b ! p) (blk_erasedBits b ! p)) bs_compl = Inr c" "bs_wf c"
      "bs_elems c = {..<?u} - (bs_elems (blk_validBits b ! p) \<union> bs_elems (blk_erasedBits b ! p))"
      using union_compl_ok vec_wf_nth[OF w(1) p] vec_wf_nth[OF w(2) p] many by (metis gr_implies_not0 neq0_conv)
    moreover have "?f p = rbind (rbind (bs_union (blk_validBits b ! p) (blk_erasedBits b ! p)) bs_compl) bs_any"
      using w p by (simp add: vec_wf_def rbind_assoc)
    ultimately show ?thesis by (simp add: bs_any_ok)
  qed
  have "blk_getDirtyPageCount b = Inr (length (filter ?P [0..<?n]))"
    using many f rfold_count_if[of "[0..<?n]" ?f ?P 0]
    by (simp add: blk_getDirtyPageCount_def rbind_assoc)
  moreover have "{p. p < ?n \<and> ?P p} = pages_of (blk_cells b - (blk_validSet b \<union> blk_erasedSet b))"
    using many by (force simp: pages_of_def blk_cells_def blk_validSet_def blk_erasedSet_def)
  ultimately show ?thesis by (simp add: length_filter_index cong: conj_cong)
qed

lemma blk_getPageInfo_ok:
  assumes "blk_wf b" "p < blk_pageCount b" "bs_wf m" "bs_dataSize m = blk_ioUnitInPage b"
  shows "\<exists>a ls m'. blk_getPageInfo b p m = Inr (a, ls, m') \<and> length ls = blk_ioUnitInPage b
    \<and> (\<forall>i < blk_ioUnitInPage b. ls ! i = blk_lpn b (p, i))
    \<and> (1 < blk_ioUnitInPage b \<longrightarrow> bs_elems m' = {i. (p, i) \<in> blk_validSet b})"
  using assms(1)
proof (cases rule: blk_modes)
  case one
  obtain m' where "bs_set_all m = Inr m'" "bs_wf m'" using bs.set_all_law[OF assms(3)] one assms(4) by auto
  with one assms show ?thesis
    by (simp add: blk_getPageInfo_def blk_wf_def blk_lpn_def bs_size_def bs_any_ok)
next
  case many
  have w: "vec_wf (blk_pageCount b) (blk_ioUnitInPage b) (blk_validBits b)"
    using assms many by (auto simp: blk_wf_def)
  with many assms vec_wf_nth[OF w assms(2)] show ?thesis
    by (auto simp: blk_getPageInfo_def blk_wf_def blk_lpn_def bs_size_def bs_any_ok vec_wf_def
        blk_validSet_def)
qed

section \<open>Runs of page operations\<close>

datatype blk_op =
  OpRead nat nat nat          
| OpWrite nat nat nat nat     
| OpInvalidate nat nat
| OpDeCache nat
| OpErase

fun blk_step :: "blk_op \<Rightarrow> block \<Rightarrow> block res" where
  "blk_step (OpRead p i t) b = rbind (blk_read b p i t) (\<lambda>r. Inr (snd r))"
| "blk_step (OpWrite p l i t) b = rbind (blk_write b p l i t) (\<lambda>r. Inr (snd r))"
| "blk_step (OpInvalidate p i) b = blk_invalidate b p i"
| "blk_step (OpDeCache p) b = blk_deCache b p"
| "blk_step OpErase b = blk_erase b"

text \<open>What a flash block promises: reading and cache marks do not change the page states, a write
  needs an erased cell at or after the write pointer of its unit.\<close>

fun spec_step :: "(nat \<times> nat) set \<Rightarrow> blk_op \<Rightarrow> pages \<Rightarrow> pages res" where
  "spec_step cs (OpRead p i t) s = Inr s"
| "spec_step cs (OpWrite p l i t) s =
     (if (p, i) \<notin> pg_erased s then Inl (Panic ''Write to non erased page'')
      else if p < pg_next s i then Inl (Panic ''Write to block should sequential'')
      else Inr (spec_write (p, i) l s))"
| "spec_step cs (OpInvalidate p i) s = Inr (spec_invalidate (p, i) s)"
| "spec_step cs (OpDeCache p) s = Inr s"
| "spec_step cs OpErase s = Inr (spec_erase cs s)"

text \<open>The operations with indices in range; the two that go through the cached bits exist only with
  one I/O unit in a page.\<close>

fun blk_op_ok :: "nat \<Rightarrow> nat \<Rightarrow> blk_op \<Rightarrow> bool" where
  "blk_op_ok n u (OpRead p i t) = (p < n \<and> i < u \<and> u = 1)"
| "blk_op_ok n u (OpWrite p l i t) = (p < n \<and> i < u)"
| "blk_op_ok n u (OpInvalidate p i) = (p < n \<and> i < u)"
| "blk_op_ok n u (OpDeCache p) = (p < n \<and> u = 1)"
| "blk_op_ok n u OpErase = True"

lemma blk_step_refines:
  assumes "blk_inv b" "blk_op_ok (blk_pageCount b) (blk_ioUnitInPage b) op"
  shows "(case blk_step op b of
       Inl f \<Rightarrow> spec_step (blk_cells b) op (blk_abs b) = Inl f
     | Inr b' \<Rightarrow> spec_step (blk_cells b) op (blk_abs b) = Inr (blk_abs b') \<and> blk_inv b' \<and> same_shape b b')"
proof (cases op)
  case (OpRead p i t)
  with assms blk_read_one[OF assms(1), of p i t] show ?thesis by (auto simp: blk_cells_def)
next
  case (OpWrite p l i t)
  with assms have c: "(p, i) \<in> blk_cells b" by (simp add: blk_cells_def)
  have sel: "pg_erased (blk_abs b) = blk_erasedSet b" "pg_next (blk_abs b) i = blk_pNextWritePageIndex b ! i"
    using c by (simp_all add: blk_abs_def blk_cells_def)
  note wf = blk_inv_wf[OF assms(1)]
  consider "(p, i) \<notin> blk_erasedSet b"
    | "(p, i) \<in> blk_erasedSet b" "p < blk_pNextWritePageIndex b ! i"
    | "(p, i) \<in> blk_erasedSet b" "blk_pNextWritePageIndex b ! i \<le> p"
    by linarith
  then show ?thesis
  proof cases
    case 1
    then show ?thesis by (simp add: OpWrite sel blk_write_non_erased[OF wf c])
  next
    case 2
    then show ?thesis by (simp add: OpWrite sel blk_write_not_sequential[OF wf c])
  next
    case 3
    from blk_write_ok[OF assms(1) c 3] obtain b' where
      "blk_write b p l i t = Inr (True, b')" "blk_inv b'" "same_shape b b'"
      "blk_abs b' = spec_write (p, i) l (blk_abs b)" by blast
    with 3 show ?thesis by (simp add: OpWrite sel)
  qed
next
  case (OpInvalidate p i)
  with assms blk_invalidate_ok[OF assms(1), of p i] show ?thesis by (auto simp: blk_cells_def)
next
  case (OpDeCache p)
  with assms blk_deCache_one[OF assms(1), of p] obtain b' where
    "blk_deCache b p = Inr b'" "blk_inv b'" "same_shape b b'" "blk_abs b' = blk_abs b" by auto
  then show ?thesis by (simp add: OpDeCache)
next
  case OpErase
  with blk_erase_inv[OF assms(1)] show ?thesis by auto
qed

text \<open>All operations with indices in range. With several I/O units in a page the two operations that
  go through the cached bits fault on the null pointer.\<close>

fun blk_op_in :: "nat \<Rightarrow> nat \<Rightarrow> blk_op \<Rightarrow> bool" where
  "blk_op_in n u (OpRead p i t) = (p < n \<and> i < u)"
| "blk_op_in n u (OpWrite p l i t) = (p < n \<and> i < u)"
| "blk_op_in n u (OpInvalidate p i) = (p < n \<and> i < u)"
| "blk_op_in n u (OpDeCache p) = (p < n)"
| "blk_op_in n u OpErase = True"

fun op_marks_cache :: "blk_op \<Rightarrow> bool" where
  "op_marks_cache (OpRead p i t) = True"
| "op_marks_cache (OpDeCache p) = True"
| "op_marks_cache _ = False"

definition spec_op :: "nat \<Rightarrow> (nat \<times> nat) set \<Rightarrow> blk_op \<Rightarrow> pages \<Rightarrow> pages res" where
  "spec_op u cs op s = (if u \<noteq> 1 \<and> op_marks_cache op then Inl NullDeref else spec_step cs op s)"

lemma blk_op_ok_in: "blk_op_ok n u op \<longleftrightarrow> blk_op_in n u op \<and> (op_marks_cache op \<longrightarrow> u = 1)"
  by (cases op) auto

lemma spec_op_run:
  "list_all (blk_op_ok n u) ops \<Longrightarrow> rfold (spec_op u cs) ops s = rfold (spec_step cs) ops s"
proof (induction ops arbitrary: s)
  case (Cons op ops)
  then have "spec_op u cs op s = spec_step cs op s" by (auto simp: spec_op_def blk_op_ok_in)
  with Cons show ?case by (cases "spec_step cs op s") auto
qed simp

lemma blk_op_refines:
  assumes "blk_inv b" "blk_op_in (blk_pageCount b) (blk_ioUnitInPage b) op"
  shows "(case blk_step op b of
       Inl f \<Rightarrow> spec_op (blk_ioUnitInPage b) (blk_cells b) op (blk_abs b) = Inl f
     | Inr b' \<Rightarrow> spec_op (blk_ioUnitInPage b) (blk_cells b) op (blk_abs b) = Inr (blk_abs b')
         \<and> blk_inv b' \<and> same_shape b b')"
proof (cases "blk_ioUnitInPage b \<noteq> 1 \<and> op_marks_cache op")
  case True
  have none: "blk_pCachedBits b = None" using blk_inv_wf[OF assms(1)] True by (simp add: blk_wf_def)
  have "blk_step op b = Inl NullDeref"
    using True assms(2) none blk_read_many_faults[OF blk_inv_wf[OF assms(1)]]
    by (cases op) (auto simp: blk_cells_def blk_deCache_def ptr_update_def)
  with True show ?thesis by (simp add: spec_op_def)
next
  case False
  with assms(2) have "blk_op_ok (blk_pageCount b) (blk_ioUnitInPage b) op" by (auto simp: blk_op_ok_in)
  from blk_step_refines[OF assms(1) this] False show ?thesis by (simp only: spec_op_def if_False)
qed

lemma blk_run_refines:
  assumes "blk_inv b" "list_all (blk_op_in (blk_pageCount b) (blk_ioUnitInPage b)) ops"
  shows "(case rfold blk_step ops b of
       Inl f \<Rightarrow> rfold (spec_op (blk_ioUnitInPage b) (blk_cells b)) ops (blk_abs b) = Inl f
     | Inr b' \<Rightarrow> rfold (spec_op (blk_ioUnitInPage b) (blk_cells b)) ops (blk_abs b) = Inr (blk_abs b')
         \<and> blk_inv b' \<and> same_shape b b')"
  using assms
proof (induction ops arbitrary: b)
  case (Cons op ops)
  show ?case
  proof (cases "blk_step op b")
    case (Inl f)
    with blk_op_refines[OF Cons.prems(1), of op] Cons.prems(2) show ?thesis by simp
  next
    case (Inr b')
    with blk_op_refines[OF Cons.prems(1), of op] Cons.prems(2)
    have s: "spec_op (blk_ioUnitInPage b) (blk_cells b) op (blk_abs b) = Inr (blk_abs b')" "blk_inv b'" "same_shape b b'"
      by auto
    have sh: "blk_cells b' = blk_cells b" "blk_pageCount b' = blk_pageCount b"
      "blk_ioUnitInPage b' = blk_ioUnitInPage b"
      using s(3) same_shape_cells[OF s(3)] by (simp_all add: same_shape_def)
    have "list_all (blk_op_in (blk_pageCount b') (blk_ioUnitInPage b')) ops"
      using Cons.prems(2) by (simp add: sh)
    from Cons.IH[OF s(2) this] show ?thesis
      using s(1) same_shape_trans[OF s(3)] by (simp add: Inr sh(1) sh(3) split: sum.splits)
  qed
qed simp

text \<open>Between two erasures the write pointers only grow, and a cell that was written keeps its
  logical page number and stays valid until it is invalidated.\<close>

fun op_touches :: "nat \<times> nat \<Rightarrow> blk_op \<Rightarrow> bool" where
  "op_touches c (OpInvalidate p i) = (c = (p, i))"
| "op_touches c OpErase = True"
| "op_touches c _ = False"

lemma spec_next_grows:
  assumes "rfold (spec_step cs) ops s = Inr s'" "OpErase \<notin> set ops"
  shows "pg_next s i \<le> pg_next s' i"
proof -
  have "spec_step cs op s = Inr s' \<Longrightarrow> op \<noteq> OpErase \<Longrightarrow> pg_next s i \<le> pg_next s' i" for op s s'
    by (cases op) (auto simp: spec_defs split: if_splits)
  then show ?thesis
    using rfold_invariant[OF assms(1), of "\<lambda>t. pg_next s i \<le> pg_next t i"] assms(2)
    by (metis le_refl le_trans)
qed

lemma spec_keeps_data:
  assumes "rfold (spec_step cs) ops s = Inr s'" "\<forall>op \<in> set ops. \<not> op_touches c op"
    "c \<in> pg_valid s" "pg_valid s \<inter> pg_erased s = {}"
  shows "c \<in> pg_valid s' \<and> pg_lpn s' c = pg_lpn s c"
proof -
  let ?I = "\<lambda>t. c \<in> pg_valid t \<and> c \<notin> pg_erased t \<and> pg_lpn t c = pg_lpn s c"
  have "spec_step cs op t = Inr t' \<Longrightarrow> \<not> op_touches c op \<Longrightarrow> ?I t \<Longrightarrow> ?I t'" for op t t'
    by (cases op) (auto simp: spec_defs split: if_splits)
  then have "?I s'"
    using rfold_invariant[OF assms(1), of ?I] assms(2-4) by blast
  then show ?thesis by simp
qed

section \<open>Properties\<close>

lemma blk_run_abs:
  assumes "blk_inv b" "list_all (blk_op_ok (blk_pageCount b) (blk_ioUnitInPage b)) ops"
    "rfold blk_step ops b = Inr b'"
  shows "rfold (spec_step (blk_cells b)) ops (blk_abs b) = Inr (blk_abs b')" "blk_inv b'" "same_shape b b'"
proof -
  have "list_all (blk_op_in (blk_pageCount b) (blk_ioUnitInPage b)) ops"
    using assms(2) by (auto simp: list_all_iff blk_op_ok_in)
  from blk_run_refines[OF assms(1) this] assms(3) spec_op_run[OF assms(2)]
  show "rfold (spec_step (blk_cells b)) ops (blk_abs b) = Inr (blk_abs b')" "blk_inv b'" "same_shape b b'"
    by simp_all
qed

text \<open>C2: a block of the translation layer refines the abstract flash block, with one or with several
  I/O units in a page: any sequence of reads, programs, invalidations, cache marks and erasures on
  a new block, with page and unit indices in range, either ends in the page states of the abstract
  run, or stops with the fault (and at the operation) the abstract run stops with. The abstract run stops at a
  program that is out of order or of a page that is not erased, and, with several I/O units, at
  the first read or cache mark, which goes through the null pointer \<^verbatim>\<open>pCachedBits\<close>. The bit sets, the
  write pointers and the page tables never get out of step.\<close>

theorem block_refines_pages:
  assumes "0 < n" and "0 < u" and "list_all (blk_op_in n u) ops"
  shows "\<exists>b. blk_new i n u = Inr b
    \<and> map_sum id blk_abs (rfold blk_step ops b)
      = rfold (spec_op u ({..<n} \<times> {..<u})) ops
          \<lparr>pg_valid = {}, pg_erased = {..<n} \<times> {..<u}, pg_lpn = \<lambda>_. 0, pg_next = \<lambda>_. 0\<rparr>"
proof -
  obtain b where b: "blk_new i n u = Inr b" "blk_inv b" "blk_pageCount b = n" "blk_ioUnitInPage b = u"
    "blk_abs b = \<lparr>pg_valid = {}, pg_erased = blk_cells b, pg_lpn = \<lambda>_. 0, pg_next = \<lambda>_. 0\<rparr>"
    using blk_new_ok[OF assms(1,2), of i] by blast
  have "blk_cells b = {..<n} \<times> {..<u}" using b by (simp add: blk_cells_def)
  with b blk_run_refines[OF b(2), of ops] assms(3) show ?thesis
    by (auto split: sum.splits)
qed

theorem block_refines_pages_witness:
  "(\<exists>b. blk_new 7 2 1 = Inr b
    \<and> map_sum id blk_abs (rfold blk_step [OpWrite 0 42 0 5, OpInvalidate 0 0, OpWrite 1 43 0 6] b)
      = Inr \<lparr>pg_valid = {(1, 0)}, pg_erased = {..<2} \<times> {..<1} - {(0, 0)} - {(1, 0)},
             pg_lpn = (\<lambda>_. 0)((0, 0) := 42, (1, 0) := 43), pg_next = (\<lambda>_. 0)(0 := 2)\<rparr>)
 \<and> (\<exists>b. blk_new 7 2 2 = Inr b
    \<and> map_sum id blk_abs (rfold blk_step [OpWrite 0 42 1 5, OpRead 0 1 6] b) = Inl NullDeref)"
proof
  show "\<exists>b. blk_new 7 2 1 = Inr b
    \<and> map_sum id blk_abs (rfold blk_step [OpWrite 0 42 0 5, OpInvalidate 0 0, OpWrite 1 43 0 6] b)
      = Inr \<lparr>pg_valid = {(1, 0)}, pg_erased = {..<2} \<times> {..<1} - {(0, 0)} - {(1, 0)},
             pg_lpn = (\<lambda>_. 0)((0, 0) := 42, (1, 0) := 43), pg_next = (\<lambda>_. 0)(0 := 2)\<rparr>"
    using block_refines_pages[of 2 1 "[OpWrite 0 42 0 5, OpInvalidate 0 0, OpWrite 1 43 0 6]" 7]
    by (auto simp: spec_op_def spec_defs numeral_2_eq_2)
  show "\<exists>b. blk_new 7 2 2 = Inr b
    \<and> map_sum id blk_abs (rfold blk_step [OpWrite 0 42 1 5, OpRead 0 1 6] b) = Inl NullDeref"
    using block_refines_pages[of 2 2 "[OpWrite 0 42 1 5, OpRead 0 1 6]" 7]
    by (auto simp: spec_op_def)
qed

lemma blk_example:
  assumes "0 < u"
  obtains b where "blk_new 7 2 u = Inr b" "blk_inv b" "blk_pageCount b = 2" "blk_ioUnitInPage b = u"
    "(0, 0) \<in> blk_cells b" "(0, 0) \<in> blk_erasedSet b" "blk_pNextWritePageIndex b ! 0 = 0"
proof -
  obtain b where b: "blk_new 7 2 u = Inr b" "blk_inv b" "blk_pageCount b = 2" "blk_ioUnitInPage b = u"
    "blk_erasedSet b = blk_cells b"
    "blk_abs b = \<lparr>pg_valid = {}, pg_erased = blk_cells b, pg_lpn = \<lambda>_. 0, pg_next = \<lambda>_. 0\<rparr>"
    using blk_new_ok[OF _ assms, of 2 7] by auto
  have "pg_next (blk_abs b) 0 = blk_pNextWritePageIndex b ! 0"
    using b(4) assms by (simp add: blk_abs_def)
  with b assms that show ?thesis by (simp add: blk_cells_def)
qed

text \<open>C3: program discipline. After a program of a page succeeded, no program of that page or of
  an earlier one (in the same unit) succeeds until the block is erased: it is refused with a
  panic, whatever was done in between, an invalidation of the page included.\<close>

theorem block_no_program_twice:
  assumes "blk_inv b" and "p < blk_pageCount b" and "i < blk_ioUnitInPage b"
    and "blk_write b p l i t = Inr (w, b1)"
    and "rfold blk_step ops b1 = Inr b2"
    and "list_all (blk_op_ok (blk_pageCount b) (blk_ioUnitInPage b)) ops" and "OpErase \<notin> set ops"
    and "q \<le> p"
  shows "\<exists>msg. blk_write b2 q l' i t' = Inl (Panic msg)"
proof -
  have c: "(p, i) \<in> blk_cells b" "(q, i) \<in> blk_cells b" using assms by (auto simp: blk_cells_def)
  note wf = blk_inv_wf[OF assms(1)]
  have er: "(p, i) \<in> blk_erasedSet b" "blk_pNextWritePageIndex b ! i \<le> p"
    using assms(4) blk_write_non_erased[OF wf c(1), of l t] blk_write_not_sequential[OF wf c(1), of l t]
    by (fastforce simp: not_less[symmetric])+
  from blk_write_ok[OF assms(1) c(1) er, of l t] assms(4)
  have b1: "blk_inv b1" "same_shape b b1" "blk_abs b1 = spec_write (p, i) l (blk_abs b)" by auto
  have sh: "blk_pageCount b1 = blk_pageCount b" "blk_ioUnitInPage b1 = blk_ioUnitInPage b"
    using b1(2) by (simp_all add: same_shape_def)
  note run = blk_run_abs[OF b1(1) _ assms(5), unfolded sh, OF assms(6)]
  have "p < pg_next (blk_abs b2) i"
    using spec_next_grows[OF run(1) assms(7), of i] b1(3) by (simp add: spec_defs)
  then have nx: "q < blk_pNextWritePageIndex b2 ! i"
    using assms(8) by (simp add: blk_abs_def split: if_splits)
  have c2: "(q, i) \<in> blk_cells b2"
    using c(2) same_shape_cells[OF b1(2)] same_shape_cells[OF run(3)] by simp
  note wf2 = blk_inv_wf[OF run(2)]
  show ?thesis
    using blk_write_non_erased[OF wf2 c2] blk_write_not_sequential[OF wf2 c2 _ nx] by metis
qed

theorem block_no_program_twice_witness:
  "\<exists>b b1 msg. blk_new 7 2 1 = Inr b \<and> blk_write b 0 42 0 5 = Inr (True, b1)
    \<and> blk_write b1 0 43 0 6 = Inl (Panic msg)"
proof -
  obtain b where b: "blk_new 7 2 1 = Inr b" "blk_inv b" "blk_pageCount b = 2" "blk_ioUnitInPage b = 1"
    "(0, 0) \<in> blk_cells b" "(0, 0) \<in> blk_erasedSet b" "blk_pNextWritePageIndex b ! 0 = 0"
    using blk_example[of 1] by auto
  obtain b1 where b1: "blk_write b 0 42 0 5 = Inr (True, b1)"
    using blk_write_ok[OF b(2,5,6), of 42 5] b(7) by auto
  obtain msg where "blk_write b1 0 43 0 6 = Inl (Panic msg)"
    using block_no_program_twice[OF b(2) _ _ b1, of "[]" b1 0 43 6] b(3,4) by auto
  with b(1) b1 show ?thesis by blast
qed

text \<open>C4: data retention. What a program stored in a cell is what \<^verbatim>\<open>getPageInfo\<close> reports for it, and
  the cell stays valid, through any run of operations that neither erases the block nor
  invalidates the cell.\<close>

theorem block_retains_lpn:
  assumes "blk_inv b" and "p < blk_pageCount b" and "i < blk_ioUnitInPage b"
    and "blk_write b p l i t = Inr (w, b1)"
    and "rfold blk_step ops b1 = Inr b2"
    and "list_all (blk_op_ok (blk_pageCount b) (blk_ioUnitInPage b)) ops"
    and "\<forall>op \<in> set ops. \<not> op_touches (p, i) op"
  shows "\<exists>a ls m. blk_getPageInfo b2 p (bs_new (blk_ioUnitInPage b)) = Inr (a, ls, m) \<and> ls ! i = l
    \<and> (p, i) \<in> blk_validSet b2"
proof -
  have c: "(p, i) \<in> blk_cells b" using assms by (auto simp: blk_cells_def)
  note wf = blk_inv_wf[OF assms(1)]
  have er: "(p, i) \<in> blk_erasedSet b" "blk_pNextWritePageIndex b ! i \<le> p"
    using assms(4) blk_write_non_erased[OF wf c, of l t] blk_write_not_sequential[OF wf c, of l t]
    by (fastforce simp: not_less[symmetric])+
  from blk_write_ok[OF assms(1) c er, of l t] assms(4)
  have b1: "blk_inv b1" "same_shape b b1" "blk_abs b1 = spec_write (p, i) l (blk_abs b)" by auto
  have sh: "blk_pageCount b1 = blk_pageCount b" "blk_ioUnitInPage b1 = blk_ioUnitInPage b"
    using b1(2) by (simp_all add: same_shape_def)
  note run = blk_run_abs[OF b1(1) _ assms(5), unfolded sh, OF assms(6)]
  have "(p, i) \<in> pg_valid (blk_abs b2) \<and> pg_lpn (blk_abs b2) (p, i) = pg_lpn (blk_abs b1) (p, i)"
    by (rule spec_keeps_data[OF run(1) assms(7)])
       (use b1 in \<open>simp_all add: spec_defs blk_inv_def pg_inv_def\<close>)
  moreover have "blk_cells b2 = blk_cells b"
    using same_shape_cells[OF b1(2)] same_shape_cells[OF run(3)] by simp
  moreover have "pg_lpn (blk_abs b1) (p, i) = l" using b1(3) by (simp add: spec_defs)
  moreover have "pg_lpn (blk_abs b2) (p, i) = blk_lpn b2 (p, i)" if "blk_cells b2 = blk_cells b"
    using that c by (simp add: blk_abs_def)
  moreover have "pg_valid (blk_abs b2) = blk_validSet b2" by (simp add: blk_abs_def)
  ultimately have d: "(p, i) \<in> blk_validSet b2" "blk_lpn b2 (p, i) = l" by simp_all
  have sh2: "blk_pageCount b2 = blk_pageCount b" "blk_ioUnitInPage b2 = blk_ioUnitInPage b"
    using run(3) sh by (simp_all add: same_shape_def)
  show ?thesis
    using blk_getPageInfo_ok[OF blk_inv_wf[OF run(2)], of p "bs_new (blk_ioUnitInPage b)"] assms(2,3) d
    by (auto simp: sh2)
qed

theorem block_retains_lpn_witness:
  "\<exists>b b1 a ls m. blk_new 7 2 1 = Inr b \<and> blk_write b 0 42 0 5 = Inr (True, b1)
    \<and> blk_getPageInfo b1 0 (bs_new 1) = Inr (a, ls, m) \<and> ls ! 0 = 42"
proof -
  obtain b where b: "blk_new 7 2 1 = Inr b" "blk_inv b" "blk_pageCount b = 2" "blk_ioUnitInPage b = 1"
    "(0, 0) \<in> blk_cells b" "(0, 0) \<in> blk_erasedSet b" "blk_pNextWritePageIndex b ! 0 = 0"
    using blk_example[of 1] by auto
  obtain b1 where b1: "blk_write b 0 42 0 5 = Inr (True, b1)"
    using blk_write_ok[OF b(2,5,6), of 42 5] b(7) by auto
  obtain a ls m where "blk_getPageInfo b1 0 (bs_new 1) = Inr (a, ls, m)" "ls ! 0 = 42"
    using block_retains_lpn[OF b(2) _ _ b1, of "[]" b1] b(3,4) by auto
  with b(1) b1 show ?thesis by blast
qed

text \<open>The page counts that garbage collection works with: the number of valid cells, the
  number of pages with a valid cell and the number of pages with a cell that is neither valid nor
  erased are what the three counting functions return; with one I/O unit in a page, the valid, the
  dirty and the erased pages add up to the pages of the block.\<close>

lemma block_page_counts:
  assumes "blk_inv b"
  shows "blk_getValidPageCount b = Inr (card (pages_of (blk_validSet b)))
    \<and> blk_getValidPageCountRaw b = Inr (card (blk_validSet b))
    \<and> blk_getDirtyPageCount b = Inr (card (pages_of (blk_cells b - (blk_validSet b \<union> blk_erasedSet b))))
    \<and> (blk_ioUnitInPage b = 1 \<longrightarrow>
        (\<exists>v d. blk_getValidPageCount b = Inr v \<and> blk_getDirtyPageCount b = Inr d
          \<and> v + d + card (blk_erasedSet b) = blk_pageCount b))"
proof -
  note wf = blk_inv_wf[OF assms]
  have "\<exists>d. blk_getDirtyPageCount b = Inr d
      \<and> card (blk_validSet b) + d + card (blk_erasedSet b) = blk_pageCount b"
    if one: "blk_ioUnitInPage b = 1"
  proof -
    obtain v e where ve: "blk_pValidBits b = Some v" "blk_pErasedBits b = Some e" "bs_wf v" "bs_wf e"
      "bs_dataSize v = blk_pageCount b" "bs_dataSize e = blk_pageCount b"
      using wf one by (auto simp: blk_wf_def ptr_wf_def)
    have inj: "inj_on (\<lambda>p. (p, 0 :: nat)) A" for A by (simp add: inj_on_def)
    have cards: "card (blk_validSet b) = card (bs_elems v)" "card (blk_erasedSet b) = card (bs_elems e)"
      using one ve by (simp_all add: blk_validSet_def blk_erasedSet_def card_image[OF inj])
    have "bs_elems v \<inter> bs_elems e = {}"
      using blk_inv_disjoint[OF assms] one ve by (auto simp: blk_validSet_def blk_erasedSet_def)
    with bs.count_partition[OF ve(3,4)] ve wf show ?thesis
      using one cards by (fastforce simp: blk_getDirtyPageCount_def blk_wf_def)
  qed
  moreover have "card (pages_of (blk_validSet b)) = card (blk_validSet b)" if "blk_ioUnitInPage b = 1"
    using blk_valid_count_ok[OF wf] blk_valid_count_raw_ok[OF wf] that
    by (simp add: blk_getValidPageCount_def blk_getValidPageCountRaw_def)
  ultimately show ?thesis
    using blk_valid_count_ok[OF wf] blk_valid_count_raw_ok[OF wf] blk_dirty_count_ok[OF wf]
    by auto
qed

lemma block_page_counts_example:
  "\<exists>b v d. blk_new 7 2 1 = Inr b \<and> blk_getValidPageCount b = Inr v \<and> blk_getDirtyPageCount b = Inr d
    \<and> v + d + card (blk_erasedSet b) = 2"
proof -
  obtain b where b: "blk_new 7 2 1 = Inr b" "blk_inv b" "blk_pageCount b = 2" "blk_ioUnitInPage b = 1"
    using blk_example[of 1] by auto
  with block_page_counts[OF b(2)] show ?thesis by auto
qed

text \<open>Reading a page of a block with more than one I/O unit in a page goes through the null
  pointer \<^verbatim>\<open>pCachedBits\<close>: the constructor allocates it only in the other mode, and \<^verbatim>\<open>read\<close> uses it in
  both.\<close>

lemma block_read_null_deref:
  assumes "blk_inv b" and "1 < blk_ioUnitInPage b" and "p < blk_pageCount b" and "i < blk_ioUnitInPage b"
  shows "blk_read b p i t = Inl NullDeref \<and> blk_deCache b p = Inl NullDeref \<and> blk_isCached b p = Inl NullDeref"
proof -
  have "blk_pCachedBits b = None" using blk_inv_wf[OF assms(1)] assms(2) by (simp add: blk_wf_def)
  then show ?thesis
    using blk_read_many_faults[OF blk_inv_wf[OF assms(1)], of p i t] assms
    by (simp add: blk_cells_def blk_deCache_def ptr_update_def blk_isCached_def ptr_test_def)
qed

lemma block_read_null_deref_example:
  "\<exists>b. blk_new 7 2 4 = Inr b \<and> blk_read b 1 3 9 = Inl NullDeref"
proof -
  obtain b where b: "blk_new 7 2 4 = Inr b" "blk_inv b" "blk_pageCount b = 2" "blk_ioUnitInPage b = 4"
    using blk_example[of 4] by auto
  with block_read_null_deref[OF b(2), of 1 3 9] show ?thesis by auto
qed

text \<open>An erasure resets the page states, the write pointers and the access count and counts
  itself, but the cache marks survive it: a page that was read before the erasure is still
  reported as cached after it, with no data in it.\<close>

lemma block_erase_keeps_cache_marks:
  assumes "blk_inv b" and "blk_ioUnitInPage b = 1" and "p < blk_pageCount b"
  shows "\<exists>r b1 b2. blk_read b p 0 t = Inr (r, b1) \<and> blk_erase b1 = Inr b2 \<and> blk_inv b2
    \<and> blk_validSet b2 = {} \<and> blk_erasedSet b2 = blk_cells b
    \<and> blk_getEraseCount b2 = blk_getEraseCount b + 1 \<and> blk_getBlockAccessCount b2 = 0
    \<and> blk_isPageValid b2 p = Inr False \<and> blk_isCached b2 p = Inr True"
proof -
  have c: "(p, 0) \<in> blk_cells b" using assms by (auto simp: blk_cells_def)
  obtain r b1 where b1: "blk_read b p 0 t = Inr (r, b1)" "blk_inv b1" "same_shape b b1"
    "p \<in> bs_elems (the (blk_pCachedBits b1))" "blk_eraseCount b1 = blk_eraseCount b"
    using blk_read_one[OF assms(1) c assms(2), of t] by blast
  obtain b2 where b2: "blk_erase b1 = Inr b2" "blk_inv b2" "same_shape b1 b2"
    "blk_abs b2 = spec_erase (blk_cells b1) (blk_abs b1)" "blk_eraseCount b2 = blk_eraseCount b1 + 1"
    "blk_accessCount b2 = 0" "blk_pCachedBits b2 = blk_pCachedBits b1"
    using blk_erase_inv[OF b1(2)] by blast
  have sets: "blk_validSet b2 = {}" "blk_erasedSet b2 = blk_cells b"
    using b2(4) same_shape_cells[OF b1(3)] by (simp_all add: blk_abs_def spec_defs)
  have one: "blk_ioUnitInPage b2 = 1" "blk_pageCount b2 = blk_pageCount b"
    using b1(3) b2(3) assms(2) by (simp_all add: same_shape_def)
  have "ptr_wf (blk_pageCount b) (blk_pValidBits b2)" "ptr_wf (blk_pageCount b) (blk_pCachedBits b2)"
    using blk_inv_wf[OF b2(2)] one by (simp_all add: blk_wf_def)
  moreover have "bs_elems (the (blk_pValidBits b2)) = {}" using sets(1) one by (simp add: blk_validSet_def)
  ultimately show ?thesis
    using b1 b2 sets assms(3)
    by (simp add: blk_isPageValid_def blk_isCached_def ptr_test_ok blk_getEraseCount_def
        blk_getBlockAccessCount_def)
qed

lemma block_erase_keeps_cache_marks_witness:
  "\<exists>b r b1 b2. blk_new 7 2 1 = Inr b \<and> blk_read b 1 0 9 = Inr (r, b1) \<and> blk_erase b1 = Inr b2
    \<and> blk_isPageValid b2 1 = Inr False \<and> blk_isCached b2 1 = Inr True"
proof -
  obtain b where b: "blk_new 7 2 1 = Inr b" "blk_inv b" "blk_pageCount b = 2" "blk_ioUnitInPage b = 1"
    using blk_example[of 1] by auto
  with block_erase_keeps_cache_marks[OF b(2), of 1 9] show ?thesis by auto
qed

end
