(* ===== verification/Event_Engine.thy ===== *)
theory Event_Engine
  imports Prelude
begin

text \<open>
  The event engine of the standalone simulator: the class \<^verbatim>\<open>Engine\<close> of sim/engine.hh and
  sim/engine.cc.

  The queue is a list of events with their ticks. An iterator into it is a position: inserting
  before a position and erasing the element another one points to are the two list operations the
  code makes. Ticks, event numbers and counters are natural numbers. An event function is a value
  of the type \<^verbatim>\<open>'h\<close>; what calling it does to the rest of the simulator (the state \<^verbatim>\<open>'w\<close>) and to the
  engine is the parameter \<^verbatim>\<open>call\<close>, of which the theorems assume that it acts on the engine through
  its public operations. The locks protect a tick that only this thread writes; they are left out,
  as is the host time that \<^verbatim>\<open>printStats\<close> prints.
\<close>

section \<open>State\<close>

record 'h engine =
  eng_simTick :: nat
  eng_counter :: nat
  eng_forceStop :: bool
  eng_eventList :: "nat \<rightharpoonup> 'h"
  eng_eventQueue :: "(nat \<times> nat) list"
  eng_eventHandled :: nat

definition eng_new :: "'h engine" where
  "eng_new = \<lparr>eng_simTick = 0, eng_counter = 0, eng_forceStop = False, eng_eventList = Map.empty,
     eng_eventQueue = [], eng_eventHandled = 0\<rparr>"

section \<open>The queue\<close>

text \<open>The variables of the loop of \<^verbatim>\<open>insertEvent\<close>.\<close>

record scan =
  sc_found :: bool
  sc_flag :: bool
  sc_old :: nat
  sc_insert :: nat
  sc_oldTick :: nat

fun scan_loop :: "nat \<Rightarrow> nat \<Rightarrow> nat \<Rightarrow> (nat \<times> nat) list \<Rightarrow> scan \<Rightarrow> scan" where
  "scan_loop eid tick iter [] s = s"
| "scan_loop eid tick iter ((e, t) # q) s =
     (let s1 = (if e = eid then s\<lparr>sc_found := True, sc_old := iter, sc_oldTick := t\<rparr> else s);
          s2 = (if t > tick \<and> \<not> sc_flag s1 then s1\<lparr>sc_insert := iter, sc_flag := True\<rparr> else s1)
      in scan_loop eid tick (iter + 1) q s2)"

definition list_insert :: "nat \<Rightarrow> 'a \<Rightarrow> 'a list \<Rightarrow> 'a list" where
  "list_insert i x xs = take i xs @ x # drop i xs"

definition list_erase :: "nat \<Rightarrow> 'a list \<Rightarrow> 'a list" where
  "list_erase i xs = take i xs @ drop (i + 1) xs"

text \<open>The returned triple is the answer, the value left in \<^verbatim>\<open>*pOldTick\<close> when there was one, and the
  queue. After the insertion the element that \<^verbatim>\<open>old\<close> points to has moved by one position if the
  insertion was before it.\<close>

definition insertEvent :: "nat \<Rightarrow> nat \<Rightarrow> (nat \<times> nat) list \<Rightarrow> bool \<times> nat \<times> (nat \<times> nat) list" where
  "insertEvent eid tick queue =
     (let s = scan_loop eid tick 0 queue
                \<lparr>sc_found = False, sc_flag = False, sc_old = 0, sc_insert = length queue, sc_oldTick = 0\<rparr>
      in if sc_found s \<and> sc_oldTick s = tick then (False, sc_oldTick s, queue)
         else
           let q1 = list_insert (sc_insert s) (eid, tick) queue;
               q2 = (if sc_found s
                     then list_erase (if sc_insert s \<le> sc_old s then sc_old s + 1 else sc_old s) q1
                     else q1)
           in (sc_found s, sc_oldTick s, q2))"

fun removeEvent :: "nat \<Rightarrow> (nat \<times> nat) list \<Rightarrow> bool \<times> (nat \<times> nat) list" where
  "removeEvent eid [] = (False, [])"
| "removeEvent eid ((e, t) # q) =
     (if e = eid then (True, q) else let (r, q') = removeEvent eid q in (r, (e, t) # q'))"

fun isEventExist :: "nat \<Rightarrow> (nat \<times> nat) list \<Rightarrow> nat option" where
  "isEventExist eid [] = None"
| "isEventExist eid ((e, t) # q) = (if e = eid then Some t else isEventExist eid q)"

section \<open>The public operations\<close>

definition getCurrentTick :: "'h engine \<Rightarrow> nat" where
  "getCurrentTick eng = eng_simTick eng"

definition allocateEvent :: "'h \<Rightarrow> 'h engine \<Rightarrow> (nat \<times> 'h engine) res" where
  "allocateEvent func eng =
     (let c = eng_counter eng + 1 in
      if eng_eventList eng c \<noteq> None then Inl (Panic ''Fail to allocate event'')
      else Inr (c, eng\<lparr>eng_counter := c, eng_eventList := (eng_eventList eng)(c \<mapsto> func)\<rparr>))"

definition scheduleEvent :: "nat \<Rightarrow> nat \<Rightarrow> 'h engine \<Rightarrow> 'h engine res" where
  "scheduleEvent eid tick eng =
     (if eng_eventList eng eid = None then Inl (Panic ''Event does not exists'')
      else
        let tick = (if tick < eng_simTick eng then eng_simTick eng else tick);
            (r, old, q) = insertEvent eid tick (eng_eventQueue eng)
        in Inr (eng\<lparr>eng_eventQueue := q\<rparr>))"

definition descheduleEvent :: "nat \<Rightarrow> 'h engine \<Rightarrow> 'h engine res" where
  "descheduleEvent eid eng =
     (if eng_eventList eng eid = None then Inl (Panic ''Event does not exists'')
      else Inr (eng\<lparr>eng_eventQueue := snd (removeEvent eid (eng_eventQueue eng))\<rparr>))"

definition isScheduled :: "nat \<Rightarrow> 'h engine \<Rightarrow> nat option res" where
  "isScheduled eid eng =
     (if eng_eventList eng eid = None then Inl (Panic ''Event does not exists'')
      else Inr (isEventExist eid (eng_eventQueue eng)))"

definition deallocateEvent :: "nat \<Rightarrow> 'h engine \<Rightarrow> 'h engine res" where
  "deallocateEvent eid eng =
     (if eng_eventList eng eid = None then Inl (Panic ''Event does not exists'')
      else Inr (eng\<lparr>eng_eventQueue := snd (removeEvent eid (eng_eventQueue eng)),
                    eng_eventList := (eng_eventList eng)(eid := None)\<rparr>))"

definition doNextEvent ::
  "('h \<Rightarrow> nat \<Rightarrow> 'w \<times> 'h engine \<Rightarrow> ('w \<times> 'h engine) res) \<Rightarrow> 'w \<times> 'h engine \<Rightarrow> (bool \<times> 'w \<times> 'h engine) res"
where
  "doNextEvent call st =
     (let (w, eng) = st in
      if eng_forceStop eng then Inr (False, w, eng)
      else (case eng_eventQueue eng of
          [] \<Rightarrow> Inr (False, w, eng)
        | (e, t) # q \<Rightarrow>
            let eng1 = eng\<lparr>eng_simTick := t, eng_eventQueue := q\<rparr>
            in (case eng_eventList eng e of
                None \<Rightarrow> Inl (Panic ''Event does not exists'')
              | Some f \<Rightarrow> rbind (call f t (w, eng1)) (\<lambda>(w2, eng2).
                  Inr (True, w2, eng2\<lparr>eng_eventHandled := eng_eventHandled eng2 + 1\<rparr>)))))"

definition stopEngine :: "'h engine \<Rightarrow> 'h engine" where
  "stopEngine eng = eng\<lparr>eng_forceStop := True\<rparr>"

definition getStat :: "'h engine \<Rightarrow> nat" where
  "getStat eng = eng_eventHandled eng"

section \<open>The queue operations, functionally\<close>

text \<open>The place of a new entry: behind every entry that is not later.\<close>

definition place :: "nat \<Rightarrow> nat \<Rightarrow> (nat \<times> nat) list \<Rightarrow> (nat \<times> nat) list" where
  "place e t q = takeWhile (\<lambda>x. snd x \<le> t) q @ (e, t) # dropWhile (\<lambda>x. snd x \<le> t) q"

definition others :: "nat \<Rightarrow> (nat \<times> nat) list \<Rightarrow> (nat \<times> nat) list" where
  "others e q = filter (\<lambda>x. fst x \<noteq> e) q"

definition queue_inv :: "(nat \<times> nat) list \<Rightarrow> bool" where
  "queue_inv q \<longleftrightarrow> sorted (map snd q) \<and> distinct (map fst q)"

lemma scan_found: "sc_found (scan_loop e t k q s) \<longleftrightarrow> sc_found s \<or> e \<in> fst ` set q"
  by (induction e t k q s rule: scan_loop.induct) (auto simp: Let_def)

lemma scan_none: "e \<notin> fst ` set q \<Longrightarrow>
  sc_old (scan_loop e t k q s) = sc_old s \<and> sc_oldTick (scan_loop e t k q s) = sc_oldTick s"
  by (induction e t k q s rule: scan_loop.induct) (auto simp: Let_def)

lemma scan_old:
  assumes "distinct (map fst q)" "q = a @ (e, t') # b"
  shows "sc_old (scan_loop e t k q s) = k + length a \<and> sc_oldTick (scan_loop e t k q s) = t'"
  using assms
proof (induction a arbitrary: q k s)
  case Nil
  then have "e \<notin> fst ` set b" by auto
  with Nil scan_none[OF this] show ?case by (simp add: Let_def)
next
  case (Cons x a)
  obtain e1 t1 where x: "x = (e1, t1)" by (cases x)
  with Cons.prems have "distinct (map fst (a @ (e, t') # b))" "e1 \<noteq> e" by auto
  with Cons.IH[OF this(1) refl] Cons.prems x show ?case by (simp add: Let_def)
qed

lemma scan_insert_flag: "sc_flag s \<Longrightarrow> sc_insert (scan_loop e t k q s) = sc_insert s"
  by (induction e t k q s rule: scan_loop.induct) (auto simp: Let_def)

lemma scan_insert: "\<not> sc_flag s \<Longrightarrow>
  sc_insert (scan_loop e t k q s) =
    (if \<forall>x \<in> set q. snd x \<le> t then sc_insert s else k + length (takeWhile (\<lambda>x. snd x \<le> t) q))"
proof (induction e t k q s rule: scan_loop.induct)
  case (2 eid tick iter e t q s)
  show ?case
  proof (cases "t > tick")
    case True
    with 2 show ?thesis by (auto simp: Let_def scan_insert_flag)
  next
    case False
    with 2 show ?thesis by (auto simp: Let_def)
  qed
qed simp

lemma insert_position:
  assumes "\<not> sc_flag s" "sc_insert s = length q"
  shows "sc_insert (scan_loop e t 0 q s) = length (takeWhile (\<lambda>x. snd x \<le> t) q)"
proof (cases "\<forall>x \<in> set q. snd x \<le> t")
  case True
  then have "takeWhile (\<lambda>x. snd x \<le> t) q = q" by (simp add: takeWhile_eq_all_conv)
  then have "length q = length (takeWhile (\<lambda>x. snd x \<le> t) q)" by (rule arg_cong[OF sym])
  moreover have "sc_insert (scan_loop e t 0 q s) = length q" using True assms by (simp add: scan_insert)
  ultimately show ?thesis by (rule trans[rotated])
qed (use assms in \<open>auto simp: scan_insert\<close>)

lemma list_insert_place:
  "list_insert (length (takeWhile (\<lambda>x. snd x \<le> t) q)) (e, t) q = place e t q"
  by (simp add: list_insert_def place_def takeWhile_eq_take[symmetric] dropWhile_eq_drop[symmetric])

lemma erase_middle: "list_erase (length a) (a @ x # b) = a @ b"
  by (simp add: list_erase_def)

lemma place_others:
  "sorted (map snd q) \<Longrightarrow> place e t (others e q) = others e (takeWhile (\<lambda>x. snd x \<le> t) q)
     @ (e, t) # others e (dropWhile (\<lambda>x. snd x \<le> t) q)"
proof (induction q)
  case (Cons x q)
  show ?case
  proof (cases "snd x \<le> t")
    case True
    with Cons show ?thesis by (auto simp: place_def others_def)
  next
    case False
    then have "\<forall>y \<in> set (x # q). \<not> snd y \<le> t" using Cons.prems by auto
    then have "takeWhile (\<lambda>x. snd x \<le> t) (others e (x # q)) = []"
      "dropWhile (\<lambda>x. snd x \<le> t) (others e (x # q)) = others e (x # q)"
      by (auto simp: others_def takeWhile_eq_Nil_iff dropWhile_eq_self_iff
          dest!: hd_in_set[of "filter _ _"])
    with False show ?thesis by (simp add: place_def others_def)
  qed
qed (simp add: place_def others_def)

lemma others_none: "e \<notin> fst ` set q \<Longrightarrow> others e q = q"
  by (auto simp: others_def filter_id_conv)

lemma others_split:
  "e \<notin> fst ` set a \<Longrightarrow> e \<notin> fst ` set b \<Longrightarrow> others e (a @ (e, t) # b) = a @ b"
  using others_none[of e a] others_none[of e b] by (auto simp: others_def)

text \<open>What \<^verbatim>\<open>insertEvent\<close> computes on a well-formed queue.\<close>

lemma insertEvent_eq:
  assumes q: "queue_inv q"
  shows "insertEvent e t q =
    (if (e, t) \<in> set q then (False, t, q)
     else case map_of q e of None \<Rightarrow> (False, 0, place e t q) | Some t' \<Rightarrow> (True, t', place e t (others e q)))"
proof -
  let ?init = "\<lparr>sc_found = False, sc_flag = False, sc_old = 0, sc_insert = length q, sc_oldTick = 0\<rparr>"
  let ?s = "scan_loop e t 0 q ?init"
  let ?tw = "takeWhile (\<lambda>x. snd x \<le> t) q" and ?dw = "dropWhile (\<lambda>x. snd x \<le> t) q"
  have so: "sorted (map snd q)" and di: "distinct (map fst q)" using q by (auto simp: queue_inv_def)
  have ins: "sc_insert ?s = length ?tw" by (rule insert_position) auto
  show ?thesis
  proof (cases "e \<in> fst ` set q")
    case False
    then have "map_of q e = None" "(e, t) \<notin> set q" by (auto simp: map_of_eq_None_iff rev_image_eqI)
    moreover have "\<not> sc_found ?s" "sc_oldTick ?s = 0"
      using False scan_found[of e t 0 q ?init] scan_none[OF False, of t 0 ?init] by simp_all
    ultimately show ?thesis
      by (simp add: insertEvent_def Let_def ins list_insert_place)
  next
    case True
    then obtain t' where t': "(e, t') \<in> set q" by auto
    then obtain a b where ab: "q = a @ (e, t') # b" by (auto dest: split_list)
    have sc: "sc_old ?s = length a" "sc_oldTick ?s = t'" "sc_found ?s"
      using scan_old[OF di ab, of t 0 ?init] True scan_found[of e t 0 q ?init] by auto
    have mo: "map_of q e = Some t'" using t' di by simp
    have eqt: "(e, t) \<in> set q \<longleftrightarrow> t' = t" using mo di by (metis eq_key_imp_eq_value map_of_SomeD option.inject t')
    show ?thesis
    proof (cases "t' = t")
      case True
      with sc eqt show ?thesis by (simp add: insertEvent_def Let_def)
    next
      case False
      have "list_erase (if length ?tw \<le> length a then length a + 1 else length a) (place e t q)
        = others e ?tw @ (e, t) # others e ?dw"
      proof (cases "t' \<le> t")
        case True
        have le: "\<forall>x \<in> set a. snd x \<le> t"
          using so True unfolding ab by (fastforce simp: sorted_append)
        let ?c = "takeWhile (\<lambda>x. snd x \<le> t) b" and ?d = "dropWhile (\<lambda>x. snd x \<le> t) b"
        have tw: "?tw = a @ (e, t') # ?c" and dw: "?dw = ?d"
          using le True unfolding ab by (simp_all add: takeWhile_append dropWhile_append)
        have "distinct (map fst (a @ (e, t') # ?c @ ?d))" using di ab by simp
        then have "others e ?tw = a @ ?c" "others e ?dw = ?dw"
          unfolding tw dw using others_split[where a = a and b = ?c] others_none[of e ?d]
          by (auto simp: image_Un simp del: takeWhile_dropWhile_id)
        moreover have "list_erase (length a) (place e t q) = a @ ?c @ (e, t) # ?d"
          unfolding place_def tw dw using erase_middle[of a] by simp
        ultimately show ?thesis by (simp add: tw dw)
      next
        case False
        let ?c = "takeWhile (\<lambda>x. snd x \<le> t) a" and ?d = "dropWhile (\<lambda>x. snd x \<le> t) a"
        have tw: "?tw = ?c" unfolding ab using False by (induction a) auto
        have dw: "?dw = ?d @ (e, t') # b" unfolding ab using False by (induction a) auto
        have "e \<notin> fst ` set a" "e \<notin> fst ` set b" using di ab by auto
        then have "e \<notin> fst ` set ?c" "e \<notin> fst ` set ?d" "e \<notin> fst ` set b"
          by (auto dest: set_takeWhileD set_dropWhileD)
        then have "others e ?tw = ?c" "others e ?dw = ?d @ b"
          unfolding tw dw using others_split[where a = ?d and b = b] others_none[of e ?c] by auto
        moreover have "length ?c \<le> length a" by (rule length_takeWhile_le)
        moreover have "list_erase (length a + 1) (place e t q) = ?c @ (e, t) # ?d @ b"
        proof -
          have l: "length a + 1 = length (?c @ (e, t) # ?d)"
            using arg_cong[OF takeWhile_dropWhile_id[of "\<lambda>x. snd x \<le> t" a], of length]
            by (simp del: takeWhile_dropWhile_id)
          show ?thesis unfolding place_def tw dw l
            using erase_middle[of "?c @ (e, t) # ?d" "(e, t')" b] by simp
        qed
        ultimately show ?thesis by (simp add: tw dw)
      qed
      with False sc mo eqt show ?thesis
        by (auto simp: insertEvent_def Let_def ins list_insert_place place_others[OF so] split: if_splits)
    qed
  qed
qed

lemma removeEvent_eq: "distinct (map fst q) \<Longrightarrow> removeEvent e q = (e \<in> fst ` set q, others e q)"
  by (induction e q rule: removeEvent.induct) (auto simp: others_def others_none[unfolded others_def])

lemma isEventExist_eq: "isEventExist e q = map_of q e"
  by (induction e q rule: isEventExist.induct) auto

lemma others_inv: "queue_inv q \<Longrightarrow> queue_inv (others e q)"
  by (auto simp: queue_inv_def others_def sorted_filter distinct_map_filter)

lemma map_of_others: "map_of (others e q) = (map_of q)(e := None)"
  by (induction q) (auto simp: others_def fun_eq_iff)

lemma set_place: "set (place e t q) = insert (e, t) (set q)"
  unfolding place_def using arg_cong[OF takeWhile_dropWhile_id[of "\<lambda>x. snd x \<le> t" q], of set]
  by (auto simp del: takeWhile_dropWhile_id)

lemma place_sorted: "sorted (map snd q) \<Longrightarrow> sorted (map snd (place e t q))"
proof (induction q)
  case (Cons x q)
  then show ?case
    by (auto simp: place_def set_place[unfolded place_def] dest: set_takeWhileD set_dropWhileD)
qed (simp add: place_def)

text \<open>A place splits the queue in two.\<close>

lemma place_split:
  obtains a b where "q = a @ b" "place e t q = a @ (e, t) # b"
  by (metis place_def takeWhile_dropWhile_id)

lemma place_distinct:
  assumes "distinct (map fst q)" "e \<notin> fst ` set q"
  shows "distinct (map fst (place e t q))"
proof -
  obtain a b where "q = a @ b" "place e t q = a @ (e, t) # b" by (rule place_split)
  with assms show ?thesis by auto
qed

lemma map_of_place:
  assumes "e \<notin> fst ` set q"
  shows "map_of (place e t q) = (map_of q)(e \<mapsto> t)"
proof -
  obtain a b where ab: "q = a @ b" "place e t q = a @ (e, t) # b" by (rule place_split)
  with assms have "map_of a e = None" by (auto simp: map_of_eq_None_iff)
  then show ?thesis unfolding ab(2) unfolding ab(1) by (auto simp: fun_eq_iff map_add_def split: option.split)
qed

lemma fst_others: "e \<notin> fst ` set (others e q)"
  by (auto simp: others_def)

lemma insertEvent_inv:
  assumes "queue_inv q" "insertEvent e t q = (r, old, q')"
  shows "queue_inv q'" "map_of q' = (map_of q)(e \<mapsto> t)" "others e q' = others e q"
proof -
  have so: "sorted (map snd q)" and di: "distinct (map fst q)" using assms by (auto simp: queue_inv_def)
  consider "(e, t) \<in> set q" "q' = q" | "q' = place e t (others e q)"
    using assms(2) by (auto simp: insertEvent_eq[OF assms(1)] others_none map_of_eq_None_iff
        split: if_splits option.splits)
  then have "queue_inv q' \<and> map_of q' = (map_of q)(e \<mapsto> t) \<and> others e q' = others e q"
  proof cases
    case 1
    with di assms(1) show ?thesis by (auto simp: fun_eq_iff)
  next
    case 2
    obtain a b where ab: "others e q = a @ b" "place e t (others e q) = a @ (e, t) # b" by (rule place_split)
    have "others e (a @ (e, t) # b) = others e (a @ b)" by (simp add: others_def)
    also have "\<dots> = others e q" unfolding ab(1)[symmetric] by (simp add: others_def)
    finally have "others e q' = others e q" using 2 ab by simp
    with 2 others_inv[OF assms(1), of e] fst_others[of e q] show ?thesis
      by (simp add: queue_inv_def place_sorted place_distinct map_of_place map_of_others)
  qed
  then show "queue_inv q'" "map_of q' = (map_of q)(e \<mapsto> t)" "others e q' = others e q" by auto
qed

section \<open>The invariant of the engine\<close>

text \<open>The queue is sorted by tick with one entry for an event at most, nothing in it lies in the
  past, and every event in it is registered; event numbers are handed out in order.\<close>

definition eng_inv :: "'h engine \<Rightarrow> bool" where
  "eng_inv eng \<longleftrightarrow> queue_inv (eng_eventQueue eng)
     \<and> (\<forall>(e, t) \<in> set (eng_eventQueue eng). eng_simTick eng \<le> t \<and> eng_eventList eng e \<noteq> None)
     \<and> (\<forall>e \<in> dom (eng_eventList eng). e \<le> eng_counter eng)"

definition eng_pending :: "'h engine \<Rightarrow> nat \<Rightarrow> nat option" where
  "eng_pending eng e = map_of (eng_eventQueue eng) e"

definition eng_registered :: "'h engine \<Rightarrow> nat set" where
  "eng_registered eng = dom (eng_eventList eng)"

lemma eng_new_inv: "eng_inv eng_new"
  by (simp add: eng_inv_def eng_new_def queue_inv_def)

lemma set_others_subset: "set (others e q) \<subseteq> set q"
  by (auto simp: others_def)

lemma schedule_ok:
  assumes inv: "eng_inv eng" and reg: "e \<in> eng_registered eng"
  shows "\<exists>eng'. scheduleEvent e t eng = Inr eng' \<and> eng_inv eng'
    \<and> eng_pending eng' = (eng_pending eng)(e \<mapsto> max t (eng_simTick eng))
    \<and> eng_simTick eng' = eng_simTick eng \<and> eng_registered eng' = eng_registered eng
    \<and> others e (eng_eventQueue eng') = others e (eng_eventQueue eng)"
proof -
  let ?t = "if t < eng_simTick eng then eng_simTick eng else t"
  obtain r old q where q: "insertEvent e ?t (eng_eventQueue eng) = (r, old, q)" by (metis prod_cases3)
  have qi: "queue_inv (eng_eventQueue eng)" using inv by (simp add: eng_inv_def)
  note i = insertEvent_inv[OF qi q]
  have "scheduleEvent e t eng = Inr (eng\<lparr>eng_eventQueue := q\<rparr>)"
    using reg q by (simp add: scheduleEvent_def eng_registered_def Let_def dom_def)
  moreover have "eng_simTick eng \<le> t' \<and> eng_eventList eng e' \<noteq> None" if "(e', t') \<in> set q" for e' t'
  proof -
    have "map_of q e' = Some t'" using that i(1) by (simp add: queue_inv_def)
    then have "e' = e \<and> t' = ?t \<or> (e', t') \<in> set (eng_eventQueue eng)"
      unfolding i(2) by (auto split: if_splits dest: map_of_SomeD)
    with inv reg show ?thesis by (auto simp: eng_inv_def eng_registered_def dom_def split: if_splits)
  qed
  ultimately show ?thesis
    using i inv by (auto simp: eng_inv_def eng_pending_def eng_registered_def fun_eq_iff max_def)
qed

lemma remove_inv: "eng_inv eng \<Longrightarrow> snd (removeEvent e (eng_eventQueue eng)) = others e (eng_eventQueue eng)"
  by (simp add: eng_inv_def queue_inv_def removeEvent_eq)

lemma others_eng_inv:
  assumes "eng_inv eng" "\<And>e'. e' \<noteq> e \<Longrightarrow> l e' = eng_eventList eng e'" "dom l \<subseteq> dom (eng_eventList eng)"
  shows "eng_inv (eng\<lparr>eng_eventQueue := others e (eng_eventQueue eng), eng_eventList := l\<rparr>)"
proof -
  let ?q = "others e (eng_eventQueue eng)"
  have "queue_inv ?q" using assms(1) by (simp add: eng_inv_def others_inv)
  moreover have "\<forall>(e', t) \<in> set ?q. eng_simTick eng \<le> t \<and> l e' \<noteq> None"
    using assms(1,2) by (auto simp: eng_inv_def others_def)
  moreover have "\<forall>e \<in> dom l. e \<le> eng_counter eng" using assms(1,3) by (auto simp: eng_inv_def)
  ultimately show ?thesis by (simp add: eng_inv_def)
qed

lemma deschedule_ok:
  assumes "eng_inv eng" "e \<in> eng_registered eng"
  shows "\<exists>eng'. descheduleEvent e eng = Inr eng' \<and> eng_inv eng'
    \<and> eng_pending eng' = (eng_pending eng)(e := None)
    \<and> eng_simTick eng' = eng_simTick eng \<and> eng_registered eng' = eng_registered eng"
proof -
  let ?e = "eng\<lparr>eng_eventQueue := others e (eng_eventQueue eng)\<rparr>"
  have "descheduleEvent e eng = Inr ?e"
    using assms by (auto simp: descheduleEvent_def eng_registered_def remove_inv)
  moreover have "eng_inv ?e" using others_eng_inv[OF assms(1), of e "eng_eventList eng"] by simp
  moreover have "eng_pending ?e = (eng_pending eng)(e := None)"
    by (simp add: eng_pending_def fun_eq_iff map_of_others)
  ultimately show ?thesis by (simp add: eng_registered_def)
qed

lemma deallocate_ok:
  assumes "eng_inv eng" "e \<in> eng_registered eng"
  shows "\<exists>eng'. deallocateEvent e eng = Inr eng' \<and> eng_inv eng'
    \<and> eng_pending eng' = (eng_pending eng)(e := None)
    \<and> eng_simTick eng' = eng_simTick eng \<and> eng_registered eng' = eng_registered eng - {e}"
proof -
  let ?e = "eng\<lparr>eng_eventQueue := others e (eng_eventQueue eng),
    eng_eventList := (eng_eventList eng)(e := None)\<rparr>"
  have "deallocateEvent e eng = Inr ?e"
    using assms by (auto simp: deallocateEvent_def eng_registered_def remove_inv)
  moreover have "eng_inv ?e" by (rule others_eng_inv[OF assms(1)]) auto
  moreover have "eng_pending ?e = (eng_pending eng)(e := None)"
    by (simp add: eng_pending_def fun_eq_iff map_of_others)
  ultimately show ?thesis by (simp add: eng_registered_def)
qed

lemma allocate_ok:
  assumes "eng_inv eng"
  shows "\<exists>e eng'. allocateEvent f eng = Inr (e, eng') \<and> eng_inv eng' \<and> e \<notin> eng_registered eng
    \<and> eng_pending eng' = eng_pending eng \<and> eng_simTick eng' = eng_simTick eng
    \<and> eng_registered eng' = insert e (eng_registered eng)"
proof -
  have fresh: "eng_eventList eng (eng_counter eng + 1) = None"
    using assms by (force simp: eng_inv_def dom_def)
  let ?e = "eng\<lparr>eng_counter := eng_counter eng + 1,
    eng_eventList := (eng_eventList eng)(eng_counter eng + 1 \<mapsto> f)\<rparr>"
  have "allocateEvent f eng = Inr (eng_counter eng + 1, ?e)"
    using fresh by (simp add: allocateEvent_def Let_def)
  moreover have "eng_inv ?e" using assms by (force simp: eng_inv_def)
  ultimately show ?thesis
    using fresh by (simp add: eng_registered_def eng_pending_def fun_eq_iff domIff)
qed

section \<open>The contract of the simulator interface\<close>

text \<open>What the components that schedule events (the host interface, the CPU model, the drivers) rely
  on: an event is pending at one tick at most, the last call decides, and no event is pending in
  the past.\<close>

locale event_service =
  fixes now :: "'s \<Rightarrow> nat" and registered :: "'s \<Rightarrow> nat set" and pending :: "'s \<Rightarrow> nat \<Rightarrow> nat option"
    and inv :: "'s \<Rightarrow> bool"
    and allocate :: "'h \<Rightarrow> 's \<Rightarrow> (nat \<times> 's) res" and schedule :: "nat \<Rightarrow> nat \<Rightarrow> 's \<Rightarrow> 's res"
    and deschedule :: "nat \<Rightarrow> 's \<Rightarrow> 's res" and deallocate :: "nat \<Rightarrow> 's \<Rightarrow> 's res"
    and scheduled :: "nat \<Rightarrow> 's \<Rightarrow> nat option res"
  assumes pending_now: "inv s \<Longrightarrow> pending s e = Some t \<Longrightarrow> now s \<le> t \<and> e \<in> registered s"
    and allocate_law: "inv s \<Longrightarrow> \<exists>e s'. allocate f s = Inr (e, s') \<and> inv s' \<and> e \<notin> registered s
      \<and> pending s' = pending s \<and> now s' = now s \<and> registered s' = insert e (registered s)"
    and schedule_law: "inv s \<Longrightarrow> e \<in> registered s \<Longrightarrow> \<exists>s'. schedule e t s = Inr s' \<and> inv s'
      \<and> pending s' = (pending s)(e \<mapsto> max t (now s)) \<and> now s' = now s \<and> registered s' = registered s"
    and deschedule_law: "inv s \<Longrightarrow> e \<in> registered s \<Longrightarrow> \<exists>s'. deschedule e s = Inr s' \<and> inv s'
      \<and> pending s' = (pending s)(e := None) \<and> now s' = now s \<and> registered s' = registered s"
    and deallocate_law: "inv s \<Longrightarrow> e \<in> registered s \<Longrightarrow> \<exists>s'. deallocate e s = Inr s' \<and> inv s'
      \<and> pending s' = (pending s)(e := None) \<and> now s' = now s \<and> registered s' = registered s - {e}"
    and scheduled_law: "inv s \<Longrightarrow> scheduled e s
      = (if e \<in> registered s then Inr (pending s e) else Inl (Panic ''Event does not exists''))"
begin

text \<open>Rescheduling: only the last tick counts.\<close>

lemma last_schedule_counts:
  assumes "inv s" "e \<in> registered s"
  shows "\<exists>s'. rfold (schedule e) (ts @ [t]) s = Inr s' \<and> inv s' \<and> scheduled e s' = Inr (Some (max t (now s)))
    \<and> now s' = now s \<and> registered s' = registered s"
  using assms
proof (induction ts arbitrary: s)
  case Nil
  then obtain s' where "schedule e t s = Inr s'" "inv s'" "pending s' = (pending s)(e \<mapsto> max t (now s))"
    "now s' = now s" "registered s' = registered s"
    using schedule_law by blast
  with Nil show ?case by (simp add: scheduled_law)
next
  case (Cons t1 ts)
  then obtain s1 where s1: "schedule e t1 s = Inr s1" "inv s1" "now s1 = now s" "registered s1 = registered s"
    using schedule_law by blast
  with Cons.IH[of s1] Cons.prems show ?case by auto
qed

lemma schedule_then_deschedule:
  assumes "inv s" "e \<in> registered s"
  shows "\<exists>s'. rbind (schedule e t s) (deschedule e) = Inr s' \<and> inv s' \<and> scheduled e s' = Inr None"
proof -
  obtain s1 where s1: "schedule e t s = Inr s1" "inv s1" "registered s1 = registered s"
    using schedule_law[OF assms] by blast
  then obtain s2 where "deschedule e s1 = Inr s2" "inv s2" "pending s2 = (pending s1)(e := None)"
    "registered s2 = registered s1"
    using deschedule_law[of s1 e] assms by auto
  with s1 assms(2) show ?thesis by (simp add: scheduled_law)
qed

end

interpretation engine: event_service eng_simTick eng_registered eng_pending eng_inv allocateEvent
  scheduleEvent descheduleEvent deallocateEvent isScheduled
proof (unfold_locales, goal_cases)
  case (1 s e t)
  then show ?case by (auto simp: eng_inv_def eng_pending_def eng_registered_def dest!: map_of_SomeD)
next
  case (2 s f)
  then show ?case by (rule allocate_ok)
next
  case (3 s e t)
  then show ?case using schedule_ok by blast
next
  case (4 s e)
  then show ?case by (rule deschedule_ok)
next
  case (5 s e)
  then show ?case by (rule deallocate_ok)
next
  case (6 s e)
  then show ?case
    by (auto simp: isScheduled_def eng_registered_def eng_pending_def isEventExist_eq)
qed

section \<open>Event functions\<close>

text \<open>One call that an event function makes on the engine.\<close>

inductive api_step :: "'h engine \<Rightarrow> 'h engine \<Rightarrow> bool" where
  allocate: "allocateEvent f eng = Inr (e, eng') \<Longrightarrow> api_step eng eng'"
| schedule: "scheduleEvent e t eng = Inr eng' \<Longrightarrow> api_step eng eng'"
| deschedule: "descheduleEvent e eng = Inr eng' \<Longrightarrow> api_step eng eng'"
| deallocate: "deallocateEvent e eng = Inr eng' \<Longrightarrow> api_step eng eng'"
| stop: "api_step eng (stopEngine eng)"

text \<open>The event functions act on the engine through its public operations only (its data members
  are private).\<close>

definition handlers_ok ::
  "('h \<Rightarrow> nat \<Rightarrow> 'w \<times> 'h engine \<Rightarrow> ('w \<times> 'h engine) res) \<Rightarrow> bool" where
  "handlers_ok call \<longleftrightarrow>
     (\<forall>f t w eng w' eng'. call f t (w, eng) = Inr (w', eng') \<longrightarrow> api_step\<^sup>*\<^sup>* eng eng')"

lemma registered_iff: "e \<in> eng_registered eng \<longleftrightarrow> eng_eventList eng e \<noteq> None"
  by (auto simp: eng_registered_def)

lemma api_step_inv:
  "api_step eng eng' \<Longrightarrow> eng_inv eng \<Longrightarrow> eng_inv eng' \<and> eng_simTick eng' = eng_simTick eng"
proof (induction rule: api_step.induct)
  case (allocate f eng e eng')
  with allocate_ok[of eng f] show ?case by auto
next
  case (schedule e t eng eng')
  then have "e \<in> eng_registered eng" by (auto simp: scheduleEvent_def registered_iff split: if_splits)
  with schedule schedule_ok[of eng e t] show ?case by auto
next
  case (deschedule e eng eng')
  then have "e \<in> eng_registered eng" by (auto simp: descheduleEvent_def registered_iff split: if_splits)
  with deschedule deschedule_ok[of eng e] show ?case by auto
next
  case (deallocate e eng eng')
  then have "e \<in> eng_registered eng" by (auto simp: deallocateEvent_def registered_iff split: if_splits)
  with deallocate deallocate_ok[of eng e] show ?case by auto
qed (simp add: stopEngine_def eng_inv_def)

lemma api_steps_inv:
  "api_step\<^sup>*\<^sup>* eng eng' \<Longrightarrow> eng_inv eng \<Longrightarrow> eng_inv eng' \<and> eng_simTick eng' = eng_simTick eng"
  by (induction rule: rtranclp_induct) (auto dest: api_step_inv)

text \<open>Taking the first entry off the queue.\<close>

lemma pop_inv:
  assumes "eng_inv eng" "eng_eventQueue eng = (e, t) # q"
  shows "eng_inv (eng\<lparr>eng_simTick := t, eng_eventQueue := q\<rparr>)" "eng_simTick eng \<le> t"
    "e \<in> eng_registered eng"
  using assms by (auto simp: eng_inv_def queue_inv_def registered_iff)

lemma doNextEvent_cases:
  assumes "handlers_ok call" "eng_inv eng" "\<not> eng_forceStop eng" "eng_eventQueue eng = (e, t) # q"
  obtains (fault) f h where "eng_eventList eng e = Some h"
      "call h t (w, eng\<lparr>eng_simTick := t, eng_eventQueue := q\<rparr>) = Inl f"
      "doNextEvent call (w, eng) = Inl f"
  | (handled) h w' eng' eng'' where "eng_eventList eng e = Some h"
      "call h t (w, eng\<lparr>eng_simTick := t, eng_eventQueue := q\<rparr>) = Inr (w', eng')"
      "eng'' = eng'\<lparr>eng_eventHandled := eng_eventHandled eng' + 1\<rparr>"
      "doNextEvent call (w, eng) = Inr (True, w', eng'')"
      "eng_inv eng''" "eng_simTick eng'' = t" "eng_simTick eng \<le> t"
proof -
  let ?e = "eng\<lparr>eng_simTick := t, eng_eventQueue := q\<rparr>"
  note p = pop_inv[OF assms(2,4)]
  obtain h where h: "eng_eventList eng e = Some h" using p(3) by (auto simp: registered_iff)
  have run: "doNextEvent call (w, eng) = rbind (call h t (w, ?e)) (\<lambda>(w2, eng2).
      Inr (True, w2, eng2\<lparr>eng_eventHandled := eng_eventHandled eng2 + 1\<rparr>))"
    using assms(3,4) h by (simp add: doNextEvent_def Let_def)
  show ?thesis
  proof (cases "call h t (w, ?e)")
    case (Inl f)
    with run h show ?thesis by (intro fault) auto
  next
    case (Inr r)
    obtain w' eng' where r: "r = (w', eng')" by (cases r)
    have "api_step\<^sup>*\<^sup>* ?e eng'" using assms(1) Inr r by (auto simp: handlers_ok_def)
    from api_steps_inv[OF this p(1)] have "eng_inv eng'" "eng_simTick eng' = t" by simp_all
    then have "eng_inv (eng'\<lparr>eng_eventHandled := eng_eventHandled eng' + 1\<rparr>)" by (simp add: eng_inv_def)
    from handled[OF h _ refl _ this] Inr r run p(2) \<open>eng_simTick eng' = t\<close> show ?thesis by simp
  qed
qed

text \<open>A number of calls of \<^verbatim>\<open>doNextEvent\<close>, with the ticks at which events were handled.\<close>

fun eng_run ::
  "nat \<Rightarrow> ('h \<Rightarrow> nat \<Rightarrow> 'w \<times> 'h engine \<Rightarrow> ('w \<times> 'h engine) res) \<Rightarrow> 'w \<times> 'h engine
    \<Rightarrow> (nat list \<times> 'w \<times> 'h engine) res"
where
  "eng_run 0 call st = Inr ([], st)"
| "eng_run (Suc n) call st =
     rbind (doNextEvent call st) (\<lambda>(r, st').
       if r then rbind (eng_run n call st') (\<lambda>(ts, st''). Inr (eng_simTick (snd st') # ts, st''))
       else Inr ([], st'))"

lemma eng_run_inv:
  assumes "handlers_ok call" "eng_inv eng" "eng_run n call (w, eng) = Inr (ts, w', eng')"
  shows "eng_inv eng' \<and> sorted ts \<and> (\<forall>t \<in> set ts. eng_simTick eng \<le> t) \<and> eng_simTick eng \<le> eng_simTick eng'
    \<and> (\<forall>t \<in> set ts. t \<le> eng_simTick eng')"
  using assms(2,3)
proof (induction n arbitrary: eng w ts)
  case (Suc n)
  show ?case
  proof (cases "eng_forceStop eng \<or> eng_eventQueue eng = []")
    case True
    then have "doNextEvent call (w, eng) = Inr (False, w, eng)" by (auto simp: doNextEvent_def)
    with Suc.prems show ?thesis by auto
  next
    case False
    then obtain e t q where q: "eng_eventQueue eng = (e, t) # q" by (cases "eng_eventQueue eng") auto
    from False have "\<not> eng_forceStop eng" by simp
    from assms(1) Suc.prems(1) this q show ?thesis
    proof (cases rule: doNextEvent_cases[where w = w])
      case (fault f h)
      with Suc.prems(2) show ?thesis by simp
    next
      case (handled h w1 eng1 eng2)
      then obtain ts' where ts: "ts = eng_simTick eng2 # ts'" "eng_run n call (w1, eng2) = Inr (ts', w', eng')"
        using Suc.prems(2) by (auto split: prod.splits)
      from Suc.IH[OF handled(5) ts(2)] show ?thesis using handled(6,7) ts(1) by auto
    qed
  qed
qed simp

section \<open>Properties\<close>

text \<open>C5: the engine never goes back in time. With event functions that act through the public
  operations, in any number of steps from a state that satisfies the invariant (the initial one
  does), the ticks at which events are handled never decrease, none is before the current tick,
  the invariant still holds at the end, and the only faults are those of the event functions: no
  step stops because an event in the queue is not registered.\<close>

theorem engine_time_monotone:
  assumes "handlers_ok call" and "eng_inv eng"
  shows "(case eng_run n call (w, eng) of
       Inr (ts, w', eng') \<Rightarrow> eng_inv eng' \<and> sorted (eng_simTick eng # ts @ [eng_simTick eng'])
     | Inl f \<Rightarrow> (\<exists>h t st. call h t st = Inl f))"
proof (cases "eng_run n call (w, eng)")
  case (Inr r)
  then obtain ts w' eng' where r: "r = (ts, w', eng')" by (cases r) auto
  from eng_run_inv[OF assms] Inr r show ?thesis by (auto simp: sorted_append)
next
  case (Inl f)
  have "eng_inv eng \<Longrightarrow> eng_run n call (w, eng) = Inl f \<Longrightarrow> \<exists>h t st. call h t st = Inl f" for eng w
  proof (induction n arbitrary: eng w)
    case (Suc n)
    show ?case
    proof (cases "eng_forceStop eng \<or> eng_eventQueue eng = []")
      case True
      then have "doNextEvent call (w, eng) = Inr (False, w, eng)" by (auto simp: doNextEvent_def)
      with Suc.prems(2) show ?thesis by simp
    next
      case False
      then obtain e t q where q: "eng_eventQueue eng = (e, t) # q" by (cases "eng_eventQueue eng") auto
      from False have "\<not> eng_forceStop eng" by simp
      from assms(1) Suc.prems(1) this q show ?thesis
      proof (cases rule: doNextEvent_cases[where w = w])
        case (fault f' h)
        with Suc.prems(2) have "f' = f" by simp
        with fault show ?thesis by blast
      next
        case (handled h w1 eng1 eng2)
        with Suc.prems(2) have "eng_run n call (w1, eng2) = Inl f"
          by (cases "eng_run n call (w1, eng2)") auto
        from Suc.IH[OF handled(5) this] show ?thesis .
      qed
    qed
  qed simp
  from this[OF assms(2) Inl] show ?thesis using Inl by simp
qed

theorem engine_time_monotone_witness:
  "\<exists>eng. scheduleEvent 1 7 (eng_new\<lparr>eng_counter := 1, eng_eventList := [1 \<mapsto> ''f'']\<rparr>) = Inr eng
    \<and> (case eng_run 3 (\<lambda>h t (w, e). Inr (w + t, e)) (0 :: nat, eng) of
         Inr (ts, w', eng') \<Rightarrow> ts = [7] \<and> w' = 7 \<and> sorted (eng_simTick eng # ts @ [eng_simTick eng'])
       | Inl f \<Rightarrow> False)"
proof -
  let ?eng = "eng_new\<lparr>eng_counter := 1, eng_eventList := [1 \<mapsto> ''f'']\<rparr>"
  let ?call = "\<lambda>(h :: string) (t :: nat) (w, e). (Inr (w + t, e) :: (nat \<times> string engine) res)"
  obtain eng where eng: "scheduleEvent 1 7 ?eng = Inr eng" "eng_inv eng"
    using schedule_ok[of ?eng 1 7] eng_new_inv
    by (auto simp: eng_inv_def eng_new_def queue_inv_def eng_registered_def)
  have "handlers_ok ?call" by (auto simp: handlers_ok_def)
  from engine_time_monotone[OF this eng(2), of 3 0] eng show ?thesis
    by (auto simp: scheduleEvent_def eng_new_def insertEvent_def Let_def list_insert_def doNextEvent_def
        eval_nat_numeral split: sum.splits)
qed

text \<open>C6: scheduling. A registered event becomes pending at the requested tick, or now when that
  lies in the past, behind every entry that is not later and before every later one; its previous
  entry is gone, the other events keep their ticks and their order. Scheduling it again at the
  tick it is already pending at changes nothing.\<close>

theorem schedule_places_event:
  assumes "eng_inv eng" and "e \<in> eng_registered eng"
  shows "\<exists>eng'. scheduleEvent e t eng = Inr eng' \<and> eng_inv eng'
    \<and> isScheduled e eng' = Inr (Some (max t (eng_simTick eng)))
    \<and> (\<forall>d \<in> eng_registered eng - {e}. isScheduled d eng' = isScheduled d eng)
    \<and> others e (eng_eventQueue eng') = others e (eng_eventQueue eng)
    \<and> (if (e, max t (eng_simTick eng)) \<in> set (eng_eventQueue eng) then eng' = eng
       else eng_eventQueue eng' = place e (max t (eng_simTick eng)) (others e (eng_eventQueue eng)))"
proof -
  let ?t = "max t (eng_simTick eng)"
  obtain eng' where eng': "scheduleEvent e t eng = Inr eng'" "eng_inv eng'"
    "eng_pending eng' = (eng_pending eng)(e \<mapsto> ?t)" "eng_registered eng' = eng_registered eng"
    "others e (eng_eventQueue eng') = others e (eng_eventQueue eng)"
    using schedule_ok[OF assms, of t] by blast
  have tt: "(if t < eng_simTick eng then eng_simTick eng else t) = ?t" by auto
  have qi: "queue_inv (eng_eventQueue eng)" using assms(1) by (simp add: eng_inv_def)
  have "eng' = eng\<lparr>eng_eventQueue := snd (snd (insertEvent e ?t (eng_eventQueue eng)))\<rparr>"
    using eng'(1) assms(2)
    unfolding scheduleEvent_def tt Let_def by (auto simp: registered_iff split: prod.splits)
  then have "if (e, ?t) \<in> set (eng_eventQueue eng) then eng' = eng
      else eng_eventQueue eng' = place e ?t (others e (eng_eventQueue eng))"
    by (auto simp: insertEvent_eq[OF qi] others_none map_of_eq_None_iff split: option.splits)
  moreover have "isScheduled e eng' = Inr (Some ?t)"
    using engine.scheduled_law[OF eng'(2), of e] eng' assms(2) by simp
  moreover have "\<forall>d \<in> eng_registered eng - {e}. isScheduled d eng' = isScheduled d eng"
    using engine.scheduled_law[OF eng'(2)] engine.scheduled_law[OF assms(1)] eng' by auto
  ultimately show ?thesis using eng' by blast
qed

theorem schedule_places_event_witness:
  "\<exists>eng. scheduleEvent 1 5 (eng_new\<lparr>eng_counter := 2, eng_eventList := [1 \<mapsto> (), 2 \<mapsto> ()],
      eng_eventQueue := [(1, 3), (2, 5)]\<rparr>) = Inr eng \<and> eng_eventQueue eng = [(2, 5), (1, 5)]"
proof -
  let ?eng = "eng_new\<lparr>eng_counter := 2, eng_eventList := [1 \<mapsto> (), 2 \<mapsto> ()], eng_eventQueue := [(1, 3), (2, 5)]\<rparr>"
  have "eng_inv ?eng" "1 \<in> eng_registered ?eng"
    by (auto simp: eng_inv_def eng_new_def queue_inv_def eng_registered_def split: if_splits)
  from schedule_places_event[OF this, of 5] show ?thesis
    by (auto simp: eng_new_def place_def others_def)
qed

end
