(* ===== verification/Nvme_Queue.thy ===== *)
theory Nvme_Queue
  imports Prelude
begin

text \<open>
  The queue structures of the NVMe host interface (hil/nvme/queue.hh and hil/nvme/queue.cc): the
  entries and their wrappers, the class \<^verbatim>\<open>Queue\<close> and its two subclasses on the controller side;
  and the class \<^verbatim>\<open>Queue\<close> of the simulated driver (sil/nvme/queue.cc), the host side.

  Indices, sizes and entry fields keep their width. The C++ arithmetic on \<^verbatim>\<open>uint16_t\<close> promotes to
  \<^verbatim>\<open>int\<close> and truncates when it is stored; addition, subtraction and the bit operations commute
  with the truncation, so they are the operations of the word type. A queue entry is a record of
  its fields (the union of the source is the same bytes seen as an array). The transfer that an
  operation starts through the DMA interface is part of its result.
\<close>

unbundle bit_operations_syntax

section \<open>Entries\<close>

record SQEntry =
  sqe_opcode :: "8 word"
  sqe_fuse :: "8 word"
  sqe_commandID :: "16 word"
  sqe_namespaceID :: "32 word"
  sqe_reserved1 :: "32 word"
  sqe_reserved2 :: "32 word"
  sqe_metadata :: "64 word"
  sqe_data1 :: "64 word"
  sqe_data2 :: "64 word"
  sqe_dword10 :: "32 word"
  sqe_dword11 :: "32 word"
  sqe_dword12 :: "32 word"
  sqe_dword13 :: "32 word"
  sqe_dword14 :: "32 word"
  sqe_dword15 :: "32 word"

definition SQEntry_new :: SQEntry where
  "SQEntry_new = \<lparr>sqe_opcode = 0, sqe_fuse = 0, sqe_commandID = 0, sqe_namespaceID = 0,
     sqe_reserved1 = 0, sqe_reserved2 = 0, sqe_metadata = 0, sqe_data1 = 0, sqe_data2 = 0,
     sqe_dword10 = 0, sqe_dword11 = 0, sqe_dword12 = 0, sqe_dword13 = 0, sqe_dword14 = 0,
     sqe_dword15 = 0\<rparr>"

record CQEntry =
  cqe_dword0 :: "32 word"
  cqe_reserved :: "32 word"
  cqe_sqHead :: "16 word"
  cqe_sqID :: "16 word"
  cqe_commandID :: "16 word"
  cqe_status :: "16 word"

definition CQEntry_new :: CQEntry where
  "CQEntry_new = \<lparr>cqe_dword0 = 0, cqe_reserved = 0, cqe_sqHead = 0, cqe_sqID = 0,
     cqe_commandID = 0, cqe_status = 0\<rparr>"

record SQEntryWrapper =
  sqw_entry :: SQEntry
  sqw_sqID :: "16 word"
  sqw_cqID :: "16 word"
  sqw_sqHead :: "16 word"
  sqw_sqUID :: "16 word"
  sqw_useSGL :: bool

definition SQEntryWrapper_new ::
  "SQEntry \<Rightarrow> 16 word \<Rightarrow> 16 word \<Rightarrow> 16 word \<Rightarrow> 16 word \<Rightarrow> SQEntryWrapper"
where
  "SQEntryWrapper_new sqdata sqid cqid sqhead squid =
     \<lparr>sqw_entry = sqdata, sqw_sqID = sqid, sqw_cqID = cqid, sqw_sqHead = sqhead,
      sqw_sqUID = squid, sqw_useSGL = (drop_bit 6 (sqe_fuse sqdata) \<noteq> 0)\<rparr>"

record CQEntryWrapper =
  cqw_entry :: CQEntry
  cqw_submitAt :: nat
  cqw_cqID :: "16 word"
  cqw_sqUID :: "16 word"

definition CQEntryWrapper_new :: "SQEntryWrapper \<Rightarrow> CQEntryWrapper" where
  "CQEntryWrapper_new sqew =
     \<lparr>cqw_entry = CQEntry_new\<lparr>cqe_sqHead := sqw_sqHead sqew, cqe_sqID := sqw_sqID sqew,
        cqe_commandID := sqe_commandID (sqw_entry sqew)\<rparr>,
      cqw_submitAt = 0, cqw_cqID = sqw_cqID sqew, cqw_sqUID = sqw_sqUID sqew\<rparr>"

text \<open>The status code type and the status code are C++ \<^verbatim>\<open>int\<close> values.\<close>

definition makeStatus :: "bool \<Rightarrow> bool \<Rightarrow> 32 word \<Rightarrow> 32 word \<Rightarrow> CQEntryWrapper \<Rightarrow> CQEntryWrapper" where
  "makeStatus dnr mre sct sc w =
     (let s0 = push_bit 15 (if dnr then 1 else 0 :: 16 word);
          s1 = s0 OR push_bit 14 (if mre then 1 else 0);
          s2 = s1 OR ucast (push_bit 9 (sct AND 0x07));
          s3 = s2 OR ucast (push_bit 1 (sc AND 0xFF))
      in w\<lparr>cqw_entry := (cqw_entry w)\<lparr>cqe_status := s3\<rparr>\<rparr>)"

section \<open>The controller side\<close>

record nvme_queue =
  q_id :: "16 word"
  q_head :: "16 word"
  q_tail :: "16 word"
  q_size :: "16 word"
  q_stride :: nat
  q_base :: bool     \<comment> \<open>whether the DMA interface has been set\<close>

record cqueue = nvme_queue +
  q_ien :: bool
  q_phase :: bool
  q_interruptVector :: "16 word"

record squeue = nvme_queue +
  q_cqID :: "16 word"
  q_priority :: "8 word"

definition getItemCount :: "('a) nvme_queue_scheme \<Rightarrow> 16 word" where
  "getItemCount q =
     (if q_tail q \<ge> q_head q then q_tail q - q_head q else (q_size q - q_head q) + q_tail q)"

definition setBase :: "nat \<Rightarrow> ('a) nvme_queue_scheme \<Rightarrow> ('a) nvme_queue_scheme" where
  "setBase s q = q\<lparr>q_base := True, q_stride := s\<rparr>"

definition CQueue_new :: "16 word \<Rightarrow> bool \<Rightarrow> 16 word \<Rightarrow> 16 word \<Rightarrow> cqueue" where
  "CQueue_new iv en qid sz = \<lparr>q_id = qid, q_head = 0, q_tail = 0, q_size = sz, q_stride = 0,
     q_base = False, q_ien = en, q_phase = True, q_interruptVector = iv\<rparr>"

definition SQueue_new :: "16 word \<Rightarrow> 8 word \<Rightarrow> 16 word \<Rightarrow> 16 word \<Rightarrow> squeue" where
  "SQueue_new cqid pri qid sz = \<lparr>q_id = qid, q_head = 0, q_tail = 0, q_size = sz, q_stride = 0,
     q_base = False, q_cqID = cqid, q_priority = pri\<rparr>"

text \<open>\<^verbatim>\<open>CQueue::setData\<close> returns the transfer it starts, a byte offset from the base of the queue
  with the entry that is written there, and the queue. The overflow check comes after the
  transfer was started: its panic loses the state.\<close>

definition CQueue_setData :: "CQEntry option \<Rightarrow> cqueue \<Rightarrow> ((nat \<times> CQEntry) option \<times> cqueue) res" where
  "CQueue_setData entry q =
     (case entry of None \<Rightarrow> Inr (None, q)
      | Some e \<Rightarrow>
          if \<not> q_base q then Inl NullDeref
          else
            let st = (cqe_status e AND 0xFFFE) OR (if q_phase q then 1 else 0);
                e' = e\<lparr>cqe_status := st\<rparr>;
                req = (unat (q_tail q) * q_stride q, e');
                q1 = q\<lparr>q_tail := q_tail q + 1\<rparr>;
                q2 = (if q_tail q1 = q_size q1
                      then q1\<lparr>q_tail := 0, q_phase := \<not> q_phase q1\<rparr> else q1)
            in if q_head q2 = q_tail q2 then Inl (Panic ''Completion queue overflow'')
               else Inr (Some req, q2))"

definition CQueue_incHead :: "cqueue \<Rightarrow> 16 word \<times> cqueue" where
  "CQueue_incHead q =
     (let q1 = q\<lparr>q_head := q_head q + 1\<rparr>;
          q2 = (if q_head q1 = q_size q1 then q1\<lparr>q_head := 0\<rparr> else q1)
      in (q_head q2, q2))"

definition CQueue_setHead :: "16 word \<Rightarrow> cqueue \<Rightarrow> cqueue" where
  "CQueue_setHead h q = q\<lparr>q_head := h\<rparr>"

definition SQueue_setTail :: "16 word \<Rightarrow> squeue \<Rightarrow> squeue" where
  "SQueue_setTail t q = q\<lparr>q_tail := t\<rparr>"

text \<open>\<^verbatim>\<open>SQueue::getData\<close> returns the offset it reads from, when it reads.\<close>

definition SQueue_getData :: "squeue \<Rightarrow> (nat option \<times> squeue) res" where
  "SQueue_getData q =
     (if q_head q \<noteq> q_tail q
      then if \<not> q_base q then Inl NullDeref
           else
             let off = unat (q_head q) * q_stride q;
                 q1 = q\<lparr>q_head := q_head q + 1\<rparr>;
                 q2 = (if q_head q1 = q_size q1 then q1\<lparr>q_head := 0\<rparr> else q1)
             in Inr (Some off, q2)
      else Inr (None, q))"

section \<open>The host side\<close>

text \<open>The driver's queue with the ring memory it shares with the device: one element of type
  \<^verbatim>\<open>'e\<close> for a slot of \<^verbatim>\<open>stride\<close> bytes.\<close>

record 'e hqueue =
  hq_memory :: "'e list"
  hq_entries :: "16 word"
  hq_head :: "16 word"
  hq_tail :: "16 word"

definition hq_new :: "'e \<Rightarrow> 16 word \<Rightarrow> 'e hqueue" where
  "hq_new zero e = \<lparr>hq_memory = replicate (unat e) zero, hq_entries = e, hq_head = 0, hq_tail = 0\<rparr>"

definition hq_incrHead :: "'e hqueue \<Rightarrow> 'e hqueue" where
  "hq_incrHead q =
     (let q1 = q\<lparr>hq_head := hq_head q + 1\<rparr>
      in if hq_head q1 = hq_entries q1 then q1\<lparr>hq_head := 0\<rparr> else q1)"

definition hq_incrTail :: "'e hqueue \<Rightarrow> 'e hqueue" where
  "hq_incrTail q =
     (let q1 = q\<lparr>hq_tail := hq_tail q + 1\<rparr>
      in if hq_tail q1 = hq_entries q1 then q1\<lparr>hq_tail := 0\<rparr> else q1)"

definition hq_peekData :: "'e hqueue \<Rightarrow> 'e res" where
  "hq_peekData q = rnth (hq_memory q) (unat (hq_head q))"

definition hq_getData :: "'e hqueue \<Rightarrow> ('e \<times> 'e hqueue) res" where
  "hq_getData q = rbind (hq_peekData q) (\<lambda>e. Inr (e, hq_incrHead q))"

definition hq_setData :: "'e \<Rightarrow> 'e hqueue \<Rightarrow> 'e hqueue res" where
  "hq_setData e q =
     rbind (rupd (hq_memory q) (unat (hq_tail q)) e) (\<lambda>m. Inr (hq_incrTail (q\<lparr>hq_memory := m\<rparr>)))"

section \<open>Ring indices\<close>

text \<open>One step of a 16-bit index around a ring.\<close>

definition ring_next :: "16 word \<Rightarrow> 16 word \<Rightarrow> 16 word" where
  "ring_next n i = (if i + 1 = n then 0 else i + 1)"

lemma unat_lt_16: "unat (w :: 16 word) < 65536"
  using unsigned_less[of w] by simp

lemma unat_plus_one: "i < n \<Longrightarrow> unat (i + 1 :: 16 word) = unat i + 1"
  using unat_lt_16[of n] by (simp add: unat_word_ariths word_less_nat_alt)

lemma ring_next_mod:
  assumes "i < n"
  shows "unat (ring_next n i) = (unat i + 1) mod unat n" "ring_next n i < n"
proof -
  have *: "unat (i + 1) = unat i + 1" by (rule unat_plus_one[OF assms])
  have lt: "unat i < unat n" using assms by (simp add: word_less_nat_alt)
  show "unat (ring_next n i) = (unat i + 1) mod unat n"
  proof (cases "i + 1 = n")
    case True
    then have "unat n = unat i + 1" using * by simp
    with True show ?thesis by (simp add: ring_next_def)
  next
    case False
    then have "unat i + 1 \<noteq> unat n" using * by (metis word_unat_eq_iff)
    with False lt * show ?thesis by (simp add: ring_next_def)
  qed
  moreover have "0 < unat n" using lt by simp
  ultimately show "ring_next n i < n" by (simp add: word_less_nat_alt)
qed

lemma item_count_mod:
  assumes "q_head q < q_size q" "q_tail q < q_size q"
  shows "unat (getItemCount q) = (unat (q_tail q) + unat (q_size q) - unat (q_head q)) mod unat (q_size q)"
proof -
  have lt: "unat (q_head q) < unat (q_size q)" "unat (q_tail q) < unat (q_size q)"
    using assms by (simp_all add: word_less_nat_alt)
  note bound = unat_lt_16[of "q_size q"]
  show ?thesis
  proof (cases "q_head q \<le> q_tail q")
    case True
    then have le: "unat (q_head q) \<le> unat (q_tail q)" by (simp add: word_le_nat_alt)
    then have "unat (q_tail q) + unat (q_size q) - unat (q_head q)
        = (unat (q_tail q) - unat (q_head q)) + unat (q_size q)" by simp
    then have m: "(unat (q_tail q) + unat (q_size q) - unat (q_head q)) mod unat (q_size q)
        = unat (q_tail q) - unat (q_head q)" using lt by (simp only: mod_add_self2) simp
    have "unat (q_tail q - q_head q) = unat (q_tail q) - unat (q_head q)" by (rule unat_sub[OF True])
    with True m show ?thesis by (simp only: getItemCount_def if_True)
  next
    case False
    then have gt: "unat (q_tail q) < unat (q_head q)" by (simp add: word_le_nat_alt not_le)
    have d: "unat (q_size q - q_head q) = unat (q_size q) - unat (q_head q)"
      using assms(1) by (simp add: unat_sub order.strict_implies_order)
    have "unat (q_size q - q_head q + q_tail q)
        = (unat (q_size q - q_head q) + unat (q_tail q)) mod 2 ^ LENGTH(16)"
      by (rule unat_word_ariths(1))
    also have "\<dots> = unat (q_size q) - unat (q_head q) + unat (q_tail q)"
      unfolding d using gt lt bound by simp
    finally have "unat (q_size q - q_head q + q_tail q)
        = unat (q_size q) - unat (q_head q) + unat (q_tail q)" .
    with False gt lt show ?thesis by (simp add: getItemCount_def)
  qed
qed

text \<open>An index that every step moves by one around a ring: all the indices of this theory.\<close>

locale ring_index =
  fixes idx lim :: "'q \<Rightarrow> nat" and step :: "'q \<Rightarrow> 'q"
  assumes step_idx: "idx q < lim q \<Longrightarrow> idx (step q) = (idx q + 1) mod lim q"
    and step_lim: "lim (step q) = lim q"
begin

lemma steps_lim: "lim ((step ^^ n) q) = lim q"
  by (induction n) (simp_all add: step_lim)

lemma steps_idx: "idx q < lim q \<Longrightarrow> idx ((step ^^ n) q) = (idx q + n) mod lim q"
proof (induction n)
  case (Suc n)
  then have "idx ((step ^^ n) q) < lim ((step ^^ n) q)" by (simp add: steps_lim)
  with Suc show ?case by (simp add: step_idx steps_lim mod_Suc_eq)
qed simp

text \<open>After as many steps as the ring has slots the index is back, and not before.\<close>

lemma steps_period:
  assumes "idx q < lim q" "0 < n" "n \<le> lim q"
  shows "idx ((step ^^ n) q) = idx q \<longleftrightarrow> n = lim q"
proof (cases "idx q + n < lim q")
  case True
  with assms show ?thesis by (simp add: steps_idx)
next
  case False
  then have "(idx q + n) mod lim q = (idx q + n - lim q) mod lim q" by (simp add: le_mod_geq)
  also have "\<dots> = idx q + n - lim q" using assms by simp
  finally show ?thesis using assms False by (auto simp: steps_idx)
qed

end

lemma hq_incrHead_eq: "hq_incrHead q = q\<lparr>hq_head := ring_next (hq_entries q) (hq_head q)\<rparr>"
  and hq_incrTail_eq: "hq_incrTail q = q\<lparr>hq_tail := ring_next (hq_entries q) (hq_tail q)\<rparr>"
  and CQueue_incHead_eq: "CQueue_incHead c =
    (ring_next (q_size c) (q_head c), c\<lparr>q_head := ring_next (q_size c) (q_head c)\<rparr>)"
  by (simp_all add: hq_incrHead_def hq_incrTail_def CQueue_incHead_def Let_def ring_next_def)

interpretation hq_head: ring_index "\<lambda>q. unat (hq_head q)" "\<lambda>q. unat (hq_entries q)" hq_incrHead
  by unfold_locales (simp_all add: hq_incrHead_eq ring_next_mod word_less_nat_alt)

interpretation hq_tail: ring_index "\<lambda>q. unat (hq_tail q)" "\<lambda>q. unat (hq_entries q)" hq_incrTail
  by unfold_locales (simp_all add: hq_incrTail_eq ring_next_mod word_less_nat_alt)

interpretation cq_head: ring_index "\<lambda>q. unat (q_head q)" "\<lambda>q. unat (q_size q)" "\<lambda>q. snd (CQueue_incHead q)"
  by unfold_locales (simp_all add: CQueue_incHead_eq ring_next_mod word_less_nat_alt)

section \<open>The queue operations\<close>

text \<open>A queue with both indices inside the ring.\<close>

definition q_ok :: "('a) nvme_queue_scheme \<Rightarrow> bool" where
  "q_ok q \<longleftrightarrow> q_head q < q_size q \<and> q_tail q < q_size q \<and> q_base q"

definition q_count :: "('a) nvme_queue_scheme \<Rightarrow> nat" where
  "q_count q = (unat (q_tail q) + unat (q_size q) - unat (q_head q)) mod unat (q_size q)"

lemma q_count_less: "q_ok q \<Longrightarrow> q_count q < unat (q_size q)"
  by (simp add: q_ok_def q_count_def word_less_nat_alt)

lemma mod_distance:
  fixes h t n :: nat
  assumes "h < n" "t < n"
  shows "(t + n - h) mod n = (if h \<le> t then t - h else t + n - h)"
proof (cases "h \<le> t")
  case True
  then have "t + n - h = (t - h) + n" by simp
  then have "(t + n - h) mod n = t - h" using assms by (simp only: mod_add_self2) simp
  with True show ?thesis by simp
qed (use assms in simp)

lemma q_count_zero: "q_ok q \<Longrightarrow> q_count q = 0 \<longleftrightarrow> q_head q = q_tail q"
  by (auto simp: q_ok_def q_count_def word_less_nat_alt word_unat_eq_iff mod_distance)

lemma getItemCount_ok: "q_ok q \<Longrightarrow> unat (getItemCount q) = q_count q"
  by (simp add: q_ok_def q_count_def item_count_mod)

lemma q_count_tail:
  fixes h t n :: nat
  assumes "h < n" "t < n"
  shows "((t + 1) mod n + n - h) mod n = ((t + n - h) mod n + 1) mod n"
proof -
  have "((t + 1) mod n + n - h) mod n = ((t + 1) mod n + (n - h)) mod n" using assms by simp
  also have "\<dots> = (t + 1 + (n - h)) mod n" by (simp add: mod_add_left_eq)
  also have "\<dots> = (t + n - h + 1) mod n" using assms by simp
  finally show ?thesis by (simp add: mod_Suc_eq)
qed

lemma q_count_head:
  fixes h t n :: nat
  assumes "h < n" "t < n" "h \<noteq> t"
  shows "(t + n - (h + 1) mod n) mod n + 1 = (t + n - h) mod n"
proof (cases "h + 1 = n")
  case True
  with assms show ?thesis by (simp add: mod_distance)
next
  case False
  then have "(h + 1) mod n = h + 1" "h + 1 < n" using assms by auto
  with assms show ?thesis by (simp add: mod_distance) arith
qed

section \<open>Properties\<close>

text \<open>C7: posting a completion. With the indices inside the ring, \<^verbatim>\<open>setData\<close> stops with the
  overflow panic exactly when one free slot is left (the ring never becomes full, since a full
  ring would look empty). Otherwise it writes the entry to the slot at the tail, with the phase
  tag in bit 0 of the status and the other bits as they were, the item count grows by one, and
  the phase is inverted exactly when the tail wraps to slot 0.\<close>

theorem setData_posts_or_overflows:
  assumes "q_ok q"
  shows "(if q_count q + 1 = unat (q_size q)
       then CQueue_setData (Some e) q = Inl (Panic ''Completion queue overflow'')
       else \<exists>q' e'. CQueue_setData (Some e) q = Inr (Some (unat (q_tail q) * q_stride q, e'), q')
         \<and> q_ok q' \<and> unat (getItemCount q') = q_count q + 1
         \<and> (\<forall>k. bit (cqe_status e') k = (if k = 0 then q_phase q else bit (cqe_status e) k))
         \<and> e' = e\<lparr>cqe_status := cqe_status e'\<rparr>
         \<and> q_head q' = q_head q \<and> q_size q' = q_size q
         \<and> (q_phase q' \<noteq> q_phase q \<longleftrightarrow> q_tail q' = 0))"
proof -
  let ?st = "(cqe_status e AND 0xFFFE) OR (if q_phase q then 1 else 0)"
  let ?t = "ring_next (q_size q) (q_tail q)"
  let ?q = "q\<lparr>q_tail := ?t, q_phase := (if q_tail q + 1 = q_size q then \<not> q_phase q else q_phase q)\<rparr>"
  have ok: "q_head q < q_size q" "q_tail q < q_size q" "q_base q" using assms by (simp_all add: q_ok_def)
  note rn = ring_next_mod[OF ok(2)]
  have lt: "unat (q_head q) < unat (q_size q)" "unat (q_tail q) < unat (q_size q)"
    using ok by (simp_all add: word_less_nat_alt)
  have run: "CQueue_setData (Some e) q =
      (if q_head q = ?t then Inl (Panic ''Completion queue overflow'')
       else Inr (Some (unat (q_tail q) * q_stride q, e\<lparr>cqe_status := ?st\<rparr>), ?q))"
    using ok(3) by (simp add: CQueue_setData_def Let_def ring_next_def)
  have okq: "q_ok ?q" using ok rn(2) by (simp add: q_ok_def)
  have cnt: "q_count ?q = (q_count q + 1) mod unat (q_size q)"
    using q_count_tail[OF lt] rn(1) by (simp add: q_count_def)
  have full: "q_head q = ?t \<longleftrightarrow> q_count q + 1 = unat (q_size q)"
  proof -
    have "q_head q = ?t \<longleftrightarrow> q_count ?q = 0" using q_count_zero[OF okq] by simp
    also have "\<dots> \<longleftrightarrow> q_count q + 1 = unat (q_size q)"
      using cnt q_count_less[OF assms] by (auto simp: mod_Suc)
    finally show ?thesis .
  qed
  have bits: "bit ?st k = (if k = 0 then q_phase q else bit (cqe_status e) k)" for k
  proof -
    have m: "(0xFFFE :: 16 word) = NOT 1" by simp
    have "k < 16" if "bit (cqe_status e) k" using that bit_imp_le_length by force
    then show ?thesis unfolding m by (auto simp: bit_simps)
  qed
  have wrap: "?t = 0 \<longleftrightarrow> q_tail q + 1 = q_size q"
  proof -
    have "q_tail q + 1 \<noteq> 0" using unat_plus_one[OF ok(2)] by (metis Suc_eq_plus1 nat.distinct(1) unat_0)
    then show ?thesis by (simp add: ring_next_def)
  qed
  show ?thesis
  proof (cases "q_count q + 1 = unat (q_size q)")
    case True
    with run full show ?thesis by simp
  next
    case False
    then have "q_count ?q = q_count q + 1" using cnt q_count_less[OF assms] by simp
    with False run full okq getItemCount_ok[OF okq] bits wrap show ?thesis
      by (simp add: CQEntry.splits)
  qed
qed

theorem setData_posts_or_overflows_witness:
  "\<exists>q' e'. CQueue_setData (Some CQEntry_new) (setBase 16 (CQueue_new 1 True 1 2)\<lparr>q_tail := 1, q_head := 1\<rparr>)
      = Inr (Some (16, e'), q') \<and> q_tail q' = 0 \<and> q_phase q' = False
    \<and> CQueue_setData (Some CQEntry_new) q' = Inl (Panic ''Completion queue overflow'')"
proof -
  let ?q = "setBase 16 (CQueue_new 1 True 1 2)\<lparr>q_tail := 1, q_head := 1\<rparr>"
  have "q_ok ?q" by (simp add: q_ok_def setBase_def CQueue_new_def)
  from setData_posts_or_overflows[OF this, of CQEntry_new] show ?thesis
    by (simp add: setBase_def CQueue_new_def q_count_def CQueue_setData_def)
qed

text \<open>The queue after a fetch.\<close>

lemma SQueue_getData_ok:
  assumes "q_ok q" "0 < q_count q"
  shows "SQueue_getData q = Inr (Some (unat (q_head q) * q_stride q), q\<lparr>q_head := ring_next (q_size q) (q_head q)\<rparr>)"
    "q_ok (q\<lparr>q_head := ring_next (q_size q) (q_head q)\<rparr>)"
    "q_count (q\<lparr>q_head := ring_next (q_size q) (q_head q)\<rparr>) + 1 = q_count q"
proof -
  have ok: "q_head q < q_size q" "q_tail q < q_size q" "q_base q" using assms by (simp_all add: q_ok_def)
  note rn = ring_next_mod[OF ok(1)]
  have ne: "q_head q \<noteq> q_tail q" using assms q_count_zero[OF assms(1)] by simp
  show "SQueue_getData q = Inr (Some (unat (q_head q) * q_stride q), q\<lparr>q_head := ring_next (q_size q) (q_head q)\<rparr>)"
    using ok(3) ne by (simp add: SQueue_getData_def Let_def ring_next_def)
  show "q_ok (q\<lparr>q_head := ring_next (q_size q) (q_head q)\<rparr>)" using ok rn(2) by (simp add: q_ok_def)
  show "q_count (q\<lparr>q_head := ring_next (q_size q) (q_head q)\<rparr>) + 1 = q_count q"
    unfolding q_count_def using ok ne q_count_head[of "unat (q_head q)" "unat (q_size q)" "unat (q_tail q)"] rn(1)
    by (simp add: word_less_nat_alt word_unat_eq_iff)
qed

lemma SQueue_getData_empty: "q_ok q \<Longrightarrow> q_count q = 0 \<Longrightarrow> SQueue_getData q = Inr (None, q)"
  by (simp add: q_count_zero SQueue_getData_def)

fun getData_times :: "nat \<Rightarrow> squeue \<Rightarrow> (nat option list \<times> squeue) res" where
  "getData_times 0 q = Inr ([], q)"
| "getData_times (Suc n) q = rbind (SQueue_getData q) (\<lambda>(o1, q1).
     rbind (getData_times n q1) (\<lambda>(os, q2). Inr (o1 # os, q2)))"

lemma getData_times_ok:
  "q_ok q \<Longrightarrow> n \<le> q_count q \<Longrightarrow>
   \<exists>q'. getData_times n q
      = Inr (map (\<lambda>i. Some (((unat (q_head q) + i) mod unat (q_size q)) * q_stride q)) [0..<n], q')
     \<and> q_ok q' \<and> q_count q' + n = q_count q"
proof (induction n arbitrary: q)
  case (Suc n)
  let ?q = "q\<lparr>q_head := ring_next (q_size q) (q_head q)\<rparr>"
  have pos: "0 < q_count q" using Suc.prems(2) by simp
  note g = SQueue_getData_ok[OF Suc.prems(1) pos]
  have n: "n \<le> q_count ?q" using g(3) Suc.prems(2) by simp
  have lt: "q_head q < q_size q" using Suc.prems(1) by (simp add: q_ok_def)
  from Suc.IH[OF g(2) n] obtain q' where q': "getData_times n ?q
      = Inr (map (\<lambda>i. Some (((unat (q_head ?q) + i) mod unat (q_size ?q)) * q_stride ?q)) [0..<n], q')"
    "q_ok q'" "q_count q' + n = q_count ?q" by blast
  have "(unat (q_head ?q) + i) mod unat (q_size q) = (unat (q_head q) + Suc i) mod unat (q_size q)" for i
    using ring_next_mod(1)[OF lt] by (simp add: mod_add_left_eq)
  then have "map (\<lambda>i. Some (((unat (q_head ?q) + i) mod unat (q_size ?q)) * q_stride ?q)) [0..<n]
      = map (\<lambda>i. Some (((unat (q_head q) + i) mod unat (q_size q)) * q_stride q)) (map Suc [0..<n])"
    by (simp add: comp_def)
  moreover have "[0..<Suc n] = 0 # map Suc [0..<n]" by (simp add: map_Suc_upt upt_conv_Cons del: upt_Suc)
  moreover have "unat (q_head q) mod unat (q_size q) = unat (q_head q)" using lt by (simp add: word_less_nat_alt)
  ultimately show ?case using g(1,3) q' by (simp del: upt_Suc)
qed simp

text \<open>C8: draining a submission queue. As many calls of \<^verbatim>\<open>getData\<close> as there are items read the slots
  from the head on, each once, in ring order, and leave the queue empty; one more call reads
  nothing.\<close>

theorem getData_drains_queue:
  assumes "q_ok q"
  shows "\<exists>q'. getData_times (unat (getItemCount q)) q
      = Inr (map (\<lambda>i. Some (((unat (q_head q) + i) mod unat (q_size q)) * q_stride q))
              [0..<unat (getItemCount q)], q')
    \<and> getItemCount q' = 0 \<and> SQueue_getData q' = Inr (None, q')"
proof -
  obtain q' where q': "getData_times (q_count q) q
      = Inr (map (\<lambda>i. Some (((unat (q_head q) + i) mod unat (q_size q)) * q_stride q)) [0..<q_count q], q')"
    "q_ok q'" "q_count q' = 0"
    using getData_times_ok[OF assms, of "q_count q"] by auto
  then have "getItemCount q' = 0" using getItemCount_ok[OF q'(2)] by (simp add: word_unat_eq_iff)
  with q' SQueue_getData_empty[OF q'(2,3)] show ?thesis by (simp add: getItemCount_ok[OF assms])
qed

theorem getData_drains_queue_witness:
  "\<exists>q'. getData_times 2 (setBase 64 (SQueue_new 1 0 1 4)\<lparr>q_head := 3, q_tail := 1\<rparr>) = Inr ([Some 192, Some 0], q')
    \<and> getItemCount q' = 0"
proof -
  let ?q = "setBase 64 (SQueue_new 1 0 1 4)\<lparr>q_head := 3, q_tail := 1\<rparr>"
  have "q_ok ?q" by (simp add: q_ok_def setBase_def SQueue_new_def)
  moreover have "unat (getItemCount ?q) = 2" by (simp add: getItemCount_def setBase_def SQueue_new_def word_le_nat_alt)
  ultimately show ?thesis
    using getData_drains_queue[of ?q] by (auto simp: setBase_def SQueue_new_def upt_rec)
qed

text \<open>The status field. What \<^verbatim>\<open>makeStatus\<close> packs is what the reader of the entry unpacks: the
  status code in bits 1 to 8, the status code type in bits 9 to 11, the more and the do-not-retry
  flags in bits 14 and 15, the phase tag and the reserved bits clear; no other field of the entry
  changes.\<close>

lemma makeStatus_fields:
  "let w' = makeStatus dnr mre sct sc w; s = cqe_status (cqw_entry w') in
     drop_bit 1 s AND 0xFF = ucast sc AND 0xFF
   \<and> drop_bit 9 s AND 0x07 = ucast sct AND 0x07
   \<and> bit s 14 = mre \<and> bit s 15 = dnr \<and> \<not> bit s 0 \<and> \<not> bit s 12 \<and> \<not> bit s 13
   \<and> w' = w\<lparr>cqw_entry := (cqw_entry w)\<lparr>cqe_status := s\<rparr>\<rparr>"
proof -
  have m: "(0xFF :: 'a::len word) = mask 8" "(0x07 :: 'a word) = mask 3"
    by (simp_all add: mask_eq_exp_minus_1)
  let ?s = "push_bit 15 (if dnr then 1 else 0 :: 16 word) OR push_bit 14 (if mre then 1 else 0)
     OR ucast (push_bit 9 (sct AND mask 3)) OR ucast (push_bit 1 (sc AND mask 8))"
  have st: "cqe_status (cqw_entry (makeStatus dnr mre sct sc w)) = ?s"
    by (simp add: makeStatus_def Let_def m or.assoc)
  have p1: "bit (push_bit n (if b then 1 else 0 :: 16 word)) k \<longleftrightarrow> k = n \<and> b" if "n < 16" for n k b
    using that by (cases b) (auto simp: bit_simps)
  have p2: "bit (ucast (push_bit n (x AND mask l)) :: 16 word) k \<longleftrightarrow> n \<le> k \<and> k < n + l \<and> bit x (k - n)"
    if "n + l \<le> 16" for n l k and x :: "32 word"
    using that by (auto simp: bit_simps)
  have b1: "bit (push_bit 15 (if dnr then 1 else 0 :: 16 word)) k \<longleftrightarrow> k = 15 \<and> dnr" for k
    by (rule p1) simp
  have b2: "bit (push_bit 14 (if mre then 1 else 0 :: 16 word)) k \<longleftrightarrow> k = 14 \<and> mre" for k
    by (rule p1) simp
  have b3: "bit (ucast (push_bit 9 (sct AND mask 3)) :: 16 word) k \<longleftrightarrow> 9 \<le> k \<and> k < 12 \<and> bit sct (k - 9)" for k
    using p2[of 9 3 sct k] by simp
  have b4: "bit (ucast (push_bit 1 (sc AND mask 8)) :: 16 word) k \<longleftrightarrow> 1 \<le> k \<and> k < 9 \<and> bit sc (k - 1)" for k
    using p2[of 1 8 sc k] by (simp del: push_bit_of_Suc_0 push_bit_Suc)
  have bits: "bit ?s k \<longleftrightarrow> k < 16 \<and> (k = 15 \<and> dnr \<or> k = 14 \<and> mre
     \<or> 9 \<le> k \<and> k < 12 \<and> bit sct (k - 9) \<or> 1 \<le> k \<and> k < 9 \<and> bit sc (k - 1))" for k
    unfolding bit_or_iff b1 b2 b3 b4 by auto
  have sc: "drop_bit 1 ?s AND mask 8 = ucast sc AND mask 8"
  proof (rule bit_word_eqI)
    fix k assume "k < LENGTH(16)"
    then show "bit (drop_bit 1 ?s AND mask 8) k = bit (ucast sc AND mask 8 :: 16 word) k"
      unfolding bit_and_iff bit_drop_bit_eq comp_def bits by (auto simp: bit_simps)
  qed
  have sct: "drop_bit 9 ?s AND mask 3 = ucast sct AND mask 3"
  proof (rule bit_word_eqI)
    fix k assume "k < LENGTH(16)"
    then show "bit (drop_bit 9 ?s AND mask 3) k = bit (ucast sct AND mask 3 :: 16 word) k"
      unfolding bit_and_iff bit_drop_bit_eq comp_def bits by (auto simp: bit_simps)
  qed
  have flags: "bit ?s 14 = mre" "bit ?s 15 = dnr" "\<not> bit ?s 0" "\<not> bit ?s 12" "\<not> bit ?s 13"
    unfolding bits by simp_all
  have upd: "makeStatus dnr mre sct sc w
      = w\<lparr>cqw_entry := (cqw_entry w)\<lparr>cqe_status := cqe_status (cqw_entry (makeStatus dnr mre sct sc w))\<rparr>\<rparr>"
    by (simp add: makeStatus_def Let_def)
  show ?thesis
    unfolding Let_def m st using sc sct flags upd unfolding st by (intro conjI)
qed

end
