(* ===== verification/Nvme_Driver.thy ===== *)
theory Nvme_Driver
  imports Nvme_Queue
begin

text \<open>
  The simulated NVMe driver of the standalone simulator (sil/nvme/nvme.cc): submission of commands,
  the completion interrupt, and the protocol the driver speaks with a completion queue of the
  controller.

  The memory of a queue is shared with the device: the ring of the host queue is what the
  completion queue's transfers write. A response handler is called through the parameter
  \<^verbatim>\<open>call\<close>; what it does to the driver is up to it, and the calls that an interrupt makes are part
  of its result. The register writes to the controller are recorded in the order they are made.
  The loop of the interrupt handler runs as long as entries arrive; it is modelled with fuel, and
  running out of fuel is the value \<^verbatim>\<open>None\<close>.
\<close>

section \<open>State\<close>

record 'c command_entry =
  ce_iv :: "16 word"
  ce_opcode :: "16 word"
  ce_cid :: "16 word"
  ce_context :: 'c

datatype doorbell = SQTail "16 word" "16 word" | CQHead "16 word" "16 word"

record 'c driver =
  drv_adminCommandID :: "16 word"
  drv_ioCommandID :: "16 word"
  drv_phase :: bool
  drv_adminSQ :: "SQEntry hqueue"
  drv_adminCQ :: "CQEntry hqueue"
  drv_ioSQ :: "SQEntry hqueue option"
  drv_ioCQ :: "CQEntry hqueue option"
  drv_pendingCommandList :: "'c command_entry list"
  drv_doorbells :: "doorbell list"

section \<open>Submission\<close>

definition increaseCommandID :: "16 word \<Rightarrow> 16 word" where
  "increaseCommandID i = (let j = i + 1 in if j > 32767 then 1 else j)"

definition submitCommand :: "16 word \<Rightarrow> SQEntry \<Rightarrow> 'c \<Rightarrow> 'c driver \<Rightarrow> 'c driver res" where
  "submitCommand iv cmd context drv =
     rbind (if iv = 0
            then let cid = increaseCommandID (drv_adminCommandID drv)
                 in Inr (cid, drv_adminSQ drv, drv\<lparr>drv_adminCommandID := cid\<rparr>)
            else if iv = 1
            then (case drv_ioSQ drv of
                None \<Rightarrow> Inl (Panic ''I/O Submission Queue is not initialized'')
              | Some q \<Rightarrow>
                  let cid = increaseCommandID (drv_ioCommandID drv)
                  in Inr (cid, q, drv\<lparr>drv_ioCommandID := cid\<rparr>))
            else Inl (Panic ''I/O Submission Queue is not initialized''))
       (\<lambda>(cid, q, drv).
         rbind (hq_setData (cmd\<lparr>sqe_commandID := cid\<rparr>) q) (\<lambda>q1.
           let tail = hq_tail q1;
               e = \<lparr>ce_iv = iv, ce_opcode = ucast (sqe_opcode cmd), ce_cid = cid, ce_context = context\<rparr>;
               q2 = hq_incrHead q1;
               drv = drv\<lparr>drv_pendingCommandList := drv_pendingCommandList drv @ [e],
                         drv_doorbells := drv_doorbells drv @ [SQTail iv tail]\<rparr>
           in Inr (if iv = 0 then drv\<lparr>drv_adminSQ := q2\<rparr> else drv\<lparr>drv_ioSQ := Some q2\<rparr>)))"

section \<open>The completion interrupt\<close>

definition drv_cq :: "16 word \<Rightarrow> 'c driver \<Rightarrow> CQEntry hqueue res" where
  "drv_cq iv drv =
     (if iv = 0 then Inr (drv_adminCQ drv)
      else if iv = 1 \<and> drv_ioCQ drv \<noteq> None then rderef (drv_ioCQ drv)
      else Inl (Panic ''I/O Completion Queue is not initialized''))"

definition drv_put_cq :: "16 word \<Rightarrow> CQEntry hqueue \<Rightarrow> 'c driver \<Rightarrow> 'c driver" where
  "drv_put_cq iv q drv = (if iv = 0 then drv\<lparr>drv_adminCQ := q\<rparr> else drv\<lparr>drv_ioCQ := Some q\<rparr>)"

text \<open>The search in the list of pending commands: the position of the first match.\<close>

fun find_pending :: "16 word \<Rightarrow> 16 word \<Rightarrow> 'c command_entry list \<Rightarrow> nat \<Rightarrow> nat option" where
  "find_pending iv cid [] i = None"
| "find_pending iv cid (e # es) i =
     (if ce_iv e = iv \<and> ce_cid e = cid then Some i else find_pending iv cid es (i + 1))"

type_synonym 'c response = "'c \<times> 16 word \<times> 32 word"

type_synonym 'c handler = "'c response \<Rightarrow> 'c driver \<Rightarrow> 'c driver res"

text \<open>What the loop does with an entry that carries the expected tag.\<close>

definition complete_entry ::
  "'c handler \<Rightarrow> 16 word \<Rightarrow> CQEntry \<Rightarrow> 'c driver \<Rightarrow> ('c response \<times> 'c driver) res"
where
  "complete_entry call iv e drv =
     rbind (drv_cq iv drv) (\<lambda>q.
       let drv = drv_put_cq iv (hq_incrTail q) drv in
       (case find_pending iv (cqe_commandID e) (drv_pendingCommandList drv) 0 of
          None \<Rightarrow> Inl (Panic ''Invalid interrupt'')
        | Some i \<Rightarrow>
            let r = (ce_context (drv_pendingCommandList drv ! i), drop_bit 1 (cqe_status e), cqe_dword0 e)
            in rbind (call r drv) (\<lambda>drv.
               let drv = drv\<lparr>drv_pendingCommandList :=
                     take i (drv_pendingCommandList drv) @ drop (i + 1) (drv_pendingCommandList drv)\<rparr>
               in rbind (drv_cq iv drv) (\<lambda>q.
                 let q = hq_incrHead q;
                     drv = drv_put_cq iv q drv
                 in Inr (r, if hq_head q = 0 then drv\<lparr>drv_phase := \<not> drv_phase drv\<rparr> else drv)))))"

fun poll_loop ::
  "nat \<Rightarrow> 'c handler \<Rightarrow> 16 word \<Rightarrow> nat \<Rightarrow> 'c driver \<Rightarrow> ('c response list \<times> 'c driver) res option"
where
  "poll_loop 0 call iv count drv = None"
| "poll_loop (Suc fuel) call iv count drv =
     (case rbind (drv_cq iv drv) (\<lambda>q. rbind (hq_peekData q) (\<lambda>e. Inr (q, e))) of
        Inl f \<Rightarrow> Some (Inl f)
      | Inr (q, e) \<Rightarrow>
          if bit (cqe_status e) 0 = drv_phase drv
          then (case complete_entry call iv e drv of
              Inl f \<Rightarrow> Some (Inl f)
            | Inr (r, drv') \<Rightarrow>
                map_option (\<lambda>m. rbind m (\<lambda>(rs, drv''). Inr (r # rs, drv'')))
                  (poll_loop fuel call iv (count + 1) drv'))
          else Some (Inr ([], if count > 0
                 then drv\<lparr>drv_doorbells := drv_doorbells drv @ [CQHead iv (hq_head q)]\<rparr>
                 else drv)))"

definition updateInterrupt ::
  "nat \<Rightarrow> 'c handler \<Rightarrow> 16 word \<Rightarrow> bool \<Rightarrow> 'c driver \<Rightarrow> ('c response list \<times> 'c driver) res option"
where
  "updateInterrupt fuel call iv post drv =
     (if post
      then (case drv_cq iv drv of Inl f \<Rightarrow> Some (Inl f) | Inr q \<Rightarrow> poll_loop fuel call iv 0 drv)
      else Some (Inr ([], drv)))"

section \<open>The device on the other side of the ring\<close>

text \<open>The controller posts an entry: the transfer that \<^verbatim>\<open>setData\<close> starts writes the slot of the ring
  memory at its offset (16 bytes a slot), and the head doorbell sets the controller's head.\<close>

definition device_post :: "CQEntry \<Rightarrow> cqueue \<times> CQEntry hqueue \<Rightarrow> (cqueue \<times> CQEntry hqueue) res" where
  "device_post e s =
     rbind (CQueue_setData (Some e) (fst s)) (\<lambda>(req, dev).
       case req of None \<Rightarrow> Inr (dev, snd s)
       | Some (off, e') \<Rightarrow>
           rbind (rupd (hq_memory (snd s)) (off div 16) e') (\<lambda>m. Inr (dev, (snd s)\<lparr>hq_memory := m\<rparr>)))"

text \<open>The relation between the device, the ring and the host: \<^verbatim>\<open>os\<close> are the entries posted and not
  yet consumed. The tag of a slot tells whether it holds one of them.\<close>

definition tag :: "CQEntry \<Rightarrow> bool" where
  "tag e = bit (cqe_status e) 0"

definition wrapped :: "'e hqueue \<Rightarrow> nat \<Rightarrow> bool" where
  "wrapped q j \<longleftrightarrow> unat (hq_entries q) \<le> unat (hq_head q) + j"

definition slot :: "'e hqueue \<Rightarrow> nat \<Rightarrow> 'e" where
  "slot q j = hq_memory q ! ((unat (hq_head q) + j) mod unat (hq_entries q))"

definition link_inv :: "cqueue \<Rightarrow> CQEntry hqueue \<Rightarrow> bool \<Rightarrow> CQEntry list \<Rightarrow> bool" where
  "link_inv dev q ph os \<longleftrightarrow>
     q_ok dev \<and> q_stride dev = 16 \<and> q_size dev = hq_entries q
   \<and> hq_head q < hq_entries q \<and> length (hq_memory q) = unat (hq_entries q)
   \<and> length os < unat (hq_entries q)
   \<and> (\<forall>j < unat (hq_entries q). tag (slot q j) =
        (if j < length os then ph \<noteq> wrapped q j else ph = wrapped q j))
   \<and> (\<forall>j < length os. slot q j = os ! j)
   \<and> unat (q_tail dev) = (unat (hq_head q) + length os) mod unat (hq_entries q)
   \<and> q_phase dev = (ph \<noteq> wrapped q (length os))
   \<and> length os \<le> q_count dev"

lemma link_initial:
  "0 < n \<Longrightarrow> link_inv (setBase 16 (CQueue_new iv en qid n)) (hq_new CQEntry_new n) True []"
  by (auto simp: link_inv_def q_ok_def setBase_def CQueue_new_def hq_new_def slot_def tag_def
      wrapped_def CQEntry_new_def word_less_nat_alt)

lemma mod_slot:
  fixes h j n :: nat
  assumes "h < n" "j < n"
  shows "(h + j) mod n = (if h + j < n then h + j else h + j - n)"
  using assms by (auto simp: mod_if)

lemma mod_slots_inj:
  fixes h i j n :: nat
  assumes "h < n" "i < n" "j < n"
  shows "(h + i) mod n = (h + j) mod n \<longleftrightarrow> i = j"
  unfolding mod_slot[OF assms(1,2)] mod_slot[OF assms(1,3)] using assms by auto

text \<open>Posting an entry keeps the relation, with the entry at the end of the outstanding ones.\<close>

lemma device_post_link:
  assumes inv: "link_inv dev q ph os" and room: "q_count dev + 1 \<noteq> unat (q_size dev)"
  shows "\<exists>dev' e'. device_post e (dev, q) = Inr (dev', q\<lparr>hq_memory := (hq_memory q)[unat (q_tail dev) := e']\<rparr>)
    \<and> link_inv dev' (q\<lparr>hq_memory := (hq_memory q)[unat (q_tail dev) := e']\<rparr>) ph (os @ [e'])
    \<and> e' = e\<lparr>cqe_status := cqe_status e'\<rparr> \<and> drop_bit 1 (cqe_status e') = drop_bit 1 (cqe_status e)
    \<and> q_count dev' = q_count dev + 1"
proof -
  let ?N = "unat (hq_entries q)" and ?h = "unat (hq_head q)" and ?L = "length os"
  have ok: "q_ok dev" "q_stride dev = 16" "q_size dev = hq_entries q" "?h < ?N" "length (hq_memory q) = ?N"
    "?L < ?N" "unat (q_tail dev) = (?h + ?L) mod ?N" "?L \<le> q_count dev"
    using inv by (simp_all add: link_inv_def word_less_nat_alt)
  have tags: "\<And>j. j < ?N \<Longrightarrow> tag (slot q j) = (if j < ?L then ph \<noteq> wrapped q j else ph = wrapped q j)"
    and slots: "\<And>j. j < ?L \<Longrightarrow> slot q j = os ! j"
    and phase: "q_phase dev = (ph \<noteq> wrapped q ?L)"
    using inv by (simp_all add: link_inv_def)
  obtain dev' e' where set: "CQueue_setData (Some e) dev = Inr (Some (unat (q_tail dev) * 16, e'), dev')"
    and ok': "q_ok dev'" "unat (getItemCount dev') = q_count dev + 1"
    and bits: "\<forall>k. bit (cqe_status e') k = (if k = 0 then q_phase dev else bit (cqe_status e) k)"
    and upd: "e' = e\<lparr>cqe_status := cqe_status e'\<rparr>"
    and size: "q_size dev' = q_size dev" and flip: "q_phase dev' \<noteq> q_phase dev \<longleftrightarrow> q_tail dev' = 0"
    using setData_posts_or_overflows[OF ok(1), of e] room ok(2) by auto
  let ?q = "q\<lparr>hq_memory := (hq_memory q)[unat (q_tail dev) := e']\<rparr>"
  have tl: "unat (q_tail dev) < ?N" using ok(4,7) by simp
  have run: "device_post e (dev, q) = Inr (dev', ?q)"
    using set tl ok(5) by (simp add: device_post_def)
  have stride: "q_stride dev' = 16" and tail': "q_tail dev' = ring_next (q_size dev) (q_tail dev)"
    using set ok(1,2) by (auto simp: CQueue_setData_def Let_def q_ok_def ring_next_def split: if_splits)
  have count': "q_count dev' = q_count dev + 1" using ok' getItemCount_ok by metis
  have room': "?L + 1 < ?N"
    using ok(3,6,8) room q_count_less[OF ok(1)] by auto
  have slot': "slot ?q j = (if j = ?L then e' else slot q j)" if "j < ?N" for j
    using that ok(4-7) mod_slots_inj[OF ok(4) that ok(6)] by (auto simp: slot_def nth_list_update)
  have wr: "wrapped ?q j = wrapped q j" for j by (simp add: wrapped_def)
  have tag': "tag e' = q_phase dev" using bits by (simp add: tag_def)
  have "unat (q_tail dev') = (?h + (?L + 1)) mod ?N"
    using tail' ring_next_mod(1)[of "q_tail dev" "q_size dev"] ok(1,3,7) by (simp add: q_ok_def mod_Suc_eq)
  moreover have "q_phase dev' = (ph \<noteq> wrapped q (?L + 1))"
  proof -
    have "q_tail dev' = 0 \<longleftrightarrow> (?h + (?L + 1)) mod ?N = 0"
      using calculation by (metis unat_0 word_unat_eq_iff)
    also have "\<dots> \<longleftrightarrow> ?h + (?L + 1) = ?N"
      unfolding mod_slot[OF ok(4) room'] using ok(4) room' by auto
    finally have "q_tail dev' = 0 \<longleftrightarrow> wrapped q (?L + 1) \<noteq> wrapped q ?L"
      by (auto simp: wrapped_def)
    with flip phase show ?thesis by auto
  qed
  moreover have "tag (slot ?q j) = (if j < ?L + 1 then ph \<noteq> wrapped ?q j else ph = wrapped ?q j)"
    if j: "j < ?N" for j
  proof (cases "j = ?L")
    case True
    then show ?thesis using slot'[OF j] tag' phase wr by simp
  next
    case False
    then show ?thesis using slot'[OF j] tags[OF j] wr by simp
  qed
  moreover have "slot ?q j = (os @ [e']) ! j" if "j < ?L + 1" for j
    using that slot'[of j] slots[of j] room' by (simp add: nth_append)
  ultimately have "link_inv dev' ?q ph (os @ [e'])"
    unfolding link_inv_def
    using ok(3-8) ok'(1) stride size count' room' wr by (simp add: word_less_nat_alt)
  moreover have "drop_bit 1 (cqe_status e') = drop_bit 1 (cqe_status e)"
    by (rule bit_word_eqI) (simp add: bit_simps bits)
  ultimately show ?thesis using run upd count' by blast
qed

text \<open>What the host sees at the head of its ring.\<close>

lemma link_head_tag:
  "link_inv dev q ph os \<Longrightarrow> bit (cqe_status (hq_memory q ! unat (hq_head q))) 0 = ph \<longleftrightarrow> os \<noteq> []"
proof -
  assume inv: "link_inv dev q ph os"
  then have "0 < unat (hq_entries q)" "unat (hq_head q) < unat (hq_entries q)"
    by (auto simp: link_inv_def word_less_nat_alt)
  moreover from this inv have "tag (slot q 0) = (if 0 < length os then ph \<noteq> wrapped q 0 else ph = wrapped q 0)"
    unfolding link_inv_def by blast
  ultimately show ?thesis by (auto simp: tag_def slot_def wrapped_def)
qed

lemma link_consume:
  assumes inv: "link_inv dev q ph (e # os)"
    and q': "q' = hq_incrHead (hq_incrTail q)"
  shows "link_inv dev q' (if hq_head q' = 0 then \<not> ph else ph) os" "hq_memory q ! unat (hq_head q) = e"
proof -
  let ?N = "unat (hq_entries q)" and ?h = "unat (hq_head q)" and ?L = "length os"
  let ?ph = "if hq_head q' = 0 then \<not> ph else ph"
  have ok: "q_ok dev" "q_stride dev = 16" "q_size dev = hq_entries q" "?h < ?N" "length (hq_memory q) = ?N"
    "?L + 1 < ?N" "unat (q_tail dev) = (?h + (?L + 1)) mod ?N" "?L + 1 \<le> q_count dev"
    using inv by (simp_all add: link_inv_def word_less_nat_alt)
  have tags: "\<And>j. j < ?N \<Longrightarrow> tag (slot q j) = (if j < ?L + 1 then ph \<noteq> wrapped q j else ph = wrapped q j)"
    and slots: "\<And>j. j < ?L + 1 \<Longrightarrow> slot q j = (e # os) ! j"
    and phase: "q_phase dev = (ph \<noteq> wrapped q (?L + 1))"
    using inv by (simp_all add: link_inv_def)
  have q: "hq_memory q' = hq_memory q" "hq_entries q' = hq_entries q"
    "hq_head q' = ring_next (hq_entries q) (hq_head q)"
    by (simp_all add: q' hq_incrHead_eq hq_incrTail_eq)
  have hd: "hq_head q < hq_entries q" using ok(4) by (simp add: word_less_nat_alt)
  have h': "unat (hq_head q') = (if ?h + 1 = ?N then 0 else ?h + 1)"
    using q(3) ring_next_mod(1)[OF hd] ok(4) by (auto simp: mod_if)
  have zero: "hq_head q' = 0 \<longleftrightarrow> ?h + 1 = ?N" using h' by (metis Suc_eq_plus1 nat.distinct(1) unat_0 word_unat_eq_iff)
  have hl: "unat (hq_head q') < ?N" using h' ok(4) by auto
  have sl: "slot q' j = slot q (if j + 1 < ?N then j + 1 else 0)" if j: "j < ?N" for j
  proof -
    have k: "(if j + 1 < ?N then j + 1 else 0) < ?N" using j by auto
    show ?thesis
      unfolding slot_def q(1,2) mod_slot[OF hl j] mod_slot[OF ok(4) k] using h' j ok(4)
      by (auto intro!: arg_cong[of _ _ "(!) (hq_memory q)"])
  qed
  have wr: "wrapped q' j = (if ?h + 1 = ?N then False else wrapped q (j + 1))" if "j < ?N" for j
    using that h' q(2) by (auto simp: wrapped_def)
  have wr1: "?h + 1 = ?N \<Longrightarrow> wrapped q (j + 1)" for j by (simp add: wrapped_def)
  have tags': "tag (slot q' j) = (if j < ?L then ?ph \<noteq> wrapped q' j else ?ph = wrapped q' j)" if j: "j < ?N" for j
  proof (cases "j + 1 < ?N")
    case True
    with j tags[of "j + 1"] sl[OF j] wr[OF j] wr1[of j] zero show ?thesis by auto
  next
    case False
    have w0: "\<not> wrapped q 0" using ok(4) by (simp add: wrapped_def)
    have "?h + 1 \<noteq> ?N \<Longrightarrow> wrapped q (j + 1)" using False by (simp add: wrapped_def)
    with False j tags[of 0] sl[OF j] wr[OF j] zero w0 ok(6) show ?thesis by auto
  qed
  have ph': "q_phase dev = (?ph \<noteq> wrapped q' ?L)"
    using phase wr[of ?L] wr1[of ?L] zero ok(6) by auto
  have tl': "unat (q_tail dev) = (unat (hq_head q') + ?L) mod ?N"
  proof (cases "?h + 1 = ?N")
    case True
    then have "?h + (?L + 1) = ?L + ?N" by simp
    then have "unat (q_tail dev) = ?L mod ?N" unfolding ok(7) by (simp only: mod_add_self2)
    with True h' show ?thesis by simp
  next
    case False
    then show ?thesis using ok(7) h' by (simp add: add.commute add.left_commute)
  qed
  have sl': "slot q' j = os ! j" if "j < ?L" for j
    using slots[of "j + 1"] sl[of j] that ok(6) by auto
  have hl': "hq_head q' < hq_entries q" using hl by (simp add: word_less_nat_alt)
  have len': "length (hq_memory q') = ?N" "?L < ?N" "?L \<le> q_count dev" using ok(5,6,8) q(1) by simp_all
  show "link_inv dev q' ?ph os"
    unfolding link_inv_def q(2)
    by (intro conjI allI impI ok(1-3) hl' len' tl' ph') (rule tags' sl', assumption)+
  show "hq_memory q ! unat (hq_head q) = e" using slots[of 0] ok(4) by (simp add: slot_def)
qed

section \<open>A run of the protocol\<close>

text \<open>The response handlers may submit further commands, but they do not touch the completion
  queues, the phase or the commands that are already pending.\<close>

definition handler_ok :: "'c handler \<Rightarrow> bool" where
  "handler_ok call \<longleftrightarrow> (\<forall>r drv. \<exists>drv' es. call r drv = Inr drv' \<and> drv_ioCQ drv' = drv_ioCQ drv
     \<and> drv_adminCQ drv' = drv_adminCQ drv \<and> drv_phase drv' = drv_phase drv
     \<and> drv_pendingCommandList drv' = drv_pendingCommandList drv @ es)"

text \<open>What the interrupt handler owes: a completion is answered by the context of the pending command
  that has its vector and its command identifier, with its status and result; the commands of the
  answered completions are no longer pending, every other one still is.\<close>

definition outcome :: "CQEntry \<Rightarrow> 16 word \<times> 32 word" where
  "outcome e = (drop_bit 1 (cqe_status e), cqe_dword0 e)"

definition command_key :: "'c command_entry \<Rightarrow> 16 word \<times> 16 word" where
  "command_key c = (ce_iv c, ce_cid c)"

definition answered :: "16 word \<Rightarrow> 'c command_entry list \<Rightarrow> CQEntry \<Rightarrow> 'c response \<Rightarrow> bool" where
  "answered iv cs e r \<longleftrightarrow>
     (\<exists>c \<in> set cs. command_key c = (iv, cqe_commandID e) \<and> r = (ce_context c, outcome e))"

definition unanswered :: "16 word \<Rightarrow> CQEntry list \<Rightarrow> 'c command_entry list \<Rightarrow> 'c command_entry list" where
  "unanswered iv os cs = filter (\<lambda>c. command_key c \<notin> Pair iv ` cqe_commandID ` set os) cs"

definition awaits :: "16 word \<Rightarrow> 'c command_entry list \<Rightarrow> CQEntry \<Rightarrow> bool" where
  "awaits iv cs e \<longleftrightarrow> (iv, cqe_commandID e) \<in> command_key ` set cs"

lemma unanswered_simps [simp]:
  "unanswered iv [] cs = cs"
  "unanswered iv os (unanswered iv os' cs) = unanswered iv (os' @ os) cs"
  "set (unanswered iv os cs) \<subseteq> set cs"
  by (auto simp: unanswered_def intro!: filter_cong)

lemma answered_mono: "answered iv cs e r \<Longrightarrow> set cs \<subseteq> set cs' \<Longrightarrow> answered iv cs' e r"
  by (auto simp: answered_def)

lemma awaits_unanswered:
  "awaits iv cs e \<Longrightarrow> cqe_commandID e \<notin> cqe_commandID ` set os \<Longrightarrow> awaits iv (unanswered iv os cs) e"
  by (auto simp: awaits_def unanswered_def)

lemma distinct_unanswered:
  "distinct (map command_key cs) \<Longrightarrow> distinct (map command_key (unanswered iv os cs))"
  by (auto simp: unanswered_def distinct_map inj_on_def)

lemma find_pending_some:
  "(iv, cid) \<in> command_key ` set cs \<Longrightarrow>
   \<exists>i < length cs. find_pending iv cid (cs @ es) k = Some (k + i) \<and> command_key (cs ! i) = (iv, cid)"
proof (induction cs arbitrary: k)
  case (Cons c cs)
  show ?case
  proof (cases "command_key c = (iv, cid)")
    case True
    then show ?thesis by (intro exI[of _ 0]) (simp add: command_key_def)
  next
    case False
    with Cons.prems have "(iv, cid) \<in> command_key ` set cs" by auto
    from Cons.IH[OF this, of "k + 1"] obtain i where "i < length cs"
      "find_pending iv cid (cs @ es) (k + 1) = Some (k + 1 + i)" "command_key (cs ! i) = (iv, cid)" by auto
    with False show ?thesis by (intro exI[of _ "Suc i"]) (auto simp: command_key_def)
  qed
qed simp

lemma erase_is_filter:
  "i < length cs \<Longrightarrow> distinct (map f cs) \<Longrightarrow> take i cs @ drop (Suc i) cs = filter (\<lambda>c. f c \<noteq> f (cs ! i)) cs"
proof (induction cs arbitrary: i)
  case (Cons c cs)
  have "f c \<notin> f ` set cs" using Cons.prems(2) by simp
  then have "filter (\<lambda>d. f d \<noteq> f c) cs = cs" by (auto simp: filter_id_conv image_iff)
  with Cons show ?case by (cases i) (auto simp: image_iff)
qed simp

text \<open>One entry: it is matched with its command, the handler is called, the head moves on.\<close>

lemma complete_entry_ok:
  assumes call: "handler_ok call" and iv: "iv = 0 \<or> iv = 1" and cq: "drv_cq iv drv = Inr q"
    and pend: "drv_pendingCommandList drv = cs @ es" and dist: "distinct (map command_key cs)"
    and aw: "awaits iv cs e"
  shows "\<exists>r drv' es'. complete_entry call iv e drv = Inr (r, drv') \<and> answered iv cs e r
    \<and> drv_cq iv drv' = Inr (hq_incrHead (hq_incrTail q))
    \<and> drv_phase drv' = (if hq_head (hq_incrHead (hq_incrTail q)) = 0 then \<not> drv_phase drv else drv_phase drv)
    \<and> drv_pendingCommandList drv' = unanswered iv [e] cs @ es'
    \<and> (\<forall>iv'. iv' \<noteq> iv \<longrightarrow> drv_cq iv' drv' = drv_cq iv' drv)"
proof -
  let ?q1 = "hq_incrTail q" and ?q2 = "hq_incrHead (hq_incrTail q)"
  let ?p = "drv_pendingCommandList drv"
  let ?d1 = "drv_put_cq iv ?q1 drv"
  obtain i where i: "i < length cs" "find_pending iv (cqe_commandID e) ?p 0 = Some i"
    "command_key (cs ! i) = (iv, cqe_commandID e)"
    using find_pending_some[of iv "cqe_commandID e" cs es 0] aw by (auto simp: awaits_def pend)
  let ?r = "(ce_context (?p ! i), drop_bit 1 (cqe_status e), cqe_dword0 e)"
  have pi: "?p ! i = cs ! i" using i(1) by (simp add: pend nth_append)
  have d1: "drv_pendingCommandList ?d1 = ?p" "drv_phase ?d1 = drv_phase drv" by (simp_all add: drv_put_cq_def)
  obtain d2 fs where d2: "call ?r ?d1 = Inr d2" "drv_ioCQ d2 = drv_ioCQ ?d1" "drv_adminCQ d2 = drv_adminCQ ?d1"
    "drv_phase d2 = drv_phase drv" "drv_pendingCommandList d2 = ?p @ fs"
    using call d1 unfolding handler_ok_def by metis
  let ?d3 = "d2\<lparr>drv_pendingCommandList := take i (?p @ fs) @ drop (i + 1) (?p @ fs)\<rparr>"
  have cq3: "drv_cq iv ?d3 = Inr ?q1"
    using iv d2(2,3) by (auto simp: drv_cq_def drv_put_cq_def)
  let ?d4 = "drv_put_cq iv ?q2 ?d3"
  let ?d5 = "if hq_head ?q2 = 0 then ?d4\<lparr>drv_phase := \<not> drv_phase ?d4\<rparr> else ?d4"
  have run: "complete_entry call iv e drv = Inr (?r, ?d5)"
    unfolding complete_entry_def using cq i(2) d1(1) d2(1,5) cq3 by (simp add: Let_def)
  have cq5: "drv_cq iv ?d5 = Inr ?q2" using iv by (auto simp: drv_cq_def drv_put_cq_def)
  have oth: "iv' \<noteq> iv \<Longrightarrow> drv_cq iv' ?d5 = drv_cq iv' drv" for iv'
    using iv d2(2,3) by (auto simp: drv_cq_def drv_put_cq_def)
  have ph5: "drv_phase ?d5 = (if hq_head ?q2 = 0 then \<not> drv_phase drv else drv_phase drv)"
    using d2(4) by (simp add: drv_put_cq_def)
  have "drv_pendingCommandList ?d5 = (take i cs @ drop (Suc i) cs) @ es @ fs"
    using i(1) by (simp add: drv_put_cq_def pend)
  also have "\<dots> = unanswered iv [e] cs @ es @ fs"
    using erase_is_filter[OF i(1) dist] i(3) by (simp add: unanswered_def)
  finally have "drv_pendingCommandList ?d5 = unanswered iv [e] cs @ es @ fs" .
  moreover have "answered iv cs e ?r"
    using i(1,3) pi by (auto simp: answered_def outcome_def intro!: bexI[of _ "cs ! i"])
  ultimately show ?thesis using run cq5 ph5 oth by blast
qed

lemma poll_loop_ok:
  assumes "handler_ok call" "iv = 0 \<or> iv = 1" "drv_cq iv drv = Inr q" "link_inv dev q (drv_phase drv) os"
    "drv_pendingCommandList drv = cs @ es" "distinct (map command_key cs)"
    "list_all (awaits iv cs) os" "distinct (map cqe_commandID os)" "length os < fuel"
  shows "\<exists>rs drv' q' es'. poll_loop fuel call iv count drv = Some (Inr (rs, drv'))
    \<and> list_all2 (answered iv cs) os rs \<and> drv_pendingCommandList drv' = unanswered iv os cs @ es'
    \<and> drv_cq iv drv' = Inr q' \<and> link_inv dev q' (drv_phase drv') []
    \<and> (\<forall>iv'. iv' \<noteq> iv \<longrightarrow> drv_cq iv' drv' = drv_cq iv' drv)
    \<and> (count + length os > 0 \<longrightarrow> last (drv_doorbells drv') = CQHead iv (hq_head q'))"
  using assms
proof (induction os arbitrary: fuel count drv q cs es)
  case Nil
  then obtain f where f: "fuel = Suc f" by (cases fuel) auto
  have "unat (hq_head q) < length (hq_memory q)"
    using Nil.prems(4) by (simp add: link_inv_def word_less_nat_alt)
  with Nil.prems link_head_tag[OF Nil.prems(4)] show ?case
    by (auto simp: f hq_peekData_def drv_cq_def split: if_splits)
next
  case (Cons e os)
  then obtain f where f: "fuel = Suc f" "length os < f" by (cases fuel) auto
  let ?q' = "hq_incrHead (hq_incrTail q)" and ?cs = "unanswered iv [e] cs"
  note c = link_consume[OF Cons.prems(4) refl]
  have mem: "unat (hq_head q) < length (hq_memory q)"
    using Cons.prems(4) by (simp add: link_inv_def word_less_nat_alt)
  have "awaits iv cs e" using Cons.prems(7) by simp
  from complete_entry_ok[OF Cons.prems(1-3,5,6) this]
  obtain r drv' es' where d: "complete_entry call iv e drv = Inr (r, drv')" "answered iv cs e r"
    "drv_cq iv drv' = Inr ?q'"
    "drv_phase drv' = (if hq_head ?q' = 0 then \<not> drv_phase drv else drv_phase drv)"
    "drv_pendingCommandList drv' = ?cs @ es'" "\<forall>iv'. iv' \<noteq> iv \<longrightarrow> drv_cq iv' drv' = drv_cq iv' drv"
    by blast
  have "link_inv dev ?q' (drv_phase drv') os" using c(1) d(4) by simp
  moreover have "list_all (awaits iv ?cs) os"
    using Cons.prems(7,8) awaits_unanswered[of iv cs _ "[e]"]
    by (auto simp: list_all_iff) (metis image_eqI)
  moreover have "distinct (map cqe_commandID os)" using Cons.prems(8) by simp
  ultimately obtain rs drv'' q'' es'' where r: "poll_loop f call iv (count + 1) drv' = Some (Inr (rs, drv''))"
    "list_all2 (answered iv ?cs) os rs" "drv_pendingCommandList drv'' = unanswered iv os ?cs @ es''"
    "drv_cq iv drv'' = Inr q''" "link_inv dev q'' (drv_phase drv'') []"
    "\<forall>iv'. iv' \<noteq> iv \<longrightarrow> drv_cq iv' drv'' = drv_cq iv' drv'"
    "last (drv_doorbells drv'') = CQHead iv (hq_head q'')"
    using Cons.IH[OF Cons.prems(1,2) d(3) _ d(5) distinct_unanswered[OF Cons.prems(6)] _ _ f(2), of "count + 1"]
    by (metis add_gr_0 less_one)
  have "list_all2 (answered iv cs) os rs"
    using r(2) answered_mono[of iv ?cs] by (auto elim!: list_all2_mono)
  moreover have "bit (cqe_status e) 0 = drv_phase drv" using link_head_tag[OF Cons.prems(4)] c(2) by simp
  ultimately show ?case using d(1,2,6) r(1,3-7) Cons.prems(3) mem c(2)
    by (auto simp: f hq_peekData_def)
qed

text \<open>Runs of the protocol: the device posts, the interrupt fires and the controller takes the head
  doorbell.\<close>

datatype cq_action = Post CQEntry | Interrupt

fun cq_run ::
  "nat \<Rightarrow> 'c handler \<Rightarrow> 16 word \<Rightarrow> cq_action list \<Rightarrow> cqueue \<times> 'c driver
    \<Rightarrow> ('c response list \<times> cqueue \<times> 'c driver) res option"
where
  "cq_run fuel call iv [] s = Some (Inr ([], s))"
| "cq_run fuel call iv (Post e # as) (dev, drv) =
     (case rbind (drv_cq iv drv) (\<lambda>q. device_post e (dev, q)) of
        Inl f \<Rightarrow> Some (Inl f)
      | Inr (dev', q') \<Rightarrow> cq_run fuel call iv as (dev', drv_put_cq iv q' drv))"
| "cq_run fuel call iv (Interrupt # as) (dev, drv) =
     (case updateInterrupt fuel call iv True drv of
        None \<Rightarrow> None
      | Some (Inl f) \<Rightarrow> Some (Inl f)
      | Some (Inr (rs, drv')) \<Rightarrow>
          (case drv_cq iv drv' of Inl f \<Rightarrow> Some (Inl f) | Inr q \<Rightarrow>
             map_option (\<lambda>m. rbind m (\<lambda>(rs', s'). Inr (rs @ rs', s')))
               (cq_run fuel call iv as (if rs = [] then dev else CQueue_setHead (hq_head q) dev, drv'))))"

fun posted :: "cq_action list \<Rightarrow> CQEntry list" where
  "posted [] = []"
| "posted (Post e # as) = e # posted as"
| "posted (Interrupt # as) = posted as"

lemma link_doorbell:
  assumes "link_inv dev q ph []"
  shows "link_inv (CQueue_setHead (hq_head q) dev) q ph []" "q_count (CQueue_setHead (hq_head q) dev) = 0"
proof -
  have "q_tail dev = hq_head q" using assms
    by (auto simp: link_inv_def word_unat_eq_iff word_less_nat_alt)
  with assms show "link_inv (CQueue_setHead (hq_head q) dev) q ph []"
    "q_count (CQueue_setHead (hq_head q) dev) = 0"
    by (auto simp: link_inv_def CQueue_setHead_def q_ok_def q_count_def)
qed

lemma drv_put_cq_props:
  "iv = 0 \<or> iv = 1 \<Longrightarrow> drv_cq iv (drv_put_cq iv q drv) = Inr q"
  "drv_phase (drv_put_cq iv q drv) = drv_phase drv"
  by (auto simp: drv_cq_def drv_put_cq_def)

text \<open>The posts leave a slot of the ring free: \<^verbatim>\<open>k\<close> completions are outstanding, the ring has \<^verbatim>\<open>n\<close>
  slots.\<close>

fun fits :: "nat \<Rightarrow> nat \<Rightarrow> cq_action list \<Rightarrow> bool" where
  "fits n k [] \<longleftrightarrow> True"
| "fits n k (Post e # as) \<longleftrightarrow> k + 1 < n \<and> fits n (k + 1) as"
| "fits n k (Interrupt # as) \<longleftrightarrow> fits n 0 as"

lemma answered_cong:
  "cqe_commandID e' = cqe_commandID e \<Longrightarrow> outcome e' = outcome e \<Longrightarrow> answered iv cs e' = answered iv cs e"
  by (auto simp: answered_def fun_eq_iff)

lemma unanswered_cong:
  "map cqe_commandID os = map cqe_commandID os' \<Longrightarrow> unanswered iv os cs = unanswered iv os' cs"
  unfolding unanswered_def by (metis list.set_map)

lemma awaits_cong: "cqe_commandID e' = cqe_commandID e \<Longrightarrow> awaits iv cs e' = awaits iv cs e"
  by (simp add: awaits_def)

text \<open>\<^verbatim>\<open>ps\<close> are the completions posted so far and not seen by an interrupt, as the controller meant
  them; \<^verbatim>\<open>os\<close> are the same completions as they lie in the ring, with their tags.\<close>

lemma cq_run_ok:
  assumes "handler_ok call" "iv = 0 \<or> iv = 1" "drv_cq iv drv = Inr q" "link_inv dev q (drv_phase drv) os"
    "q_count dev = length os" "unat (hq_entries q) = n" "n \<le> fuel" "fits n (length os) acts"
    "drv_pendingCommandList drv = cs @ es" "distinct (map command_key cs)"
    "list_all (awaits iv cs) (ps @ posted acts)" "distinct (map cqe_commandID (ps @ posted acts))"
    "map cqe_commandID os = map cqe_commandID ps" "map outcome os = map outcome ps"
  shows "\<exists>rs dev' drv' ds ls es'. cq_run fuel call iv acts (dev, drv) = Some (Inr (rs, dev', drv'))
    \<and> ps @ posted acts = ds @ ls
    \<and> list_all2 (answered iv cs) ds rs \<and> drv_pendingCommandList drv' = unanswered iv ds cs @ es'
    \<and> (acts \<noteq> [] \<and> last acts = Interrupt \<longrightarrow> ls = [])"
  using assms(3-)
proof (induction acts arbitrary: dev drv q os ps cs es)
  case Nil
  then show ?case
    by (intro exI[of _ "[]"] exI[of _ dev] exI[of _ drv] exI[of _ ps] exI[of _ es]) simp
next
  case (Cons a as)
  show ?case
  proof (cases a)
    case (Post e)
    have room: "q_count dev + 1 \<noteq> unat (q_size dev)"
      using Cons.prems(2,3,4,6) Post by (auto simp: link_inv_def)
    obtain dev1 e' where p: "device_post e (dev, q) = Inr (dev1, q\<lparr>hq_memory := (hq_memory q)[unat (q_tail dev) := e']\<rparr>)"
      "link_inv dev1 (q\<lparr>hq_memory := (hq_memory q)[unat (q_tail dev) := e']\<rparr>) (drv_phase drv) (os @ [e'])"
      "e' = e\<lparr>cqe_status := cqe_status e'\<rparr>" "drop_bit 1 (cqe_status e') = drop_bit 1 (cqe_status e)"
      "q_count dev1 = q_count dev + 1"
      using device_post_link[OF Cons.prems(2) room, of e] by blast
    let ?q1 = "q\<lparr>hq_memory := (hq_memory q)[unat (q_tail dev) := e']\<rparr>"
    let ?drv1 = "drv_put_cq iv ?q1 drv"
    have eqs: "cqe_dword0 e' = cqe_dword0 e" "cqe_commandID e' = cqe_commandID e" by (subst p(3), simp)+
    then have "outcome e' = outcome e" using p(4) by (simp add: outcome_def)
    note eqs = eqs this
    have cq1: "drv_cq iv ?drv1 = Inr ?q1" by (rule drv_put_cq_props(1)[OF assms(2)])
    have link: "link_inv dev1 ?q1 (drv_phase ?drv1) (os @ [e'])"
      using p(2) by (simp add: drv_put_cq_props)
    have rest: "q_count dev1 = length (os @ [e'])" "unat (hq_entries ?q1) = n" "fits n (length (os @ [e'])) as"
      "drv_pendingCommandList ?drv1 = cs @ es"
      "list_all (awaits iv cs) ((ps @ [e]) @ posted as)" "distinct (map cqe_commandID ((ps @ [e]) @ posted as))"
      "map cqe_commandID (os @ [e']) = map cqe_commandID (ps @ [e])"
      "map outcome (os @ [e']) = map outcome (ps @ [e])"
      using Cons.prems Post p(5) eqs by (simp_all add: drv_put_cq_def)
    have "cq_run fuel call iv (a # as) (dev, drv) = cq_run fuel call iv as (dev1, ?drv1)"
      using Cons.prems(1) Post p(1) by simp
    moreover have "a # as \<noteq> [] \<and> last (a # as) = Interrupt \<Longrightarrow> as \<noteq> [] \<and> last as = Interrupt"
      using Post by (auto split: if_splits)
    moreover have "ps @ posted (a # as) = (ps @ [e]) @ posted as" using Post by simp
    ultimately show ?thesis
      using Cons.IH[OF cq1 link rest(1,2) Cons.prems(5) rest(3,4) Cons.prems(8) rest(5-8)] by (simp only:) blast
  next
    case Interrupt
    have aw: "list_all (awaits iv cs) os" "distinct (map cqe_commandID os)"
    proof -
      have "\<forall>e \<in> set os. cqe_commandID e \<in> cqe_commandID ` set ps"
        using Cons.prems(11) by (metis image_eqI list.set_map)
      moreover have "\<forall>e \<in> set ps. awaits iv cs e" using Cons.prems(9) by (simp add: list_all_iff)
      ultimately show "list_all (awaits iv cs) os" using awaits_cong by (fastforce simp: list_all_iff)
      show "distinct (map cqe_commandID os)" using Cons.prems(10,11) by simp
    qed
    have fuel: "length os < fuel" using Cons.prems(2,4,5) by (simp add: link_inv_def)
    from poll_loop_ok[OF assms(1,2) Cons.prems(1,2,7,8) aw fuel, of 0]
    obtain rs1 drv1 q1 es1 where u: "poll_loop fuel call iv 0 drv = Some (Inr (rs1, drv1))"
      "list_all2 (answered iv cs) os rs1" "drv_pendingCommandList drv1 = unanswered iv os cs @ es1"
      "drv_cq iv drv1 = Inr q1" "link_inv dev q1 (drv_phase drv1) []"
      by blast
    let ?cs = "unanswered iv ps cs"
    let ?dev = "if rs1 = [] then dev else CQueue_setHead (hq_head q1) dev"
    have len: "length rs1 = length os" "length os = length ps"
      using u(2) Cons.prems(11) by (auto simp: list_all2_lengthD dest: map_eq_imp_length_eq)
    have pend: "drv_pendingCommandList drv1 = ?cs @ es1"
      using u(3) unanswered_cong[OF Cons.prems(11)] by simp
    have ans: "list_all2 (answered iv cs) ps rs1"
      unfolding list_all2_conv_all_nth
    proof (intro conjI allI impI)
      show "length ps = length rs1" using len by simp
      fix i assume "i < length ps"
      then have "cqe_commandID (os ! i) = cqe_commandID (ps ! i)" "outcome (os ! i) = outcome (ps ! i)"
        "answered iv cs (os ! i) (rs1 ! i)"
        using Cons.prems(11,12) u(2) len by (metis nth_map, metis nth_map, metis list_all2_nthD)
      then show "answered iv cs (ps ! i) (rs1 ! i)" using answered_cong by metis
    qed
    have ents: "unat (hq_entries q1) = n"
      using Cons.prems(2,4) u(5) by (simp add: link_inv_def)
    have link: "link_inv ?dev q1 (drv_phase drv1) []" "q_count ?dev = length ([] :: CQEntry list)"
      using u(5) link_doorbell[OF u(5)] Cons.prems(3) len by auto
    have disj: "list_all (awaits iv ?cs) ([] @ posted as)" "distinct (map cqe_commandID ([] @ posted as))"
      using Cons.prems(9,10) Interrupt awaits_unanswered[of iv cs _ ps]
      by (auto simp: list_all_iff)
    have "fits n (length ([] :: CQEntry list)) as" using Cons.prems(6) Interrupt by simp
    from Cons.IH[OF u(4) link ents Cons.prems(5) this pend distinct_unanswered[OF Cons.prems(8)] disj refl refl]
    obtain rs2 dev' drv' ds ls es' where r: "cq_run fuel call iv as (?dev, drv1) = Some (Inr (rs2, dev', drv'))"
      "posted as = ds @ ls" "list_all2 (answered iv ?cs) ds rs2"
      "drv_pendingCommandList drv' = unanswered iv ds ?cs @ es'" "as \<noteq> [] \<and> last as = Interrupt \<longrightarrow> ls = []"
      by (simp only: append_Nil) blast
    have nil: "as = [] \<Longrightarrow> ds = [] \<and> ls = []" using r(2) by simp
    have "cq_run fuel call iv (a # as) (dev, drv) = Some (Inr (rs1 @ rs2, dev', drv'))"
      using Cons.prems(1) Interrupt u(1,4) r(1) by (simp add: updateInterrupt_def)
    moreover have "list_all2 (answered iv cs) (ps @ ds) (rs1 @ rs2)"
      using ans r(3) answered_mono[of iv ?cs _ _ cs] by (auto intro!: list_all2_appendI elim!: list_all2_mono)
    ultimately show ?thesis using r(2,4,5) nil Interrupt
      by (intro exI[of _ "rs1 @ rs2"] exI[of _ dev'] exI[of _ drv'] exI[of _ "ps @ ds"] exI[of _ ls] exI[of _ es'])
        (auto split: if_splits)
  qed
qed

section \<open>Properties\<close>

text \<open>C9: in-order delivery to the right handlers. A fresh completion queue of one interrupt vector (the
  admin queue or the I/O queue) is shared by the controller and a driver whose pending commands have
  distinct identifiers, and the response handlers do not touch the completion queues, the phase or
  the pending commands (\<^verbatim>\<open>handler_ok\<close>; they may submit more). The controller posts completions of
  commands pending at the start, each once, never filling the last free slot of the ring; the posts
  are interleaved in any way with interrupts of this vector. Then the run returns without a fault,
  with one round of fuel for every slot; the completions handed over are the posted ones in the
  order they were posted, each to the context of the pending command with its identifier, with its
  status and result; exactly the answered commands leave the list of pending commands; and
  after an interrupt none is left in the ring. This covers any number of turns of the ring: the phase
  tags of the two sides stay in step.\<close>

theorem completions_delivered_in_order:
  assumes "handler_ok call" and "iv = 0 \<or> iv = 1" and "0 < n" and "unat n \<le> fuel"
    and "drv_cq iv drv = Inr (hq_new CQEntry_new n)" and "drv_phase drv"
    and "distinct (map command_key (drv_pendingCommandList drv))"
    and "list_all (awaits iv (drv_pendingCommandList drv)) (posted acts)"
    and "distinct (map cqe_commandID (posted acts))" and "fits (unat n) 0 acts"
  shows "\<exists>rs dev' drv' ds ls new.
      cq_run fuel call iv acts (setBase 16 (CQueue_new v en qid n), drv) = Some (Inr (rs, dev', drv'))
    \<and> posted acts = ds @ ls \<and> list_all2 (answered iv (drv_pendingCommandList drv)) ds rs
    \<and> drv_pendingCommandList drv' = unanswered iv ds (drv_pendingCommandList drv) @ new
    \<and> (acts \<noteq> [] \<and> last acts = Interrupt \<longrightarrow> ls = [])"
proof -
  let ?dev = "setBase 16 (CQueue_new v en qid n)" and ?q = "hq_new CQEntry_new n"
  have "link_inv ?dev ?q (drv_phase drv) []" using link_initial[OF assms(3)] assms(6) by simp
  moreover have "q_count ?dev = length ([] :: CQEntry list)" "unat (hq_entries ?q) = unat n"
    by (simp_all add: q_count_def setBase_def CQueue_new_def hq_new_def)
  ultimately show ?thesis
    using cq_run_ok[of call iv drv ?q ?dev "[]" "unat n" fuel acts "drv_pendingCommandList drv" "[]" "[]"] assms
    by simp
qed

text \<open>A driver with an I/O completion queue of two slots and an admin one of four, and three pending
  commands.\<close>

definition example_driver :: "nat driver" where
  "example_driver = \<lparr>drv_adminCommandID = 1, drv_ioCommandID = 2, drv_phase = True,
     drv_adminSQ = hq_new SQEntry_new 4, drv_adminCQ = hq_new CQEntry_new 4,
     drv_ioSQ = Some (hq_new SQEntry_new 4), drv_ioCQ = Some (hq_new CQEntry_new 2),
     drv_pendingCommandList =
       [\<lparr>ce_iv = 1, ce_opcode = 2, ce_cid = 1, ce_context = 11\<rparr>,
        \<lparr>ce_iv = 1, ce_opcode = 2, ce_cid = 2, ce_context = 12\<rparr>,
        \<lparr>ce_iv = 0, ce_opcode = 6, ce_cid = 1, ce_context = 13\<rparr>],
     drv_doorbells = []\<rparr>"

definition completion_of :: "16 word \<Rightarrow> CQEntry" where
  "completion_of cid = CQEntry_new\<lparr>cqe_commandID := cid\<rparr>"

lemma example_run_eval:
  "case cq_run 3 (\<lambda>r d. Inr d) 1 [Post (completion_of 1), Interrupt, Post (completion_of 2), Interrupt]
       (setBase 16 (CQueue_new 1 True 1 2), example_driver) of
     Some (Inr (rs, dev, drv)) \<Rightarrow> rs = [(11, 0, 0), (12, 0, 0)]
       \<and> drv_adminCQ drv = hq_new CQEntry_new 4 \<and> \<not> drv_phase drv
       \<and> drv_pendingCommandList drv = [\<lparr>ce_iv = 0, ce_opcode = 6, ce_cid = 1, ce_context = 13\<rparr>]
   | _ \<Rightarrow> False"
  by code_simp

lemma example_run:
  "\<exists>dev drv. cq_run 3 (\<lambda>r d. Inr d) 1 [Post (completion_of 1), Interrupt, Post (completion_of 2), Interrupt]
       (setBase 16 (CQueue_new 1 True 1 2), example_driver) = Some (Inr ([(11, 0, 0), (12, 0, 0)], dev, drv))
     \<and> drv_adminCQ drv = hq_new CQEntry_new 4 \<and> \<not> drv_phase drv
     \<and> drv_pendingCommandList drv = [\<lparr>ce_iv = 0, ce_opcode = 6, ce_cid = 1, ce_context = 13\<rparr>]"
  using example_run_eval by (auto split: option.splits sum.splits prod.splits)

theorem completions_delivered_in_order_witness:
  "\<exists>rs dev drv. cq_run 3 (\<lambda>r d. Inr d) 1 [Post (completion_of 1), Interrupt, Post (completion_of 2), Interrupt]
       (setBase 16 (CQueue_new 1 True 1 2), example_driver) = Some (Inr (rs, dev, drv))
     \<and> list_all2 (answered 1 (drv_pendingCommandList example_driver)) [completion_of 1, completion_of 2] rs
     \<and> rs = [(11, 0, 0), (12, 0, 0)]"
proof -
  let ?acts = "[Post (completion_of 1), Interrupt, Post (completion_of 2), Interrupt]"
  have h: "handler_ok (\<lambda>(r :: nat response) d. Inr d)" by (auto simp: handler_ok_def)
  have cq: "drv_cq 1 example_driver = Inr (hq_new CQEntry_new 2)" "drv_phase example_driver"
    by (simp_all add: drv_cq_def example_driver_def)
  have pend: "distinct (map command_key (drv_pendingCommandList example_driver))"
    "list_all (awaits 1 (drv_pendingCommandList example_driver)) (posted ?acts)"
    "distinct (map cqe_commandID (posted ?acts))" "fits (unat (2 :: 16 word)) 0 ?acts"
    by (simp_all add: example_driver_def command_key_def awaits_def completion_of_def)
  have "\<exists>rs dev drv. cq_run 3 (\<lambda>r d. Inr d) 1 ?acts (setBase 16 (CQueue_new 1 True 1 2), example_driver)
      = Some (Inr (rs, dev, drv))
    \<and> list_all2 (answered 1 (drv_pendingCommandList example_driver)) [completion_of 1, completion_of 2] rs"
    using completions_delivered_in_order[OF h _ _ _ cq pend, of 3 1 True 1] by fastforce
  with example_run show ?thesis by auto
qed

text \<open>C10: the interrupt handler terminates and answers every outstanding completion. The driver and
  the completion queue of the vector are in the relation of the protocol (\<^verbatim>\<open>link_inv\<close>) with any
  completions outstanding, the pending commands have distinct identifiers, every outstanding
  completion has its pending command, and the response handlers leave the completion queues,
  the phase and the pending commands alone. Then the interrupt calls the handler of the pending command of
  each completion, in ring order and with its status and result, removes exactly these commands,
  leaves the queue empty with the head doorbell rung, and never reports an invalid interrupt. As
  many rounds of the loop as there are outstanding completions, and one more to see the end, are
  enough.\<close>

theorem interrupt_completes_all:
  assumes "handler_ok call" and "iv = 0 \<or> iv = 1" and "drv_cq iv drv = Inr q"
    and "link_inv dev q (drv_phase drv) os"
    and "distinct (map command_key (drv_pendingCommandList drv))"
    and "list_all (awaits iv (drv_pendingCommandList drv)) os"
    and "distinct (map cqe_commandID os)" and "length os < fuel"
  shows "\<exists>rs drv' q' new. updateInterrupt fuel call iv True drv = Some (Inr (rs, drv'))
    \<and> list_all2 (answered iv (drv_pendingCommandList drv)) os rs
    \<and> drv_pendingCommandList drv' = unanswered iv os (drv_pendingCommandList drv) @ new
    \<and> drv_cq iv drv' = Inr q' \<and> link_inv dev q' (drv_phase drv') []
    \<and> (os \<noteq> [] \<longrightarrow> last (drv_doorbells drv') = CQHead iv (hq_head q'))"
proof -
  have "drv_pendingCommandList drv = drv_pendingCommandList drv @ []" by simp
  from poll_loop_ok[OF assms(1-4) this assms(5-8), of 0] assms(3)
  show ?thesis by (simp add: updateInterrupt_def) blast
qed

text \<open>Two completions in an I/O ring of four slots, the later command's first.\<close>

definition two_posted :: "(cqueue \<times> CQEntry hqueue) res" where
  "two_posted = rbind (device_post (completion_of 2) (setBase 16 (CQueue_new 1 True 1 4), hq_new CQEntry_new 4))
     (device_post (completion_of 1))"

definition tagged_completion :: "16 word \<Rightarrow> CQEntry" where
  "tagged_completion cid = (completion_of cid)\<lparr>cqe_status := 1\<rparr>"

lemma two_posted_link:
  "case two_posted of Inr (dev, q) \<Rightarrow> link_inv dev q True [tagged_completion 2, tagged_completion 1] | _ \<Rightarrow> False"
  by code_simp

theorem interrupt_completes_all_witness:
  "\<exists>dev q drv'. two_posted = Inr (dev, q)
    \<and> updateInterrupt 3 (\<lambda>r d. Inr d) 1 True (drv_put_cq 1 q example_driver)
        = Some (Inr ([(12, 0, 0), (11, 0, 0)], drv'))
    \<and> 13 \<in> ce_context ` set (drv_pendingCommandList drv')"
proof -
  let ?os = "[tagged_completion 2, tagged_completion 1]"
  obtain dev q where q: "two_posted = Inr (dev, q)" "link_inv dev q True ?os"
    using two_posted_link by (auto split: sum.splits)
  let ?drv = "drv_put_cq 1 q example_driver" and ?call = "\<lambda>(r :: nat response) d. Inr d"
  have h: "handler_ok ?call" by (auto simp: handler_ok_def)
  have d: "drv_cq 1 ?drv = Inr q" "drv_phase ?drv" "drv_pendingCommandList ?drv = drv_pendingCommandList example_driver"
    by (simp_all add: drv_cq_def drv_put_cq_def example_driver_def)
  have pend: "distinct (map command_key (drv_pendingCommandList ?drv))"
    "list_all (awaits 1 (drv_pendingCommandList ?drv)) ?os" "distinct (map cqe_commandID ?os)"
    unfolding d(3)
    by (simp_all add: example_driver_def command_key_def awaits_def tagged_completion_def completion_of_def)
  have link: "link_inv dev q (drv_phase ?drv) ?os" using q(2) d(2) by simp
  have "length ?os < 3" by simp
  from interrupt_completes_all[OF h _ d(1) link pend this] obtain rs drv' new where
    r: "updateInterrupt 3 ?call 1 True ?drv = Some (Inr (rs, drv'))"
    "list_all2 (answered 1 (drv_pendingCommandList example_driver)) ?os rs"
    "drv_pendingCommandList drv' = unanswered 1 ?os (drv_pendingCommandList example_driver) @ new"
    unfolding d(3) by blast
  have "rs = [(12, 0, 0), (11, 0, 0)]" using r(2)
    by (auto simp: list_all2_Cons1 answered_def example_driver_def command_key_def tagged_completion_def
        completion_of_def outcome_def CQEntry_new_def)
  moreover have "13 \<in> ce_context ` set (drv_pendingCommandList drv')"
    unfolding r(3) by (simp add: unanswered_def example_driver_def command_key_def)
  ultimately show ?thesis using q(1) r(1) by blast
qed

text \<open>C11: the phase is one variable of the driver, shared by the admin and the I/O completion queue.
  Take any two interrupt vectors, with the queues of both in the relation of the protocol, and let the
  outstanding completions of the first run over the end of its ring. The interrupt of the first
  answers them all and inverts the phase; the second queue has not wrapped, its outstanding
  completions carry the other tag, and its interrupt now sees none of them: it calls no
  handler and changes nothing, so their commands stay pending.\<close>

theorem shared_phase_loses_admin_completion:
  assumes "handler_ok call" and "iv = 0 \<or> iv = 1" and "iv' = 0 \<or> iv' = 1" and "iv' \<noteq> iv"
    and "drv_cq iv drv = Inr q" and "link_inv dev q (drv_phase drv) os" and "wrapped q (length os)"
    and "drv_cq iv' drv = Inr q'" and "link_inv dev' q' (drv_phase drv) os'" and "os' \<noteq> []"
    and "distinct (map command_key (drv_pendingCommandList drv))"
    and "list_all (awaits iv (drv_pendingCommandList drv)) os" and "distinct (map cqe_commandID os)"
    and "list_all (awaits iv' (drv_pendingCommandList drv)) os'"
    and "length os < fuel"
  shows "\<exists>rs drv'. updateInterrupt fuel call iv True drv = Some (Inr (rs, drv'))
    \<and> list_all2 (answered iv (drv_pendingCommandList drv)) os rs
    \<and> drv_phase drv' = (\<not> drv_phase drv)
    \<and> updateInterrupt fuel call iv' True drv' = Some (Inr ([], drv'))
    \<and> list_all (awaits iv' (drv_pendingCommandList drv')) os'"
proof -
  have "drv_pendingCommandList drv = drv_pendingCommandList drv @ []" by simp
  from poll_loop_ok[OF assms(1,2,5,6) this assms(11-13,15), of 0]
  obtain rs drv' q1 new where r: "poll_loop fuel call iv 0 drv = Some (Inr (rs, drv'))"
    "list_all2 (answered iv (drv_pendingCommandList drv)) os rs"
    "drv_pendingCommandList drv' = unanswered iv os (drv_pendingCommandList drv) @ new"
    "link_inv dev q1 (drv_phase drv') []" "\<forall>iv'. iv' \<noteq> iv \<longrightarrow> drv_cq iv' drv' = drv_cq iv' drv"
    by blast
  have ph: "drv_phase drv' = (\<not> drv_phase drv)"
    using assms(6,7) r(4) by (auto simp: link_inv_def wrapped_def word_less_nat_alt)
  have cq: "drv_cq iv' drv' = Inr q'" using r(5) assms(4,8) by simp
  have mem: "unat (hq_head q') < length (hq_memory q')"
    using assms(9) by (simp add: link_inv_def word_less_nat_alt)
  obtain f where "fuel = Suc f" using assms(15) by (cases fuel) auto
  moreover have "bit (cqe_status (hq_memory q' ! unat (hq_head q'))) 0 = drv_phase drv"
    using link_head_tag[OF assms(9)] assms(10) by simp
  ultimately have "updateInterrupt fuel call iv' True drv' = Some (Inr ([], drv'))"
    using cq mem ph by (simp add: updateInterrupt_def hq_peekData_def)
  moreover have "list_all (awaits iv' (drv_pendingCommandList drv')) os'"
    using assms(4,14) r(3) by (fastforce simp: list_all_iff awaits_def unanswered_def)
  moreover have "updateInterrupt fuel call iv True drv = Some (Inr (rs, drv'))"
    using r(1) assms(5) by (simp add: updateInterrupt_def)
  ultimately show ?thesis using r(2) ph by blast
qed

text \<open>A completion in the last slot of an I/O ring of two slots, which has been used once, and one in the
  admin ring.\<close>

lemma post_example:
  assumes "link_inv dev q ph os" "q_count dev + 1 \<noteq> unat (q_size dev)"
  obtains dev' q' e where "device_post (completion_of cid) (dev, q) = Inr (dev', q')"
    "link_inv dev' q' ph (os @ [e])" "cqe_commandID e = cid"
    "hq_head q' = hq_head q" "hq_entries q' = hq_entries q"
proof -
  obtain dev' e' where p: "device_post (completion_of cid) (dev, q)
      = Inr (dev', q\<lparr>hq_memory := (hq_memory q)[unat (q_tail dev) := e']\<rparr>)"
    "link_inv dev' (q\<lparr>hq_memory := (hq_memory q)[unat (q_tail dev) := e']\<rparr>) ph (os @ [e'])"
    "e' = (completion_of cid)\<lparr>cqe_status := cqe_status e'\<rparr>"
    using device_post_link[OF assms, of "completion_of cid"] by blast
  moreover have "cqe_commandID e' = cid" by (subst p(3)) (simp add: completion_of_def)
  ultimately show ?thesis using that by simp
qed

lemma fresh_link:
  "q_count (setBase 16 (CQueue_new v en qid n)) = 0" "q_size (setBase 16 (CQueue_new v en qid n)) = n"
  "hq_head (hq_new CQEntry_new n) = 0" "hq_entries (hq_new CQEntry_new n) = n"
  by (simp_all add: q_count_def setBase_def CQueue_new_def hq_new_def)

lemma last_slot_posted:
  obtains dev q e where "link_inv dev q True [e]" "cqe_commandID e = 2" "wrapped q 1"
proof -
  have s: "q_count (setBase 16 (CQueue_new 1 True 1 2)) + 1 \<noteq> unat (q_size (setBase 16 (CQueue_new 1 True 1 2)))"
    by (simp add: fresh_link)
  have l: "link_inv (setBase 16 (CQueue_new 1 True 1 2)) (hq_new CQEntry_new 2) True []"
    by (rule link_initial) simp
  obtain dev1 q1 e1 where p1: "link_inv dev1 q1 True ([] @ [e1])" "hq_head q1 = 0" "hq_entries q1 = 2"
    by (rule post_example[OF l s, of 1]) (simp add: fresh_link)
  let ?q2 = "hq_incrHead (hq_incrTail q1)"
  have h: "hq_head ?q2 = 1" "hq_entries ?q2 = 2"
    using p1 by (simp_all add: hq_incrHead_eq hq_incrTail_eq ring_next_def)
  have l2: "link_inv dev1 ?q2 True []" using link_consume(1)[of dev1 q1 True e1 "[]"] p1(1) h by simp
  let ?dev2 = "CQueue_setHead (hq_head ?q2) dev1"
  have "q_size ?dev2 = 2" using link_doorbell(1)[OF l2] h(2) by (simp add: link_inv_def)
  with link_doorbell(2)[OF l2] have room: "q_count ?dev2 + 1 \<noteq> unat (q_size ?dev2)" by simp
  obtain dev q e where p3: "link_inv dev q True ([] @ [e])" "cqe_commandID e = 2" "hq_head q = 1" "hq_entries q = 2"
    using post_example[OF link_doorbell(1)[OF l2] room, of 2] h by metis
  then have "wrapped q 1" by (simp add: wrapped_def)
  with p3 that show ?thesis by simp
qed

lemma admin_posted:
  obtains dev q e where "link_inv dev q True [e]" "cqe_commandID e = 1"
proof -
  have "q_count (setBase 16 (CQueue_new 0 True 0 4)) + 1 \<noteq> unat (q_size (setBase 16 (CQueue_new 0 True 0 4)))"
    by (simp add: fresh_link)
  from post_example[OF link_initial this, of 1] that show ?thesis by auto
qed

theorem shared_phase_loses_admin_completion_witness:
  "\<exists>q q' rs (drv' :: nat driver).
     updateInterrupt 2 (\<lambda>r d. Inr d) 1 True (drv_put_cq 0 q' (drv_put_cq 1 q example_driver)) = Some (Inr (rs, drv'))
   \<and> map fst rs = [12] \<and> \<not> drv_phase drv'
   \<and> updateInterrupt 2 (\<lambda>r d. Inr d) 0 True drv' = Some (Inr ([], drv'))"
proof -
  obtain dev q e where io: "link_inv dev q True [e]" "cqe_commandID e = 2" "wrapped q 1" by (rule last_slot_posted)
  obtain dev' q' e' where adm: "link_inv dev' q' True [e']" "cqe_commandID e' = 1" by (rule admin_posted)
  let ?drv = "drv_put_cq 0 q' (drv_put_cq 1 q example_driver)" and ?call = "\<lambda>(r :: nat response) d. Inr d"
  have h: "handler_ok ?call" by (auto simp: handler_ok_def)
  have d: "drv_cq 1 ?drv = Inr q" "drv_cq 0 ?drv = Inr q'" "drv_phase ?drv"
    "drv_pendingCommandList ?drv = drv_pendingCommandList example_driver"
    by (simp_all add: drv_cq_def drv_put_cq_def example_driver_def)
  have pend: "distinct (map command_key (drv_pendingCommandList ?drv))"
    "list_all (awaits 1 (drv_pendingCommandList ?drv)) [e]" "distinct (map cqe_commandID [e])"
    "list_all (awaits 0 (drv_pendingCommandList ?drv)) [e']"
    unfolding d(4) using io(2) adm(2) by (simp_all add: example_driver_def command_key_def awaits_def)
  have link: "link_inv dev q (drv_phase ?drv) [e]" "link_inv dev' q' (drv_phase ?drv) [e']" "wrapped q (length [e])"
    using io adm d(3) by simp_all
  have "\<exists>rs drv'. updateInterrupt 2 ?call 1 True ?drv = Some (Inr (rs, drv'))
    \<and> list_all2 (answered 1 (drv_pendingCommandList ?drv)) [e] rs \<and> drv_phase drv' = (\<not> drv_phase ?drv)
    \<and> updateInterrupt 2 ?call 0 True drv' = Some (Inr ([], drv'))"
    using shared_phase_loses_admin_completion[OF h _ _ _ d(1) link(1,3) d(2) link(2) _ pend, of 2] by simp blast
  then obtain rs drv' where r: "updateInterrupt 2 ?call 1 True ?drv = Some (Inr (rs, drv'))"
    "list_all2 (answered 1 (drv_pendingCommandList ?drv)) [e] rs" "drv_phase drv' = (\<not> drv_phase ?drv)"
    "updateInterrupt 2 ?call 0 True drv' = Some (Inr ([], drv'))"
    by blast
  have "map fst rs = [12]" using r(2) io(2) unfolding d(4)
    by (auto simp: list_all2_Cons1 answered_def example_driver_def command_key_def)
  with r(1,3,4) d(3) show ?thesis
    by (intro exI[of _ q] exI[of _ q'] exI[of _ rs] exI[of _ drv']) simp
qed

end
