(* ===== verification/Nvme_Controller.thy ===== *)
theory Nvme_Controller
  imports Nvme_Queue
begin

text \<open>
  The queue management of the NVMe controller (hil/nvme/controller.hh and hil/nvme/controller.cc):
  doorbells, creation and deletion of queues, arbitration between the submission queues, the two
  internal FIFOs, completion with interrupt coalescing.

  The controller's calls are asynchronous: a transfer or a CPU delay is started with a function to
  call at its end. Here every function that is called so is a definition of its own, and what has
  been started is part of the state (the reads of submission queue entries, \<^verbatim>\<open>ct_fetches\<close>) or of
  the result. Events are recorded by the tick they are scheduled at. The map of the interrupt
  vectors is an association list in its iteration order. The loops over queues run over the
  indices below the array size, which the 16-bit loop variable reaches as long as the array has
  fewer than \<^verbatim>\<open>2 ^ 16\<close> elements; the loops without a bound carry fuel.
\<close>

section \<open>State\<close>

record AggregationInfo =
  ag_nextTime :: nat
  ag_requestCount :: nat
  ag_valid :: bool
  ag_pending :: bool

text \<open>A read in flight: the queue it is for, the offset it reads, the head before it.\<close>

record fetch =
  fe_queue :: nat
  fe_offset :: nat
  fe_oldhead :: "16 word"

datatype arbitration = ROUND_ROBIN | WEIGHTED_ROUND_ROBIN | InvalidArbitration

record controller =
  ct_ready :: bool                          \<comment> \<open>bit 0 of the status register\<close>
  ct_arbitration :: arbitration
  ct_sqstride :: nat
  ct_cqstride :: nat
  ct_ppCQueue :: "cqueue option list"
  ct_ppSQueue :: "squeue option list"
  ct_lSQFIFO :: "SQEntryWrapper list"
  ct_lCQFIFO :: "CQEntryWrapper list"
  ct_aggregationTime :: nat
  ct_aggregationThreshold :: nat
  ct_aggregationMap :: "(16 word \<times> AggregationInfo) list"
  ct_requestCounter :: nat
  ct_maxRequest :: nat
  ct_requestInterval :: nat
  ct_workInterval :: nat
  ct_lastWorkAt :: nat
  ct_shutdownReserved :: bool
  ct_workEvent :: "nat option"
  ct_requestEvent :: "nat option"
  ct_completionEvent :: "nat option"
  ct_fetches :: "fetch list"
  ct_interrupts :: "(16 word \<times> bool) list"  \<comment> \<open>the calls of \<^verbatim>\<open>updateInterrupt\<close>, oldest first\<close>

section \<open>Doorbells and interrupts\<close>

definition ct_updateInterrupt :: "16 word \<Rightarrow> bool \<Rightarrow> controller \<Rightarrow> controller" where
  "ct_updateInterrupt iv post c = c\<lparr>ct_interrupts := ct_interrupts c @ [(iv, post)]\<rparr>"

definition clearInterrupt :: "16 word \<Rightarrow> controller \<Rightarrow> controller" where
  "clearInterrupt iv c =
     (let notFinished = fold (\<lambda>q n. case q of None \<Rightarrow> n
             | Some q \<Rightarrow> if q_interruptVector q = iv then n + getItemCount q else n)
             (ct_ppCQueue c) (0 :: 16 word)
      in ct_updateInterrupt iv (notFinished > 0) c)"

definition ringCQHeadDoorbell :: "nat \<Rightarrow> 16 word \<Rightarrow> controller \<Rightarrow> controller res" where
  "ringCQHeadDoorbell qid head c =
     rbind (rnth (ct_ppCQueue c) qid) (\<lambda>pQueue.
       case pQueue of
         None \<Rightarrow> Inr c
       | Some q \<Rightarrow>
           rbind (rupd (ct_ppCQueue c) qid (Some (CQueue_setHead head q))) (\<lambda>qs.
             let c = c\<lparr>ct_ppCQueue := qs\<rparr>
             in Inr (if q_ien q then clearInterrupt (q_interruptVector q) c else c)))"

definition ringSQTailDoorbell :: "nat \<Rightarrow> 16 word \<Rightarrow> controller \<Rightarrow> controller res" where
  "ringSQTailDoorbell qid tail c =
     rbind (rnth (ct_ppSQueue c) qid) (\<lambda>pQueue.
       case pQueue of
         None \<Rightarrow> Inr c
       | Some q \<Rightarrow>
           rbind (rupd (ct_ppSQueue c) qid (Some (SQueue_setTail tail q))) (\<lambda>qs.
             Inr (c\<lparr>ct_ppSQueue := qs\<rparr>)))"

section \<open>Interrupt coalescing parameters\<close>

text \<open>The product is computed in \<^verbatim>\<open>int\<close>: 22 times a hundred million does not fit.\<close>

definition setCoalescingParameter :: "8 word \<Rightarrow> 8 word \<Rightarrow> controller \<Rightarrow> controller res" where
  "setCoalescingParameter time thres c =
     (if unat time * 100000000 > 2147483647 then Inl SignedOverflow
      else Inr (c\<lparr>ct_aggregationTime := unat time * 100000000, ct_aggregationThreshold := unat thres\<rparr>))"

definition getCoalescingParameter :: "controller \<Rightarrow> nat \<times> nat" where
  "getCoalescingParameter c = (ct_aggregationTime c div 100000000, ct_aggregationThreshold c)"

fun map_assign :: "'k \<Rightarrow> ('v \<Rightarrow> 'v) \<Rightarrow> ('k \<times> 'v) list \<Rightarrow> ('k \<times> 'v) list" where
  "map_assign k f [] = []"
| "map_assign k f ((k', v) # m) = (if k' = k then (k', f v) # m else (k', v) # map_assign k f m)"

definition setCoalescing :: "16 word \<Rightarrow> bool \<Rightarrow> controller \<Rightarrow> controller" where
  "setCoalescing iv enable c = c\<lparr>ct_aggregationMap := map_assign iv (\<lambda>a. a\<lparr>ag_valid := enable,
     ag_nextTime := 0, ag_requestCount := 0, ag_pending := False\<rparr>) (ct_aggregationMap c)\<rparr>"

definition getCoalescing :: "16 word \<Rightarrow> controller \<Rightarrow> bool" where
  "getCoalescing iv c = (case map_of (ct_aggregationMap c) iv of None \<Rightarrow> False | Some a \<Rightarrow> ag_valid a)"

section \<open>The completion FIFO\<close>

text \<open>The nearest tick at which there is something to complete; \<^verbatim>\<open>valid\<close> false is \<^verbatim>\<open>None\<close>.\<close>

definition reserveCompletion :: "controller \<Rightarrow> controller" where
  "reserveCompletion c =
     (let t0 = (case ct_lCQFIFO c of [] \<Rightarrow> None | e # _ \<Rightarrow> Some (cqw_submitAt e));
          t1 = fold (\<lambda>(iv, a) t.
                 if ag_valid a \<and> ag_pending a
                 then (case t of None \<Rightarrow> Some (ag_nextTime a)
                       | Some u \<Rightarrow> if u > ag_nextTime a then Some (ag_nextTime a) else Some u)
                 else t) (ct_aggregationMap c) t0
      in (case t1 of None \<Rightarrow> c | Some t \<Rightarrow> c\<lparr>ct_completionEvent := Some t\<rparr>))"

fun insert_completion :: "CQEntryWrapper \<Rightarrow> CQEntryWrapper list \<Rightarrow> CQEntryWrapper list" where
  "insert_completion e [] = [e]"
| "insert_completion e (x # xs) =
     (if cqw_submitAt x > cqw_submitAt e then e # x # xs else x # insert_completion e xs)"

definition submit :: "nat \<Rightarrow> CQEntryWrapper \<Rightarrow> controller \<Rightarrow> controller res" where
  "submit now entry c =
     rbind (rnth (ct_ppCQueue c) (unat (cqw_cqID entry))) (\<lambda>pQueue.
       if pQueue = None then Inl (Panic ''nvme_ctrl: Completion Queue not created'')
       else Inr (reserveCompletion (c\<lparr>ct_lCQFIFO :=
              insert_completion (entry\<lparr>cqw_submitAt := now\<rparr>) (ct_lCQFIFO c)\<rparr>)))"

text \<open>The transfers that post entries, and the interrupt vectors to signal, in the order of the code.\<close>

record posting =
  po_posts :: "(16 word \<times> nat \<times> CQEntry) list"
  po_ivs :: "16 word list"

text \<open>The coalescing of one posted entry: whether to post, and the counters of its vector.\<close>

definition coalesce :: "nat \<Rightarrow> CQEntryWrapper \<Rightarrow> 16 word \<Rightarrow> controller \<Rightarrow> bool \<times> controller" where
  "coalesce tick e iv c =
     (if unat (cqw_cqID e) > 0
      then (case map_of (ct_aggregationMap c) iv of
          None \<Rightarrow> (True, c)
        | Some a \<Rightarrow>
            if ag_valid a
            then let a1 = a\<lparr>ag_requestCount := ag_requestCount a + 1\<rparr>;
                     post = \<not> (cqw_submitAt e < ag_nextTime a1
                                \<and> ag_requestCount a1 \<le> ct_aggregationThreshold c);
                     a2 = (if post
                           then a1\<lparr>ag_nextTime := tick + ct_aggregationTime c, ag_requestCount := 0\<rparr>
                           else a1\<lparr>ag_pending := True\<rparr>)
                 in (post, c\<lparr>ct_aggregationMap := map_assign iv (\<lambda>_. a2) (ct_aggregationMap c)\<rparr>)
            else (True, c))
      else (True, c))"

definition post_entry :: "nat \<Rightarrow> CQEntryWrapper \<Rightarrow> posting \<times> controller \<Rightarrow> (posting \<times> controller) res" where
  "post_entry tick e s =
     (let (p, c) = s in
      rbind (rnth (ct_ppCQueue c) (unat (cqw_cqID e))) (\<lambda>pQueue. rbind (rderef pQueue) (\<lambda>q.
      rbind (CQueue_setData (Some (cqw_entry e)) q) (\<lambda>(req, q').
      rbind (rupd (ct_ppCQueue c) (unat (cqw_cqID e)) (Some q')) (\<lambda>qs.
        let c = c\<lparr>ct_ppCQueue := qs\<rparr>;
            p = (case req of None \<Rightarrow> p
                 | Some (off, e') \<Rightarrow> p\<lparr>po_posts := po_posts p @ [(cqw_cqID e, off, e')]\<rparr>)
        in if q_ien q'
           then let (post, c) = coalesce tick e (q_interruptVector q') c
                in Inr (if post then p\<lparr>po_ivs := po_ivs p @ [q_interruptVector q']\<rparr> else p, c)
           else Inr (p, c))))))"

definition expire_aggregation :: "nat \<Rightarrow> posting \<times> controller \<Rightarrow> posting \<times> controller" where
  "expire_aggregation tick s =
     (let (p, c) = s;
          due = (\<lambda>a. ag_valid a \<and> ag_nextTime a \<le> tick \<and> ag_pending a)
      in (p\<lparr>po_ivs := po_ivs p @ map fst (filter (\<lambda>(iv, a). due a) (ct_aggregationMap c))\<rparr>,
          c\<lparr>ct_aggregationMap := map (\<lambda>(iv, a). (iv, if due a
              then a\<lparr>ag_nextTime := tick + ct_aggregationTime c, ag_requestCount := 0,
                     ag_pending := False\<rparr> else a)) (ct_aggregationMap c)\<rparr>))"

text \<open>\<^verbatim>\<open>completion\<close> up to its end; the interrupts are signalled by the function that the last of the
  started transfers calls. Without a transfer nothing calls it: the data for it are deleted, and
  the result is \<^verbatim>\<open>None\<close>.\<close>

definition completion :: "nat \<Rightarrow> controller \<Rightarrow> (posting option \<times> controller) res" where
  "completion tick c =
     (let due = filter (\<lambda>e. cqw_submitAt e \<le> tick) (ct_lCQFIFO c);
          rest = filter (\<lambda>e. \<not> cqw_submitAt e \<le> tick) (ct_lCQFIFO c);
          c = c\<lparr>ct_lCQFIFO := rest, ct_completionEvent := None\<rparr>
      in rbind (rfold (post_entry tick) due (\<lparr>po_posts = [], po_ivs = []\<rparr>, c)) (\<lambda>s.
           let (p, c) = expire_aggregation tick s
           in Inr (if length due = 0 then None else Some p, c)))"

text \<open>The function \<^verbatim>\<open>send\<close> of \<^verbatim>\<open>completion\<close>: the vectors sorted and each once.\<close>

definition completion_send :: "posting \<Rightarrow> controller \<Rightarrow> controller" where
  "completion_send p c =
     reserveCompletion (fold (\<lambda>iv. ct_updateInterrupt iv True) (remdups_adj (sort (po_ivs p))) c)"

section \<open>Queue creation and deletion\<close>

text \<open>The first member of a fresh \<^verbatim>\<open>AggregationInfo\<close> that the code does not set is \<^verbatim>\<open>pending\<close>: the
  parameter \<^verbatim>\<open>garbage\<close>.\<close>

definition createCQueue :: "bool \<Rightarrow> nat \<Rightarrow> 16 word \<Rightarrow> 16 word \<Rightarrow> bool \<Rightarrow> controller \<Rightarrow> (nat \<times> controller) res" where
  "createCQueue garbage cqid sz iv ien c =
     rbind (rnth (ct_ppCQueue c) cqid) (\<lambda>pQueue.
       if pQueue = None
       then
         let q = setBase (ct_cqstride c) (CQueue_new iv ien (of_nat cqid) sz);
             info = \<lparr>ag_nextTime = 0, ag_requestCount = 0, ag_valid = False, ag_pending = garbage\<rparr>;
             m = (if map_of (ct_aggregationMap c) iv = None then ct_aggregationMap c @ [(iv, info)]
                  else map_assign iv (\<lambda>_. info) (ct_aggregationMap c))
         in rbind (rupd (ct_ppCQueue c) cqid (Some q)) (\<lambda>qs.
              Inr (0, c\<lparr>ct_ppCQueue := qs, ct_aggregationMap := m\<rparr>))
       else Inr (1, c))"

definition createSQueue :: "nat \<Rightarrow> nat \<Rightarrow> 16 word \<Rightarrow> 8 word \<Rightarrow> controller \<Rightarrow> (nat \<times> controller) res" where
  "createSQueue sqid cqid sz priority c =
     rbind (rnth (ct_ppSQueue c) sqid) (\<lambda>pQueue.
       if pQueue = None
       then rbind (rnth (ct_ppCQueue c) cqid) (\<lambda>cq.
         if cq \<noteq> None
         then rbind (rupd (ct_ppSQueue c) sqid
                (Some (setBase (ct_sqstride c) (SQueue_new (of_nat cqid) priority (of_nat sqid) sz))))
                (\<lambda>qs. Inr (0, c\<lparr>ct_ppSQueue := qs\<rparr>))
         else Inr (2, c))
       else Inr (1, c))"

text \<open>The loop over the submission queues runs to \<^verbatim>\<open>cqsize\<close>.\<close>

fun refers_to :: "16 word \<Rightarrow> squeue option list \<Rightarrow> nat list \<Rightarrow> bool res" where
  "refers_to cqid qs [] = Inr False"
| "refers_to cqid qs (i # is) =
     rbind (rnth qs i) (\<lambda>p. case p of
         None \<Rightarrow> refers_to cqid qs is
       | Some q \<Rightarrow> if q_cqID q = cqid then Inr True else refers_to cqid qs is)"

definition deleteCQueue :: "nat \<Rightarrow> controller \<Rightarrow> (nat \<times> controller) res" where
  "deleteCQueue cqid c =
     rbind (rnth (ct_ppCQueue c) cqid) (\<lambda>pQueue.
       case pQueue of
         Some q \<Rightarrow>
           if cqid > 0
           then rbind (refers_to (of_nat cqid) (ct_ppSQueue c) [1..<length (ct_ppCQueue c)]) (\<lambda>used.
                  if used then Inr (2, c)
                  else rbind (rupd (ct_ppCQueue c) cqid None) (\<lambda>qs.
                    let iv = q_interruptVector q;
                        sameIV = (\<exists>q' \<in> set (tl qs). case q' of None \<Rightarrow> False
                                    | Some q' \<Rightarrow> q_interruptVector q' = iv);
                        m = (if sameIV then ct_aggregationMap c
                             else filter (\<lambda>(k, a). k \<noteq> iv) (ct_aggregationMap c))
                    in if \<not> sameIV \<and> map_of (ct_aggregationMap c) iv = None then Inl OutOfBounds
                       else Inr (0, c\<lparr>ct_ppCQueue := qs, ct_aggregationMap := m\<rparr>)))
           else Inr (1, c)
       | None \<Rightarrow> Inr (1, c))"

definition abort_response :: "16 word \<Rightarrow> 16 word \<Rightarrow> SQEntryWrapper \<Rightarrow> CQEntryWrapper" where
  "abort_response sqHead status w =
     (let r = CQEntryWrapper_new w
      in r\<lparr>cqw_entry := (cqw_entry r)\<lparr>cqe_sqHead := sqHead, cqe_status := status\<rparr>\<rparr>)"

text \<open>The generic status type is 0; the codes are 8 (submission queue deleted) and 7 (abort
  requested).\<close>

definition status_sq_deleted :: "16 word" where
  "status_sq_deleted = 0x8000 OR push_bit 9 0 OR push_bit 1 8"

definition status_abort_requested :: "16 word" where
  "status_abort_requested = 0x8000 OR push_bit 9 0 OR push_bit 1 7"

text \<open>The loop of \<^verbatim>\<open>deleteSQueue\<close> over the FIFO. Its iterator is set to the element behind an erased
  one, and the loop header then moves it once more: that element is not looked at, and moving
  past the end is not defined.\<close>

fun abort_loop ::
  "(SQEntryWrapper \<Rightarrow> bool) \<Rightarrow> (SQEntryWrapper \<Rightarrow> controller \<Rightarrow> controller res)
    \<Rightarrow> SQEntryWrapper list \<Rightarrow> controller \<Rightarrow> (SQEntryWrapper list \<times> controller) res"
where
  "abort_loop P act [] c = Inr ([], c)"
| "abort_loop P act [w] c = (if P w then rbind (act w c) (\<lambda>_. Inl OutOfBounds) else Inr ([w], c))"
| "abort_loop P act (w # x # ws) c =
     (if P w
      then rbind (act w c) (\<lambda>c. rbind (abort_loop P act ws c) (\<lambda>(r, c). Inr (x # r, c)))
      else rbind (abort_loop P act (x # ws) c) (\<lambda>(r, c). Inr (w # r, c)))"

definition deleteSQueue :: "nat \<Rightarrow> nat \<Rightarrow> controller \<Rightarrow> (nat \<times> controller) res" where
  "deleteSQueue now sqid c =
     rbind (rnth (ct_ppSQueue c) sqid) (\<lambda>pQueue.
       case pQueue of
         Some q \<Rightarrow>
           if sqid > 0
           then rbind (abort_loop (\<lambda>w. sqw_sqID w = of_nat sqid)
                         (\<lambda>w c. submit now (abort_response (q_head q) status_sq_deleted w) c)
                         (ct_lSQFIFO c) c) (\<lambda>(fifo, c).
                  rbind (rupd (ct_ppSQueue c) sqid None) (\<lambda>qs.
                    Inr (0, c\<lparr>ct_lSQFIFO := fifo, ct_ppSQueue := qs\<rparr>)))
           else Inr (1, c)
       | None \<Rightarrow> Inr (1, c))"

fun split_first :: "('a \<Rightarrow> bool) \<Rightarrow> 'a list \<Rightarrow> ('a \<times> 'a list) option" where
  "split_first P [] = None"
| "split_first P (x # xs) =
     (if P x then Some (x, xs) else map_option (\<lambda>(y, ys). (y, x # ys)) (split_first P xs))"

definition abort_command :: "nat \<Rightarrow> nat \<Rightarrow> 16 word \<Rightarrow> controller \<Rightarrow> (nat \<times> controller) res" where
  "abort_command now sqid cid c =
     (case split_first (\<lambda>w. sqw_sqID w = of_nat sqid \<and> sqe_commandID (sqw_entry w) = cid) (ct_lSQFIFO c) of
        None \<Rightarrow> Inr (0, c)
      | Some (w, rest) \<Rightarrow>
          rbind (rnth (ct_ppSQueue c) sqid) (\<lambda>pQueue. rbind (rderef pQueue) (\<lambda>q.
          rbind (submit now (abort_response (q_head q) status_abort_requested w) c) (\<lambda>c.
            Inr (1, c\<lparr>ct_lSQFIFO := rest\<rparr>)))))"

section \<open>Collecting submissions\<close>

text \<open>\<^verbatim>\<open>checkQueue\<close> starts the read of one entry; \<^verbatim>\<open>checkQueue_done\<close> is the function called at its end,
  with the entry that was read.\<close>

definition checkQueue :: "nat \<Rightarrow> squeue \<Rightarrow> controller \<Rightarrow> (bool \<times> controller) res" where
  "checkQueue i q c =
     (if getItemCount q > 0
      then rbind (SQueue_getData q) (\<lambda>(off, q').
           rbind (rupd (ct_ppSQueue c) i (Some q')) (\<lambda>qs.
             Inr (True, c\<lparr>ct_ppSQueue := qs, ct_fetches := ct_fetches c @
               (case off of None \<Rightarrow> []
                | Some a \<Rightarrow> [\<lparr>fe_queue = i, fe_offset = a, fe_oldhead = q_head q\<rparr>])\<rparr>)))
      else Inr (False, c))"

definition checkQueue_done :: "SQEntry \<Rightarrow> fetch \<Rightarrow> controller \<Rightarrow> controller res" where
  "checkQueue_done entry f c =
     rbind (rnth (ct_ppSQueue c) (fe_queue f)) (\<lambda>pQueue. rbind (rderef pQueue) (\<lambda>q.
       Inr (c\<lparr>ct_lSQFIFO := ct_lSQFIFO c @
         [SQEntryWrapper_new entry (q_id q) (q_cqID q) (q_head q) (fe_oldhead f)]\<rparr>)))"

text \<open>One pass over all queues with a property, counting the queues that had an entry. The counter
  \<^verbatim>\<open>updated\<close> has 16 bits in the code; a pass counts every queue once at most.\<close>

fun pass_all :: "(squeue \<Rightarrow> bool) \<Rightarrow> nat list \<Rightarrow> nat \<Rightarrow> controller \<Rightarrow> (nat \<times> controller) res" where
  "pass_all P [] updated c = Inr (updated, c)"
| "pass_all P (i # is) updated c =
     rbind (rnth (ct_ppSQueue c) i) (\<lambda>p.
       case p of
         None \<Rightarrow> pass_all P is updated c
       | Some q \<Rightarrow>
           if P q
           then rbind (checkQueue i q c) (\<lambda>(r, c).
                  pass_all P is (if r then updated + 1 else updated) c)
           else pass_all P is updated c)"

fun rounds :: "nat \<Rightarrow> (squeue \<Rightarrow> bool) \<Rightarrow> nat list \<Rightarrow> controller \<Rightarrow> controller res option" where
  "rounds 0 P is c = None"
| "rounds (Suc fuel) P is c =
     (case pass_all P is 0 c of
        Inl f \<Rightarrow> Some (Inl f)
      | Inr (updated, c') \<Rightarrow> if updated = 0 then Some (Inr c') else rounds fuel P is c')"

text \<open>The weighted passes leave the loop when \<^verbatim>\<open>updated\<close> has reached the weight, and then reset it;
  the pass for the low priority leaves it after one entry.\<close>

fun pass_weighted ::
  "(squeue \<Rightarrow> bool) \<Rightarrow> 16 word \<Rightarrow> nat list \<Rightarrow> 16 word \<Rightarrow> nat \<Rightarrow> controller
    \<Rightarrow> (16 word \<times> nat \<times> controller) res"
where
  "pass_weighted P weight [] updated tot c = Inr (updated, tot, c)"
| "pass_weighted P weight (i # is) updated tot c =
     rbind (rnth (ct_ppSQueue c) i) (\<lambda>p.
       case p of
         None \<Rightarrow> pass_weighted P weight is updated tot c
       | Some q \<Rightarrow>
           if P q
           then rbind (checkQueue i q c) (\<lambda>(r, c).
                  if r
                  then if updated + 1 = weight then Inr (0, tot + 1, c)
                       else pass_weighted P weight is (updated + 1) (tot + 1) c
                  else pass_weighted P weight is updated tot c)
           else pass_weighted P weight is updated tot c)"

fun pass_first :: "(squeue \<Rightarrow> bool) \<Rightarrow> nat list \<Rightarrow> nat \<Rightarrow> controller \<Rightarrow> (nat \<times> controller) res" where
  "pass_first P [] tot c = Inr (tot, c)"
| "pass_first P (i # is) tot c =
     rbind (rnth (ct_ppSQueue c) i) (\<lambda>p.
       case p of
         None \<Rightarrow> pass_first P is tot c
       | Some q \<Rightarrow>
           if P q
           then rbind (checkQueue i q c) (\<lambda>(r, c).
                  if r then Inr (tot + 1, c) else pass_first P is tot c)
           else pass_first P is tot c)"

fun collect_admin :: "nat \<Rightarrow> controller \<Rightarrow> controller res option" where
  "collect_admin 0 c = None"
| "collect_admin (Suc fuel) c =
     (case rbind (rnth (ct_ppSQueue c) 0) (\<lambda>p. rbind (rderef p) (\<lambda>q. checkQueue 0 q c)) of
        Inl f \<Rightarrow> Some (Inl f)
      | Inr (r, c') \<Rightarrow> if r then collect_admin fuel c' else Some (Inr c'))"

definition PRIORITY_URGENT :: "8 word" where "PRIORITY_URGENT = 0"
definition PRIORITY_HIGH :: "8 word" where "PRIORITY_HIGH = 1"
definition PRIORITY_MEDIUM :: "8 word" where "PRIORITY_MEDIUM = 2"
definition PRIORITY_LOW :: "8 word" where "PRIORITY_LOW = 3"

text \<open>The three passes of the weighted round robin. The one that is commented as the low-priority one
  tests for the medium priority.\<close>

fun weighted_rounds :: "nat \<Rightarrow> 16 word \<Rightarrow> 16 word \<Rightarrow> nat list \<Rightarrow> 16 word \<Rightarrow> controller \<Rightarrow> controller res option" where
  "weighted_rounds 0 high medium is updated c = None"
| "weighted_rounds (Suc fuel) high medium is updated c =
     (case rbind (pass_weighted (\<lambda>q. q_priority q = PRIORITY_HIGH) high is updated 0 c) (\<lambda>(u1, t1, c).
           rbind (pass_weighted (\<lambda>q. q_priority q = PRIORITY_MEDIUM) medium is u1 t1 c) (\<lambda>(u2, t2, c).
           rbind (pass_first (\<lambda>q. q_priority q = PRIORITY_MEDIUM) is t2 c) (\<lambda>(t3, c).
             Inr (u2, t3, c)))) of
        Inl f \<Rightarrow> Some (Inl f)
      | Inr (u, t, c') \<Rightarrow> if t = 0 then Some (Inr c') else weighted_rounds fuel high medium is u c')"

definition collectSQueue :: "nat \<Rightarrow> 16 word \<Rightarrow> 16 word \<Rightarrow> controller \<Rightarrow> controller res option" where
  "collectSQueue fuel wrrHigh wrrMedium c =
     (if \<not> ct_ready c then Some (Inr c)
      else case ct_arbitration c of
          ROUND_ROBIN \<Rightarrow> rounds fuel (\<lambda>q. True) [0..<length (ct_ppSQueue c)] c
        | WEIGHTED_ROUND_ROBIN \<Rightarrow>
            (let is = [1..<length (ct_ppSQueue c)] in
             case collect_admin fuel c of
               None \<Rightarrow> None
             | Some (Inl f) \<Rightarrow> Some (Inl f)
             | Some (Inr c) \<Rightarrow>
                 (case rounds fuel (\<lambda>q. q_priority q = PRIORITY_URGENT) is c of
                    None \<Rightarrow> None
                  | Some (Inl f) \<Rightarrow> Some (Inl f)
                  | Some (Inr c) \<Rightarrow> weighted_rounds fuel wrrHigh wrrMedium is 0 c))
        | InvalidArbitration \<Rightarrow> Some (Inl (Panic ''nvme_ctrl: Invalid arbitration method'')))"

section \<open>The work loop\<close>

definition work :: "nat \<Rightarrow> 16 word \<Rightarrow> 16 word \<Rightarrow> controller \<Rightarrow> controller res option" where
  "work fuel wrrHigh wrrMedium c =
     (if \<not> ct_ready c then Some (Inr c) else collectSQueue fuel wrrHigh wrrMedium c)"

text \<open>\<^verbatim>\<open>work_collected\<close> is the function that \<^verbatim>\<open>work\<close> has called when the entries are read.\<close>

definition work_collected :: "nat \<Rightarrow> controller \<Rightarrow> controller" where
  "work_collected now c =
     (let c = c\<lparr>ct_lastWorkAt := now\<rparr>;
          c = (if ct_shutdownReserved c
               then c\<lparr>ct_workEvent := None, ct_ready := False, ct_shutdownReserved := False,
                      ct_lSQFIFO := []\<rparr>
               else c)
      in c\<lparr>ct_requestCounter := 0\<rparr>)"

definition handleRequest :: "nat \<Rightarrow> controller \<Rightarrow> SQEntryWrapper option \<times> controller" where
  "handleRequest now c =
     (let (front, c) = (case ct_lSQFIFO c of [] \<Rightarrow> (None, c)
                        | w # ws \<Rightarrow> (Some w, c\<lparr>ct_lSQFIFO := ws\<rparr>));
          c = c\<lparr>ct_requestCounter := ct_requestCounter c + 1\<rparr>
      in (front,
          if length (ct_lSQFIFO c) > 0 \<and> ct_requestCounter c < ct_maxRequest c
          then c\<lparr>ct_requestEvent := Some (now + ct_requestInterval c)\<rparr>
          else c\<lparr>ct_workEvent := Some (max (now + ct_requestInterval c)
                                           (ct_lastWorkAt c + ct_workInterval c))\<rparr>))"

section \<open>What a fetch does\<close>

definition sq_at :: "controller \<Rightarrow> nat \<Rightarrow> squeue option" where
  "sq_at c i = ct_ppSQueue c ! i"

definition items_at :: "controller \<Rightarrow> nat \<Rightarrow> nat" where
  "items_at c i = (case sq_at c i of None \<Rightarrow> 0 | Some q \<Rightarrow> q_count q)"

definition items :: "controller \<Rightarrow> nat" where
  "items c = (\<Sum>i < length (ct_ppSQueue c). items_at c i)"

definition sqs_ok :: "controller \<Rightarrow> bool" where
  "sqs_ok c \<longleftrightarrow> (\<forall>i < length (ct_ppSQueue c). \<forall>q. sq_at c i = Some q \<longrightarrow> q_ok q)"

text \<open>The controller after one entry of queue \<^verbatim>\<open>i\<close> has been fetched.\<close>

definition fetched :: "nat \<Rightarrow> squeue \<Rightarrow> controller \<Rightarrow> controller" where
  "fetched i q c = c\<lparr>ct_ppSQueue := (ct_ppSQueue c)[i := Some (q\<lparr>q_head := ring_next (q_size q) (q_head q)\<rparr>)],
     ct_fetches := ct_fetches c @ [\<lparr>fe_queue = i, fe_offset = unat (q_head q) * q_stride q, fe_oldhead = q_head q\<rparr>]\<rparr>"

lemma checkQueue_ok:
  assumes "sqs_ok c" "i < length (ct_ppSQueue c)" "sq_at c i = Some q"
  shows "checkQueue i q c = Inr (if 0 < q_count q then (True, fetched i q c) else (False, c))"
proof -
  have ok: "q_ok q" using assms by (auto simp: sqs_ok_def)
  have cnt: "getItemCount q > 0 \<longleftrightarrow> 0 < q_count q"
    using getItemCount_ok[OF ok] by (simp add: word_less_nat_alt)
  show ?thesis
  proof (cases "0 < q_count q")
    case True
    with cnt SQueue_getData_ok(1)[OF ok True] assms(2) show ?thesis
      by (simp add: checkQueue_def fetched_def)
  qed (use cnt in \<open>simp add: checkQueue_def\<close>)
qed

lemma fetched_at:
  "i < length (ct_ppSQueue c) \<Longrightarrow> sq_at (fetched i q c) j
    = (if j = i then Some (q\<lparr>q_head := ring_next (q_size q) (q_head q)\<rparr>) else sq_at c j)"
  by (simp add: fetched_def sq_at_def nth_list_update)

lemma fetched_length [simp]: "length (ct_ppSQueue (fetched i q c)) = length (ct_ppSQueue c)"
  by (simp add: fetched_def)

lemma fetched_ok:
  assumes "sqs_ok c" "i < length (ct_ppSQueue c)" "sq_at c i = Some q" "0 < q_count q"
  shows "sqs_ok (fetched i q c)"
    "items_at (fetched i q c) j = (if j = i then q_count q - 1 else items_at c j)"
    "items (fetched i q c) + 1 = items c"
proof -
  have ok: "q_ok q" using assms by (auto simp: sqs_ok_def)
  note g = SQueue_getData_ok[OF ok assms(4)]
  show "sqs_ok (fetched i q c)" using assms(1,2) g(2) by (auto simp: sqs_ok_def fetched_at)
  show it: "items_at (fetched i q c) j = (if j = i then q_count q - 1 else items_at c j)" for j
  proof -
    have "q_count (q\<lparr>q_head := ring_next (q_size q) (q_head q)\<rparr>) = q_count q - 1" using g(3) by linarith
    then show ?thesis using assms(2) by (simp add: items_at_def fetched_at)
  qed
  let ?n = "length (ct_ppSQueue c)"
  have "items c = items_at c i + (\<Sum>j \<in> {..<?n} - {i}. items_at c j)"
    unfolding items_def using assms(2) by (subst sum.remove[of _ i]) auto
  moreover have "items (fetched i q c) = (q_count q - 1) + (\<Sum>j \<in> {..<?n} - {i}. items_at c j)"
    unfolding items_def fetched_length using assms(2) by (subst sum.remove[of _ i]) (auto simp: it)
  moreover have "items_at c i = q_count q" using assms(3) by (simp add: items_at_def)
  ultimately show "items (fetched i q c) + 1 = items c" using assms(4) by simp
qed

text \<open>A pass leaves queue \<^verbatim>\<open>i\<close> alone: its state is the same and nothing is read from it.\<close>

definition keeps :: "nat \<Rightarrow> controller \<Rightarrow> controller \<Rightarrow> bool" where
  "keeps i c c' \<longleftrightarrow> sq_at c' i = sq_at c i
     \<and> (\<exists>fs. ct_fetches c' = ct_fetches c @ fs \<and> (\<forall>f \<in> set fs. fe_queue f \<noteq> i))"

lemma keeps_refl [simp]: "keeps i c c"
  by (simp add: keeps_def)

lemma keeps_trans: "keeps i a b \<Longrightarrow> keeps i b c \<Longrightarrow> keeps i a c"
  unfolding keeps_def by force

lemma keeps_fetched: "j < length (ct_ppSQueue c) \<Longrightarrow> i \<noteq> j \<Longrightarrow> keeps i c (fetched j q c)"
  by (simp add: keeps_def fetched_at) (simp add: fetched_def)

text \<open>What all the passes have in common: they fetch some entries, of queues with their property
  among the ones they look at.\<close>

definition progress :: "(squeue \<Rightarrow> bool) \<Rightarrow> nat list \<Rightarrow> nat \<Rightarrow> controller \<Rightarrow> controller \<Rightarrow> bool" where
  "progress P is n c c' \<longleftrightarrow> sqs_ok c' \<and> length (ct_ppSQueue c') = length (ct_ppSQueue c)
     \<and> items c' + n = items c \<and> length (ct_fetches c') = length (ct_fetches c) + n
     \<and> (\<forall>i. (\<forall>q. sq_at c i = Some q \<longrightarrow> \<not> P q) \<or> i \<notin> set is \<longrightarrow> keeps i c c')
     \<and> (\<forall>i q. sq_at c i = Some q \<longrightarrow> (\<exists>q'. sq_at c' i = Some q' \<and> q_priority q' = q_priority q))
     \<and> (\<forall>i. sq_at c i = None \<longrightarrow> sq_at c' i = None)"

definition drained :: "(squeue \<Rightarrow> bool) \<Rightarrow> nat list \<Rightarrow> controller \<Rightarrow> bool" where
  "drained P is c \<longleftrightarrow> (\<forall>i \<in> set is. \<forall>q. sq_at c i = Some q \<and> P q \<longrightarrow> q_count q = 0)"

text \<open>The properties that select queues look at the priority only.\<close>

definition by_priority :: "(squeue \<Rightarrow> bool) \<Rightarrow> bool" where
  "by_priority P \<longleftrightarrow> (\<forall>q q'. q_priority q' = q_priority q \<longrightarrow> P q' = P q)"

lemma progress_refl: "sqs_ok c \<Longrightarrow> progress P is 0 c c"
  by (simp add: progress_def)

lemma progress_fetched:
  assumes "sqs_ok c" "i < length (ct_ppSQueue c)" "sq_at c i = Some q" "0 < q_count q" "P q" "i \<in> set is"
  shows "progress P is 1 c (fetched i q c)"
proof -
  note f = fetched_ok[OF assms(1-4)]
  have "keeps j c (fetched i q c)" if "(\<forall>q. sq_at c j = Some q \<longrightarrow> \<not> P q) \<or> j \<notin> set is" for j
    using that assms by (intro keeps_fetched) auto
  moreover have "length (ct_fetches (fetched i q c)) = length (ct_fetches c) + 1" by (simp add: fetched_def)
  moreover have "\<exists>q''. sq_at (fetched i q c) j = Some q'' \<and> q_priority q'' = q_priority q'"
    if "sq_at c j = Some q'" for j q'
    using that assms(2,3) by (auto simp: fetched_at)
  moreover have "sq_at (fetched i q c) j = None" if "sq_at c j = None" for j
    using that assms(2,3) by (auto simp: fetched_at)
  ultimately show ?thesis unfolding progress_def using f(1,3) by simp
qed

lemma progress_trans:
  assumes "by_priority P" "progress P is n a b" "progress P is m b c"
  shows "progress P is (n + m) a c"
proof -
  have "keeps i a c" if i: "(\<forall>q. sq_at a i = Some q \<longrightarrow> \<not> P q) \<or> i \<notin> set is" for i
  proof -
    have "keeps i a b" using assms(2) i unfolding progress_def by blast
    moreover have "(\<forall>q. sq_at b i = Some q \<longrightarrow> \<not> P q) \<or> i \<notin> set is"
      using \<open>keeps i a b\<close> i by (auto simp: keeps_def)
    then have "keeps i b c" using assms(3) unfolding progress_def by blast
    ultimately show ?thesis by (rule keeps_trans)
  qed
  moreover have "\<exists>q'. sq_at c i = Some q' \<and> q_priority q' = q_priority q" if "sq_at a i = Some q" for i q
    using assms(2,3) that unfolding progress_def by metis
  ultimately show ?thesis using assms(2,3) unfolding progress_def by simp
qed

lemma progress_mono: "progress P js n a b \<Longrightarrow> set js \<subseteq> set is \<Longrightarrow> progress P is n a b"
  unfolding progress_def by blast

lemma pass_all_ok:
  assumes "by_priority P" "sqs_ok c" "set is \<subseteq> {..<length (ct_ppSQueue c)}"
  shows "\<exists>n c'. pass_all P is k c = Inr (k + n, c') \<and> progress P is n c c' \<and> (n = 0 \<longrightarrow> c' = c \<and> drained P is c)"
  using assms(2,3)
proof (induction "is" arbitrary: k c)
  case Nil
  then show ?case by (auto simp: progress_refl drained_def)
next
  case (Cons i "is")
  have i: "i < length (ct_ppSQueue c)" "ct_ppSQueue c ! i = sq_at c i" using Cons.prems(2) by (auto simp: sq_at_def)
  show ?case
  proof (cases "\<exists>q. sq_at c i = Some q \<and> P q \<and> 0 < q_count q")
    case True
    then obtain q where q: "sq_at c i = Some q" "P q" "0 < q_count q" by blast
    note f = progress_fetched[where P = P and ?is = "i # is", OF Cons.prems(1) i(1) q(1,3,2)]
    have "sqs_ok (fetched i q c)" "set is \<subseteq> {..<length (ct_ppSQueue (fetched i q c))}"
      using fetched_ok(1)[OF Cons.prems(1) i(1) q(1,3)] Cons.prems(2) by auto
    from Cons.IH[OF this, of "k + 1"] obtain n c' where
      n: "pass_all P is (k + 1) (fetched i q c) = Inr (k + 1 + n, c')" "progress P is n (fetched i q c) c'"
      by blast
    have "progress P (i # is) (1 + n) c c'"
      by (rule progress_trans[OF assms(1) _ progress_mono[OF n(2)]]) (use f in auto)
    with n(1) i q checkQueue_ok[OF Cons.prems(1) i(1) q(1)] show ?thesis
      by (intro exI[of _ "1 + n"] exI[of _ c']) simp
  next
    case False
    have "pass_all P (i # is) k c = pass_all P is k c"
    proof (cases "sq_at c i")
      case (Some q)
      with False i checkQueue_ok[OF Cons.prems(1) i(1) Some] show ?thesis by (cases "P q") auto
    qed (use i in simp)
    moreover have "set is \<subseteq> {..<length (ct_ppSQueue c)}" using Cons.prems(2) by simp
    from Cons.IH[OF Cons.prems(1) this, of k] obtain n c' where
      "pass_all P is k c = Inr (k + n, c')" "progress P is n c c'" "n = 0 \<longrightarrow> c' = c \<and> drained P is c" by blast
    moreover have "n = 0 \<longrightarrow> drained P (i # is) c" using calculation(4) False by (auto simp: drained_def)
    ultimately show ?thesis using progress_mono[of P "is" n c c' "i # is"] by auto
  qed
qed

lemma rounds_ok:
  assumes "by_priority P" "sqs_ok c" "set is \<subseteq> {..<length (ct_ppSQueue c)}" "items c < fuel"
  shows "\<exists>n c'. rounds fuel P is c = Some (Inr c') \<and> progress P is n c c' \<and> drained P is c'"
  using assms(2-4)
proof (induction fuel arbitrary: c)
  case (Suc fuel)
  obtain n c' where p: "pass_all P is 0 c = Inr (n, c')" "progress P is n c c'" "n = 0 \<longrightarrow> c' = c \<and> drained P is c"
    using pass_all_ok[OF assms(1) Suc.prems(1,2), of 0] by auto
  show ?case
  proof (cases "n = 0")
    case True
    with p show ?thesis by (intro exI[of _ 0] exI[of _ c]) simp
  next
    case False
    then have "items c' < fuel" "sqs_ok c'" "set is \<subseteq> {..<length (ct_ppSQueue c')}"
      using p(2) Suc.prems by (auto simp: progress_def)
    from Suc.IH[OF this(2,3,1)] obtain m c'' where
      m: "rounds fuel P is c' = Some (Inr c'')" "progress P is m c' c''" "drained P is c''" by blast
    with False p progress_trans[OF assms(1) p(2) m(2)] show ?thesis by auto
  qed
qed simp

lemma pass_weighted_ok:
  assumes "by_priority P" "sqs_ok c" "set is \<subseteq> {..<length (ct_ppSQueue c)}"
  shows "\<exists>u n c'. pass_weighted P w is updated t c = Inr (u, t + n, c') \<and> progress P is n c c'
    \<and> (n = 0 \<longrightarrow> c' = c \<and> drained P is c)"
  using assms(2,3)
proof (induction "is" arbitrary: updated t c)
  case Nil
  then show ?case by (auto simp: progress_refl drained_def)
next
  case (Cons i "is")
  have i: "i < length (ct_ppSQueue c)" "ct_ppSQueue c ! i = sq_at c i" using Cons.prems(2) by (auto simp: sq_at_def)
  show ?case
  proof (cases "\<exists>q. sq_at c i = Some q \<and> P q \<and> 0 < q_count q")
    case True
    then obtain q where q: "sq_at c i = Some q" "P q" "0 < q_count q" by blast
    note f = progress_fetched[where P = P and ?is = "i # is", OF Cons.prems(1) i(1) q(1,3,2)]
    have ok: "sqs_ok (fetched i q c)" "set is \<subseteq> {..<length (ct_ppSQueue (fetched i q c))}"
      using fetched_ok(1)[OF Cons.prems(1) i(1) q(1,3)] Cons.prems(2) by auto
    note ch = checkQueue_ok[OF Cons.prems(1) i(1) q(1)]
    show ?thesis
    proof (cases "updated + 1 = w")
      case True
      with i q ch f show ?thesis by (intro exI[of _ 0] exI[of _ 1] exI[of _ "fetched i q c"]) simp
    next
      case False
      from Cons.IH[OF ok, of "updated + 1" "t + 1"] obtain u n c' where
        n: "pass_weighted P w is (updated + 1) (t + 1) (fetched i q c) = Inr (u, t + 1 + n, c')"
        "progress P is n (fetched i q c) c'" by blast
      have "progress P (i # is) (1 + n) c c'"
        by (rule progress_trans[OF assms(1) _ progress_mono[OF n(2)]]) (use f in auto)
      with n(1) i q ch False show ?thesis
        by (intro exI[of _ u] exI[of _ "1 + n"] exI[of _ c']) simp
    qed
  next
    case False
    have "pass_weighted P w (i # is) updated t c = pass_weighted P w is updated t c"
    proof (cases "sq_at c i")
      case (Some q)
      with False i checkQueue_ok[OF Cons.prems(1) i(1) Some] show ?thesis by (cases "P q") auto
    qed (use i in simp)
    moreover have "set is \<subseteq> {..<length (ct_ppSQueue c)}" using Cons.prems(2) by simp
    from Cons.IH[OF Cons.prems(1) this, of updated t] obtain u n c' where
      "pass_weighted P w is updated t c = Inr (u, t + n, c')" "progress P is n c c'"
      "n = 0 \<longrightarrow> c' = c \<and> drained P is c" by blast
    moreover have "n = 0 \<longrightarrow> drained P (i # is) c" using calculation(4) False by (auto simp: drained_def)
    ultimately show ?thesis using progress_mono[of P "is" n c c' "i # is"] by auto
  qed
qed

lemma pass_first_ok:
  assumes "sqs_ok c" "set is \<subseteq> {..<length (ct_ppSQueue c)}"
  shows "\<exists>n c'. pass_first P is t c = Inr (t + n, c') \<and> progress P is n c c'
    \<and> (n = 0 \<longrightarrow> c' = c \<and> drained P is c)"
  using assms
proof (induction "is" arbitrary: t)
  case Nil
  then show ?case by (auto simp: progress_refl drained_def)
next
  case (Cons i "is")
  have i: "i < length (ct_ppSQueue c)" "ct_ppSQueue c ! i = sq_at c i" using Cons.prems(2) by (auto simp: sq_at_def)
  show ?case
  proof (cases "\<exists>q. sq_at c i = Some q \<and> P q \<and> 0 < q_count q")
    case True
    then obtain q where q: "sq_at c i = Some q" "P q" "0 < q_count q" by blast
    with i checkQueue_ok[OF Cons.prems(1) i(1) q(1)] progress_fetched[where P = P and ?is = "i # is", OF Cons.prems(1) i(1) q(1,3,2)]
    show ?thesis by (intro exI[of _ 1] exI[of _ "fetched i q c"]) simp
  next
    case False
    have "pass_first P (i # is) t c = pass_first P is t c"
    proof (cases "sq_at c i")
      case (Some q)
      with False i checkQueue_ok[OF Cons.prems(1) i(1) Some] show ?thesis by (cases "P q") auto
    qed (use i in simp)
    moreover have "set is \<subseteq> {..<length (ct_ppSQueue c)}" using Cons.prems(2) by simp
    from Cons.IH[OF Cons.prems(1) this, of t] obtain n c' where
      "pass_first P is t c = Inr (t + n, c')" "progress P is n c c'"
      "n = 0 \<longrightarrow> c' = c \<and> drained P is c" by blast
    moreover have "n = 0 \<longrightarrow> drained P (i # is) c" using calculation(4) False by (auto simp: drained_def)
    ultimately show ?thesis using progress_mono[of P "is" n c c' "i # is"] by auto
  qed
qed

section \<open>The order of the round robin\<close>

text \<open>The \<^verbatim>\<open>r\<close>-th entry that queue \<^verbatim>\<open>i\<close> has to offer: its queue and its offset.\<close>

definition fetch_at :: "controller \<Rightarrow> nat \<Rightarrow> nat \<Rightarrow> nat \<times> nat" where
  "fetch_at c i r = (case sq_at c i of None \<Rightarrow> (i, 0)
     | Some q \<Rightarrow> (i, ((unat (q_head q) + r) mod unat (q_size q)) * q_stride q))"

definition fetch_log :: "controller \<Rightarrow> (nat \<times> nat) list" where
  "fetch_log c = map (\<lambda>f. (fe_queue f, fe_offset f)) (ct_fetches c)"

text \<open>One entry of every queue that has one, then the second entry of every queue that has two, and
  so on.\<close>

definition rr_order :: "controller \<Rightarrow> nat list \<Rightarrow> nat \<Rightarrow> (nat \<times> nat) list" where
  "rr_order c is R = concat (map (\<lambda>r. map (\<lambda>i. fetch_at c i r) (filter (\<lambda>i. r < items_at c i) is)) [0..<R])"

lemma fetch_at_fetched:
  assumes "sqs_ok c" "i < length (ct_ppSQueue c)" "sq_at c i = Some q"
  shows "fetch_at (fetched i q c) j r = (if j = i then fetch_at c i (r + 1) else fetch_at c j r)"
proof -
  have "q_head q < q_size q" using assms by (auto simp: sqs_ok_def q_ok_def)
  then have "(unat (ring_next (q_size q) (q_head q)) + r) mod unat (q_size q)
      = (unat (q_head q) + (r + 1)) mod unat (q_size q)"
    by (simp add: ring_next_mod mod_add_left_eq)
  with assms(2,3) show ?thesis by (simp add: fetch_at_def fetched_at)
qed

lemma fetch_log_fetched:
  assumes "sqs_ok c" "i < length (ct_ppSQueue c)" "sq_at c i = Some q"
  shows "fetch_log (fetched i q c) = fetch_log c @ [fetch_at c i 0]"
proof -
  have "unat (q_head q) < unat (q_size q)" using assms by (auto simp: sqs_ok_def q_ok_def word_less_nat_alt)
  with assms(3) show ?thesis by (simp add: fetch_log_def fetched_def fetch_at_def)
qed

lemma pass_all_order:
  assumes "sqs_ok c" "set is \<subseteq> {..<length (ct_ppSQueue c)}" "distinct is"
    and "pass_all (\<lambda>q. True) is k c = Inr (m, c')"
  shows "fetch_log c' = fetch_log c @ map (\<lambda>i. fetch_at c i 0) (filter (\<lambda>i. 0 < items_at c i) is)
    \<and> (\<forall>j. items_at c' j = items_at c j - (if j \<in> set is then 1 else 0))
    \<and> (\<forall>j r. fetch_at c' j r = fetch_at c j (if j \<in> set is \<and> 0 < items_at c j then r + 1 else r))"
  using assms
proof (induction "is" arbitrary: k c)
  case (Cons i "is")
  have i: "i < length (ct_ppSQueue c)" "ct_ppSQueue c ! i = sq_at c i" using Cons.prems(2) by (auto simp: sq_at_def)
  show ?case
  proof (cases "0 < items_at c i")
    case True
    then obtain q where q: "sq_at c i = Some q" "0 < q_count q" by (auto simp: items_at_def split: option.splits)
    note f = fetched_ok[OF Cons.prems(1) i(1) q]
    have run: "pass_all (\<lambda>q. True) is (k + 1) (fetched i q c) = Inr (m, c')"
      using Cons.prems(4) i q checkQueue_ok[OF Cons.prems(1) i(1) q(1)] by simp
    have sub: "set is \<subseteq> {..<length (ct_ppSQueue (fetched i q c))}" using Cons.prems(2) by simp
    have notin: "i \<notin> set is" "distinct is" using Cons.prems(3) by auto
    have same: "items_at (fetched i q c) j = items_at c j" "fetch_at (fetched i q c) j 0 = fetch_at c j 0" if "j \<in> set is" for j
      using that notin f(2) fetch_at_fetched[OF Cons.prems(1) i(1) q(1)] by auto
    have flt: "map (\<lambda>i. fetch_at (fetched i' q' c) i 0) (filter (\<lambda>i. 0 < items_at (fetched i' q' c) i) is)
      = map (\<lambda>i. fetch_at c i 0) (filter (\<lambda>i. 0 < items_at c i) is)" if "i' = i" "q' = q" for i' q'
      using same that by (auto intro!: map_cong filter_cong)
    have "items_at c i = q_count q" using q(1) by (simp add: items_at_def)
    with Cons.IH[OF f(1) sub notin(2) run] True notin flt[OF refl refl] f(2)
      fetch_log_fetched[OF Cons.prems(1) i(1) q(1)] fetch_at_fetched[OF Cons.prems(1) i(1) q(1)]
    show ?thesis by auto
  next
    case False
    have "pass_all (\<lambda>q. True) is k c = Inr (m, c')"
    proof (cases "sq_at c i")
      case (Some q)
      with False Cons.prems(4) i checkQueue_ok[OF Cons.prems(1) i(1) Some] show ?thesis by (simp add: items_at_def)
    qed (use i Cons.prems(4) in simp)
    moreover have "set is \<subseteq> {..<length (ct_ppSQueue c)}" "distinct is" using Cons.prems(2,3) by auto
    ultimately show ?thesis using Cons.IH[OF Cons.prems(1), of k] False by auto
  qed
qed simp

lemma by_priority_True [simp]: "by_priority (\<lambda>q. True)"
  by (simp add: by_priority_def)

lemma rounds_order:
  assumes "sqs_ok c" "set is \<subseteq> {..<length (ct_ppSQueue c)}" "distinct is" "\<forall>i \<in> set is. items_at c i \<le> R"
    and "rounds fuel (\<lambda>q. True) is c = Some (Inr c')"
  shows "fetch_log c' = fetch_log c @ rr_order c is R"
  using assms(1,2,4,5)
proof (induction fuel arbitrary: c R)
  case (Suc fuel)
  obtain n c1 where p: "pass_all (\<lambda>q. True) is 0 c = Inr (n, c1)" "progress (\<lambda>q. True) is n c c1"
    "n = 0 \<longrightarrow> c1 = c \<and> drained (\<lambda>q. True) is c"
    using pass_all_ok[OF by_priority_True Suc.prems(1,2), of 0] by auto
  show ?case
  proof (cases "n = 0")
    case True
    then have "items_at c i = 0" if "i \<in> set is" for i
      using p(3) that by (auto simp: drained_def items_at_def split: option.splits)
    then have "rr_order c is R = []" by (auto simp: rr_order_def filter_empty_conv)
    with True p(1,3) Suc.prems(4) show ?thesis by simp
  next
    case False
    note o = pass_all_order[OF Suc.prems(1,2) assms(3) p(1)]
    have run: "rounds fuel (\<lambda>q. True) is c1 = Some (Inr c')" using Suc.prems(4) p(1) False by simp
    have c1: "sqs_ok c1" "set is \<subseteq> {..<length (ct_ppSQueue c1)}" using p(2) Suc.prems(2) by (auto simp: progress_def)
    have "\<exists>i \<in> set is. 0 < items_at c i"
    proof (rule ccontr)
      assume "\<not> ?thesis"
      then have "fetch_log c1 = fetch_log c" using o by (auto simp: filter_empty_conv)
      then have "length (ct_fetches c1) = length (ct_fetches c)" by (metis fetch_log_def length_map)
      with p(2) False show False by (simp add: progress_def)
    qed
    then obtain R' where R': "R = Suc R'" using Suc.prems(3) by (cases R) auto
    have "\<forall>i \<in> set is. items_at c1 i \<le> R'" using o Suc.prems(3) R' by auto
    from Suc.IH[OF c1 this run] have "fetch_log c' = fetch_log c1 @ rr_order c1 is R'" .
    moreover have "rr_order c is R = map (\<lambda>i. fetch_at c i 0) (filter (\<lambda>i. 0 < items_at c i) is) @ rr_order c1 is R'"
    proof -
      have "map (\<lambda>i. fetch_at c i (Suc r)) (filter (\<lambda>i. Suc r < items_at c i) is)
        = map (\<lambda>i. fetch_at c1 i r) (filter (\<lambda>i. r < items_at c1 i) is)" for r
        using o by (auto intro!: map_cong filter_cong)
      moreover have "[0..<Suc R'] = 0 # map Suc [0..<R']" by (simp add: map_Suc_upt upt_conv_Cons del: upt_Suc)
      ultimately show ?thesis by (simp add: rr_order_def R' comp_def del: upt_Suc)
    qed
    ultimately show ?thesis using o by simp
  qed
qed simp

section \<open>The weighted round robin\<close>

lemma progress_weaken: "progress P is n a b \<Longrightarrow> (\<And>q. P q \<Longrightarrow> P' q) \<Longrightarrow> progress P' is n a b"
  unfolding progress_def by blast

lemma drained_kept:
  assumes "drained P is a" "progress P' js n a b" "by_priority P" "\<And>i q. i \<in> set is \<Longrightarrow> sq_at a i = Some q \<Longrightarrow> P q \<Longrightarrow> \<not> P' q \<or> i \<notin> set js"
  shows "drained P is b"
  unfolding drained_def
proof (intro ballI allI impI, elim conjE)
  fix i q assume i: "i \<in> set is" "sq_at b i = Some q" "P q"
  then obtain q0 where q0: "sq_at a i = Some q0" "q_priority q = q_priority q0"
    using assms(2) unfolding progress_def by (cases "sq_at a i") (auto, metis option.inject option.distinct(1))
  have "P q0" using i(3) q0(2) assms(3) unfolding by_priority_def by metis
  then have "keeps i a b" using assms(2,4) q0(1) i(1) unfolding progress_def by (metis option.inject)
  then have "q = q0" using i(2) q0(1) by (simp add: keeps_def)
  with assms(1) i(1) q0(1) \<open>P q0\<close> show "q_count q = 0" by (simp add: drained_def)
qed

lemma collect_admin_ok:
  assumes "sqs_ok c" "0 < length (ct_ppSQueue c)" "sq_at c 0 = Some q" "items c < fuel"
  shows "\<exists>n c'. collect_admin fuel c = Some (Inr c') \<and> progress (\<lambda>q. True) [0] n c c' \<and> drained (\<lambda>q. True) [0] c'"
  using assms
proof (induction fuel arbitrary: c q)
  case (Suc fuel)
  have at: "ct_ppSQueue c ! 0 = Some q" using Suc.prems(3) by (simp add: sq_at_def)
  note ch = checkQueue_ok[OF Suc.prems(1-3)]
  show ?case
  proof (cases "0 < q_count q")
    case True
    note f = fetched_ok[OF Suc.prems(1-3) True]
    note p = progress_fetched[where P = "\<lambda>q. True" and ?is = "[0]", OF Suc.prems(1-3) True]
    have "items (fetched 0 q c) < fuel" using f(3) Suc.prems(4) by simp
    from Suc.IH[OF f(1) _ _ this] Suc.prems(2,3) obtain n c' where
      "collect_admin fuel (fetched 0 q c) = Some (Inr c')" "progress (\<lambda>q. True) [0] n (fetched 0 q c) c'"
      "drained (\<lambda>q. True) [0] c'" by (auto simp: fetched_at)
    with True ch at Suc.prems(2) progress_trans[OF by_priority_True p] show ?thesis by auto
  next
    case False
    with ch at Suc.prems show ?thesis
      by (intro exI[of _ 0] exI[of _ c]) (auto simp: progress_refl drained_def)
  qed
qed simp

abbreviation "hi_or_med \<equiv> \<lambda>q. q_priority q = PRIORITY_HIGH \<or> q_priority q = PRIORITY_MEDIUM"

lemma weighted_rounds_ok:
  assumes "sqs_ok c" "set is \<subseteq> {..<length (ct_ppSQueue c)}" "items c < fuel"
  shows "\<exists>n c'. weighted_rounds fuel high medium is u c = Some (Inr c') \<and> progress hi_or_med is n c c'
    \<and> drained hi_or_med is c'"
  using assms
proof (induction fuel arbitrary: u c)
  case (Suc fuel)
  let ?H = "\<lambda>q. q_priority q = PRIORITY_HIGH" and ?M = "\<lambda>q. q_priority q = PRIORITY_MEDIUM"
  have bp: "by_priority ?H" "by_priority ?M" "by_priority hi_or_med" by (simp_all add: by_priority_def)
  obtain u1 n1 c1 where p1: "pass_weighted ?H high is u 0 c = Inr (u1, 0 + n1, c1)" "progress ?H is n1 c c1"
    "n1 = 0 \<longrightarrow> c1 = c \<and> drained ?H is c"
    using pass_weighted_ok[OF bp(1) Suc.prems(1,2), of high u 0] by auto
  have c1: "sqs_ok c1" "set is \<subseteq> {..<length (ct_ppSQueue c1)}" using p1(2) Suc.prems(2) by (auto simp: progress_def)
  obtain u2 n2 c2 where p2: "pass_weighted ?M medium is u1 n1 c1 = Inr (u2, n1 + n2, c2)" "progress ?M is n2 c1 c2"
    "n2 = 0 \<longrightarrow> c2 = c1 \<and> drained ?M is c1"
    using pass_weighted_ok[OF bp(2) c1, of medium u1 n1] by auto
  have c2: "sqs_ok c2" "set is \<subseteq> {..<length (ct_ppSQueue c2)}" using p2(2) c1(2) by (auto simp: progress_def)
  obtain n3 c3 where p3: "pass_first ?M is (n1 + n2) c2 = Inr (n1 + n2 + n3, c3)" "progress ?M is n3 c2 c3"
    "n3 = 0 \<longrightarrow> c3 = c2"
    using pass_first_ok[OF c2, of ?M "n1 + n2"] by auto
  have prog: "progress hi_or_med is (n1 + n2 + n3) c c3"
    by (rule progress_trans[OF bp(3)], rule progress_trans[OF bp(3)])
       (use p1(2) p2(2) p3(2) in \<open>auto elim: progress_weaken\<close>)
  let ?n = "n1 + n2 + n3"
  show ?case
  proof (cases "?n = 0")
    case True
    with p1 p2 p3 have "drained hi_or_med is c3" by (auto simp: drained_def)
    with True prog p1(1) p2(1) p3(1) show ?thesis by auto
  next
    case False
    have "items c3 < fuel" "sqs_ok c3" "set is \<subseteq> {..<length (ct_ppSQueue c3)}"
      using prog False Suc.prems by (auto simp: progress_def)
    from Suc.IH[OF this(2,3,1)] obtain m c' where
      "weighted_rounds fuel high medium is u2 c3 = Some (Inr c')" "progress hi_or_med is m c3 c'"
      "drained hi_or_med is c'" by blast
    with False p1(1) p2(1) p3(1) progress_trans[OF bp(3) prog] show ?thesis by auto
  qed
qed simp

lemma weighted_collect:
  assumes "sqs_ok c" "ct_ready c" "ct_arbitration c = WEIGHTED_ROUND_ROBIN"
    "0 < length (ct_ppSQueue c)" "sq_at c 0 = Some q0" "items c < fuel"
  shows "\<exists>c1 c2 c' n1 n2 n3. collectSQueue fuel high medium c = Some (Inr c')
    \<and> progress (\<lambda>q. True) [0] n1 c c1 \<and> drained (\<lambda>q. True) [0] c1
    \<and> progress (\<lambda>q. q_priority q = PRIORITY_URGENT) [1..<length (ct_ppSQueue c)] n2 c1 c2
    \<and> drained (\<lambda>q. q_priority q = PRIORITY_URGENT) [1..<length (ct_ppSQueue c)] c2
    \<and> progress hi_or_med [1..<length (ct_ppSQueue c)] n3 c2 c'
    \<and> drained hi_or_med [1..<length (ct_ppSQueue c)] c'"
proof -
  let ?is = "[1..<length (ct_ppSQueue c)]"
  have bp: "by_priority (\<lambda>q. q_priority q = PRIORITY_URGENT)" by (simp add: by_priority_def)
  obtain n1 c1 where a: "collect_admin fuel c = Some (Inr c1)" "progress (\<lambda>q. True) [0] n1 c c1"
    "drained (\<lambda>q. True) [0] c1"
    using collect_admin_ok[OF assms(1,4,5,6)] by blast
  have c1: "sqs_ok c1" "set ?is \<subseteq> {..<length (ct_ppSQueue c1)}" "items c1 < fuel"
    using a(2) assms(6) by (auto simp: progress_def)
  obtain n2 c2 where b: "rounds fuel (\<lambda>q. q_priority q = PRIORITY_URGENT) ?is c1 = Some (Inr c2)"
    "progress (\<lambda>q. q_priority q = PRIORITY_URGENT) ?is n2 c1 c2"
    "drained (\<lambda>q. q_priority q = PRIORITY_URGENT) ?is c2"
    using rounds_ok[OF bp c1] by blast
  have c2: "sqs_ok c2" "set ?is \<subseteq> {..<length (ct_ppSQueue c2)}" "items c2 < fuel"
    using b(2) c1 by (auto simp: progress_def)
  obtain n3 c' where d: "weighted_rounds fuel high medium ?is 0 c2 = Some (Inr c')"
    "progress hi_or_med ?is n3 c2 c'" "drained hi_or_med ?is c'"
    using weighted_rounds_ok[OF c2] by blast
  have "collectSQueue fuel high medium c = Some (Inr c')"
    using assms(2,3) a(1) b(1) d(1) by (simp add: collectSQueue_def Let_def)
  with a b d show ?thesis by blast
qed

section \<open>The completion FIFO\<close>

lemma insert_completion_set: "set (insert_completion e xs) = insert e (set xs)"
  by (induction xs) auto

lemma insert_completion_sorted:
  "sorted (map cqw_submitAt xs) \<Longrightarrow> sorted (map cqw_submitAt (insert_completion e xs))"
  by (induction xs) (auto simp: insert_completion_set)

text \<open>Entries of the same tick stay in the order of their submission.\<close>

lemma insert_completion_stable:
  assumes "sorted (map cqw_submitAt xs)"
  shows "insert_completion e xs
    = filter (\<lambda>x. cqw_submitAt x \<le> cqw_submitAt e) xs @ e # filter (\<lambda>x. \<not> cqw_submitAt x \<le> cqw_submitAt e) xs"
  using assms
proof (induction xs)
  case (Cons x xs)
  show ?case
  proof (cases "cqw_submitAt e < cqw_submitAt x")
    case True
    with Cons.prems have "\<forall>y \<in> set (x # xs). \<not> cqw_submitAt y \<le> cqw_submitAt e" by auto
    then have "filter (\<lambda>x. cqw_submitAt x \<le> cqw_submitAt e) (x # xs) = []"
      "filter (\<lambda>x. \<not> cqw_submitAt x \<le> cqw_submitAt e) (x # xs) = x # xs"
      by (auto simp: filter_empty_conv filter_id_conv)
    with True show ?thesis by simp
  qed (use Cons in auto)
qed simp

definition post_log :: "posting \<Rightarrow> (16 word \<times> 16 word) list" where
  "post_log p = map (\<lambda>(q, off, e). (q, cqe_commandID e)) (po_posts p)"

text \<open>Whether the interrupt of a vector is still going to come: it is signalled now, or the vector's
  timer is running.\<close>

definition signalled :: "posting \<Rightarrow> controller \<Rightarrow> 16 word \<Rightarrow> bool" where
  "signalled p c iv \<longleftrightarrow> iv \<in> set (po_ivs p)
     \<or> (\<exists>a. map_of (ct_aggregationMap c) iv = Some a \<and> ag_valid a \<and> ag_pending a)"

lemma map_of_assign: "map_of (map_assign k f m) k' = (if k' = k then map_option f (map_of m k) else map_of m k')"
  by (induction k f m rule: map_assign.induct) auto

lemma coalesce_ok:
  "coalesce tick e iv c = (post, c') \<Longrightarrow>
   ct_ppCQueue c' = ct_ppCQueue c \<and> ct_lCQFIFO c' = ct_lCQFIFO c
   \<and> (post \<or> (\<exists>a. map_of (ct_aggregationMap c') iv = Some a \<and> ag_valid a \<and> ag_pending a))
   \<and> (\<forall>v a. map_of (ct_aggregationMap c) v = Some a \<and> ag_valid a \<and> ag_pending a
        \<longrightarrow> (\<exists>a'. map_of (ct_aggregationMap c') v = Some a' \<and> ag_valid a' \<and> ag_pending a'))"
  by (auto simp: coalesce_def Let_def map_of_assign split: if_splits option.splits)

lemma setData_commandID:
  "CQueue_setData (Some e) q = Inr (req, q') \<Longrightarrow>
   (\<exists>off e'. req = Some (off, e') \<and> cqe_commandID e' = cqe_commandID e)
   \<and> q_ien q' = q_ien q \<and> q_interruptVector q' = q_interruptVector q"
  by (auto simp: CQueue_setData_def Let_def split: if_splits)

lemma post_entry_ok:
  assumes "post_entry tick e (p, c) = Inr (p', c')"
  shows "post_log p' = post_log p @ [(cqw_cqID e, cqe_commandID (cqw_entry e))]
    \<and> ct_lCQFIFO c' = ct_lCQFIFO c
    \<and> (\<forall>iv. signalled p c iv \<longrightarrow> signalled p' c' iv)
    \<and> (\<exists>q. ct_ppCQueue c ! unat (cqw_cqID e) = Some q \<and> (q_ien q \<longrightarrow> signalled p' c' (q_interruptVector q)))
    \<and> (\<forall>i q'. ct_ppCQueue c' ! i = Some q' \<longrightarrow> (\<exists>q. ct_ppCQueue c ! i = Some q \<and> q_ien q' = q_ien q
         \<and> q_interruptVector q' = q_interruptVector q))"
proof -
  obtain q req q' where run: "unat (cqw_cqID e) < length (ct_ppCQueue c)" "ct_ppCQueue c ! unat (cqw_cqID e) = Some q"
    "CQueue_setData (Some (cqw_entry e)) q = Inr (req, q')"
    using assms by (auto simp: post_entry_def res_simps)
  note sd = setData_commandID[OF run(3)]
  obtain off e' where req: "req = Some (off, e')" "cqe_commandID e' = cqe_commandID (cqw_entry e)" using sd by blast
  let ?c1 = "c\<lparr>ct_ppCQueue := (ct_ppCQueue c)[unat (cqw_cqID e) := Some q']\<rparr>"
  let ?p1 = "p\<lparr>po_posts := po_posts p @ [(cqw_cqID e, off, e')]\<rparr>"
  obtain post c2 where co: "coalesce tick e (q_interruptVector q') ?c1 = (post, c2)" by (cases "coalesce tick e (q_interruptVector q') ?c1")
  note k = coalesce_ok[OF co]
  have res: "(p', c') = (if q_ien q' then (if post then ?p1\<lparr>po_ivs := po_ivs ?p1 @ [q_interruptVector q']\<rparr> else ?p1, c2) else (?p1, ?c1))"
    using assms run req(1) co by (simp add: post_entry_def Let_def split: if_splits)
  have log: "post_log p' = post_log p @ [(cqw_cqID e, cqe_commandID (cqw_entry e))]"
    using res req(2) by (auto simp: post_log_def split: if_splits)
  have ivs: "set (po_ivs p) \<subseteq> set (po_ivs p')" using res by (auto split: if_splits)
  have sig: "signalled p' c' iv" if "signalled p c iv" for iv
    using that ivs k res unfolding signalled_def by (auto split: if_splits)
  have own: "q_ien q \<longrightarrow> signalled p' c' (q_interruptVector q)"
    using k res sd by (auto simp: signalled_def split: if_splits)
  have cqs: "ct_ppCQueue c' = (ct_ppCQueue c)[unat (cqw_cqID e) := Some q']" "ct_lCQFIFO c' = ct_lCQFIFO c"
    using res k by (auto split: if_splits)
  have "\<exists>q''. ct_ppCQueue c ! i = Some q'' \<and> q_ien q0 = q_ien q'' \<and> q_interruptVector q0 = q_interruptVector q''"
    if "ct_ppCQueue c' ! i = Some q0" for i q0
    using that run(1,2) sd by (cases "i = unat (cqw_cqID e)") (auto simp: cqs)
  with log cqs(2) sig own run(2) show ?thesis by blast
qed

lemma post_entries_ok:
  assumes "rfold (post_entry tick) es (p, c) = Inr (p', c')"
  shows "post_log p' = post_log p @ map (\<lambda>e. (cqw_cqID e, cqe_commandID (cqw_entry e))) es
    \<and> ct_lCQFIFO c' = ct_lCQFIFO c
    \<and> (\<forall>iv. signalled p c iv \<longrightarrow> signalled p' c' iv)
    \<and> (\<forall>e \<in> set es. \<exists>q. ct_ppCQueue c ! unat (cqw_cqID e) = Some q \<and> (q_ien q \<longrightarrow> signalled p' c' (q_interruptVector q)))"
  using assms
proof (induction es arbitrary: p c)
  case (Cons e es)
  then obtain p1 c1 where s: "post_entry tick e (p, c) = Inr (p1, c1)" "rfold (post_entry tick) es (p1, c1) = Inr (p', c')"
    by (auto simp: res_simps)
  note a = post_entry_ok[OF s(1)] and b = Cons.IH[OF s(2)]
  have "\<exists>q. ct_ppCQueue c ! unat (cqw_cqID x) = Some q \<and> (q_ien q \<longrightarrow> signalled p' c' (q_interruptVector q))"
    if x: "x \<in> set es" for x
  proof -
    obtain q1 where q1: "ct_ppCQueue c1 ! unat (cqw_cqID x) = Some q1" "q_ien q1 \<longrightarrow> signalled p' c' (q_interruptVector q1)"
      using b x by blast
    with a obtain q where "ct_ppCQueue c ! unat (cqw_cqID x) = Some q" "q_ien q1 = q_ien q"
      "q_interruptVector q1 = q_interruptVector q" by blast
    with q1(2) show ?thesis by auto
  qed
  with a b show ?case by auto
qed simp

section \<open>Properties\<close>

text \<open>C12: round robin arbitration. Collecting with the round robin method terminates (one round
  more than there are items is enough), leaves every submission queue empty, and has read every
  pending entry once: first the first entry of each queue that has one, in the order of the queue
  numbers, then the second ones, and so on, so that a queue waits for at most one entry of every
  other queue.\<close>

theorem round_robin_collects_in_turn:
  assumes "sqs_ok c" and "ct_ready c" and "ct_arbitration c = ROUND_ROBIN" and "items c < fuel"
  shows "\<exists>c'. collectSQueue fuel high medium c = Some (Inr c') \<and> items c' = 0
    \<and> fetch_log c' = fetch_log c @ rr_order c [0..<length (ct_ppSQueue c)] (items c)"
proof -
  let ?is = "[0..<length (ct_ppSQueue c)]"
  have sub: "set ?is \<subseteq> {..<length (ct_ppSQueue c)}" by auto
  obtain n c' where r: "rounds fuel (\<lambda>q. True) ?is c = Some (Inr c')" "progress (\<lambda>q. True) ?is n c c'"
    "drained (\<lambda>q. True) ?is c'"
    using rounds_ok[OF by_priority_True assms(1) sub assms(4)] by blast
  have "\<forall>i \<in> set ?is. items_at c i \<le> items c"
    unfolding items_def by (auto intro!: member_le_sum)
  from rounds_order[OF assms(1) sub _ this r(1)]
  have "fetch_log c' = fetch_log c @ rr_order c ?is (items c)" by simp
  moreover have "items c' = 0"
    using r(2,3) by (auto simp: items_def items_at_def drained_def progress_def split: option.splits)
  ultimately show ?thesis using assms(2,3) r(1) by (simp add: collectSQueue_def)
qed

text \<open>A controller with an admin and a second submission queue, two entries in the first and one in
  the second.\<close>

definition example_controller :: "arbitration \<Rightarrow> 8 word \<Rightarrow> controller" where
  "example_controller arb prio = \<lparr>ct_ready = True, ct_arbitration = arb, ct_sqstride = 64, ct_cqstride = 16,
     ct_ppCQueue = [Some (setBase 16 (CQueue_new 0 True 0 8)), Some (setBase 16 (CQueue_new 1 True 1 8))],
     ct_ppSQueue = [Some (setBase 64 (SQueue_new 0 0 0 8)\<lparr>q_tail := 2\<rparr>),
                    Some (setBase 64 (SQueue_new 1 prio 1 8)\<lparr>q_tail := 1\<rparr>)],
     ct_lSQFIFO = [], ct_lCQFIFO = [], ct_aggregationTime = 0, ct_aggregationThreshold = 0,
     ct_aggregationMap = [], ct_requestCounter = 0, ct_maxRequest = 1, ct_requestInterval = 1,
     ct_workInterval = 1, ct_lastWorkAt = 0, ct_shutdownReserved = False, ct_workEvent = None,
     ct_requestEvent = None, ct_completionEvent = None, ct_fetches = [], ct_interrupts = []\<rparr>"

lemma example_controller_sqs:
  "ct_ppSQueue (example_controller arb prio) = [Some (setBase 64 (SQueue_new 0 0 0 8)\<lparr>q_tail := 2\<rparr>),
     Some (setBase 64 (SQueue_new 1 prio 1 8)\<lparr>q_tail := 1\<rparr>)]"
  by (simp add: example_controller_def)

lemma example_queues_ok:
  "q_ok (setBase 64 (SQueue_new 0 0 0 8)\<lparr>q_tail := 2\<rparr>)" "q_count (setBase 64 (SQueue_new 0 0 0 8)\<lparr>q_tail := 2\<rparr>) = 2"
  "q_ok (setBase 64 (SQueue_new 1 prio 1 8)\<lparr>q_tail := 1\<rparr>)" "q_count (setBase 64 (SQueue_new 1 prio 1 8)\<lparr>q_tail := 1\<rparr>) = 1"
  by (simp_all add: q_ok_def q_count_def setBase_def SQueue_new_def word_less_nat_alt)

lemma example_controller_ok:
  "sqs_ok (example_controller arb prio)" "items (example_controller arb prio) = 3"
  "sq_at (example_controller arb prio) 0 = Some (setBase 64 (SQueue_new 0 0 0 8)\<lparr>q_tail := 2\<rparr>)"
  "sq_at (example_controller arb prio) 1 = Some (setBase 64 (SQueue_new 1 prio 1 8)\<lparr>q_tail := 1\<rparr>)"
  "length (ct_ppSQueue (example_controller arb prio)) = 2"
proof -
  let ?c = "example_controller arb prio"
  show l: "length (ct_ppSQueue ?c) = 2" by (simp add: example_controller_sqs)
  show a: "sq_at ?c 0 = Some (setBase 64 (SQueue_new 0 0 0 8)\<lparr>q_tail := 2\<rparr>)"
    by (simp add: sq_at_def example_controller_sqs)
  show b: "sq_at ?c 1 = Some (setBase 64 (SQueue_new 1 prio 1 8)\<lparr>q_tail := 1\<rparr>)"
    by (simp add: sq_at_def example_controller_sqs)
  have lt: "i < 2 \<Longrightarrow> i = 0 \<or> i = 1" for i :: nat by auto
  show "sqs_ok ?c" unfolding sqs_ok_def l using a b example_queues_ok(1,3) lt by fastforce
  have "{..<2} = {0, 1 :: nat}" by auto
  then have "items ?c = items_at ?c 0 + items_at ?c 1" unfolding items_def l by simp
  also have "\<dots> = 3" unfolding items_at_def a b option.case example_queues_ok by simp
  finally show "items ?c = 3" .
qed

theorem round_robin_collects_in_turn_witness:
  "\<exists>c'. collectSQueue 4 1 1 (example_controller ROUND_ROBIN 2) = Some (Inr c') \<and> items c' = 0
    \<and> fetch_log c' = [(0, 0), (1, 0), (0, 64)]"
proof -
  let ?c = "example_controller ROUND_ROBIN 2"
  have "rr_order ?c [0..<length (ct_ppSQueue ?c)] (items ?c) = [(0, 0), (1, 0), (0, 64)]"
    unfolding example_controller_ok(2) by code_simp
  moreover have "fetch_log ?c = []" by (simp add: fetch_log_def example_controller_def)
  moreover have c: "ct_ready ?c" "ct_arbitration ?c = ROUND_ROBIN" "items ?c < 4"
    by (simp_all add: example_controller_ok(2)) (simp_all add: example_controller_def)
  ultimately show ?thesis
    using round_robin_collects_in_turn[OF example_controller_ok(1) c, of 1 1] by (metis append_Nil)
qed

text \<open>C13: weighted round robin arbitration. Collecting terminates (one round more than there are
  items is enough for each of its loops) and leaves the admin queue and all queues of urgent, high
  and medium priority empty.\<close>

theorem weighted_arbitration_drains:
  assumes "sqs_ok c" and "ct_ready c" and "ct_arbitration c = WEIGHTED_ROUND_ROBIN"
    and "0 < length (ct_ppSQueue c)" and "sq_at c 0 = Some q0" and "items c < fuel"
  shows "\<exists>c'. collectSQueue fuel high medium c = Some (Inr c') \<and> sqs_ok c' \<and> items_at c' 0 = 0
    \<and> (\<forall>i q. 0 < i \<and> i < length (ct_ppSQueue c) \<and> sq_at c i = Some q
         \<and> q_priority q \<in> {PRIORITY_URGENT, PRIORITY_HIGH, PRIORITY_MEDIUM} \<longrightarrow> items_at c' i = 0)"
proof -
  let ?is = "[1..<length (ct_ppSQueue c)]" and ?U = "\<lambda>q. q_priority q = PRIORITY_URGENT"
  obtain c1 c2 c' n1 n2 n3 where w: "collectSQueue fuel high medium c = Some (Inr c')"
    "progress (\<lambda>q. True) [0] n1 c c1" "drained (\<lambda>q. True) [0] c1"
    "progress ?U ?is n2 c1 c2" "drained ?U ?is c2"
    "progress hi_or_med ?is n3 c2 c'" "drained hi_or_med ?is c'"
    using weighted_collect[OF assms] by blast
  have bp: "by_priority ?U" "by_priority (\<lambda>q. True)" by (simp_all add: by_priority_def)
  have u: "drained ?U ?is c'"
    by (rule drained_kept[OF w(5,6) bp(1)])
       (auto simp: PRIORITY_URGENT_def PRIORITY_HIGH_def PRIORITY_MEDIUM_def)
  have "drained (\<lambda>q. True) [0] c2" by (rule drained_kept[OF w(3,4) bp(2)]) auto
  then have a0: "drained (\<lambda>q. True) [0] c'" by (rule drained_kept[OF _ w(6) bp(2)]) auto
  have pr: "\<exists>q'. sq_at c' i = Some q' \<and> q_priority q' = q_priority q" if "sq_at c i = Some q" for i q
    using that w(2,4,6) unfolding progress_def by metis
  have emp: "items_at c' i = 0"
    if h: "drained P is c'" "i \<in> set is" "sq_at c i = Some q" "\<And>q'. q_priority q' = q_priority q \<Longrightarrow> P q'" for P "is" i q
  proof -
    obtain q' where "sq_at c' i = Some q'" "q_priority q' = q_priority q" using pr[OF h(3)] by blast
    with h(1,2,4) show ?thesis unfolding drained_def items_at_def by auto
  qed
  moreover have "sqs_ok c'" using w(6) unfolding progress_def by blast
  moreover have "items_at c' 0 = 0" by (rule emp[OF a0 _ assms(5)]) auto
  moreover have "items_at c' i = 0" if i: "0 < i" "i < length (ct_ppSQueue c)" "sq_at c i = Some q"
      "q_priority q \<in> {PRIORITY_URGENT, PRIORITY_HIGH, PRIORITY_MEDIUM}" for i q
  proof (cases "q_priority q = PRIORITY_URGENT")
    case True
    then show ?thesis by (intro emp[OF u _ i(3)]) (use i in auto)
  next
    case False
    then show ?thesis by (intro emp[OF w(7) _ i(3)]) (use i in auto)
  qed
  ultimately show ?thesis using w(1) by blast
qed

theorem weighted_arbitration_drains_witness:
  "\<exists>c'. collectSQueue 4 1 1 (example_controller WEIGHTED_ROUND_ROBIN 2) = Some (Inr c')
    \<and> items_at c' 0 = 0 \<and> items_at c' 1 = 0"
proof -
  let ?c = "example_controller WEIGHTED_ROUND_ROBIN 2"
  have c: "ct_ready ?c" "ct_arbitration ?c = WEIGHTED_ROUND_ROBIN" "0 < length (ct_ppSQueue ?c)" "items ?c < 4"
    by (simp_all add: example_controller_ok(2,5)) (simp_all add: example_controller_def)
  have "q_priority (setBase 64 (SQueue_new 1 2 1 8)\<lparr>q_tail := 1\<rparr>) = PRIORITY_MEDIUM"
    by (simp add: setBase_def SQueue_new_def PRIORITY_MEDIUM_def)
  moreover have "0 < (1 :: nat)" "1 < length (ct_ppSQueue ?c)" by (simp_all add: example_controller_ok(5))
  moreover obtain c' where c': "collectSQueue 4 1 1 ?c = Some (Inr c')" "items_at c' 0 = 0"
    "\<forall>i q. 0 < i \<and> i < length (ct_ppSQueue ?c) \<and> sq_at ?c i = Some q
       \<and> q_priority q \<in> {PRIORITY_URGENT, PRIORITY_HIGH, PRIORITY_MEDIUM} \<longrightarrow> items_at c' i = 0"
    using weighted_arbitration_drains[OF example_controller_ok(1) c(1-3) example_controller_ok(3) c(4), of 1 1] by blast
  ultimately have "items_at c' 1 = 0" using example_controller_ok(4) by blast
  with c' show ?thesis by blast
qed

text \<open>The pass that is meant for the low priority tests for the medium one. With the weighted
  round robin method no entry of a low-priority submission queue is ever read, however long its
  commands wait: collecting leaves such a queue exactly as it was.\<close>

lemma low_priority_never_served:
  assumes "sqs_ok c" and "ct_ready c" and "ct_arbitration c = WEIGHTED_ROUND_ROBIN"
    and "0 < length (ct_ppSQueue c)" and "sq_at c 0 = Some q0" and "items c < fuel"
    and "0 < i" and "sq_at c i = Some q" and "q_priority q = PRIORITY_LOW"
  shows "\<exists>c'. collectSQueue fuel high medium c = Some (Inr c') \<and> sq_at c' i = Some q
    \<and> (\<exists>fs. ct_fetches c' = ct_fetches c @ fs \<and> (\<forall>f \<in> set fs. fe_queue f \<noteq> i))"
proof -
  obtain c1 c2 c' n1 n2 n3 where w: "collectSQueue fuel high medium c = Some (Inr c')"
    "progress (\<lambda>q. True) [0] n1 c c1"
    "progress (\<lambda>q. q_priority q = PRIORITY_URGENT) [1..<length (ct_ppSQueue c)] n2 c1 c2"
    "progress hi_or_med [1..<length (ct_ppSQueue c)] n3 c2 c'"
    using weighted_collect[OF assms(1-6)] by blast
  have low: "q_priority q \<noteq> PRIORITY_URGENT \<and> q_priority q \<noteq> PRIORITY_HIGH \<and> q_priority q \<noteq> PRIORITY_MEDIUM"
    using assms(9) by (simp add: PRIORITY_URGENT_def PRIORITY_HIGH_def PRIORITY_MEDIUM_def PRIORITY_LOW_def)
  have k1: "keeps i c c1" using w(2) assms(7) unfolding progress_def by auto
  then have "sq_at c1 i = Some q" using assms(8) by (simp add: keeps_def)
  with w(3) low have k2: "keeps i c1 c2" unfolding progress_def by auto
  then have "sq_at c2 i = Some q" using \<open>sq_at c1 i = Some q\<close> by (simp add: keeps_def)
  with w(4) low have k3: "keeps i c2 c'" unfolding progress_def by auto
  from keeps_trans[OF keeps_trans[OF k1 k2] k3] w(1) assms(8) show ?thesis
    unfolding keeps_def by auto
qed

lemma low_priority_never_served_example:
  "\<exists>c'. collectSQueue 4 1 1 (example_controller WEIGHTED_ROUND_ROBIN 3) = Some (Inr c')
    \<and> sq_at c' 1 = sq_at (example_controller WEIGHTED_ROUND_ROBIN 3) 1
    \<and> items_at (example_controller WEIGHTED_ROUND_ROBIN 3) 1 = 1"
proof -
  let ?c = "example_controller WEIGHTED_ROUND_ROBIN 3"
  have c: "ct_ready ?c" "ct_arbitration ?c = WEIGHTED_ROUND_ROBIN" "0 < length (ct_ppSQueue ?c)" "items ?c < 4"
    "0 < (1 :: nat)"
    by (simp_all add: example_controller_ok(2,5)) (simp_all add: example_controller_def)
  have "q_priority (setBase 64 (SQueue_new 1 3 1 8)\<lparr>q_tail := 1\<rparr>) = PRIORITY_LOW"
    by (simp add: setBase_def SQueue_new_def PRIORITY_LOW_def)
  from low_priority_never_served[OF example_controller_ok(1) c(1-3) example_controller_ok(3) c(4,5)
      example_controller_ok(4) this, of 1 1]
  obtain c' where c': "collectSQueue 4 1 1 ?c = Some (Inr c')"
    "sq_at c' 1 = Some (setBase 64 (SQueue_new 1 3 1 8)\<lparr>q_tail := 1\<rparr>)" by blast
  moreover have "items_at ?c 1 = 1"
    unfolding items_at_def example_controller_ok(4) option.case by (rule example_queues_ok(4))
  ultimately show ?thesis by (auto simp: example_controller_ok(4)[simplified])
qed

text \<open>C14: completion. From a FIFO in the order of the submission ticks (which \<^verbatim>\<open>submit\<close> keeps), exactly
  the entries that are due are posted, in their order, each to its completion queue; the later
  ones stay. For every posted entry of a queue with interrupts enabled the interrupt is signalled
  now, or its vector is left with a running aggregation timer: coalescing delays interrupts and
  does not drop them here.\<close>

theorem completion_posts_due_entries:
  assumes "completion tick c = Inr (po, c')"
  shows "ct_lCQFIFO c' = filter (\<lambda>e. \<not> cqw_submitAt e \<le> tick) (ct_lCQFIFO c)
    \<and> (\<forall>p. po = Some p \<longrightarrow>
        post_log p = map (\<lambda>e. (cqw_cqID e, cqe_commandID (cqw_entry e)))
          (filter (\<lambda>e. cqw_submitAt e \<le> tick) (ct_lCQFIFO c))
      \<and> (\<forall>e \<in> set (ct_lCQFIFO c). \<forall>q. cqw_submitAt e \<le> tick
            \<and> ct_ppCQueue c ! unat (cqw_cqID e) = Some q \<and> q_ien q
          \<longrightarrow> signalled p c' (q_interruptVector q)))"
proof -
  let ?due = "filter (\<lambda>e. cqw_submitAt e \<le> tick) (ct_lCQFIFO c)"
  let ?c = "c\<lparr>ct_lCQFIFO := filter (\<lambda>e. \<not> cqw_submitAt e \<le> tick) (ct_lCQFIFO c), ct_completionEvent := None\<rparr>"
  obtain p1 c1 where r: "rfold (post_entry tick) ?due (\<lparr>po_posts = [], po_ivs = []\<rparr>, ?c) = Inr (p1, c1)"
    using assms by (auto simp: completion_def Let_def res_simps)
  obtain p2 c2 where x: "expire_aggregation tick (p1, c1) = (p2, c2)" by (cases "expire_aggregation tick (p1, c1)")
  have res: "po = (if length ?due = 0 then None else Some p2)" "c' = c2"
    using assms r x by (auto simp: completion_def Let_def)
  note o = post_entries_ok[OF r]
  have ex: "po_posts p2 = po_posts p1" "ct_lCQFIFO c2 = ct_lCQFIFO c1" "set (po_ivs p1) \<subseteq> set (po_ivs p2)"
    using x by (auto simp: expire_aggregation_def Let_def)
  have sig: "signalled p2 c2 iv" if "signalled p1 c1 iv" for iv
  proof (cases "iv \<in> set (po_ivs p1)")
    case True
    with ex(3) show ?thesis by (auto simp: signalled_def)
  next
    case False
    with that obtain a where a: "map_of (ct_aggregationMap c1) iv = Some a" "ag_valid a" "ag_pending a"
      by (auto simp: signalled_def)
    show ?thesis
    proof (cases "ag_nextTime a \<le> tick")
      case True
      have "iv \<in> set (po_ivs p2)"
        using x a True map_of_SomeD[OF a(1)] by (force simp: expire_aggregation_def Let_def)
      then show ?thesis by (simp add: signalled_def)
    next
      case False
      have "map_of (ct_aggregationMap c2) iv = Some a"
        using x a False by (auto simp: expire_aggregation_def Let_def map_of_map)
      with a show ?thesis by (auto simp: signalled_def)
    qed
  qed
  show ?thesis
    using o res ex sig by (auto simp: post_log_def)
qed

definition example_completion :: "nat \<Rightarrow> 16 word \<Rightarrow> CQEntryWrapper" where
  "example_completion t cid = \<lparr>cqw_entry = CQEntry_new\<lparr>cqe_sqID := 1, cqe_commandID := cid\<rparr>,
     cqw_submitAt = t, cqw_cqID = 1, cqw_sqUID = 0\<rparr>"

theorem completion_posts_due_entries_witness:
  "\<exists>p c'. completion 10 ((example_controller ROUND_ROBIN 2)\<lparr>ct_lCQFIFO := [example_completion 5 7, example_completion 20 8]\<rparr>)
      = Inr (Some p, c') \<and> ct_lCQFIFO c' = [example_completion 20 8] \<and> post_log p = [(1, 7)]"
proof -
  let ?c = "(example_controller ROUND_ROBIN 2)\<lparr>ct_lCQFIFO := [example_completion 5 7, example_completion 20 8]\<rparr>"
  have "case completion 10 ?c of Inr (Some p, c') \<Rightarrow> True | _ \<Rightarrow> False" by code_simp
  then obtain p c' where r: "completion 10 ?c = Inr (Some p, c')"
    by (auto split: sum.splits prod.splits option.splits)
  from completion_posts_due_entries[OF r] r show ?thesis
    by (auto simp: example_completion_def)
qed

text \<open>C15: an aggregated interrupt can be lost. When the timer of an interrupt vector runs out and no
  new completion is due at that tick, the vector is marked as signalled (its request count and
  its pending flag are reset), but its interrupt is not signalled: the list of vectors is
  deleted, because no transfer was started that would deliver it.\<close>

theorem aggregation_timeout_loses_interrupt:
  assumes "\<forall>e \<in> set (ct_lCQFIFO c). tick < cqw_submitAt e"
    and "map_of (ct_aggregationMap c) iv = Some a" and "ag_valid a" and "ag_pending a" and "ag_nextTime a \<le> tick"
  shows "\<exists>c' a'. completion tick c = Inr (None, c') \<and> ct_interrupts c' = ct_interrupts c
    \<and> map_of (ct_aggregationMap c') iv = Some a' \<and> \<not> ag_pending a' \<and> ag_requestCount a' = 0"
proof -
  have "filter (\<lambda>e. cqw_submitAt e \<le> tick) (ct_lCQFIFO c) = []"
    using assms(1) by (auto simp: filter_empty_conv not_le)
  then show ?thesis using assms(2-5)
    by (auto simp: completion_def Let_def expire_aggregation_def map_of_map)
qed

definition example_pending :: AggregationInfo where
  "example_pending = \<lparr>ag_nextTime = 9, ag_requestCount = 1, ag_valid = True, ag_pending = True\<rparr>"

theorem aggregation_timeout_loses_interrupt_witness:
  "\<exists>c'. completion 10 ((example_controller ROUND_ROBIN 2)\<lparr>ct_aggregationMap := [(1, example_pending)]\<rparr>)
      = Inr (None, c') \<and> ct_interrupts c' = []"
  using aggregation_timeout_loses_interrupt[where c = "(example_controller ROUND_ROBIN 2)\<lparr>ct_aggregationMap := [(1, example_pending)]\<rparr>"
      and tick = 10 and iv = 1 and a = example_pending]
  by (auto simp: example_controller_def example_pending_def)

text \<open>Every second element.\<close>

fun second_of :: "'a list \<Rightarrow> 'a list" where
  "second_of (x # y # zs) = y # second_of zs"
| "second_of _ = []"

lemma abort_loop_skips:
  assumes "\<forall>w \<in> set ws. P w" and "\<And>w c. w \<in> set ws \<Longrightarrow> I c \<Longrightarrow> \<exists>c'. act w c = Inr c' \<and> I c'" and "I c"
  shows "if even (length ws) then \<exists>c'. abort_loop P act ws c = Inr (second_of ws, c') \<and> I c'
         else abort_loop P act ws c = Inl OutOfBounds"
  using assms
proof (induction P act ws c rule: abort_loop.induct)
  case (2 P act w c)
  then obtain c' where "act w c = Inr c'" by auto
  with 2 show ?case by simp
next
  case (3 P act w x ws c)
  obtain c' where c': "act w c = Inr c'" "I c'" using 3(4)[of w c] 3(5) by auto
  have "P w" using 3(3) by simp
  have "if even (length ws) then \<exists>c''. abort_loop P act ws c' = Inr (second_of ws, c'') \<and> I c''
        else abort_loop P act ws c' = Inl OutOfBounds"
    by (rule 3(1)[OF \<open>P w\<close>]) (use 3(3,4) c' in auto)
  with \<open>P w\<close> c'(1) show ?case by (cases "even (length ws)") auto
qed simp

lemma reserveCompletion_queues [simp]:
  "ct_ppCQueue (reserveCompletion c) = ct_ppCQueue c" "ct_ppSQueue (reserveCompletion c) = ct_ppSQueue c"
  by (simp_all add: reserveCompletion_def Let_def split: option.splits)

lemma submit_ok:
  assumes "unat (cqw_cqID e) < length (ct_ppCQueue c)" "ct_ppCQueue c ! unat (cqw_cqID e) \<noteq> None"
  shows "\<exists>c'. submit now e c = Inr c' \<and> ct_ppCQueue c' = ct_ppCQueue c \<and> ct_ppSQueue c' = ct_ppSQueue c"
  using assms by (simp add: submit_def)

text \<open>C16: deleting a submission queue that has commands in the FIFO. The loop erases a command,
  takes the iterator that \<^verbatim>\<open>erase\<close> returns and moves it once more. When the FIFO holds commands of
  this queue only, every second one of them is not aborted and stays in the FIFO although its
  queue is gone; and with an odd number of them, one for example, the iterator is moved past the
  end of the list, which is not defined.\<close>

theorem deleteSQueue_skips_commands:
  assumes "sqid < length (ct_ppSQueue c)" and "ct_ppSQueue c ! sqid = Some q" and "0 < sqid"
    and "\<forall>w \<in> set (ct_lSQFIFO c). sqw_sqID w = of_nat sqid \<and> unat (sqw_cqID w) < length (ct_ppCQueue c)
           \<and> ct_ppCQueue c ! unat (sqw_cqID w) \<noteq> None"
  shows "if even (length (ct_lSQFIFO c))
         then \<exists>c'. deleteSQueue now sqid c = Inr (0, c') \<and> ct_ppSQueue c' ! sqid = None
                \<and> ct_lSQFIFO c' = second_of (ct_lSQFIFO c)
         else deleteSQueue now sqid c = Inl OutOfBounds"
proof -
  let ?P = "\<lambda>w. sqw_sqID w = of_nat sqid"
  let ?act = "\<lambda>w c. submit now (abort_response (q_head q) status_sq_deleted w) c"
  let ?I = "\<lambda>c'. ct_ppCQueue c' = ct_ppCQueue c \<and> ct_ppSQueue c' = ct_ppSQueue c"
  have act: "\<exists>c2. ?act w c1 = Inr c2 \<and> ?I c2" if w: "w \<in> set (ct_lSQFIFO c)" and c1: "?I c1" for w c1
  proof -
    have "cqw_cqID (abort_response (q_head q) status_sq_deleted w) = sqw_cqID w"
      by (simp add: abort_response_def CQEntryWrapper_new_def)
    then show ?thesis using submit_ok[of "abort_response (q_head q) status_sq_deleted w" c1 now] assms(4) w c1 by auto
  qed
  have "if even (length (ct_lSQFIFO c)) then \<exists>c'. abort_loop ?P ?act (ct_lSQFIFO c) c = Inr (second_of (ct_lSQFIFO c), c') \<and> ?I c'
     else abort_loop ?P ?act (ct_lSQFIFO c) c = Inl OutOfBounds"
    by (rule abort_loop_skips[where I = ?I]) (use assms(4) act in auto)
  then show ?thesis using assms(1-3) by (auto simp: deleteSQueue_def)
qed

definition example_command :: "16 word \<Rightarrow> SQEntryWrapper" where
  "example_command cid = SQEntryWrapper_new (SQEntry_new\<lparr>sqe_commandID := cid\<rparr>) 1 1 0 0"

theorem deleteSQueue_skips_commands_witness:
  "(\<exists>c'. deleteSQueue 5 1 ((example_controller ROUND_ROBIN 2)\<lparr>ct_lSQFIFO := [example_command 7, example_command 8]\<rparr>)
     = Inr (0, c') \<and> ct_lSQFIFO c' = [example_command 8])"
  using deleteSQueue_skips_commands[where c = "(example_controller ROUND_ROBIN 2)\<lparr>ct_lSQFIFO := [example_command 7, example_command 8]\<rparr>"
      and sqid = 1 and now = 5]
  by (auto simp: example_controller_def example_command_def SQEntryWrapper_new_def)

text \<open>C17: the coalescing time. It is set in units of 100 microseconds, computed in a signed 32-bit
  integer: a time below 22 and any threshold are read back as they were set, a time from 22 on
  overflows.\<close>

theorem coalescing_parameter_roundtrip:
  "case setCoalescingParameter time thres c of
     Inr c' \<Rightarrow> time < 22 \<and> getCoalescingParameter c' = (unat time, unat thres)
       \<and> ct_aggregationTime c' = unat time * 100000000
   | Inl f \<Rightarrow> 22 \<le> time \<and> f = SignedOverflow"
  by (auto simp: setCoalescingParameter_def getCoalescingParameter_def word_less_nat_alt word_le_nat_alt)

end
