(* ===== verification/Nvme_Dma.thy ===== *)
theory Nvme_Dma
  imports Bitsets
begin

text \<open>
  The data pointers of NVMe commands: the memory that the simulated driver prepares (sil/nvme/prp.cc), and
  what the controller makes of it (hil/nvme/dma.cc), a list of physical regions given by PRP entries or SGL
  descriptors, with the transfers from and to a part of it.

  Addresses and sizes are natural numbers. The memory of the host is a function from the addresses of
  64-bit words to their values; the read of a page of PRP entries or a segment of descriptors, which is
  asynchronous in the code, is a step of a recursion. A transfer is the list of the accesses to the memory
  of the host that it starts, with the offset in the buffer.
\<close>

unbundle bit_operations_syntax

type_synonym memory = "nat \<Rightarrow> nat"

section \<open>The driver\<close>

abbreviation "PAGE_SIZE \<equiv> 4096 :: nat"
abbreviation "maxEntryCount \<equiv> 512 :: nat"

record host_prp =
  hp_memory :: nat
  hp_capacity :: nat
  hp_ptr1 :: nat
  hp_ptr2 :: nat
  hp_ptrList :: "nat list"

text \<open>The loop that counts the lists and the entries of the last one: \<^verbatim>\<open>listCount\<close>, \<^verbatim>\<open>lastEntryCount\<close>
  and \<^verbatim>\<open>capacity\<close>.\<close>

function count_entries :: "nat \<Rightarrow> nat \<Rightarrow> nat \<Rightarrow> nat \<times> nat \<times> nat" where
  "count_entries sz listCount capacity =
     (if sz > PAGE_SIZE * maxEntryCount
      then count_entries (sz - PAGE_SIZE * (maxEntryCount - 1)) (listCount + 1) (capacity + PAGE_SIZE * maxEntryCount)
      else (listCount, DIVCEIL sz PAGE_SIZE, capacity + PAGE_SIZE * DIVCEIL sz PAGE_SIZE))"
  by pat_completeness auto
termination by (relation "measure fst") auto

declare count_entries.simps [simp del]

text \<open>The loop that writes the lists.\<close>

partial_function (option) fill_lists ::
  "nat \<Rightarrow> nat \<Rightarrow> nat \<Rightarrow> nat \<Rightarrow> nat \<Rightarrow> memory \<Rightarrow> nat list \<Rightarrow> (memory \<times> nat list) option"
where
  "fill_lists lastEntryCount listCount entry listPtr page mem ptrList =
     (let mem = mem(listPtr + 8 * entry := page); ptrList = ptrList @ [page]; page = page + PAGE_SIZE; entry = entry + 1 in
     if listCount = 1 \<and> entry = lastEntryCount then Some (mem(listPtr + 8 * entry := 0), ptrList)
     else if listCount > 1 \<and> entry = maxEntryCount - 1
     then fill_lists lastEntryCount (listCount - 1) 0 page (page + PAGE_SIZE) (mem(listPtr + 8 * entry := page)) ptrList
     else fill_lists lastEntryCount listCount entry listPtr page mem ptrList)"

text \<open>The constructor. The allocated memory starts at \<^verbatim>\<open>base\<close>; nothing else changes but what the lists
  are written to.\<close>

definition zeroed :: "nat \<Rightarrow> nat \<Rightarrow> memory \<Rightarrow> memory" where
  "zeroed base n mem = (\<lambda>a. if base \<le> a \<and> a < base + n then 0 else mem a)"

definition host_prp_new :: "nat \<Rightarrow> nat \<Rightarrow> memory \<Rightarrow> (host_prp \<times> memory) res" where
  "host_prp_new base sz mem =
     (if sz \<le> PAGE_SIZE
      then Inr (\<lparr>hp_memory = base, hp_capacity = PAGE_SIZE, hp_ptr1 = base, hp_ptr2 = 0, hp_ptrList = [base]\<rparr>,
                zeroed base PAGE_SIZE mem)
      else if sz \<le> PAGE_SIZE * 2
      then Inr (\<lparr>hp_memory = base, hp_capacity = PAGE_SIZE * 2, hp_ptr1 = base, hp_ptr2 = base + PAGE_SIZE,
                 hp_ptrList = [base, base + PAGE_SIZE]\<rparr>, zeroed base (PAGE_SIZE * 2) mem)
      else let (listCount, lastEntryCount, capacity) = count_entries (sz - PAGE_SIZE) 1 (PAGE_SIZE * 2) in
        case fill_lists lastEntryCount listCount 0 (base + PAGE_SIZE) (base + PAGE_SIZE * 2)
               (zeroed base capacity mem) [base, base + PAGE_SIZE] of
          None \<Rightarrow> Inl Diverges
        | Some (mem, ptrList) \<Rightarrow> Inr (\<lparr>hp_memory = base, hp_capacity = capacity, hp_ptr1 = base,
            hp_ptr2 = base + PAGE_SIZE, hp_ptrList = ptrList\<rparr>, mem))"

definition getPointer :: "host_prp \<Rightarrow> nat \<times> nat" where
  "getPointer h = (hp_ptr1 h, hp_ptr2 h)"

text \<open>The copies of \<^verbatim>\<open>readData\<close> and \<^verbatim>\<open>writeData\<close>: the address in the memory of the driver and the length of
  each. The pointer into the caller's buffer is not moved. The subtraction wraps around. With no byte to copy
  at offset 0 the number of pages wraps around too, and the loop runs over the end of \<^verbatim>\<open>ptrList\<close>.\<close>

fun host_copies :: "nat list \<Rightarrow> nat \<Rightarrow> nat \<Rightarrow> nat list \<Rightarrow> nat \<Rightarrow> (int \<times> nat) list res" where
  "host_copies ptrList offset sz [] copied = Inr []"
| "host_copies ptrList offset sz (i # is) copied =
     rbind (rnth ptrList i) (\<lambda>p.
     let ptr = (int p + (int offset - int (i * PAGE_SIZE))) mod 2 ^ 64;
         len = min ((i + 1) * PAGE_SIZE - offset) (sz - copied) in
     rbind (host_copies ptrList offset sz is (copied + len)) (\<lambda>cs. Inr ((ptr, len) # cs)))"

definition host_accesses :: "host_prp \<Rightarrow> nat \<Rightarrow> nat \<Rightarrow> (int \<times> nat) list res" where
  "host_accesses h offset sz =
     (if offset + sz = 0 then Inl OutOfBounds
      else host_copies (hp_ptrList h) offset sz [offset div PAGE_SIZE..<DIVCEIL (offset + sz) PAGE_SIZE] 0)"

section \<open>PRP lists of the controller\<close>

type_synonym region = "nat \<times> nat"

definition getPRPSize :: "nat \<Rightarrow> nat \<Rightarrow> nat" where
  "getPRPSize pagesize addr = pagesize - (addr AND (pagesize - 1))"

text \<open>One page of entries, from the buffer it was read into; the rest of the list is in \<^verbatim>\<open>prps\<close>.\<close>

fun parse_entries :: "nat \<Rightarrow> memory \<Rightarrow> nat \<Rightarrow> nat \<Rightarrow> nat \<Rightarrow> nat list \<Rightarrow> region list \<times> nat \<Rightarrow> (region list \<times> nat) res" where
  "parse_entries pagesize mem base bufsize totalSize [] (prps, currentSize) = Inr (prps, currentSize)"
| "parse_entries pagesize mem base bufsize totalSize (i # is) (prps, currentSize) =
     (if bufsize < i + 8 then Inl OutOfBounds
      else let listPRP = mem (base + i); listPRPSize = getPRPSize pagesize listPRP; currentSize = currentSize + listPRPSize in
        if listPRP = 0 then Inl (Panic ''prp_list: Invalid PRP in PRP List'')
        else let prps = prps @ [(listPRP, listPRPSize)] in
          if currentSize \<ge> totalSize then Inr (prps, currentSize)
          else parse_entries pagesize mem base bufsize totalSize is (prps, currentSize))"

partial_function (option) getPRPListFromPRP ::
  "nat \<Rightarrow> memory \<Rightarrow> nat \<Rightarrow> nat \<Rightarrow> region list \<Rightarrow> region list res option"
where
  "getPRPListFromPRP pagesize mem base sz prps =
     (let bufsize = getPRPSize pagesize base in
      case parse_entries pagesize mem base bufsize sz (map (\<lambda>k. 8 * k) [0..<DIVCEIL bufsize 8]) (prps, 0) of
        Inl e \<Rightarrow> Some (Inl e)
      | Inr (prps, currentSize) \<Rightarrow>
          if currentSize < sz
          then getPRPListFromPRP pagesize mem (fst (last prps)) (sz - currentSize) (butlast prps)
          else Some (Inr prps))"

definition list_from :: "nat \<Rightarrow> memory \<Rightarrow> nat \<Rightarrow> nat \<Rightarrow> region list \<Rightarrow> region list res" where
  "list_from pagesize mem base sz prps =
     (case getPRPListFromPRP pagesize mem base sz prps of None \<Rightarrow> Inl Diverges | Some r \<Rightarrow> r)"

definition PRPList_new :: "nat \<Rightarrow> memory \<Rightarrow> nat \<Rightarrow> nat \<Rightarrow> nat \<Rightarrow> region list res" where
  "PRPList_new pagesize mem prp1 prp2 totalSize =
     (let prp1Size = getPRPSize pagesize prp1; prp2Size = getPRPSize pagesize prp2 in
      if totalSize \<le> pagesize
      then if totalSize \<le> prp1Size then Inr [(prp1, totalSize)]
           else if prp1Size + prp2Size < totalSize then Inl (Panic ''prp_list: Invalid DPTR sz'')
           else Inr [(prp1, prp1Size), (prp2, prp2Size)]
      else if totalSize \<le> pagesize * 2
      then if prp1Size = pagesize
           then if prp1Size + prp2Size < totalSize then Inl (Panic ''prp_list: Invalid DPTR sz'')
                else Inr [(prp1, prp1Size), (prp2, prp2Size)]
           else list_from pagesize mem prp2 (totalSize - prp1Size) [(prp1, prp1Size)]
      else list_from pagesize mem prp2 (totalSize - prp1Size) [(prp1, prp1Size)])"

text \<open>The other constructor, for queues.\<close>

definition PRPList_queue :: "nat \<Rightarrow> memory \<Rightarrow> nat \<Rightarrow> nat \<Rightarrow> bool \<Rightarrow> region list res" where
  "PRPList_queue pagesize mem base sz cont =
     (if cont then Inr [(base, sz)] else list_from pagesize mem base sz [])"

section \<open>SGL segments\<close>

record sgl_descriptor =
  sd_address :: nat
  sd_length :: nat
  sd_id :: "8 word"

definition SGL_TYPE :: "8 word \<Rightarrow> 8 word" where "SGL_TYPE i = drop_bit 4 i"
definition SGL_SUBTYPE :: "8 word \<Rightarrow> 8 word" where "SGL_SUBTYPE i = i AND 0x0F"

abbreviation "TYPE_DATA_BLOCK_DESCRIPTOR \<equiv> 0x00 :: 8 word"
abbreviation "TYPE_BIT_BUCKET_DESCRIPTOR \<equiv> 0x01 :: 8 word"
abbreviation "TYPE_SEGMENT_DESCRIPTOR \<equiv> 0x02 :: 8 word"
abbreviation "TYPE_LAST_SEGMENT_DESCRIPTOR \<equiv> 0x03 :: 8 word"
abbreviation "TYPE_KEYED_DATA_BLOCK_DESCRIPTOR \<equiv> 0x04 :: 8 word"

abbreviation "SUBTYPE_ADDRESS \<equiv> 0x00 :: 8 word"

type_synonym chunk = "nat \<times> nat \<times> bool"

definition parseSGLDescriptor :: "sgl_descriptor \<Rightarrow> chunk list \<times> nat \<Rightarrow> (chunk list \<times> nat) res" where
  "parseSGLDescriptor desc = (\<lambda>(chunkList, totalSize).
     let ty = SGL_TYPE (sd_id desc) in
     rbind (if ty = TYPE_DATA_BLOCK_DESCRIPTOR \<or> ty = TYPE_KEYED_DATA_BLOCK_DESCRIPTOR
            then Inr (chunkList @ [(sd_address desc, sd_length desc, False)], totalSize + sd_length desc)
            else if ty = TYPE_BIT_BUCKET_DESCRIPTOR
            then Inr (chunkList @ [(sd_address desc, sd_length desc, True)], totalSize + sd_length desc)
            else Inl (Panic ''Invalid SGL descriptor'')) (\<lambda>r.
     if SGL_SUBTYPE (sd_id desc) \<noteq> SUBTYPE_ADDRESS then Inl (Panic ''Unexpected SGL subtype'') else Inr r))"

text \<open>One segment; \<^verbatim>\<open>desc\<close> is the last descriptor, when it is of a segment. The descriptor at an address of
  the memory of the host is given by \<^verbatim>\<open>mem\<close>.\<close>

fun parse_descriptors ::
  "(nat \<Rightarrow> sgl_descriptor) \<Rightarrow> nat \<Rightarrow> nat \<Rightarrow> nat list \<Rightarrow> sgl_descriptor option \<Rightarrow> chunk list \<times> nat
    \<Rightarrow> (sgl_descriptor option \<times> chunk list \<times> nat) res"
where
  "parse_descriptors mem base bufsize [] seg st = Inr (seg, st)"
| "parse_descriptors mem base bufsize (i # is) seg st =
     (if bufsize < i + 16 then Inl OutOfBounds
      else let desc = mem (base + i); ty = SGL_TYPE (sd_id desc) in
        if ty \<in> {TYPE_DATA_BLOCK_DESCRIPTOR, TYPE_KEYED_DATA_BLOCK_DESCRIPTOR, TYPE_BIT_BUCKET_DESCRIPTOR}
        then rbind (parseSGLDescriptor desc st) (\<lambda>st. parse_descriptors mem base bufsize is seg st)
        else if ty \<in> {TYPE_SEGMENT_DESCRIPTOR, TYPE_LAST_SEGMENT_DESCRIPTOR}
        then if i \<noteq> bufsize - 16 then Inl (Panic ''Invalid SGL segment'')
             else parse_descriptors mem base bufsize is (Some desc) st
        else parse_descriptors mem base bufsize is seg st)"

partial_function (option) parseSGLSegment ::
  "(nat \<Rightarrow> sgl_descriptor) \<Rightarrow> nat \<Rightarrow> nat \<Rightarrow> chunk list \<times> nat \<Rightarrow> (chunk list \<times> nat) res option"
where
  "parseSGLSegment mem address bufsize st =
     (case parse_descriptors mem address bufsize (map (\<lambda>k. 16 * k) [0..<(bufsize + 15) div 16]) None st of
        Inl e \<Rightarrow> Some (Inl e)
      | Inr (None, st) \<Rightarrow> Some (Inr st)
      | Inr (Some desc, st) \<Rightarrow> parseSGLSegment mem (sd_address desc) (sd_length desc) st)"

definition sgl_from_pointers :: "64 word \<Rightarrow> 64 word \<Rightarrow> sgl_descriptor" where
  "sgl_from_pointers prp1 prp2 = \<lparr>sd_address = unat prp1, sd_length = unat (ucast prp2 :: 32 word), sd_id = ucast (drop_bit 56 prp2)\<rparr>"

text \<open>The constructor. The result says as well whether the function that was given is called at all: for
  another type than the four it is not.\<close>

definition SGL_new :: "(nat \<Rightarrow> sgl_descriptor) \<Rightarrow> 64 word \<Rightarrow> 64 word \<Rightarrow> (chunk list \<times> nat \<times> bool) res" where
  "SGL_new mem prp1 prp2 =
     (let desc = sgl_from_pointers prp1 prp2; ty = SGL_TYPE (sd_id desc) in
      if ty = TYPE_DATA_BLOCK_DESCRIPTOR \<or> ty = TYPE_KEYED_DATA_BLOCK_DESCRIPTOR
      then rbind (parseSGLDescriptor desc ([], 0)) (\<lambda>(chunks, n). Inr (chunks, n, True))
      else if ty = TYPE_SEGMENT_DESCRIPTOR \<or> ty = TYPE_LAST_SEGMENT_DESCRIPTOR
      then (case parseSGLSegment mem (sd_address desc) (sd_length desc) ([], 0) of None \<Rightarrow> Inl Diverges
            | Some r \<Rightarrow> rbind r (\<lambda>(chunks, n). Inr (chunks, n, True)))
      else Inr ([], 0, False))"

section \<open>Transfers\<close>

text \<open>The loop of \<^verbatim>\<open>read\<close> and \<^verbatim>\<open>write\<close>: \<^verbatim>\<open>begin\<close>, the bytes transferred and the offset of the current
  chunk. An access is an address, a length, and an offset in the buffer.\<close>

type_synonym access = "nat \<times> nat \<times> nat"

fun transfer_loop :: "nat \<Rightarrow> nat \<Rightarrow> chunk list \<Rightarrow> bool \<times> nat \<times> nat \<Rightarrow> access list" where
  "transfer_loop offset len [] st = []"
| "transfer_loop offset len ((addr, n, ignore) # cs) (started, moved, currentOffset) =
     (if started
      then let k = min n (len - moved); acc = (if ignore then [] else [(addr, k, moved)]) in
        if moved + k = len then acc else acc @ transfer_loop offset len cs (True, moved + k, currentOffset + n)
      else if currentOffset + n > offset
      then let skip = offset - currentOffset; k = min (n - skip) len in
        (if ignore then [] else [(addr + skip, k, 0)]) @ transfer_loop offset len cs (True, k, currentOffset + n)
      else transfer_loop offset len cs (False, moved, currentOffset + n))"

definition SGL_transfer :: "chunk list \<Rightarrow> nat \<Rightarrow> nat \<Rightarrow> access list" where
  "SGL_transfer chunks offset len = transfer_loop offset len chunks (False, 0, 0)"

definition PRPList_transfer :: "region list \<Rightarrow> nat \<Rightarrow> nat \<Rightarrow> access list" where
  "PRPList_transfer rs = SGL_transfer (map (\<lambda>(a, n). (a, n, False)) rs)"

text \<open>The transfer is done when the counter of its accesses is zero again; one that starts none is done at
  once. The FIFO below (util/fifo.cc) ignores an access of no bytes and calls nothing for it.\<close>

definition fifo_calls_back :: "access \<Rightarrow> bool" where
  "fifo_calls_back = (\<lambda>(addr, n, off). n \<noteq> 0)"

definition transfer_done :: "access list \<Rightarrow> bool" where
  "transfer_done accs \<longleftrightarrow> length (filter fifo_calls_back accs) = length accs"

end
