(* ===== verification/Nvme_DmaProps.thy ===== *)
theory Nvme_DmaProps
  imports Nvme_Dma
begin

text \<open>
  What the driver and the controller make of the data pointers of a command, and what a transfer accesses.
\<close>

section \<open>Transfers\<close>

text \<open>The bytes of a list of chunks, in order: their addresses, or nothing in an ignored chunk.\<close>

definition chunk_bytes :: "chunk list \<Rightarrow> nat option list" where
  "chunk_bytes cs = concat (map (\<lambda>(a, n, ignore). map (\<lambda>i. if ignore then None else Some (a + i)) [0..<n]) cs)"

text \<open>The bytes of the accesses: an offset in the buffer and an address.\<close>

definition access_bytes :: "access list \<Rightarrow> (nat \<times> nat) list" where
  "access_bytes accs = concat (map (\<lambda>(a, n, off). map (\<lambda>i. (off + i, a + i)) [0..<n]) accs)"

definition part :: "nat option list \<Rightarrow> nat \<Rightarrow> nat \<Rightarrow> nat \<Rightarrow> (nat \<times> nat) list" where
  "part bs d lo hi = List.map_filter (\<lambda>j. map_option (Pair j) (bs ! (d + j - lo))) [lo..<hi]"

lemma access_bytes_simps [simp]:
  "access_bytes [] = []" "access_bytes ((a, n, off) # accs) = map (\<lambda>i. (off + i, a + i)) [0..<n] @ access_bytes accs"
  "access_bytes (as @ bs) = access_bytes as @ access_bytes bs"
  by (simp_all add: access_bytes_def)

lemma chunk_bytes_simps [simp]:
  "chunk_bytes [] = []"
  "chunk_bytes ((a, n, ignore) # cs) = map (\<lambda>i. if ignore then None else Some (a + i)) [0..<n] @ chunk_bytes cs"
  by (simp_all add: chunk_bytes_def)

lemma length_chunk_bytes: "length (chunk_bytes cs) = sum_list (map (\<lambda>(a, n, ignore). n) cs)"
  by (induction cs) auto

lemma map_filter_append: "List.map_filter f (xs @ ys) = List.map_filter f xs @ List.map_filter f ys"
  by (simp add: List.map_filter_def)

lemma map_filter_cong: "(\<And>x. x \<in> set xs \<Longrightarrow> f x = g x) \<Longrightarrow> List.map_filter f xs = List.map_filter g xs"
  by (induction xs) (simp_all add: List.map_filter_simps split: option.split)

lemma map_filter_Some: "List.map_filter (\<lambda>x. Some (f x)) xs = map f xs"
  by (simp add: List.map_filter_def comp_def)

lemma map_filter_None: "List.map_filter (\<lambda>x. None) xs = []"
  by (simp add: List.map_filter_def)

text \<open>A range inside the first chunk.\<close>

lemma part_chunk:
  assumes "d + k \<le> n"
  shows "part (chunk_bytes ((a, n, ignore) # cs)) d lo (lo + k) = (if ignore then [] else map (\<lambda>i. (lo + i, a + d + i)) [0..<k])"
proof -
  have e: "chunk_bytes ((a, n, ignore) # cs) ! (d + j - lo) = (if ignore then None else Some (a + d + (j - lo)))"
    if j: "j \<in> set [lo..<lo + k]" for j
  proof -
    have "d + j - lo < n" "a + (d + j - lo) = a + d + (j - lo)" using j assms by auto
    then show ?thesis by (simp add: nth_append)
  qed
  have "part (chunk_bytes ((a, n, ignore) # cs)) d lo (lo + k)
    = List.map_filter (\<lambda>j. if ignore then None else Some (j, a + d + (j - lo))) [lo..<lo + k]"
    unfolding part_def by (rule map_filter_cong) (simp add: e del: chunk_bytes_simps)
  also have "[lo..<lo + k] = map (\<lambda>i. lo + i) [0..<k]" using map_add_upt[of lo k] by (simp add: add.commute)
  finally show ?thesis by (cases ignore) (simp_all add: map_filter_Some map_filter_None comp_def)
qed

lemma part_split: "lo \<le> m \<Longrightarrow> m \<le> hi \<Longrightarrow> part bs d lo hi = part bs d lo m @ part bs (d + (m - lo)) m hi"
proof -
  assume a: "lo \<le> m" "m \<le> hi"
  then have "[lo..<hi] = [lo..<m] @ [m..<hi]" by (metis le_Suc_ex upt_add_eq_append)
  moreover have "List.map_filter (\<lambda>j. map_option (Pair j) (bs ! (d + j - lo))) [m..<hi]
    = List.map_filter (\<lambda>j. map_option (Pair j) (bs ! (d + (m - lo) + j - m))) [m..<hi]"
    by (rule map_filter_cong) (use a in simp)
  ultimately show ?thesis by (simp add: part_def map_filter_append)
qed

lemma part_skip: "n \<le> d \<Longrightarrow> part (chunk_bytes ((a, n, ignore) # cs)) d lo hi = part (chunk_bytes cs) (d - n) lo hi"
  unfolding part_def
proof (rule map_filter_cong)
  fix x assume "n \<le> d" "x \<in> set [lo..<hi]"
  then have "\<not> d + x - lo < n" "d + x - lo - n = d - n + x - lo" by auto
  then show "map_option (Pair x) (chunk_bytes ((a, n, ignore) # cs) ! (d + x - lo))
    = map_option (Pair x) (chunk_bytes cs ! (d - n + x - lo))" by (simp add: nth_append)
qed

lemma part_empty [simp]: "part bs d lo lo = []"
  by (simp add: part_def List.map_filter_def)

lemma transfer_started:
  assumes "moved \<le> len" "len \<le> moved + length (chunk_bytes cs)"
  shows "access_bytes (transfer_loop offset len cs (True, moved, cur)) = part (chunk_bytes cs) 0 moved len"
  using assms
proof (induction cs arbitrary: moved cur)
  case (Cons c cs)
  obtain a n ignore where c: "c = (a, n, ignore)" by (cases c)
  let ?k = "min n (len - moved)"
  have k: "moved + ?k \<le> len" using Cons.prems by simp
  have first: "part (chunk_bytes (c # cs)) 0 moved (moved + ?k) = (if ignore then [] else map (\<lambda>i. (moved + i, a + i)) [0..<?k])"
    using part_chunk[of 0 ?k n a ignore cs moved] by (simp add: c del: chunk_bytes_simps)
  show ?case
  proof (cases "moved + ?k = len")
    case True
    with first show ?thesis by (simp add: c Let_def del: chunk_bytes_simps)
  next
    case False
    with k have n1: "?k = n" by (simp add: min_def split: if_splits)
    with k have n: "?k = n" "moved + n \<le> len" by simp_all
    have "part (chunk_bytes (c # cs)) 0 moved len
      = part (chunk_bytes (c # cs)) 0 moved (moved + n) @ part (chunk_bytes (c # cs)) n (moved + n) len"
      using part_split[of moved "moved + n" len "chunk_bytes (c # cs)" 0] n(2) by simp
    also have "part (chunk_bytes (c # cs)) n (moved + n) len = part (chunk_bytes cs) 0 (moved + n) len"
      using part_skip[of n n a ignore cs] by (simp add: c del: chunk_bytes_simps)
    finally have e: "part (chunk_bytes (c # cs)) 0 moved len
      = (if ignore then [] else map (\<lambda>i. (moved + i, a + i)) [0..<n]) @ part (chunk_bytes cs) 0 (moved + n) len"
      using first n(1) by simp
    have "access_bytes (transfer_loop offset len cs (True, moved + n, cur + n)) = part (chunk_bytes cs) 0 (moved + n) len"
      by (rule Cons.IH) (use n(2) Cons.prems(2) in \<open>simp_all add: c\<close>)
    then show ?thesis unfolding e using False n(1) by (simp add: c Let_def)
  qed
qed simp

lemma transfer_waiting:
  assumes "cur \<le> offset" "offset + len \<le> cur + length (chunk_bytes cs)"
  shows "access_bytes (transfer_loop offset len cs (False, 0, cur)) = part (chunk_bytes cs) (offset - cur) 0 len"
  using assms
proof (induction cs arbitrary: cur)
  case Nil
  then have "len = 0" by simp
  then show ?case by simp
next
  case (Cons c cs)
  obtain a n ignore where c: "c = (a, n, ignore)" by (cases c)
  show ?case
  proof (cases "cur + n > offset")
    case True
    let ?d = "offset - cur"
    let ?k = "min (n - ?d) len"
    have d: "?d + ?k \<le> n" using True Cons.prems(1) by simp
    have first: "part (chunk_bytes (c # cs)) ?d 0 ?k = (if ignore then [] else map (\<lambda>i. (i, a + ?d + i)) [0..<?k])"
      using part_chunk[OF d, of a ignore cs 0] by (simp add: c del: chunk_bytes_simps)
    have "part (chunk_bytes (c # cs)) ?d 0 len = part (chunk_bytes (c # cs)) ?d 0 ?k @ part (chunk_bytes (c # cs)) (?d + ?k) ?k len"
      using part_split[of 0 ?k len "chunk_bytes (c # cs)" ?d] by simp
    also have "part (chunk_bytes (c # cs)) (?d + ?k) ?k len = part (chunk_bytes cs) 0 ?k len"
    proof (cases "?k = len")
      case False
      then have "?d + ?k = n" using d by auto
      with part_skip[of n "?d + ?k" a ignore cs] show ?thesis by (simp add: c del: chunk_bytes_simps)
    qed simp
    finally have e: "part (chunk_bytes (c # cs)) ?d 0 len
      = (if ignore then [] else map (\<lambda>i. (i, a + ?d + i)) [0..<?k]) @ part (chunk_bytes cs) 0 ?k len"
      using first by simp
    have "access_bytes (transfer_loop offset len cs (True, ?k, cur + n)) = part (chunk_bytes cs) 0 ?k len"
      by (rule transfer_started) (use Cons.prems True in \<open>auto simp: c\<close>)
    then show ?thesis unfolding e using True by (simp add: c Let_def)
  next
    case False
    have "access_bytes (transfer_loop offset len cs (False, 0, cur + n)) = part (chunk_bytes cs) (offset - (cur + n)) 0 len"
      by (rule Cons.IH) (use False Cons.prems in \<open>simp_all add: c\<close>)
    moreover have "part (chunk_bytes (c # cs)) (offset - cur) 0 len = part (chunk_bytes cs) (offset - cur - n) 0 len"
      using part_skip[of n "offset - cur" a ignore cs 0 len] False by (simp add: c del: chunk_bytes_simps)
    ultimately show ?thesis using False by (simp add: c)
  qed
qed

text \<open>C33: A transfer of a range that lies in the described regions accesses exactly the bytes of the range, in
  order, each with its place in the buffer, and none of an ignored region.\<close>

theorem transfer_covers_range:
  assumes "offset + len \<le> length (chunk_bytes cs)"
  shows "access_bytes (SGL_transfer cs offset len)
    = List.map_filter (\<lambda>j. map_option (Pair j) (chunk_bytes cs ! (offset + j))) [0..<len]"
  using transfer_waiting[of 0 offset len cs] assms by (simp add: SGL_transfer_def part_def)

theorem transfer_covers_range_witness:
  "access_bytes (SGL_transfer [(100, 4, False), (200, 2, True), (300, 8, False)] 2 5) = [(0, 102), (1, 103), (4, 300)]"
  using transfer_covers_range[of 2 5 "[(100, 4, False), (200, 2, True), (300, 8, False)]"]
  by (simp add: upt_rec List.map_filter_simps)

text \<open>A transfer that fits into the first of several regions starts a second access, of no bytes. The
  FIFO below does not call back for it, so that the transfer is never done.\<close>

lemma short_transfer_hangs:
  assumes "0 < len" "offset + len \<le> n"
  shows "PRPList_transfer ((a, n) # (b, n') # rs) offset len = [(a + offset, len, 0), (b, 0, len)]
    \<and> \<not> transfer_done (PRPList_transfer ((a, n) # (b, n') # rs) offset len)"
proof -
  have "PRPList_transfer ((a, n) # (b, n') # rs) offset len = [(a + offset, len, 0), (b, 0, len)]"
    using assms by (auto simp: PRPList_transfer_def SGL_transfer_def Let_def min_def)
  moreover have "\<not> transfer_done [(a + offset, len, 0), (b, 0, len)]"
    using assms(1) by (simp add: transfer_done_def fifo_calls_back_def)
  ultimately show ?thesis by simp
qed

text \<open>A completion queue of two pages that are not contiguous: an entry of 16 bytes in the first page.\<close>

lemma short_transfer_hangs_example:
  "\<not> transfer_done (PRPList_transfer [(4096, 4096), (20480, 4096)] 32 16)"
  using short_transfer_hangs[of 16 32 4096 4096 20480 4096 "[]"] by linarith

end
