(* ===== verification/Nvme_Prps.thy ===== *)
theory Nvme_Prps
  imports Nvme_Dma
begin

text \<open>
  The lists of PRP entries that the driver writes and the controller reads: what each makes, that they agree up
  to one full list, and what is lost with a second one.
\<close>

section \<open>What the driver writes\<close>

lemma DIVCEIL_pages:
  assumes "0 < n"
  shows "n \<le> PAGE_SIZE * DIVCEIL n PAGE_SIZE \<and> PAGE_SIZE * DIVCEIL n PAGE_SIZE < n + PAGE_SIZE"
proof -
  have "n - 1 = PAGE_SIZE * ((n - 1) div PAGE_SIZE) + (n - 1) mod PAGE_SIZE" "(n - 1) mod PAGE_SIZE < PAGE_SIZE" by simp_all
  with assms show ?thesis unfolding DIVCEIL_def distrib_left by linarith
qed

text \<open>The entries \<^verbatim>\<open>e..<n\<close> of the list at \<^verbatim>\<open>lp\<close> are the pages from \<^verbatim>\<open>page\<close>.\<close>

definition entries_at :: "memory \<Rightarrow> nat \<Rightarrow> nat \<Rightarrow> nat \<Rightarrow> nat \<Rightarrow> bool" where
  "entries_at mem lp e n page \<longleftrightarrow> (\<forall>j. e \<le> j \<and> j < n \<longrightarrow> mem (lp + 8 * j) = page + PAGE_SIZE * (j - e))"

lemma entries_at_step:
  assumes "entries_at mem lp (e + 1) n (page + PAGE_SIZE)" "mem (lp + 8 * e) = page"
  shows "entries_at mem lp e n page"
  unfolding entries_at_def
proof (intro allI impI)
  fix j assume j: "e \<le> j \<and> j < n"
  show "mem (lp + 8 * j) = page + PAGE_SIZE * (j - e)"
  proof (cases "j = e")
    case False
    then have "mem (lp + 8 * j) = page + PAGE_SIZE + PAGE_SIZE * (j - (e + 1))"
      using j assms(1) by (simp add: entries_at_def)
    moreover from False j have "j - e = Suc (j - (e + 1))" by linarith
    ultimately show ?thesis by simp
  qed (simp add: assms(2))
qed

definition pages_from :: "nat \<Rightarrow> nat \<Rightarrow> nat list" where
  "pages_from page n = map (\<lambda>k. page + PAGE_SIZE * k) [0..<n]"

lemma pages_from_Suc: "pages_from page (Suc n) = page # pages_from (page + PAGE_SIZE) n"
  by (simp add: pages_from_def upt_conv_Cons map_Suc_upt[symmetric] comp_def del: upt_Suc)

lemma pages_from_0 [simp]: "pages_from page 0 = []"
  by (simp add: pages_from_def)

lemma length_pages_from [simp]: "length (pages_from page n) = n"
  by (simp add: pages_from_def)

text \<open>The last list.\<close>

lemma fill_last:
  assumes "e < n"
  shows "\<exists>mem'. fill_lists n 1 e lp page mem pl = Some (mem', pl @ pages_from page (n - e))
    \<and> entries_at mem' lp e n page \<and> (\<forall>a < lp + 8 * e. mem' a = mem a)"
  using assms
proof (induction "n - e" arbitrary: e page mem pl)
  case (Suc k)
  show ?case
  proof (cases "e + 1 = n")
    case True
    have e: "fill_lists n 1 e lp page mem pl = Some (mem(lp + 8 * e := page, lp + 8 * n := 0), pl @ [page])"
      using True by (subst fill_lists.simps) (simp add: Let_def)
    have "entries_at (mem(lp + 8 * e := page, lp + 8 * n := 0)) lp e n page"
      using True by (auto simp: entries_at_def)
    moreover have "pages_from page (n - e) = [page]" using True pages_from_Suc[of page 0] by (simp flip: True)
    ultimately show ?thesis unfolding e using True by auto
  next
    case False
    with Suc.prems Suc.hyps(2) have c: "k = n - (e + 1)" "e + 1 < n" "n - e = Suc (n - (e + 1))" by auto
    obtain mem' where m: "fill_lists n 1 (e + 1) lp (page + PAGE_SIZE) (mem(lp + 8 * e := page)) (pl @ [page])
        = Some (mem', (pl @ [page]) @ pages_from (page + PAGE_SIZE) (n - (e + 1)))"
      "entries_at mem' lp (e + 1) n (page + PAGE_SIZE)" "\<forall>a < lp + 8 * (e + 1). mem' a = (mem(lp + 8 * e := page)) a"
      using Suc.hyps(1)[OF c(1,2), of "page + PAGE_SIZE" "mem(lp + 8 * e := page)" "pl @ [page]"] by blast
    have "fill_lists n 1 e lp page mem pl
      = fill_lists n 1 (e + 1) lp (page + PAGE_SIZE) (mem(lp + 8 * e := page)) (pl @ [page])"
      using False by (subst fill_lists.simps) (simp add: Let_def)
    moreover have "pages_from page (n - e) = page # pages_from (page + PAGE_SIZE) (n - (e + 1))"
      by (simp only: c(3) pages_from_Suc)
    moreover have "mem' (lp + 8 * e) = page" using m(3) by simp
    ultimately show ?thesis using m entries_at_step[OF m(2)] by auto
  qed
qed simp

text \<open>A list with one after it.\<close>

lemma fill_full:
  assumes "e < 511"
  shows "\<exists>mem'. fill_lists n 2 e lp page mem pl
      = fill_lists n 1 0 (page + PAGE_SIZE * (511 - e)) (page + PAGE_SIZE * (512 - e)) mem' (pl @ pages_from page (511 - e))
    \<and> entries_at mem' lp e 512 page \<and> (\<forall>a < lp + 8 * e. mem' a = mem a)"
  using assms
proof (induction "511 - e" arbitrary: e page mem pl)
  case (Suc k)
  show ?case
  proof (cases "e + 1 = 511")
    case True
    let ?m = "mem(lp + 8 * e := page, lp + 8 * (e + 1) := page + PAGE_SIZE)"
    have e: "fill_lists n 2 e lp page mem pl = fill_lists n 1 0 (page + PAGE_SIZE) (page + PAGE_SIZE + PAGE_SIZE) ?m (pl @ [page])"
      using True by (subst fill_lists.simps) (simp add: Let_def)
    have "entries_at ?m lp e 512 page" using True by (auto simp: entries_at_def less_Suc_eq)
    moreover have "e = 510" using True by simp
    moreover have "pages_from page 1 = [page]" using pages_from_Suc[of page 0] by simp
    ultimately show ?thesis unfolding e by (intro exI[of _ ?m]) (simp add: add.commute)
  next
    case False
    with Suc.prems Suc.hyps(2) have c: "k = 511 - (e + 1)" "e + 1 < 511" "511 - e = Suc (511 - (e + 1))"
      "512 - e = Suc (512 - (e + 1))" by auto
    obtain mem' where m: "fill_lists n 2 (e + 1) lp (page + PAGE_SIZE) (mem(lp + 8 * e := page)) (pl @ [page])
        = fill_lists n 1 0 (page + PAGE_SIZE + PAGE_SIZE * (511 - (e + 1))) (page + PAGE_SIZE + PAGE_SIZE * (512 - (e + 1)))
            mem' ((pl @ [page]) @ pages_from (page + PAGE_SIZE) (511 - (e + 1)))"
      "entries_at mem' lp (e + 1) 512 (page + PAGE_SIZE)" "\<forall>a < lp + 8 * (e + 1). mem' a = (mem(lp + 8 * e := page)) a"
      using Suc.hyps(1)[OF c(1,2), of "page + PAGE_SIZE" "mem(lp + 8 * e := page)" "pl @ [page]"] by blast
    have "fill_lists n 2 e lp page mem pl
      = fill_lists n 2 (e + 1) lp (page + PAGE_SIZE) (mem(lp + 8 * e := page)) (pl @ [page])"
      using False by (subst fill_lists.simps) (simp add: Let_def)
    moreover have "pages_from page (511 - e) = page # pages_from (page + PAGE_SIZE) (511 - (e + 1))"
      by (simp only: c(3) pages_from_Suc)
    moreover have "page + PAGE_SIZE + PAGE_SIZE * (511 - (e + 1)) = page + PAGE_SIZE * (511 - e)"
      "page + PAGE_SIZE + PAGE_SIZE * (512 - (e + 1)) = page + PAGE_SIZE * (512 - e)"
      by (simp_all only: c(3,4) mult_Suc_right add.assoc)
    ultimately have "fill_lists n 2 e lp page mem pl = fill_lists n 1 0 (page + PAGE_SIZE * (511 - e))
        (page + PAGE_SIZE * (512 - e)) mem' (pl @ pages_from page (511 - e))"
      using m(1) by (simp only: append.simps append_assoc)
    moreover have "mem' (lp + 8 * e) = page" using m(3) by simp
    then have "entries_at mem' lp e 512 page" by (rule entries_at_step[OF m(2)])
    moreover have "\<forall>a < lp + 8 * e. mem' a = mem a" using m(3) by auto
    ultimately show ?thesis by blast
  qed
qed simp

section \<open>What the controller reads\<close>

abbreviation "page_aligned (a :: nat) \<equiv> a mod PAGE_SIZE = 0"

lemma aligned_add: "page_aligned a \<Longrightarrow> page_aligned (a + PAGE_SIZE * k)"
  by (simp add: mod_add_eq[symmetric])

lemma getPRPSize_aligned: "page_aligned a \<Longrightarrow> getPRPSize PAGE_SIZE a = PAGE_SIZE"
proof -
  assume "page_aligned a"
  then have "a AND mask 12 = 0" by (simp add: take_bit_eq_mod flip: take_bit_eq_mask)
  then show ?thesis by (simp add: getPRPSize_def mask_eq_exp_minus_1)
qed

lemma good_entries:
  assumes "entries_at mem lp 0 n page" "page_aligned page" "0 < page" "j < n"
  shows "mem (lp + 8 * j) = page + PAGE_SIZE * j" "0 < mem (lp + 8 * j)" "getPRPSize PAGE_SIZE (mem (lp + 8 * j)) = PAGE_SIZE"
  using assms by (simp_all add: entries_at_def getPRPSize_aligned)

definition whole :: "nat list \<Rightarrow> region list" where
  "whole = map (\<lambda>a. (a, PAGE_SIZE))"

lemma whole_simps [simp]: "whole [] = []" "whole (a # as) = (a, PAGE_SIZE) # whole as" "whole (as @ bs) = whole as @ whole bs"
  by (simp_all add: whole_def)

lemma whole_facts [simp]: "map fst (whole as) = as" "sum_list (map snd (whole as)) = PAGE_SIZE * length as"
  by (induction as) simp_all

text \<open>The entries \<^verbatim>\<open>k..<m\<close> of a list, up to the one that reaches the wanted size or to the end of the page.\<close>

lemma parse_pages:
  assumes "\<And>j. j < m \<Longrightarrow> mem (lp + 8 * j) = page + PAGE_SIZE * j" "page_aligned page" "0 < page"
    "k \<le> m" "m \<le> 512" "c + PAGE_SIZE * (m - k) < want + PAGE_SIZE" "m = 512 \<or> want \<le> c + PAGE_SIZE * (m - k) \<and> k < m"
  shows "parse_entries PAGE_SIZE mem lp PAGE_SIZE want (map (\<lambda>k. 8 * k) [k..<512]) (prps, c)
    = Inr (prps @ whole (pages_from (page + PAGE_SIZE * k) (m - k)), c + PAGE_SIZE * (m - k))"
  using assms(4-)
proof (induction "m - k" arbitrary: k prps c)
  case 0
  then have "k = m" "m = 512" by auto
  then show ?case by simp
next
  case (Suc d)
  then have k: "k < m" "k < 512" "d = m - (k + 1)" "m - k = Suc (m - (k + 1))" by auto
  let ?a = "page + PAGE_SIZE * k"
  have a: "mem (lp + 8 * k) = ?a" "getPRPSize PAGE_SIZE ?a = PAGE_SIZE" "?a \<noteq> 0"
    using assms(1)[OF k(1)] assms(2,3) by (simp_all add: getPRPSize_aligned)
  have pages: "pages_from ?a (m - k) = ?a # pages_from (page + PAGE_SIZE * (k + 1)) (m - (k + 1))"
    by (simp only: k(4) pages_from_Suc) (simp add: algebra_simps)
  have step: "parse_entries PAGE_SIZE mem lp PAGE_SIZE want (map (\<lambda>k. 8 * k) [k..<512]) (prps, c)
    = (if want \<le> c + PAGE_SIZE then Inr (prps @ [(?a, PAGE_SIZE)], c + PAGE_SIZE)
       else parse_entries PAGE_SIZE mem lp PAGE_SIZE want (map (\<lambda>k. 8 * k) [k + 1..<512]) (prps @ [(?a, PAGE_SIZE)], c + PAGE_SIZE))"
  proof -
    have u: "[k..<512] = k # [k + 1..<512]" using k(2) by (simp only: upt_conv_Cons Suc_eq_plus1)
    have g: "\<not> PAGE_SIZE < 8 * k + 8" using k(2) by simp
    show ?thesis unfolding u list.map parse_entries.simps Let_def a(1,2) by (simp only: if_not_P[OF g] if_not_P[OF a(3)])
  qed
  show ?case
  proof (cases "want \<le> c + PAGE_SIZE")
    case True
    with Suc.prems(3) have "PAGE_SIZE * (m - k) < PAGE_SIZE * 2" by linarith
    then have "m - k < 2" by simp
    with k have "m - k = 1" "m - (k + 1) = 0" by auto
    then show ?thesis using step True pages by simp
  next
    case False
    have e: "c + PAGE_SIZE + PAGE_SIZE * (m - (k + 1)) = c + PAGE_SIZE * (m - k)" by (simp only: k(4) mult_Suc_right add.assoc)
    have "m = 512 \<or> k + 1 < m"
    proof (rule ccontr)
      assume "\<not> ?thesis"
      then have "m - k = 1" "m \<noteq> 512" using k(1) by auto
      with Suc.prems(4) False show False by simp
    qed
    then have "parse_entries PAGE_SIZE mem lp PAGE_SIZE want (map (\<lambda>k. 8 * k) [k + 1..<512]) (prps @ [(?a, PAGE_SIZE)], c + PAGE_SIZE)
      = Inr ((prps @ [(?a, PAGE_SIZE)]) @ whole (pages_from (page + PAGE_SIZE * (k + 1)) (m - (k + 1))), c + PAGE_SIZE + PAGE_SIZE * (m - (k + 1)))"
      by (intro Suc.hyps(1) k(3)) (use k(1) Suc.prems e in auto)
    then show ?thesis using step False pages e by simp
  qed
qed

text \<open>A list that has all the entries.\<close>

lemma list_of_pages:
  assumes "entries_at mem lp 0 n page" "page_aligned page" "0 < page" "page_aligned lp"
    "0 < want" "DIVCEIL want PAGE_SIZE \<le> n" "n \<le> 512"
  shows "getPRPListFromPRP PAGE_SIZE mem lp want prps = Some (Inr (prps @ whole (pages_from page (DIVCEIL want PAGE_SIZE))))"
proof -
  let ?m = "DIVCEIL want PAGE_SIZE"
  have m: "want \<le> PAGE_SIZE * ?m" "PAGE_SIZE * ?m < want + PAGE_SIZE" "0 < ?m" using DIVCEIL_pages[OF assms(5)] by (auto simp: DIVCEIL_def)
  have "parse_entries PAGE_SIZE mem lp PAGE_SIZE want (map (\<lambda>k. 8 * k) [0..<512]) (prps, 0)
    = Inr (prps @ whole (pages_from (page + PAGE_SIZE * 0) (?m - 0)), 0 + PAGE_SIZE * (?m - 0))"
    by (rule parse_pages[OF _ assms(2,3)]) (use good_entries[OF assms(1-3)] assms(6,7) m in auto)
  then have p: "parse_entries PAGE_SIZE mem lp PAGE_SIZE want (map (\<lambda>k. 8 * k) [0..<512]) (prps, 0)
    = Inr (prps @ whole (pages_from page ?m), PAGE_SIZE * ?m)" by simp
  have "DIVCEIL PAGE_SIZE 8 = 512" by (simp add: DIVCEIL_def)
  with p m(1) show ?thesis
    by (subst getPRPListFromPRP.simps) (simp only: getPRPSize_aligned[OF assms(4)] Let_def sum.case prod.case if_not_P not_less)
qed

text \<open>A full list that goes on in another one: its last entry is counted.\<close>

lemma list_goes_on:
  assumes "entries_at mem lp 0 512 page" "page_aligned page" "0 < page" "page_aligned lp" "PAGE_SIZE * 512 < want"
  shows "getPRPListFromPRP PAGE_SIZE mem lp want prps
    = getPRPListFromPRP PAGE_SIZE mem (page + PAGE_SIZE * 511) (want - PAGE_SIZE * 512) (prps @ whole (pages_from page 511))"
proof -
  have "parse_entries PAGE_SIZE mem lp PAGE_SIZE want (map (\<lambda>k. 8 * k) [0..<512]) (prps, 0)
    = Inr (prps @ whole (pages_from (page + PAGE_SIZE * 0) (512 - 0)), 0 + PAGE_SIZE * (512 - 0))"
    by (rule parse_pages[OF _ assms(2,3)]) (use good_entries[OF assms(1-3)] assms(5) in auto)
  moreover have "pages_from page 512 = pages_from page 511 @ [page + PAGE_SIZE * 511]"
    unfolding pages_from_def using upt_Suc_append[of 0 511] by simp
  ultimately have p: "parse_entries PAGE_SIZE mem lp PAGE_SIZE want (map (\<lambda>k. 8 * k) [0..<512]) (prps, 0)
    = Inr (prps @ whole (pages_from page 511) @ [(page + PAGE_SIZE * 511, PAGE_SIZE)], PAGE_SIZE * 512)" by simp
  have "DIVCEIL PAGE_SIZE 8 = 512" by (simp add: DIVCEIL_def)
  with p assms(5) show ?thesis
    by (subst getPRPListFromPRP.simps) (simp only: getPRPSize_aligned[OF assms(4)] Let_def sum.case prod.case if_P append_assoc[symmetric] butlast_snoc last_snoc fst_conv)
qed

section \<open>Both\<close>

lemma count_one_list: "n \<le> PAGE_SIZE * 512 \<Longrightarrow> count_entries n c cap = (c, DIVCEIL n PAGE_SIZE, cap + PAGE_SIZE * DIVCEIL n PAGE_SIZE)"
  by (subst count_entries.simps) simp

lemma count_two_lists:
  "PAGE_SIZE * 512 < n \<Longrightarrow> n \<le> PAGE_SIZE * 1023 \<Longrightarrow> count_entries n 1 cap
    = (2, DIVCEIL (n - PAGE_SIZE * 511) PAGE_SIZE, cap + PAGE_SIZE * 512 + PAGE_SIZE * DIVCEIL (n - PAGE_SIZE * 511) PAGE_SIZE)"
  by (subst count_entries.simps) (simp add: count_one_list)

lemma host_one_list:
  assumes "PAGE_SIZE * 2 < sz" "sz \<le> PAGE_SIZE * 513"
  shows "\<exists>mem'. host_prp_new base sz mem = Inr (\<lparr>hp_memory = base,
      hp_capacity = PAGE_SIZE * (2 + DIVCEIL (sz - PAGE_SIZE) PAGE_SIZE), hp_ptr1 = base, hp_ptr2 = base + PAGE_SIZE,
      hp_ptrList = base # (base + PAGE_SIZE) # pages_from (base + PAGE_SIZE * 2) (DIVCEIL (sz - PAGE_SIZE) PAGE_SIZE)\<rparr>, mem')
    \<and> entries_at mem' (base + PAGE_SIZE) 0 (DIVCEIL (sz - PAGE_SIZE) PAGE_SIZE) (base + PAGE_SIZE * 2)"
proof -
  let ?n = "DIVCEIL (sz - PAGE_SIZE) PAGE_SIZE"
  have "0 < ?n" by (simp add: DIVCEIL_def)
  then obtain mem' where m: "fill_lists ?n 1 0 (base + PAGE_SIZE) (base + PAGE_SIZE * 2)
      (zeroed base (PAGE_SIZE * 2 + PAGE_SIZE * ?n) mem) [base, base + PAGE_SIZE]
      = Some (mem', [base, base + PAGE_SIZE] @ pages_from (base + PAGE_SIZE * 2) (?n - 0))"
    "entries_at mem' (base + PAGE_SIZE) 0 ?n (base + PAGE_SIZE * 2)" using fill_last by blast
  have c: "count_entries (sz - PAGE_SIZE) 1 (PAGE_SIZE * 2) = (1, ?n, PAGE_SIZE * 2 + PAGE_SIZE * ?n)"
    using assms by (intro count_one_list) linarith
  have "\<not> sz \<le> PAGE_SIZE" "\<not> sz \<le> PAGE_SIZE * 2" using assms by auto
  then show ?thesis
    by (intro exI[of _ mem'])
      (simp only: host_prp_new_def if_False c m Let_def prod.case option.case append.simps diff_zero distrib_left simp_thms)
qed

lemma host_two_lists:
  assumes "PAGE_SIZE * 513 < sz" "sz \<le> PAGE_SIZE * 1024"
  shows "\<exists>h mem'. host_prp_new base sz mem = Inr (h, mem') \<and> hp_ptr1 h = base \<and> hp_ptr2 h = base + PAGE_SIZE
    \<and> hp_ptrList h = base # (base + PAGE_SIZE) # pages_from (base + PAGE_SIZE * 2) 511
        @ pages_from (base + PAGE_SIZE * 514) (DIVCEIL (sz - PAGE_SIZE * 512) PAGE_SIZE)
    \<and> entries_at mem' (base + PAGE_SIZE) 0 512 (base + PAGE_SIZE * 2)
    \<and> entries_at mem' (base + PAGE_SIZE * 513) 0 (DIVCEIL (sz - PAGE_SIZE * 512) PAGE_SIZE) (base + PAGE_SIZE * 514)"
proof -
  let ?n = "DIVCEIL (sz - PAGE_SIZE * 512) PAGE_SIZE"
  let ?cap = "PAGE_SIZE * 2 + PAGE_SIZE * 512 + PAGE_SIZE * ?n"
  have d: "sz - PAGE_SIZE - PAGE_SIZE * 511 = sz - PAGE_SIZE * 512" by simp
  have c: "count_entries (sz - PAGE_SIZE) 1 (PAGE_SIZE * 2) = (2, ?n, ?cap)"
    using count_two_lists[of "sz - PAGE_SIZE" "PAGE_SIZE * 2"] assms by (simp only: d)
  obtain mem1 where m1: "fill_lists ?n 2 0 (base + PAGE_SIZE) (base + PAGE_SIZE * 2) (zeroed base ?cap mem) [base, base + PAGE_SIZE]
      = fill_lists ?n 1 0 (base + PAGE_SIZE * 2 + PAGE_SIZE * (511 - 0)) (base + PAGE_SIZE * 2 + PAGE_SIZE * (512 - 0)) mem1
          ([base, base + PAGE_SIZE] @ pages_from (base + PAGE_SIZE * 2) (511 - 0))"
    "entries_at mem1 (base + PAGE_SIZE) 0 512 (base + PAGE_SIZE * 2)" using fill_full[OF zero_less_numeral] by blast
  have "0 < ?n" by (simp add: DIVCEIL_def)
  then obtain mem2 where m2: "fill_lists ?n 1 0 (base + PAGE_SIZE * 513) (base + PAGE_SIZE * 514) mem1
        ([base, base + PAGE_SIZE] @ pages_from (base + PAGE_SIZE * 2) 511)
      = Some (mem2, ([base, base + PAGE_SIZE] @ pages_from (base + PAGE_SIZE * 2) 511) @ pages_from (base + PAGE_SIZE * 514) (?n - 0))"
    "entries_at mem2 (base + PAGE_SIZE * 513) 0 ?n (base + PAGE_SIZE * 514)"
    "\<forall>a < base + PAGE_SIZE * 513 + 8 * 0. mem2 a = mem1 a" using fill_last by blast
  have "entries_at mem2 (base + PAGE_SIZE) 0 512 (base + PAGE_SIZE * 2)"
    using m1(2) m2(3) by (simp add: entries_at_def)
  moreover have a: "base + PAGE_SIZE * 2 + PAGE_SIZE * 511 = base + PAGE_SIZE * 513"
    "base + PAGE_SIZE * 2 + PAGE_SIZE * 512 = base + PAGE_SIZE * 514" by simp_all
  note f = trans[OF m1(1)[unfolded diff_zero a] m2(1)]
  have "\<not> sz \<le> PAGE_SIZE" "\<not> sz \<le> PAGE_SIZE * 2" using assms by auto
  then have "host_prp_new base sz mem = Inr (\<lparr>hp_memory = base, hp_capacity = ?cap, hp_ptr1 = base, hp_ptr2 = base + PAGE_SIZE,
      hp_ptrList = base # (base + PAGE_SIZE) # pages_from (base + PAGE_SIZE * 2) 511 @ pages_from (base + PAGE_SIZE * 514) ?n\<rparr>, mem2)"
    by (simp only: host_prp_new_def if_False c f Let_def prod.case option.case append.simps diff_zero append_assoc)
  ultimately show ?thesis using m2(2) by simp
qed

lemma set_pages_from: "set (pages_from page n) = {page + PAGE_SIZE * k | k. k < n}"
  by (auto simp: pages_from_def)

lemma distinct_pages_from: "distinct (pages_from page n)"
  by (simp add: pages_from_def distinct_map inj_on_def)

definition pages_inside :: "nat \<Rightarrow> nat \<Rightarrow> nat list \<Rightarrow> bool" where
  "pages_inside base capacity as \<longleftrightarrow> distinct as \<and> (\<forall>a\<in>set as. page_aligned a \<and> base \<le> a \<and> a + PAGE_SIZE \<le> base + capacity)"

lemma pages_inside_one_list:
  assumes "page_aligned base"
  shows "pages_inside base (PAGE_SIZE * (2 + n)) (base # (base + PAGE_SIZE) # pages_from (base + PAGE_SIZE * 2) n)"
  using assms by (auto simp: pages_inside_def set_pages_from distinct_pages_from distrib_left)

lemma PRPList_new_list:
  assumes "PAGE_SIZE * 2 < sz" "page_aligned base"
  shows "PRPList_new PAGE_SIZE mem base prp2 sz = list_from PAGE_SIZE mem prp2 (sz - PAGE_SIZE) [(base, PAGE_SIZE)]"
proof -
  have "\<not> sz \<le> PAGE_SIZE" "\<not> sz \<le> PAGE_SIZE * 2" using assms by auto
  then show ?thesis using assms(2) by (simp only: PRPList_new_def Let_def if_False getPRPSize_aligned mult.commute)
qed

text \<open>C34: For up to a first page and one full list, the controller gets from the pointers of the driver the
  driver's own pages, all of them whole and different and inside its allocation, and they are enough. But
  where there is a list, its page is one of the driver's pages and none of the controller's.\<close>

theorem prp_lists_meet:
  assumes "page_aligned base" "0 < base" "0 < sz" "sz \<le> PAGE_SIZE * 513"
  shows "\<exists>h mem' rs. host_prp_new base sz mem = Inr (h, mem')
    \<and> PRPList_new PAGE_SIZE mem' (fst (getPointer h)) (snd (getPointer h)) sz = Inr rs
    \<and> map fst rs = (if sz \<le> PAGE_SIZE * 2 then hp_ptrList h else remove1 (snd (getPointer h)) (hp_ptrList h))
    \<and> pages_inside base (hp_capacity h) (hp_ptrList h)
    \<and> (\<forall>(a, n)\<in>set rs. n \<le> PAGE_SIZE) \<and> sz \<le> sum_list (map snd rs)"
proof (cases "sz \<le> PAGE_SIZE * 2")
  case True
  have s: "getPRPSize PAGE_SIZE base = PAGE_SIZE" "getPRPSize PAGE_SIZE (base + PAGE_SIZE) = PAGE_SIZE"
    using assms(1) by (simp_all add: getPRPSize_aligned)
  show ?thesis
  proof (cases "sz \<le> PAGE_SIZE")
    case True
    then show ?thesis using assms(1,3) s(1)
      by (simp add: host_prp_new_def PRPList_new_def getPointer_def pages_inside_def)
  next
    case False
    with \<open>sz \<le> PAGE_SIZE * 2\<close> show ?thesis using assms(1) s
      by (simp add: host_prp_new_def PRPList_new_def getPointer_def pages_inside_def)
  qed
next
  case False
  let ?n = "DIVCEIL (sz - PAGE_SIZE) PAGE_SIZE"
  let ?ps = "pages_from (base + PAGE_SIZE * 2) ?n"
  have two: "PAGE_SIZE * 2 < sz" using False by simp
  obtain mem' where m: "host_prp_new base sz mem = Inr (\<lparr>hp_memory = base, hp_capacity = PAGE_SIZE * (2 + ?n),
        hp_ptr1 = base, hp_ptr2 = base + PAGE_SIZE, hp_ptrList = base # (base + PAGE_SIZE) # ?ps\<rparr>, mem')"
    "entries_at mem' (base + PAGE_SIZE) 0 ?n (base + PAGE_SIZE * 2)" using host_one_list[OF two assms(4)] by blast
  have n: "sz - PAGE_SIZE \<le> PAGE_SIZE * ?n" "PAGE_SIZE * ?n < sz - PAGE_SIZE + PAGE_SIZE" "0 < sz - PAGE_SIZE"
    using DIVCEIL_pages[of "sz - PAGE_SIZE"] two by auto
  with assms(4) have "PAGE_SIZE * ?n < PAGE_SIZE * 513" by linarith
  then have "?n \<le> 512" by simp
  then have "PRPList_new PAGE_SIZE mem' base (base + PAGE_SIZE) sz = Inr ([(base, PAGE_SIZE)] @ whole ?ps)"
    using list_of_pages[OF m(2) _ _ _ n(3) order.refl] assms(1) aligned_add[OF assms(1), of 2] PRPList_new_list[OF two assms(1)]
    by (simp add: list_from_def)
  moreover have "sz \<le> sum_list (map snd ([(base, PAGE_SIZE)] @ whole ?ps))" using n by simp
  moreover have "\<forall>(a, n)\<in>set ([(base, PAGE_SIZE)] @ whole ?ps). n \<le> PAGE_SIZE" by (auto simp: whole_def)
  ultimately show ?thesis using m(1) pages_inside_one_list[OF assms(1), of ?n] False
    by (simp add: getPointer_def)
qed

theorem prp_lists_meet_witness:
  "\<exists>h mem' rs. host_prp_new 65536 20000 (\<lambda>_. 0) = Inr (h, mem')
    \<and> PRPList_new PAGE_SIZE mem' (fst (getPointer h)) (snd (getPointer h)) 20000 = Inr rs \<and> 20000 \<le> sum_list (map snd rs)"
  using prp_lists_meet[of 65536 20000 "\<lambda>_. 0"] by auto

text \<open>C35: With a second list the controller counts the pointer to it as a page of data, and gets one page less
  than the transfer has: its regions are too short.\<close>

theorem prp_chain_loses_page:
  assumes "page_aligned base" "0 < base" "PAGE_SIZE * 513 < sz" "sz \<le> PAGE_SIZE * 1024"
  shows "\<exists>h mem' rs. host_prp_new base sz mem = Inr (h, mem')
    \<and> PRPList_new PAGE_SIZE mem' (fst (getPointer h)) (snd (getPointer h)) sz = Inr rs
    \<and> sum_list (map snd rs) < sz"
proof -
  let ?n = "DIVCEIL (sz - PAGE_SIZE * 512) PAGE_SIZE"
  let ?k = "DIVCEIL (sz - PAGE_SIZE * 513) PAGE_SIZE"
  obtain h mem' where h: "host_prp_new base sz mem = Inr (h, mem')" "hp_ptr1 h = base" "hp_ptr2 h = base + PAGE_SIZE"
    "entries_at mem' (base + PAGE_SIZE) 0 512 (base + PAGE_SIZE * 2)"
    "entries_at mem' (base + PAGE_SIZE * 513) 0 ?n (base + PAGE_SIZE * 514)" using host_two_lists[OF assms(3,4)] by blast
  have k: "sz - PAGE_SIZE * 513 \<le> PAGE_SIZE * ?k" "PAGE_SIZE * ?k < sz - PAGE_SIZE * 513 + PAGE_SIZE" "0 < sz - PAGE_SIZE * 513"
    using DIVCEIL_pages[of "sz - PAGE_SIZE * 513"] assms(3) by auto
  have n: "sz - PAGE_SIZE * 512 \<le> PAGE_SIZE * ?n" using DIVCEIL_pages[of "sz - PAGE_SIZE * 512"] assms(3) by auto
  have "PAGE_SIZE * ?k \<le> PAGE_SIZE * ?n" using k n assms(3) by linarith
  then have kn: "?k \<le> ?n" by simp
  have "PAGE_SIZE * ?k < PAGE_SIZE * 512" using k(2) assms(3,4) by linarith
  then have k5: "?k \<le> 512" by simp
  let ?rs = "[(base, PAGE_SIZE)] @ whole (pages_from (base + PAGE_SIZE * 2) 511)"
  have a: "page_aligned (base + PAGE_SIZE)" "page_aligned (base + PAGE_SIZE * 2)" "page_aligned (base + PAGE_SIZE * 513)"
    "page_aligned (base + PAGE_SIZE * 514)"
    using assms(1) aligned_add[of base 1] aligned_add[of base 2] aligned_add[of base 513] aligned_add[of base 514] by simp_all
  have w: "PAGE_SIZE * 512 < sz - PAGE_SIZE" "sz - PAGE_SIZE - PAGE_SIZE * 512 = sz - PAGE_SIZE * 513"
    "base + PAGE_SIZE * 2 + PAGE_SIZE * 511 = base + PAGE_SIZE * 513" using assms(3) by auto
  have "getPRPListFromPRP PAGE_SIZE mem' (base + PAGE_SIZE) (sz - PAGE_SIZE) [(base, PAGE_SIZE)]
    = getPRPListFromPRP PAGE_SIZE mem' (base + PAGE_SIZE * 513) (sz - PAGE_SIZE * 513) ?rs"
    using list_goes_on[OF h(4) a(2) _ a(1) w(1), of "[(base, PAGE_SIZE)]"] unfolding w(2,3) by simp
  also have "\<dots> = Some (Inr (?rs @ whole (pages_from (base + PAGE_SIZE * 514) ?k)))"
    by (rule list_of_pages[OF _ a(4) _ a(3) k(3) order.refl k5]) (use h(5) kn in \<open>simp_all add: entries_at_def\<close>)
  finally have "PRPList_new PAGE_SIZE mem' base (base + PAGE_SIZE) sz = Inr (?rs @ whole (pages_from (base + PAGE_SIZE * 514) ?k))"
    using PRPList_new_list[of sz base] assms(1,3) by (simp add: list_from_def)
  moreover have "sum_list (map snd (?rs @ whole (pages_from (base + PAGE_SIZE * 514) ?k))) < sz"
    using k(2) assms(3) by simp
  ultimately show ?thesis using h(1-3) by (simp add: getPointer_def)
qed

text \<open>A transfer of 2.5 MiB.\<close>

theorem prp_chain_loses_page_witness:
  "\<exists>h mem' rs. host_prp_new 65536 2621440 (\<lambda>_. 0) = Inr (h, mem')
    \<and> PRPList_new PAGE_SIZE mem' (fst (getPointer h)) (snd (getPointer h)) 2621440 = Inr rs \<and> sum_list (map snd rs) < 2621440"
  using prp_chain_loses_page[of 65536 2621440 "\<lambda>_. 0"] by simp

section \<open>The driver's own accesses\<close>

lemma div_range: "PAGE_SIZE * i \<le> n \<Longrightarrow> n < PAGE_SIZE * Suc i \<Longrightarrow> n div PAGE_SIZE = i"
  by (rule div_nat_eqI) (simp_all add: mult.commute)

lemma DIVCEIL_range: "PAGE_SIZE * i < n \<Longrightarrow> n \<le> PAGE_SIZE * Suc i \<Longrightarrow> DIVCEIL n PAGE_SIZE = Suc i"
  using div_range[of i "n - 1"] by (simp add: DIVCEIL_def)

text \<open>A copy inside one page; and one that ends in the following page, where the second part starts before the
  page, at the place where the first one would have gone on.\<close>

lemma host_accesses_in_page:
  assumes "PAGE_SIZE * i \<le> offset" "0 < sz" "offset + sz \<le> PAGE_SIZE * Suc i" "i < length (hp_ptrList h)"
  shows "host_accesses h offset sz = Inr [((int (hp_ptrList h ! i) + (int offset - int (i * PAGE_SIZE))) mod 2 ^ 64, sz)]"
proof -
  have "offset div PAGE_SIZE = i" using assms(1-3) by (intro div_range) linarith+
  moreover have "DIVCEIL (offset + sz) PAGE_SIZE = Suc i" using assms(1-3) by (intro DIVCEIL_range) linarith+
  moreover have "min ((i + 1) * PAGE_SIZE - offset) (sz - 0) = sz" using assms(3) by simp
  ultimately show ?thesis using assms(2,4) by (simp add: host_accesses_def rnth_def Let_def)
qed

lemma host_accesses_two_pages:
  assumes "PAGE_SIZE * i \<le> offset" "offset < PAGE_SIZE * Suc i" "PAGE_SIZE * Suc i < offset + sz"
    "offset + sz \<le> PAGE_SIZE * Suc (Suc i)" "Suc i < length (hp_ptrList h)"
  shows "host_accesses h offset sz = Inr
    [((int (hp_ptrList h ! i) + (int offset - int (i * PAGE_SIZE))) mod 2 ^ 64, PAGE_SIZE * Suc i - offset),
     ((int (hp_ptrList h ! Suc i) - (int (PAGE_SIZE * Suc i) - int offset)) mod 2 ^ 64, sz - (PAGE_SIZE * Suc i - offset))]"
proof -
  let ?k = "PAGE_SIZE * Suc i - offset"
  have e: "offset div PAGE_SIZE = i" "DIVCEIL (offset + sz) PAGE_SIZE = Suc (Suc i)" "offset + sz \<noteq> 0"
    using div_range[OF assms(1,2)] DIVCEIL_range[OF assms(3,4)] assms(3) by auto
  have u: "[i..<Suc (Suc i)] = [i, Suc i]" by (simp add: upt_rec)
  have l: "min ((i + 1) * PAGE_SIZE - offset) (sz - 0) = ?k"
    "min ((Suc i + 1) * PAGE_SIZE - offset) (sz - (0 + ?k)) = sz - ?k"
    using assms(2-4) by (auto simp: min_def)
  have g: "int offset - int (Suc i * PAGE_SIZE) = - (int (PAGE_SIZE * Suc i) - int offset)" by simp
  have r: "rnth (hp_ptrList h) i = Inr (hp_ptrList h ! i)" "rnth (hp_ptrList h) (Suc i) = Inr (hp_ptrList h ! Suc i)"
    using assms(5) by simp_all
  show ?thesis
    unfolding host_accesses_def e(1,2) if_not_P[OF e(3)] u host_copies.simps Let_def l r g rbind_Inr
    by (simp only: add_uminus_conv_diff)
qed

end
