(* ===== verification/Grids.thy ===== *)
theory Grids
  imports Prelude
begin

text \<open>
  Arrays of arrays, as the cache uses them: accesses to a cell with both range checks, the pure
  reading and writing they amount to inside the bounds, and their laws.
\<close>

type_synonym cell = "nat \<times> nat"

definition at2 :: "'a list list \<Rightarrow> cell \<Rightarrow> 'a res" where
  "at2 d c = rbind (rnth d (fst c)) (\<lambda>r. rnth r (snd c))"

definition put2 :: "'a list list \<Rightarrow> cell \<Rightarrow> 'a \<Rightarrow> 'a list list res" where
  "put2 d c x = rbind (rnth d (fst c)) (\<lambda>r. rbind (rupd r (snd c) x) (\<lambda>r. rupd d (fst c) r))"

definition mod2 :: "'a list list \<Rightarrow> cell \<Rightarrow> ('a \<Rightarrow> 'a) \<Rightarrow> 'a list list res" where
  "mod2 d c f = rbind (at2 d c) (\<lambda>x. put2 d c (f x))"

text \<open>The positions of an array with \<^verbatim>\<open>R\<close> rows of \<^verbatim>\<open>C\<close> columns, in the order of two nested loops.\<close>

definition positions :: "nat \<Rightarrow> nat \<Rightarrow> cell list" where
  "positions R C = concat (map (\<lambda>r. map (\<lambda>c. (r, c)) [0..<C]) [0..<R])"

definition dims :: "nat \<Rightarrow> nat \<Rightarrow> 'a list list \<Rightarrow> bool" where
  "dims R C d \<longleftrightarrow> length d = R \<and> (\<forall>r \<in> set d. length r = C)"

definition el2 :: "'a list list \<Rightarrow> cell \<Rightarrow> 'a" where
  "el2 d c = d ! fst c ! snd c"

definition up2 :: "'a list list \<Rightarrow> cell \<Rightarrow> 'a \<Rightarrow> 'a list list" where
  "up2 d c x = d[fst c := (d ! fst c)[snd c := x]]"

definition inside :: "nat \<Rightarrow> nat \<Rightarrow> cell \<Rightarrow> bool" where
  "inside R C c \<longleftrightarrow> fst c < R \<and> snd c < C"

lemma dims_row: "dims R C d \<Longrightarrow> r < R \<Longrightarrow> length (d ! r) = C"
  by (auto simp: dims_def)

lemma dims_replicate [simp]: "dims R C (replicate R (replicate C x))"
  by (simp add: dims_def)

lemma at2_ok [simp]: "dims R C d \<Longrightarrow> inside R C c \<Longrightarrow> at2 d c = Inr (el2 d c)"
  by (auto simp: at2_def el2_def inside_def dims_def)

lemma put2_ok [simp]: "dims R C d \<Longrightarrow> inside R C c \<Longrightarrow> put2 d c x = Inr (up2 d c x)"
  by (auto simp: put2_def up2_def inside_def dims_def)

lemma mod2_ok [simp]: "dims R C d \<Longrightarrow> inside R C c \<Longrightarrow> mod2 d c f = Inr (up2 d c (f (el2 d c)))"
  by (simp add: mod2_def)

lemma dims_up2 [simp]: "dims R C d \<Longrightarrow> inside R C c \<Longrightarrow> dims R C (up2 d c x)"
  by (auto simp: dims_def up2_def inside_def dest!: set_update_subset_insert[THEN subsetD])

lemma el2_up2: "dims R C d \<Longrightarrow> inside R C c \<Longrightarrow> el2 (up2 d c x) c' = (if c' = c then x else el2 d c')"
  by (cases c; cases c') (auto simp: dims_def el2_def up2_def inside_def nth_list_update)

lemma up2_up2 [simp]: "dims R C d \<Longrightarrow> inside R C c \<Longrightarrow> up2 (up2 d c x) c y = up2 d c y"
  by (auto simp: dims_def up2_def inside_def)

lemma up2_same: "dims R C d \<Longrightarrow> inside R C c \<Longrightarrow> up2 d c (el2 d c) = d"
  by (auto simp: up2_def el2_def inside_def dims_def)

lemma set_positions [simp]: "c \<in> set (positions R C) \<longleftrightarrow> inside R C c"
  by (cases c) (auto simp: positions_def inside_def image_iff)

lemma el2_replicate [simp]: "inside R C c \<Longrightarrow> el2 (replicate R (replicate C x)) c = x"
  by (simp add: el2_def inside_def)

end
