(* ===== verification/Icl_Policy.thy ===== *)
theory Icl_Policy
  imports Grids
begin

text \<open>
  The lines of the cache (icl/abstract_cache.hh) and the replacement policies that the constructor
  of \<^verbatim>\<open>GenericCache\<close> (icl/generic_cache.cc) selects: \<^verbatim>\<open>evictFunction\<close>, which picks a way of a set,
  and \<^verbatim>\<open>compareFunction\<close>, which of two lines is to be evicted; with the searches for an empty and
  for a valid way.

  A set is the list of its lines, a way an index into it; \<^verbatim>\<open>length\<close> stands for \<^verbatim>\<open>waySize\<close> where the
  code returns it for nothing found. Ticks and counters are natural numbers; the start value of a
  minimum is the largest 64-bit number, as in the code. Every search adds the latency \<^verbatim>\<open>lat\<close> (the
  cache latency times 8) for each line that it looks at.
\<close>

section \<open>Lines\<close>

record line =
  ln_tag :: nat
  ln_lastAccessed :: nat
  ln_insertedAt :: nat
  ln_dirty :: bool
  ln_valid :: bool
  ln_accessCount :: nat
  ln_loadedFromBlock :: bool

definition Line_new :: line where
  "Line_new = \<lparr>ln_tag = 0, ln_lastAccessed = 0, ln_insertedAt = 0, ln_dirty = False, ln_valid = False,
     ln_accessCount = 0, ln_loadedFromBlock = False\<rparr>"

definition uint64_max :: nat where
  "uint64_max = 18446744073709551615"

datatype evict_policy = POLICY_RANDOM | POLICY_FIFO | POLICY_LEAST_RECENTLY_USED | POLICY_LRU_CLEAN | POLICY_LFU

section \<open>Picking a way of a set\<close>

text \<open>The loop of the policies with one key: the way with the first least key.\<close>

fun min_scan :: "(line \<Rightarrow> nat) \<Rightarrow> nat \<Rightarrow> nat \<Rightarrow> nat \<Rightarrow> line list \<Rightarrow> nat" where
  "min_scan key way mn i [] = way"
| "min_scan key way mn i (l # ls) =
     (if key l < mn then min_scan key i (key l) (Suc i) ls else min_scan key way mn (Suc i) ls)"

definition fifo_way :: "line list \<Rightarrow> nat" where
  "fifo_way ls = min_scan ln_insertedAt 0 uint64_max 0 ls"

definition lru_way :: "line list \<Rightarrow> nat" where
  "lru_way ls = min_scan ln_lastAccessed 0 uint64_max 0 ls"

text \<open>The clean-first policy stops at the first clean line; it returns the way and the number of
  lines it has looked at.\<close>

fun lru_clean_scan :: "nat \<Rightarrow> nat \<Rightarrow> nat \<Rightarrow> line list \<Rightarrow> nat \<times> nat" where
  "lru_clean_scan way mn i [] = (way, i)"
| "lru_clean_scan way mn i (l # ls) =
     (let (way, mn) = (if ln_lastAccessed l < mn then (i, ln_lastAccessed l) else (way, mn))
      in if \<not> ln_dirty l then (i, Suc i) else lru_clean_scan way mn (Suc i) ls)"

definition lru_clean_way :: "line list \<Rightarrow> nat" where
  "lru_clean_way ls = fst (lru_clean_scan 0 uint64_max 0 ls)"

fun lfu_scan :: "nat \<Rightarrow> nat \<Rightarrow> nat \<Rightarrow> nat \<Rightarrow> line list \<Rightarrow> nat" where
  "lfu_scan way mc ml i [] = way"
| "lfu_scan way mc ml i (l # ls) =
     (if ln_accessCount l < mc then lfu_scan i (ln_accessCount l) (ln_lastAccessed l) (Suc i) ls
      else if ln_accessCount l = mc \<and> ln_lastAccessed l < ml then lfu_scan i mc (ln_lastAccessed l) (Suc i) ls
      else lfu_scan way mc ml (Suc i) ls)"

definition lfu_way :: "line list \<Rightarrow> nat" where
  "lfu_way ls = lfu_scan 0 uint64_max uint64_max 0 ls"

text \<open>The random policy draws from a distribution over the ways: \<^verbatim>\<open>dist n\<close> is the \<^verbatim>\<open>n\<close>-th draw.\<close>

definition evictFunction :: "evict_policy \<Rightarrow> (nat \<Rightarrow> nat) \<Rightarrow> nat \<Rightarrow> line list \<Rightarrow> nat \<Rightarrow> nat \<Rightarrow> nat \<times> nat \<times> nat" where
  "evictFunction policy dist lat ls n tick =
     (case policy of
        POLICY_RANDOM \<Rightarrow> (dist n, Suc n, tick)
      | POLICY_FIFO \<Rightarrow> (fifo_way ls, n, tick + lat * length ls)
      | POLICY_LEAST_RECENTLY_USED \<Rightarrow> (lru_way ls, n, tick + lat * length ls)
      | POLICY_LRU_CLEAN \<Rightarrow> (lru_clean_way ls, n, tick + lat * snd (lru_clean_scan 0 uint64_max 0 ls))
      | POLICY_LFU \<Rightarrow> (lfu_way ls, n, tick + lat * length ls))"

section \<open>Comparing two lines\<close>

text \<open>Whether the first of two lines is taken; on equal keys it is the second.\<close>

definition fifo_first :: "line \<Rightarrow> line \<Rightarrow> bool" where
  "fifo_first a b \<longleftrightarrow> ln_insertedAt a < ln_insertedAt b"

definition lru_first :: "line \<Rightarrow> line \<Rightarrow> bool" where
  "lru_first a b \<longleftrightarrow> ln_lastAccessed a < ln_lastAccessed b"

definition lru_clean_first :: "line \<Rightarrow> line \<Rightarrow> bool" where
  "lru_clean_first a b =
     (if \<not> ln_dirty a \<and> \<not> ln_dirty b then ln_lastAccessed a < ln_lastAccessed b
      else if \<not> ln_dirty a then True
      else if \<not> ln_dirty b then False
      else ln_lastAccessed a < ln_lastAccessed b)"

definition lfu_first :: "line \<Rightarrow> line \<Rightarrow> bool" where
  "lfu_first a b =
     (if ln_accessCount a < ln_accessCount b then True
      else if ln_accessCount b < ln_accessCount a then False
      else ln_lastAccessed a < ln_lastAccessed b)"

definition takes_first :: "evict_policy \<Rightarrow> (nat \<Rightarrow> nat) \<Rightarrow> nat \<Rightarrow> line \<Rightarrow> line \<Rightarrow> nat \<Rightarrow> bool \<times> nat" where
  "takes_first policy dist waySize a b n =
     (case policy of
        POLICY_RANDOM \<Rightarrow> (dist n > waySize div 2, Suc n)
      | POLICY_FIFO \<Rightarrow> (fifo_first a b, n)
      | POLICY_LEAST_RECENTLY_USED \<Rightarrow> (lru_first a b, n)
      | POLICY_LRU_CLEAN \<Rightarrow> (lru_clean_first a b, n)
      | POLICY_LFU \<Rightarrow> (lfu_first a b, n))"

text \<open>\<^verbatim>\<open>compareFunction\<close> on pointers to lines of the array \<^verbatim>\<open>data\<close>.\<close>

definition compareFunction ::
  "evict_policy \<Rightarrow> (nat \<Rightarrow> nat) \<Rightarrow> nat \<Rightarrow> line list list \<Rightarrow> cell option \<Rightarrow> cell option \<Rightarrow> nat \<Rightarrow> (cell option \<times> nat) res"
where
  "compareFunction policy dist waySize data p q n =
     (case (p, q) of
        (Some a, Some b) \<Rightarrow> rbind (at2 data a) (\<lambda>la. rbind (at2 data b) (\<lambda>lb.
          let (f, n) = takes_first policy dist waySize la lb n in Inr (if f then p else q, n)))
      | (Some a, None) \<Rightarrow> Inr (p, n)
      | (None, _) \<Rightarrow> Inr (q, n))"

section \<open>Searching a set\<close>

text \<open>The empty way that was inserted first; only the lines that are not valid cost time.\<close>

fun empty_scan :: "nat \<Rightarrow> nat \<Rightarrow> nat \<Rightarrow> nat \<Rightarrow> nat \<Rightarrow> line list \<Rightarrow> nat \<times> nat" where
  "empty_scan lat ret mn tick i [] = (ret, tick)"
| "empty_scan lat ret mn tick i (l # ls) =
     (if \<not> ln_valid l
      then if mn > ln_insertedAt l then empty_scan lat i (ln_insertedAt l) (tick + lat) (Suc i) ls
           else empty_scan lat ret mn (tick + lat) (Suc i) ls
      else empty_scan lat ret mn tick (Suc i) ls)"

definition empty_way :: "nat \<Rightarrow> line list \<Rightarrow> nat \<Rightarrow> nat \<times> nat" where
  "empty_way lat ls tick = empty_scan lat (length ls) uint64_max tick 0 ls"

fun valid_scan :: "nat \<Rightarrow> nat \<Rightarrow> nat \<Rightarrow> nat \<Rightarrow> line list \<Rightarrow> nat \<times> nat" where
  "valid_scan lat lca tick i [] = (i, tick)"
| "valid_scan lat lca tick i (l # ls) =
     (if ln_valid l \<and> ln_tag l = lca then (i, tick + lat) else valid_scan lat lca (tick + lat) (Suc i) ls)"

definition valid_way :: "nat \<Rightarrow> nat \<Rightarrow> line list \<Rightarrow> nat \<Rightarrow> nat \<times> nat" where
  "valid_way lat lca ls tick = valid_scan lat lca tick 0 ls"

fun evicted_scan :: "nat \<Rightarrow> nat \<Rightarrow> nat \<Rightarrow> line list \<Rightarrow> nat" where
  "evicted_scan lca ret i [] = ret"
| "evicted_scan lca ret i (l # ls) = (if ln_tag l = lca then i else evicted_scan lca ret (Suc i) ls)"

section \<open>The searches find what they look for\<close>

lemma valid_scan_result:
  assumes "valid_scan lat lca tick i ls = (w, t)"
  shows "i \<le> w \<and> w \<le> i + length ls \<and> tick \<le> t
    \<and> (w < i + length ls \<longrightarrow> ln_valid (ls ! (w - i)) \<and> ln_tag (ls ! (w - i)) = lca)
    \<and> (w = i + length ls \<longrightarrow> (\<forall>l \<in> set ls. \<not> (ln_valid l \<and> ln_tag l = lca)))"
  using assms
proof (induction ls arbitrary: i tick)
  case (Cons l ls)
  show ?case
  proof (cases "ln_valid l \<and> ln_tag l = lca")
    case False
    with Cons.prems have "valid_scan lat lca (tick + lat) (Suc i) ls = (w, t)" by auto
    from Cons.IH[OF this] False show ?thesis
      by (auto simp: nth_Cons' Suc_diff_Suc less_eq_Suc_le)
  qed (use Cons.prems in auto)
qed simp

lemma valid_way_result:
  assumes "valid_way lat lca ls tick = (w, t)"
  shows "w \<le> length ls" "tick \<le> t"
    "w < length ls \<Longrightarrow> ln_valid (ls ! w) \<and> ln_tag (ls ! w) = lca"
    "w = length ls \<Longrightarrow> \<forall>l \<in> set ls. \<not> (ln_valid l \<and> ln_tag l = lca)"
  using valid_scan_result[OF assms[unfolded valid_way_def]] by auto

lemma empty_scan_result:
  assumes "empty_scan lat ret mn tick i ls = (w, t)"
  shows "tick \<le> t \<and> (w = ret \<or> (i \<le> w \<and> w < i + length ls \<and> \<not> ln_valid (ls ! (w - i))))
    \<and> ((\<exists>l \<in> set ls. \<not> ln_valid l \<and> ln_insertedAt l < mn) \<longrightarrow> i \<le> w \<and> w < i + length ls \<and> \<not> ln_valid (ls ! (w - i)))"
  using assms
proof (induction ls arbitrary: i tick ret mn)
  case (Cons l ls)
  have shift: "(l # ls) ! (w - i) = ls ! (w - Suc i)" if "Suc i \<le> w"
    using that by (simp add: nth_Cons' Suc_diff_Suc less_eq_Suc_le)
  show ?case
  proof (cases "\<not> ln_valid l \<and> ln_insertedAt l < mn")
    case True
    with Cons.prems have "empty_scan lat i (ln_insertedAt l) (tick + lat) (Suc i) ls = (w, t)" by auto
    from Cons.IH[OF this] True shift show ?thesis by auto
  next
    case False
    let ?tick = "if ln_valid l then tick else tick + lat"
    have "empty_scan lat ret mn ?tick (Suc i) ls = (w, t)"
      using Cons.prems False by (auto split: if_splits)
    from Cons.IH[OF this] False shift show ?thesis by (auto split: if_splits)
  qed
qed simp

lemma empty_way_result:
  assumes "empty_way lat ls tick = (w, t)"
  shows "w \<le> length ls" "tick \<le> t" "w < length ls \<Longrightarrow> \<not> ln_valid (ls ! w)"
    "\<exists>l \<in> set ls. \<not> ln_valid l \<and> ln_insertedAt l < uint64_max \<Longrightarrow> w < length ls"
  using empty_scan_result[OF assms[unfolded empty_way_def]] by auto

section \<open>The contract of a replacement policy\<close>

text \<open>A policy orders the lines: \<^verbatim>\<open>worse a b\<close> says that \<^verbatim>\<open>a\<close> is to go before \<^verbatim>\<open>b\<close>. The comparison
  never takes a line when the other one is to go before it.\<close>

locale replacement_order =
  fixes worse :: "line \<Rightarrow> line \<Rightarrow> bool" and first :: "line \<Rightarrow> line \<Rightarrow> bool"
  assumes worse_trans: "worse a b \<Longrightarrow> worse b c \<Longrightarrow> worse a c"
    and worse_neg_trans: "\<not> worse a b \<Longrightarrow> \<not> worse b c \<Longrightarrow> \<not> worse a c"
    and first_sound: "first a b \<Longrightarrow> \<not> worse b a"
    and second_sound: "\<not> first a b \<Longrightarrow> \<not> worse a b"
begin

lemma pick_sound: "\<not> worse a (if first a b then a else b)" "\<not> worse b (if first a b then a else b)"
proof -
  have irrefl: "\<not> worse l l" for l
    using first_sound[of l l] second_sound[of l l] by blast
  show "\<not> worse a (if first a b then a else b)" "\<not> worse b (if first a b then a else b)"
    using first_sound[of a b] second_sound[of a b] irrefl by auto
qed

text \<open>Folding the comparison over lines finds one that no other is to go before.\<close>

lemma fold_sound:
  "l \<in> insert l0 (set ls) \<Longrightarrow> \<not> worse l (fold (\<lambda>b a. if first a b then a else b) ls l0)"
proof (induction ls arbitrary: l0 l)
  case Nil
  then show ?case using pick_sound(1)[where a = l0 and b = l0] by auto
next
  case (Cons x xs)
  let ?m = "if first l0 x then l0 else x"
  have m: "\<not> worse ?m (fold (\<lambda>b a. if first a b then a else b) xs ?m)" by (rule Cons.IH) simp
  show ?case
  proof (cases "l \<in> set xs")
    case True
    then show ?thesis using Cons.IH[of l ?m] by simp
  next
    case False
    with Cons.prems have "\<not> worse l ?m" using pick_sound[where a = l0 and b = x] by auto
    from worse_neg_trans[OF this m] show ?thesis by simp
  qed
qed

end

text \<open>A policy that also picks a way of a set, among lines whose keys fit into 64 bits.\<close>

locale replacement_policy = replacement_order +
  fixes pick :: "line list \<Rightarrow> nat" and fits :: "line \<Rightarrow> bool"
  assumes pick_in: "ls \<noteq> [] \<Longrightarrow> pick ls < length ls"
    and pick_least: "ls \<noteq> [] \<Longrightarrow> \<forall>l \<in> set ls. fits l \<Longrightarrow> l \<in> set ls \<Longrightarrow> \<not> worse l (ls ! pick ls)"

definition fits64 :: "line \<Rightarrow> bool" where
  "fits64 l \<longleftrightarrow> ln_insertedAt l \<le> uint64_max \<and> ln_lastAccessed l \<le> uint64_max \<and> ln_accessCount l \<le> uint64_max"

lemma min_scan_result:
  "min_scan key way mn i ls = w \<Longrightarrow>
     (w = way \<and> (\<forall>l \<in> set ls. mn \<le> key l))
   \<or> (i \<le> w \<and> w < i + length ls \<and> key (ls ! (w - i)) < mn \<and> (\<forall>l \<in> set ls. key (ls ! (w - i)) \<le> key l))"
proof (induction ls arbitrary: way mn i)
  case (Cons l ls)
  have shift: "(l # ls) ! (w - i) = ls ! (w - Suc i)" if "Suc i \<le> w"
    using that by (simp add: nth_Cons' Suc_diff_Suc less_eq_Suc_le)
  show ?case
  proof (cases "key l < mn")
    case True
    with Cons.prems have "min_scan key i (key l) (Suc i) ls = w" by simp
    from Cons.IH[OF this] True shift show ?thesis by force
  next
    case False
    with Cons.prems have "min_scan key way mn (Suc i) ls = w" by simp
    from Cons.IH[OF this] False shift show ?thesis by fastforce
  qed
qed simp

lemma min_scan_least:
  assumes "ls \<noteq> []" "w = min_scan key 0 uint64_max 0 ls"
  shows "w < length ls" "\<forall>l \<in> set ls. key l \<le> uint64_max \<Longrightarrow> l \<in> set ls \<Longrightarrow> key (ls ! w) \<le> key l"
proof -
  note r = min_scan_result[OF assms(2)[symmetric]]
  show "w < length ls" using r assms(1) by auto
  show "key (ls ! w) \<le> key l" if k: "\<forall>l \<in> set ls. key l \<le> uint64_max" "l \<in> set ls"
  proof (cases "w = 0 \<and> (\<forall>l \<in> set ls. uint64_max \<le> key l)")
    case True
    with k(2) have "uint64_max \<le> key l" by blast
    moreover have "key (ls ! w) \<le> uint64_max" using True k(1) assms(1) by simp
    ultimately show ?thesis by linarith
  qed (use r k in auto)
qed

interpretation fifo: replacement_policy fifo_first fifo_first fifo_way fits64
proof
  show "fifo_way ls < length ls" if "ls \<noteq> []" for ls
    using min_scan_least(1)[OF that] by (simp add: fifo_way_def)
  show "\<not> fifo_first l (ls ! fifo_way ls)" if "ls \<noteq> []" "\<forall>l \<in> set ls. fits64 l" "l \<in> set ls" for ls l
    using min_scan_least(2)[OF that(1) refl, of ln_insertedAt l] that(2,3)
    by (auto simp: fifo_way_def fifo_first_def fits64_def)
qed (auto simp: fifo_first_def)

interpretation lru: replacement_policy lru_first lru_first lru_way fits64
proof
  show "lru_way ls < length ls" if "ls \<noteq> []" for ls
    using min_scan_least(1)[OF that] by (simp add: lru_way_def)
  show "\<not> lru_first l (ls ! lru_way ls)" if "ls \<noteq> []" "\<forall>l \<in> set ls. fits64 l" "l \<in> set ls" for ls l
    using min_scan_least(2)[OF that(1) refl, of ln_lastAccessed l] that(2,3)
    by (auto simp: lru_way_def lru_first_def fits64_def)
qed (auto simp: lru_first_def)

lemma lfu_scan_result:
  "lfu_scan way mc ml i ls = w \<Longrightarrow>
     (w = way \<and> (\<forall>l \<in> set ls. mc < ln_accessCount l \<or> mc = ln_accessCount l \<and> ml \<le> ln_lastAccessed l))
   \<or> (i \<le> w \<and> w < i + length ls
       \<and> (ln_accessCount (ls ! (w - i)) < mc \<or> ln_accessCount (ls ! (w - i)) = mc \<and> ln_lastAccessed (ls ! (w - i)) < ml)
       \<and> (\<forall>l \<in> set ls. \<not> lfu_first l (ls ! (w - i))))"
proof (induction ls arbitrary: way mc ml i)
  case (Cons l ls)
  have shift: "(l # ls) ! (w - i) = ls ! (w - Suc i)" if "Suc i \<le> w"
    using that by (simp add: nth_Cons' Suc_diff_Suc less_eq_Suc_le)
  show ?case
  proof (cases "ln_accessCount l < mc \<or> ln_accessCount l = mc \<and> ln_lastAccessed l < ml")
    case True
    with Cons.prems have "lfu_scan i (ln_accessCount l) (ln_lastAccessed l) (Suc i) ls = w" by (auto split: if_splits)
    from Cons.IH[OF this] consider
      (same) "w = i" "\<forall>x \<in> set ls. \<not> lfu_first x l"
    | (later) "Suc i \<le> w" "w < Suc i + length ls" "lfu_first (ls ! (w - Suc i)) l"
        "\<forall>x \<in> set ls. \<not> lfu_first x (ls ! (w - Suc i))"
      by (fastforce simp: lfu_first_def)
    then show ?thesis
    proof cases
      case same
      with True show ?thesis by (simp add: lfu_first_def)
    next
      case later
      have "\<not> lfu_first l (ls ! (w - Suc i))" using later(3) by (auto simp: lfu_first_def split: if_splits)
      moreover have "ln_accessCount (ls ! (w - Suc i)) < mc
          \<or> ln_accessCount (ls ! (w - Suc i)) = mc \<and> ln_lastAccessed (ls ! (w - Suc i)) < ml"
        using later(3) True by (auto simp: lfu_first_def split: if_splits)
      ultimately show ?thesis using later shift by simp
    qed
  next
    case False
    with Cons.prems have "lfu_scan way mc ml (Suc i) ls = w" by (auto split: if_splits)
    from Cons.IH[OF this] consider
      (same) "w = way" "\<forall>x \<in> set ls. mc < ln_accessCount x \<or> mc = ln_accessCount x \<and> ml \<le> ln_lastAccessed x"
    | (later) "Suc i \<le> w" "w < Suc i + length ls"
        "ln_accessCount (ls ! (w - Suc i)) < mc
          \<or> ln_accessCount (ls ! (w - Suc i)) = mc \<and> ln_lastAccessed (ls ! (w - Suc i)) < ml"
        "\<forall>x \<in> set ls. \<not> lfu_first x (ls ! (w - Suc i))"
      by fastforce
    then show ?thesis
    proof cases
      case same
      with False show ?thesis by (metis insert_iff linorder_less_linear linorder_not_le list.simps(15))
    next
      case later
      have "\<not> lfu_first l (ls ! (w - Suc i))" using later(3) False by (auto simp: lfu_first_def split: if_splits)
      with later shift show ?thesis by simp
    qed
  qed
qed simp

text \<open>The scan for the least frequently used line starts from the largest values: a line is passed
  over only if both its keys have them.\<close>

interpretation lfu: replacement_policy lfu_first lfu_first lfu_way fits64
proof
  show "lfu_way ls < length ls" if "ls \<noteq> []" for ls
    using lfu_scan_result[of 0 uint64_max uint64_max 0 ls] that by (auto simp: lfu_way_def)
  show "\<not> lfu_first l (ls ! lfu_way ls)" if ls: "ls \<noteq> []" "\<forall>l \<in> set ls. fits64 l" "l \<in> set ls" for ls l
  proof -
    note r = lfu_scan_result[of 0 uint64_max uint64_max 0 ls "lfu_way ls", unfolded lfu_way_def[symmetric], OF refl]
    show ?thesis
    proof (cases "lfu_way ls = 0 \<and> (\<forall>l \<in> set ls. uint64_max < ln_accessCount l
        \<or> uint64_max = ln_accessCount l \<and> uint64_max \<le> ln_lastAccessed l)")
      case True
      have "ls ! 0 \<in> set ls" using ls(1) by simp
      have most: "ln_accessCount x = uint64_max \<and> ln_lastAccessed x = uint64_max" if "x \<in> set ls" for x
      proof -
        have "fits64 x" using ls(2) that by blast
        then show ?thesis using True that by (auto simp: fits64_def)
      qed
      with True \<open>ls ! 0 \<in> set ls\<close> ls(3) show ?thesis by (simp add: lfu_first_def)
    qed (use r ls(3) in auto)
  qed
qed (auto simp: lfu_first_def split: if_splits)

text \<open>The comparison of the clean-first policy orders clean lines by their last access.\<close>

interpretation lru_clean: replacement_order lru_clean_first lru_clean_first
  by unfold_locales (auto simp: lru_clean_first_def split: if_splits)

text \<open>Its search returns the first clean line, not the least recently used one: it satisfies the
  contract only for the order in which all clean lines are equal.\<close>

definition dirty_later :: "line \<Rightarrow> line \<Rightarrow> bool" where
  "dirty_later a b \<longleftrightarrow> ln_dirty b \<and> (\<not> ln_dirty a \<or> ln_lastAccessed a < ln_lastAccessed b)"

lemma lru_clean_scan_result:
  "fst (lru_clean_scan way mn i ls) = w \<Longrightarrow>
     (w = way \<and> (\<forall>l \<in> set ls. ln_dirty l \<and> mn \<le> ln_lastAccessed l))
   \<or> (i \<le> w \<and> w < i + length ls
       \<and> (\<not> ln_dirty (ls ! (w - i)) \<or> ln_lastAccessed (ls ! (w - i)) < mn
             \<and> (\<forall>l \<in> set ls. ln_dirty l \<and> ln_lastAccessed (ls ! (w - i)) \<le> ln_lastAccessed l)))"
proof (induction ls arbitrary: way mn i)
  case (Cons l ls)
  have shift: "(l # ls) ! (w - i) = ls ! (w - Suc i)" if "Suc i \<le> w"
    using that by (simp add: nth_Cons' Suc_diff_Suc less_eq_Suc_le)
  show ?case
  proof (cases "ln_dirty l")
    case False
    then show ?thesis using Cons.prems by (auto split: if_splits)
  next
    case dirty: True
    show ?thesis
    proof (cases "ln_lastAccessed l < mn")
      case True
      with Cons.prems dirty have "fst (lru_clean_scan i (ln_lastAccessed l) (Suc i) ls) = w" by simp
      from Cons.IH[OF this] True dirty shift show ?thesis by (cases "w = i") force+
    next
      case False
      with Cons.prems dirty have "fst (lru_clean_scan way mn (Suc i) ls) = w" by simp
      from Cons.IH[OF this] False dirty shift show ?thesis by fastforce
    qed
  qed
qed simp

interpretation lru_clean_pick: replacement_policy dirty_later lru_clean_first lru_clean_way fits64
proof
  show "lru_clean_way ls < length ls" if "ls \<noteq> []" for ls
    using lru_clean_scan_result[of 0 uint64_max 0 ls] that by (auto simp: lru_clean_way_def)
  show "\<not> dirty_later l (ls ! lru_clean_way ls)" if ls: "ls \<noteq> []" "\<forall>l \<in> set ls. fits64 l" "l \<in> set ls" for ls l
  proof -
    note r = lru_clean_scan_result[of 0 uint64_max 0 ls "lru_clean_way ls", unfolded lru_clean_way_def[symmetric], OF refl]
    show ?thesis
    proof (cases "lru_clean_way ls = 0 \<and> (\<forall>l \<in> set ls. ln_dirty l \<and> uint64_max \<le> ln_lastAccessed l)")
      case True
      have "ls ! 0 \<in> set ls" using ls(1) by simp
      have most: "ln_lastAccessed x = uint64_max \<and> ln_dirty x" if "x \<in> set ls" for x
      proof -
        have "fits64 x" using ls(2) that by blast
        then show ?thesis using True that by (auto simp: fits64_def)
      qed
      with True \<open>ls ! 0 \<in> set ls\<close> ls(3) show ?thesis by (simp add: dirty_later_def)
    qed (use r ls(3) in \<open>fastforce simp: dirty_later_def\<close>)
  qed
qed (auto simp: dirty_later_def lru_clean_first_def split: if_splits)

end
