(* ===== verification/Icl_Cache.thy ===== *)
theory Icl_Cache
  imports Icl_Policy Bitsets
begin

text \<open>
  The cache of the internal cache layer: the class \<^verbatim>\<open>GenericCache\<close> (icl/generic_cache.hh and
  icl/generic_cache.cc), its operations with every branch.

  The cache holds no data, only the state of its lines, and drives what is below it: the FTL and the
  DRAM, of type \<^verbatim>\<open>'f\<close>, through the functions of the record \<^verbatim>\<open>below\<close>, each of which takes and
  returns the state below and returns the tick at which it is finished. A write to the FTL can start
  a garbage collection that calls \<^verbatim>\<open>updateDirty\<close> of the cache: the function is passed to it with the
  array of lines. The calls to the FTL are recorded in \<^verbatim>\<open>gc_log\<close>.

  A pointer to a line is a cell of the array (set, way). The ratio test of the prefetcher, a division
  of floats, is a parameter. The counters that are only printed (the members of \<^verbatim>\<open>caching\<close> and
  \<^verbatim>\<open>ghostCache\<close>, the global totals) are left out; the ones that \<^verbatim>\<open>getStatValues\<close> returns are kept.
  The name of an operation of the code that clashes has the prefix \<^verbatim>\<open>gc_\<close>.
\<close>

section \<open>Requests, configuration, state\<close>

record icl_request =
  rq_reqID :: nat
  rq_offset :: nat
  rq_length :: nat
  rq_slpn :: nat
  rq_nlp :: nat
  rq_loadedFromBlock :: bool

record ftl_request =
  fr_lpn :: nat
  fr_ioFlag :: bitset

datatype prefetch_mode = MODE_SUPERPAGE | MODE_ALL
datatype cpu_function = CPU_READ | CPU_WRITE | CPU_FLUSH | CPU_TRIM | CPU_FORMAT

type_synonym cdata = "line list list"

record 'f below =
  bl_read :: "ftl_request \<Rightarrow> nat \<Rightarrow> 'f \<Rightarrow> (nat \<times> 'f) res"
  bl_write :: "(nat \<Rightarrow> nat \<Rightarrow> cdata \<Rightarrow> (nat \<times> cdata) res) \<Rightarrow> ftl_request \<Rightarrow> nat \<Rightarrow> 'f \<times> cdata \<Rightarrow> (nat \<times> 'f \<times> cdata) res"
  bl_trim :: "ftl_request \<Rightarrow> nat \<Rightarrow> 'f \<Rightarrow> (nat \<times> 'f) res"
  bl_format :: "(nat \<Rightarrow> nat \<Rightarrow> cdata \<Rightarrow> (nat \<times> cdata) res) \<Rightarrow> nat \<Rightarrow> nat \<Rightarrow> nat \<Rightarrow> 'f \<times> cdata \<Rightarrow> (nat \<times> 'f \<times> cdata) res"
  bl_decache :: "nat \<Rightarrow> 'f \<Rightarrow> 'f res"
  bl_evicted :: "nat \<Rightarrow> 'f \<Rightarrow> 'f"             \<comment> \<open>\<^verbatim>\<open>lbaEvictionFrequency[tag]++\<close>\<close>
  bl_reuse :: "nat \<Rightarrow> nat \<Rightarrow> 'f \<Rightarrow> 'f"        \<comment> \<open>\<^verbatim>\<open>globalLBaReuseMap[lpn] = count\<close>\<close>
  bl_dram_read :: "nat \<Rightarrow> nat \<Rightarrow> 'f \<Rightarrow> nat \<times> 'f"
  bl_dram_write :: "nat \<Rightarrow> nat \<Rightarrow> 'f \<Rightarrow> nat \<times> 'f"
  bl_setScheduling :: "bool \<Rightarrow> 'f \<Rightarrow> 'f"

record gconf =
  gf_superPageSize :: nat
  gf_parallelIO :: nat
  gf_lineCountInSuperPage :: nat
  gf_lineCountInMaxIO :: nat
  gf_lineSize :: nat
  gf_setSize :: nat
  gf_waySize :: nat
  gf_ghostWaySize :: nat
  gf_prefetchIOCount :: nat
  gf_prefetchIORatio :: "nat \<Rightarrow> nat \<Rightarrow> bool"
  gf_useReadCaching :: bool
  gf_useWriteCaching :: bool
  gf_useReadPrefetch :: bool
  gf_bSuperPage :: bool
  gf_prefetchMode :: prefetch_mode
  gf_evictMode :: prefetch_mode
  gf_policy :: evict_policy
  gf_dist :: "nat \<Rightarrow> nat"
  gf_cacheLatency :: nat
  gf_iclCores :: nat
  gf_applyLatency :: "cpu_function \<Rightarrow> nat"

record seqdetect =
  sd_enabled :: bool
  sd_last :: icl_request
  sd_hitCounter :: nat
  sd_accessCounter :: nat

datatype ftl_call = FRead nat bitset | FWrite nat bitset | FTrim nat bitset | FFormat nat nat | FDecache nat

record 'f gcache =
  gc_data :: cdata
  gc_evict :: "cell option list list"
  gc_ghost :: cdata
  gc_ghostEvict :: "cell option list list"
  gc_detect :: seqdetect
  gc_prefetchTrigger :: nat
  gc_lastPrefetched :: nat
  gc_draws :: nat
  gc_doEvictionByGC :: bool
  gc_pageEvictionIndicator :: "nat \<rightharpoonup> bool"
  gc_readRequests :: nat
  gc_readHits :: nat
  gc_writeRequests :: nat
  gc_writeHits :: nat
  gc_below :: 'f
  gc_log :: "ftl_call list"

section \<open>Construction\<close>

text \<open>What the constructor reads: the parameters of the FTL, the configuration and two globals.\<close>

record gconfig =
  cf_pageSize :: nat
  cf_pageCountToMaxPerf :: nat
  cf_ioUnitInPage :: nat
  cf_randomTweak :: bool
  cf_waySize :: nat
  cf_cacheSize :: nat
  cf_ghostCacheSize :: nat
  cf_victimSelectionPolicy :: nat

text \<open>The sizes; \<^verbatim>\<open>garbage\<close> is the value that \<^verbatim>\<open>bSuperPage\<close> has when the constructor does not set
  it. The members of \<^verbatim>\<open>rest\<close> that are read from the configuration as they are, are kept.\<close>

definition GenericCache_sizes :: "bool \<Rightarrow> gconfig \<Rightarrow> gconf \<Rightarrow> gconf" where
  "GenericCache_sizes garbage cf rest =
     (let L = cf_ioUnitInPage cf;
          lineSize = cf_pageSize cf div L;
          ghostWays = max (cf_ghostCacheSize cf div lineSize) 1;
          cacheSize = (if cf_victimSelectionPolicy cf = 4 then cf_cacheSize cf - cf_ghostCacheSize cf else cf_cacheSize cf);
          superPage = (if lineSize \<noteq> cf_pageSize cf then True else garbage);
          (lineSize, L) = (if cf_randomTweak cf then (lineSize, L) else (cf_pageSize cf, 1));
          (sets, ways) = (if \<not> gf_useReadCaching rest \<and> \<not> gf_useWriteCaching rest then (0, cf_waySize cf)
                          else if cf_waySize cf = 0 then (1, max (cacheSize div lineSize) 1)
                          else (max (cacheSize div lineSize div cf_waySize cf) 1, cf_waySize cf))
      in rest\<lparr>gf_superPageSize := cf_pageSize cf, gf_parallelIO := cf_pageCountToMaxPerf cf,
           gf_lineCountInSuperPage := L, gf_lineCountInMaxIO := cf_pageCountToMaxPerf cf * L,
           gf_lineSize := lineSize, gf_setSize := sets, gf_waySize := ways, gf_ghostWaySize := ghostWays,
           gf_bSuperPage := superPage\<rparr>)"

definition icl_request_new :: icl_request where
  "icl_request_new = \<lparr>rq_reqID = 0, rq_offset = 0, rq_length = 0, rq_slpn = 0, rq_nlp = 0, rq_loadedFromBlock = False\<rparr>"

definition GenericCache_new :: "gconf \<Rightarrow> 'f \<Rightarrow> 'f gcache" where
  "GenericCache_new g f =
     \<lparr>gc_data = replicate (gf_setSize g) (replicate (gf_waySize g) Line_new),
      gc_evict = replicate (gf_lineCountInSuperPage g) (replicate (gf_parallelIO g) None),
      gc_ghost = replicate (gf_setSize g) (replicate (gf_ghostWaySize g) Line_new),
      gc_ghostEvict = replicate (gf_lineCountInSuperPage g) (replicate (gf_parallelIO g) None),
      gc_detect = \<lparr>sd_enabled = False, sd_last = icl_request_new\<lparr>rq_reqID := 1\<rparr>, sd_hitCounter = 0, sd_accessCounter = 0\<rparr>,
      gc_prefetchTrigger = uint64_max, gc_lastPrefetched = 0, gc_draws = 0, gc_doEvictionByGC = False,
      gc_pageEvictionIndicator = Map.empty, gc_readRequests = 0, gc_readHits = 0, gc_writeRequests = 0,
      gc_writeHits = 0, gc_below = f, gc_log = []\<rparr>"

section \<open>Addresses and latency\<close>

definition getCacheLatency :: "gconf \<Rightarrow> nat" where
  "getCacheLatency g = (if gf_iclCores g = 0 then 0 else gf_cacheLatency g div gf_iclCores g)"

definition lat8 :: "gconf \<Rightarrow> nat" where
  "lat8 g = getCacheLatency g * 8"

definition calcSetIndex :: "gconf \<Rightarrow> nat \<Rightarrow> nat" where
  "calcSetIndex g lca = lca mod gf_setSize g"

definition calcIOPosition :: "gconf \<Rightarrow> nat \<Rightarrow> cell" where
  "calcIOPosition g lca =
     (let tmp = lca mod gf_lineCountInMaxIO g
      in (tmp mod gf_lineCountInSuperPage g, tmp div gf_lineCountInSuperPage g))"

text \<open>The searches in the set of an address, for either of the two arrays.\<close>

definition getEmptyWay :: "gconf \<Rightarrow> cdata \<Rightarrow> nat \<Rightarrow> nat \<Rightarrow> (nat \<times> nat) res" where
  "getEmptyWay g d setIdx tick = rbind (rnth d setIdx) (\<lambda>ls. Inr (empty_way (lat8 g) ls tick))"

definition getValidWay :: "gconf \<Rightarrow> cdata \<Rightarrow> nat \<Rightarrow> nat \<Rightarrow> (nat \<times> nat) res" where
  "getValidWay g d lca tick = rbind (rnth d (calcSetIndex g lca)) (\<lambda>ls. Inr (valid_way (lat8 g) lca ls tick))"

definition getEvictedWay :: "gconf \<Rightarrow> cdata \<Rightarrow> nat \<Rightarrow> nat \<Rightarrow> nat res" where
  "getEvictedWay g d setIdx lca = rbind (rnth d setIdx) (\<lambda>ls. Inr (evicted_scan lca (gf_waySize g) 0 ls))"

section \<open>Calls below\<close>

text \<open>\<^verbatim>\<open>updateDirty\<close> on the array of lines: the function that the FTL calls back.\<close>

definition updateDirty :: "gconf \<Rightarrow> nat \<Rightarrow> nat \<Rightarrow> cdata \<Rightarrow> (nat \<times> cdata) res" where
  "updateDirty g lca tick d =
     rbind (getValidWay g d lca tick) (\<lambda>(w, tick).
       if w \<noteq> gf_waySize g
       then rbind (mod2 d (calcSetIndex g lca, w) (\<lambda>l. l\<lparr>ln_dirty := True, ln_accessCount := ln_accessCount l + 1\<rparr>))
              (\<lambda>d. Inr (tick, d))
       else Inr (tick, d))"

definition call_read :: "'f below \<Rightarrow> ftl_request \<Rightarrow> nat \<Rightarrow> 'f gcache \<Rightarrow> (nat \<times> 'f gcache) res" where
  "call_read be r tick s = rbind (bl_read be r tick (gc_below s)) (\<lambda>(t, f).
     Inr (t, s\<lparr>gc_below := f, gc_log := gc_log s @ [FRead (fr_lpn r) (fr_ioFlag r)]\<rparr>))"

definition call_write :: "gconf \<Rightarrow> 'f below \<Rightarrow> ftl_request \<Rightarrow> nat \<Rightarrow> 'f gcache \<Rightarrow> (nat \<times> 'f gcache) res" where
  "call_write g be r tick s = rbind (bl_write be (updateDirty g) r tick (gc_below s, gc_data s)) (\<lambda>(t, f, d).
     Inr (t, s\<lparr>gc_below := f, gc_data := d, gc_log := gc_log s @ [FWrite (fr_lpn r) (fr_ioFlag r)]\<rparr>))"

definition call_trim :: "'f below \<Rightarrow> ftl_request \<Rightarrow> nat \<Rightarrow> 'f gcache \<Rightarrow> (nat \<times> 'f gcache) res" where
  "call_trim be r tick s = rbind (bl_trim be r tick (gc_below s)) (\<lambda>(t, f).
     Inr (t, s\<lparr>gc_below := f, gc_log := gc_log s @ [FTrim (fr_lpn r) (fr_ioFlag r)]\<rparr>))"

definition call_format :: "gconf \<Rightarrow> 'f below \<Rightarrow> nat \<Rightarrow> nat \<Rightarrow> nat \<Rightarrow> 'f gcache \<Rightarrow> (nat \<times> 'f gcache) res" where
  "call_format g be slpn nlp tick s = rbind (bl_format be (updateDirty g) slpn nlp tick (gc_below s, gc_data s)) (\<lambda>(t, f, d).
     Inr (t, s\<lparr>gc_below := f, gc_data := d, gc_log := gc_log s @ [FFormat slpn nlp]\<rparr>))"

definition call_decache :: "'f below \<Rightarrow> nat \<Rightarrow> 'f gcache \<Rightarrow> 'f gcache res" where
  "call_decache be lpn s = rbind (bl_decache be lpn (gc_below s)) (\<lambda>f.
     Inr (s\<lparr>gc_below := f, gc_log := gc_log s @ [FDecache lpn]\<rparr>))"

definition dram_read :: "'f below \<Rightarrow> nat \<Rightarrow> nat \<Rightarrow> 'f gcache \<Rightarrow> nat \<times> 'f gcache" where
  "dram_read be sz tick s = (let (t, f) = bl_dram_read be sz tick (gc_below s) in (t, s\<lparr>gc_below := f\<rparr>))"

definition dram_write :: "'f below \<Rightarrow> nat \<Rightarrow> nat \<Rightarrow> 'f gcache \<Rightarrow> nat \<times> 'f gcache" where
  "dram_write be sz tick s = (let (t, f) = bl_dram_write be sz tick (gc_below s) in (t, s\<lparr>gc_below := f\<rparr>))"

definition setScheduling :: "'f below \<Rightarrow> bool \<Rightarrow> 'f gcache \<Rightarrow> 'f gcache" where
  "setScheduling be b s = s\<lparr>gc_below := bl_setScheduling be b (gc_below s)\<rparr>"

text \<open>The constructor of an FTL request from a request of the cache: one bit is set.\<close>

definition ftl_request_of :: "gconf \<Rightarrow> nat \<Rightarrow> ftl_request res" where
  "ftl_request_of g lca =
     (let L = gf_lineCountInSuperPage g
      in rbind (bs_set (bs_new L) (lca mod L) True) (\<lambda>b. Inr \<lparr>fr_lpn = lca div L, fr_ioFlag = b\<rparr>))"

text \<open>\<^verbatim>\<open>ioFlag.reset()\<close> and \<^verbatim>\<open>ioFlag.set(i)\<close> on a request for \<^verbatim>\<open>L\<close> lines.\<close>

definition one_flag :: "gconf \<Rightarrow> nat \<Rightarrow> bitset res" where
  "one_flag g i = rbind (bs_reset_all (bs_new (gf_lineCountInSuperPage g))) (\<lambda>b. bs_set b i True)"

section \<open>Detection of sequential reads\<close>

definition checkSequential :: "gconf \<Rightarrow> icl_request \<Rightarrow> seqdetect \<Rightarrow> seqdetect" where
  "checkSequential g req data =
     (let last = sd_last data in
      if rq_reqID last = rq_reqID req
      then data\<lparr>sd_last := last\<lparr>rq_slpn := rq_slpn req, rq_nlp := rq_nlp req, rq_offset := rq_offset req,
             rq_length := rq_length req\<rparr>\<rparr>
      else
        (if rq_slpn last * gf_lineSize g + rq_offset last + rq_length last = rq_slpn req * gf_lineSize g + rq_offset req
         then (if \<not> sd_enabled data
               then let hits = sd_hitCounter data + 1;
                        acc = sd_accessCounter data + (rq_offset last + rq_length last)
                    in data\<lparr>sd_hitCounter := hits, sd_accessCounter := acc,
                         sd_enabled := (hits \<ge> gf_prefetchIOCount g \<and> gf_prefetchIORatio g acc (gf_superPageSize g))\<rparr>
               else data)
         else data\<lparr>sd_enabled := False, sd_hitCounter := 0, sd_accessCounter := 0\<rparr>)\<lparr>sd_last := req\<rparr>)"

section \<open>Eviction\<close>

text \<open>One entry of \<^verbatim>\<open>evictData\<close>. The write of a dirty line comes first; the line is changed after it,
  with whatever the garbage collection of that write has done to it.\<close>

definition evicted_line :: "bool \<Rightarrow> nat \<Rightarrow> line \<Rightarrow> line" where
  "evicted_line flush beginAt l =
     (let l = (if flush then l\<lparr>ln_valid := False, ln_tag := 0, ln_accessCount := 0\<rparr> else l)
      in l\<lparr>ln_insertedAt := beginAt, ln_lastAccessed := beginAt, ln_dirty := False, ln_loadedFromBlock := False\<rparr>)"

definition evict_one :: "gconf \<Rightarrow> 'f below \<Rightarrow> nat \<Rightarrow> bool \<Rightarrow> cell \<Rightarrow> 'f gcache \<Rightarrow> 'f gcache res" where
  "evict_one g be tick flush pos s =
     rbind (at2 (gc_evict s) pos) (\<lambda>p. case p of None \<Rightarrow> Inr s | Some a \<Rightarrow>
     rbind (at2 (gc_data s) a) (\<lambda>l.
       let lpn = ln_tag l div gf_lineCountInSuperPage g;
           s = s\<lparr>gc_below := bl_evicted be (ln_tag l) (gc_below s),
                 gc_pageEvictionIndicator := (gc_pageEvictionIndicator s)(ln_tag l \<mapsto> gc_doEvictionByGC s)\<rparr>
       in rbind (if ln_valid l \<and> ln_dirty l
                 then rbind (one_flag g (fst pos)) (\<lambda>b.
                      rbind (call_decache be lpn s) (\<lambda>s.
                      call_write g be \<lparr>fr_lpn = lpn, fr_ioFlag = b\<rparr> tick
                        (s\<lparr>gc_below := bl_reuse be lpn (ln_accessCount l) (gc_below s)\<rparr>)))
                 else rbind (call_decache be (ln_tag l) s) (\<lambda>s. Inr (tick, s))) (\<lambda>(beginAt, s).
          rbind (mod2 (gc_data s) a (evicted_line flush beginAt)) (\<lambda>d.
          rbind (put2 (gc_evict s) pos None) (\<lambda>e. Inr (s\<lparr>gc_data := d, gc_evict := e\<rparr>))))))"

definition evictCache :: "gconf \<Rightarrow> 'f below \<Rightarrow> nat \<Rightarrow> bool \<Rightarrow> 'f gcache \<Rightarrow> 'f gcache res" where
  "evictCache g be tick flush s =
     rbind (rfold (evict_one g be tick flush) (positions (gf_lineCountInSuperPage g) (gf_parallelIO g)) s)
       (\<lambda>s. Inr (s\<lparr>gc_doEvictionByGC := False\<rparr>))"

text \<open>The same for the ghost cache, which has no cache marks in the FTL.\<close>

definition ghost_evict_one :: "gconf \<Rightarrow> 'f below \<Rightarrow> nat \<Rightarrow> bool \<Rightarrow> cell \<Rightarrow> 'f gcache \<Rightarrow> 'f gcache res" where
  "ghost_evict_one g be tick flush pos s =
     rbind (at2 (gc_ghostEvict s) pos) (\<lambda>p. case p of None \<Rightarrow> Inr s | Some a \<Rightarrow>
     rbind (at2 (gc_ghost s) a) (\<lambda>l.
     rbind (if ln_valid l \<and> ln_dirty l
            then rbind (one_flag g (fst pos)) (\<lambda>b.
                 call_write g be \<lparr>fr_lpn = ln_tag l div gf_lineCountInSuperPage g, fr_ioFlag = b\<rparr> tick s)
            else Inr (tick, s)) (\<lambda>(beginAt, s).
     rbind (mod2 (gc_ghost s) a (\<lambda>l.
              (if flush then l\<lparr>ln_valid := False, ln_tag := 0\<rparr> else l)
                \<lparr>ln_insertedAt := beginAt, ln_lastAccessed := beginAt, ln_dirty := False\<rparr>)) (\<lambda>d.
     rbind (put2 (gc_ghostEvict s) pos None) (\<lambda>e. Inr (s\<lparr>gc_ghost := d, gc_ghostEvict := e\<rparr>))))))"

definition ghostEviction :: "gconf \<Rightarrow> 'f below \<Rightarrow> nat \<Rightarrow> bool \<Rightarrow> 'f gcache \<Rightarrow> 'f gcache res" where
  "ghostEviction g be tick flush s =
     rfold (ghost_evict_one g be tick flush) (positions (gf_lineCountInSuperPage g) (gf_parallelIO g)) s"

definition modifedEviction :: "gconf \<Rightarrow> 'f below \<Rightarrow> nat \<Rightarrow> nat \<Rightarrow> 'f gcache \<Rightarrow> 'f gcache res" where
  "modifedEviction g be tick lca s =
     rbind (one_flag g (lca mod gf_lineCountInSuperPage g)) (\<lambda>b.
     rbind (call_write g be \<lparr>fr_lpn = lca, fr_ioFlag = b\<rparr> tick s) (\<lambda>(t, s). Inr s))"

section \<open>Choosing the lines to evict\<close>

text \<open>The four loops of the writing operations, for either array: the line to evict for every
  position of a parallel I/O; in superpage mode the one of a row; whether the set of the request is
  among the chosen; if not, a line of that set.\<close>

definition collect_victim ::
  "gconf \<Rightarrow> cdata \<Rightarrow> cell \<Rightarrow> cell option list list \<times> nat \<Rightarrow> (cell option list list \<times> nat) res"
where
  "collect_victim g d c = (\<lambda>(e, n).
     rbind (at2 d c) (\<lambda>l.
       if ln_valid l
       then let pos = calcIOPosition g (ln_tag l) in
            rbind (at2 e pos) (\<lambda>p.
            rbind (compareFunction (gf_policy g) (gf_dist g) (gf_waySize g) d p (Some c) n) (\<lambda>(p, n).
            rbind (put2 e pos p) (\<lambda>e. Inr (e, n))))
       else Inr (e, n)))"

definition merge_row ::
  "gconf \<Rightarrow> cdata \<Rightarrow> cell \<Rightarrow> cell option list list \<times> nat \<Rightarrow> (cell option list list \<times> nat) res"
where
  "merge_row g d pos = (\<lambda>(e, n).
     let next = (fst pos, snd pos + 1) in
     rbind (at2 e pos) (\<lambda>p. rbind (at2 e next) (\<lambda>q.
     rbind (compareFunction (gf_policy g) (gf_dist g) (gf_waySize g) d p q n) (\<lambda>(r, n).
     rbind (put2 e next r) (\<lambda>e. rbind (put2 e pos None) (\<lambda>e. Inr (e, n)))))))"

definition has_set :: "gconf \<Rightarrow> cdata \<Rightarrow> cell option list list \<Rightarrow> nat \<Rightarrow> bool res" where
  "has_set g d e setIdx =
     rfold (\<lambda>pos have. rbind (at2 e pos) (\<lambda>p. case p of None \<Rightarrow> Inr have | Some a \<Rightarrow>
              rbind (at2 d a) (\<lambda>l. Inr (have \<or> calcSetIndex g (ln_tag l) = setIdx))))
       (positions (gf_lineCountInSuperPage g) (gf_parallelIO g)) False"

definition set_victim :: "gconf \<Rightarrow> nat \<Rightarrow> cdata \<Rightarrow> nat \<Rightarrow> nat \<Rightarrow> (cell option \<times> nat) res" where
  "set_victim g ways d setIdx n =
     rfold (\<lambda>w (p, n). rbind (at2 d (setIdx, w)) (\<lambda>l.
              if ln_valid l
              then compareFunction (gf_policy g) (gf_dist g) (gf_waySize g) d p (Some (setIdx, w)) n
              else Inr (p, n)))
       [0..<ways] (None, n)"

definition select_victims ::
  "gconf \<Rightarrow> nat \<Rightarrow> cdata \<Rightarrow> cell option list list \<Rightarrow> nat \<Rightarrow> nat \<Rightarrow> (cell option list list \<times> nat) res"
where
  "select_victims g ways d e setToFlush n =
     rbind (rfold (collect_victim g d) (positions (gf_setSize g) ways) (e, n)) (\<lambda>(e, n).
     rbind (if gf_evictMode g = MODE_SUPERPAGE
            then rfold (merge_row g d) (positions (gf_lineCountInSuperPage g) (gf_parallelIO g - 1)) (e, n)
            else Inr (e, n)) (\<lambda>(e, n).
     rbind (has_set g d e setToFlush) (\<lambda>have.
     if have then Inr (e, n)
     else rbind (set_victim g ways d setToFlush n) (\<lambda>(p, n).
          case p of
            None \<Rightarrow> Inr (e, n)
          | Some a \<Rightarrow> rbind (at2 d a) (\<lambda>l.
              rbind (put2 e (calcIOPosition g (ln_tag l)) p) (\<lambda>e. Inr (e, n)))))))"
section \<open>Writing\<close>

text \<open>A request that fits into a line makes it dirty. A longer one is written through before; \<^verbatim>\<open>flash\<close>
  is the tick at which that is finished.\<close>

definition begin_write ::
  "gconf \<Rightarrow> 'f below \<Rightarrow> icl_request \<Rightarrow> nat \<Rightarrow> 'f gcache \<Rightarrow> (ftl_request \<times> bool \<times> nat \<times> 'f gcache) res"
where
  "begin_write g be req tick s =
     rbind (ftl_request_of g (rq_slpn req)) (\<lambda>r.
       if rq_length req \<le> gf_lineSize g then Inr (r, True, tick, s)
       else rbind (call_write g be r tick s) (\<lambda>(flash, s). Inr (r, False, flash, s)))"

definition hit_line :: "icl_request \<Rightarrow> bool \<Rightarrow> nat \<Rightarrow> line \<Rightarrow> line" where
  "hit_line req dirty t l = l\<lparr>ln_insertedAt := t, ln_lastAccessed := t, ln_dirty := dirty,
     ln_accessCount := ln_accessCount l + 1, ln_loadedFromBlock := rq_loadedFromBlock req\<rparr>"

definition fill_line :: "icl_request \<Rightarrow> bool \<Rightarrow> nat \<Rightarrow> line \<Rightarrow> line" where
  "fill_line req dirty t l = (hit_line req dirty t l)\<lparr>ln_valid := True, ln_tag := rq_slpn req\<rparr>"

definition replace_line :: "icl_request \<Rightarrow> nat \<Rightarrow> line \<Rightarrow> line" where
  "replace_line req t l = l\<lparr>ln_insertedAt := t, ln_lastAccessed := t, ln_valid := True, ln_dirty := True,
     ln_tag := rq_slpn req, ln_accessCount := 1, ln_loadedFromBlock := rq_loadedFromBlock req\<rparr>"

text \<open>Writing into a line that is there: wait for it, stamp it, then the DRAM access.\<close>

definition write_line ::
  "'f below \<Rightarrow> (bool \<Rightarrow> nat \<Rightarrow> line \<Rightarrow> line) \<Rightarrow> icl_request \<Rightarrow> bool \<Rightarrow> nat \<Rightarrow> cell \<Rightarrow> nat \<Rightarrow> 'f gcache \<Rightarrow> (nat \<times> 'f gcache) res"
where
  "write_line be f req dirty flash c tick s =
     rbind (at2 (gc_data s) c) (\<lambda>l.
       let tick = (if tick < ln_insertedAt l then ln_insertedAt l else tick)
       in rbind (mod2 (gc_data s) c (f dirty (if dirty then tick else flash))) (\<lambda>d.
            Inr (dram_write be (rq_length req) tick (s\<lparr>gc_data := d\<rparr>))))"

text \<open>The cache is full: choose lines, evict them, and write into the empty way of the set.\<close>

definition write_evict ::
  "gconf \<Rightarrow> 'f below \<Rightarrow> bool \<Rightarrow> icl_request \<Rightarrow> nat \<Rightarrow> 'f gcache \<Rightarrow> (nat \<times> 'f gcache) res"
where
  "write_evict g be byGC req tick s =
     (let setToFlush = calcSetIndex g (rq_slpn req) in
      rbind (select_victims g (gf_waySize g) (gc_data s) (gc_evict s) setToFlush (gc_draws s)) (\<lambda>(e, n).
      let s = s\<lparr>gc_evict := e, gc_draws := n, gc_doEvictionByGC := (byGC \<or> gc_doEvictionByGC s)\<rparr>;
          tick = tick + getCacheLatency g * gf_setSize g * gf_waySize g * 8
      in rbind (evictCache g be tick True s) (\<lambda>s.
         rbind (getEmptyWay g (gc_data s) setToFlush tick) (\<lambda>(w, tick).
         if w = gf_waySize g then Inl (Panic ''Cache corrupted!'')
         else let (tick, s) = dram_write be (rq_length req) tick s
              in rbind (mod2 (gc_data s) (setToFlush, w) (replace_line req tick)) (\<lambda>d.
                   Inr (tick, s\<lparr>gc_data := d\<rparr>))))))"

definition write_miss ::
  "gconf \<Rightarrow> 'f below \<Rightarrow> bool \<Rightarrow> icl_request \<Rightarrow> bool \<Rightarrow> nat \<Rightarrow> nat \<Rightarrow> 'f gcache \<Rightarrow> (bool \<times> nat \<times> 'f gcache) res"
where
  "write_miss g be byGC req dirty flash tick s =
     rbind (getEmptyWay g (gc_data s) (calcSetIndex g (rq_slpn req)) tick) (\<lambda>(w, tick).
       if w \<noteq> gf_waySize g
       then rbind (write_line be (fill_line req) req dirty flash (calcSetIndex g (rq_slpn req), w) tick s)
              (\<lambda>(tick, s). Inr (True, tick, s))
       else rbind (write_evict g be byGC req tick s) (\<lambda>(tick, s). Inr (False, tick, s)))"

text \<open>Without write caching: the FTL, and a DRAM read that is not scheduled.\<close>

definition write_uncached ::
  "gconf \<Rightarrow> 'f below \<Rightarrow> bool \<Rightarrow> icl_request \<Rightarrow> ftl_request \<Rightarrow> bool \<Rightarrow> nat \<Rightarrow> nat \<Rightarrow> 'f gcache \<Rightarrow> (nat \<times> 'f gcache) res"
where
  "write_uncached g be toFTL req r dirty flash tick s =
     rbind (if dirty then (if toFTL then call_write g be r tick s else Inr (tick, s)) else Inr (flash, s)) (\<lambda>(tick, s).
       let (tick, s) = dram_read be (rq_length req) tick (setScheduling be False s)
       in Inr (tick, setScheduling be True s))"

definition count_write :: "bool \<Rightarrow> 'f gcache \<Rightarrow> 'f gcache" where
  "count_write hit s = s\<lparr>gc_writeRequests := gc_writeRequests s + 1,
     gc_writeHits := (if hit then gc_writeHits s + 1 else gc_writeHits s)\<rparr>"

definition count_read :: "bool \<Rightarrow> 'f gcache \<Rightarrow> 'f gcache" where
  "count_read hit s = s\<lparr>gc_readRequests := gc_readRequests s + 1,
     gc_readHits := (if hit then gc_readHits s + 1 else gc_readHits s)\<rparr>"

definition gc_write :: "gconf \<Rightarrow> 'f below \<Rightarrow> icl_request \<Rightarrow> nat \<Rightarrow> 'f gcache \<Rightarrow> (bool \<times> nat \<times> 'f gcache) res" where
  "gc_write g be req tick s =
     rbind (begin_write g be req tick s) (\<lambda>(r, dirty, flash, s).
     rbind (if gf_useWriteCaching g
            then rbind (getValidWay g (gc_data s) (rq_slpn req) tick) (\<lambda>(w, tick).
                 rbind (if w \<noteq> gf_waySize g
                        then rbind (write_line be (hit_line req) req dirty flash (calcSetIndex g (rq_slpn req), w) tick s)
                               (\<lambda>(tick, s). Inr (True, tick, s))
                        else write_miss g be False req dirty flash tick s)
                   (\<lambda>(ret, tick, s). Inr (ret, tick + gf_applyLatency g CPU_WRITE, s)))
            else rbind (write_uncached g be True req r dirty flash tick s) (\<lambda>(tick, s). Inr (False, tick, s)))
       (\<lambda>(ret, tick, s). Inr (ret, tick, count_write ret s)))"

text \<open>The pages that a garbage collection moves into the cache: no search for the page, no CPU time.\<close>

definition writeVictimPagesToCache ::
  "gconf \<Rightarrow> 'f below \<Rightarrow> icl_request \<Rightarrow> nat \<Rightarrow> 'f gcache \<Rightarrow> (bool \<times> nat \<times> 'f gcache) res"
where
  "writeVictimPagesToCache g be req tick s =
     rbind (begin_write g be req tick s) (\<lambda>(r, dirty, flash, s).
     rbind (if gf_useWriteCaching g then write_miss g be True req dirty flash tick s
            else rbind (write_uncached g be True req r dirty flash tick s) (\<lambda>(tick, s). Inr (False, tick, s)))
       (\<lambda>(ret, tick, s). Inr (ret, tick, count_write ret s)))"

section \<open>The ghost cache\<close>

definition updateGhostCacheForWrites :: "'f below \<Rightarrow> gconf \<Rightarrow> cell \<Rightarrow> nat \<Rightarrow> 'f gcache \<Rightarrow> (nat \<times> 'f gcache) res" where
  "updateGhostCacheForWrites be g c tick s =
     rbind (at2 (gc_ghost s) c) (\<lambda>l.
       let tick = (if tick < ln_insertedAt l then ln_insertedAt l else tick)
       in rbind (mod2 (gc_ghost s) c (\<lambda>l. l\<lparr>ln_insertedAt := tick, ln_lastAccessed := tick, ln_dirty := True,
                   ln_accessCount := ln_accessCount l + 1\<rparr>)) (\<lambda>d.
            Inr (dram_write be (gf_lineSize g) tick (s\<lparr>gc_ghost := d\<rparr>))))"

definition updateGhostCacheForReads :: "'f below \<Rightarrow> gconf \<Rightarrow> cell \<Rightarrow> nat \<Rightarrow> 'f gcache \<Rightarrow> (nat \<times> 'f gcache) res" where
  "updateGhostCacheForReads be g c tick s =
     rbind (at2 (gc_ghost s) c) (\<lambda>l.
       let tick = (if tick < ln_insertedAt l then ln_insertedAt l else tick)
       in rbind (mod2 (gc_ghost s) c (\<lambda>l. l\<lparr>ln_lastAccessed := tick, ln_accessCount := ln_accessCount l + 1\<rparr>)) (\<lambda>d.
            Inr (dram_read be (gf_lineSize g) tick (s\<lparr>gc_ghost := d\<rparr>))))"

definition ghost_write_line ::
  "'f below \<Rightarrow> bool \<Rightarrow> icl_request \<Rightarrow> bool \<Rightarrow> nat \<Rightarrow> cell \<Rightarrow> nat \<Rightarrow> 'f gcache \<Rightarrow> (nat \<times> 'f gcache) res"
where
  "ghost_write_line be fill req dirty flash c tick s =
     rbind (at2 (gc_ghost s) c) (\<lambda>l.
       let tick = (if tick < ln_insertedAt l then ln_insertedAt l else tick);
           t = (if dirty then tick else flash)
       in rbind (mod2 (gc_ghost s) c (\<lambda>l.
                   (if fill then l\<lparr>ln_valid := True, ln_tag := rq_slpn req\<rparr> else l)
                     \<lparr>ln_insertedAt := t, ln_lastAccessed := t, ln_dirty := dirty\<rparr>)) (\<lambda>d.
            Inr (dram_write be (rq_length req) tick (s\<lparr>gc_ghost := d\<rparr>))))"

definition ghost_write_evict :: "gconf \<Rightarrow> 'f below \<Rightarrow> icl_request \<Rightarrow> nat \<Rightarrow> 'f gcache \<Rightarrow> (nat \<times> 'f gcache) res" where
  "ghost_write_evict g be req tick s =
     (let setToFlush = calcSetIndex g (rq_slpn req) in
      rbind (select_victims g (gf_ghostWaySize g) (gc_ghost s) (gc_ghostEvict s) setToFlush (gc_draws s)) (\<lambda>(e, n).
      let s = s\<lparr>gc_ghostEvict := e, gc_draws := n\<rparr>;
          tick = tick + getCacheLatency g * gf_setSize g * gf_ghostWaySize g * 8
      in rbind (ghostEviction g be tick True s) (\<lambda>s.
         rbind (getEmptyWay g (gc_ghost s) setToFlush tick) (\<lambda>(w, tick).
         if w = gf_ghostWaySize g then Inl (Panic ''Cache corrupted!'')
         else let (tick, s) = dram_write be (rq_length req) tick s
              in rbind (mod2 (gc_ghost s) (setToFlush, w) (\<lambda>l. l\<lparr>ln_insertedAt := tick, ln_lastAccessed := tick,
                          ln_valid := True, ln_dirty := True, ln_tag := rq_slpn req\<rparr>)) (\<lambda>d.
                   Inr (tick, s\<lparr>gc_ghost := d\<rparr>))))))"

definition writeBlockToCache ::
  "gconf \<Rightarrow> 'f below \<Rightarrow> icl_request \<Rightarrow> nat \<Rightarrow> 'f gcache \<Rightarrow> (bool \<times> nat \<times> 'f gcache) res"
where
  "writeBlockToCache g be req tick s =
     rbind (ftl_request_of g (rq_slpn req)) (\<lambda>r.
     let dirty = (rq_length req \<le> gf_lineSize g); flash = tick; setIdx = calcSetIndex g (rq_slpn req) in
     rbind (if gf_useWriteCaching g
            then rbind (getValidWay g (gc_ghost s) (rq_slpn req) tick) (\<lambda>(w, tick).
                 rbind (if w \<noteq> gf_ghostWaySize g
                        then rbind (ghost_write_line be False req dirty flash (setIdx, w) tick s)
                               (\<lambda>(tick, s). Inr (True, tick, s))
                        else rbind (getEmptyWay g (gc_ghost s) setIdx tick) (\<lambda>(w, tick).
                             if w \<noteq> gf_ghostWaySize g
                             then rbind (ghost_write_line be True req dirty flash (setIdx, w) tick s)
                                    (\<lambda>(tick, s). Inr (True, tick, s))
                             else rbind (ghost_write_evict g be req tick s) (\<lambda>(tick, s). Inr (False, tick, s))))
                   (\<lambda>(ret, tick, s). Inr (ret, tick + gf_applyLatency g CPU_WRITE, s)))
            else rbind (write_uncached g be False req r dirty flash tick s) (\<lambda>(tick, s). Inr (False, tick, s)))
       (\<lambda>(ret, tick, s). Inr (ret, tick, count_write ret s)))"

definition writeForCachedGC ::
  "gconf \<Rightarrow> 'f below \<Rightarrow> icl_request \<Rightarrow> nat \<Rightarrow> 'f gcache \<Rightarrow> (bool \<times> nat \<times> 'f gcache) res"
where
  "writeForCachedGC g be req tick s =
     rbind (begin_write g be req tick s) (\<lambda>(r, dirty, flash, s).
     let setIdx = calcSetIndex g (rq_slpn req) in
     rbind (if gf_useWriteCaching g
            then rbind (getValidWay g (gc_data s) (rq_slpn req) tick) (\<lambda>(w, tick).
                 rbind (if w \<noteq> gf_waySize g
                        then rbind (write_line be (hit_line req) req dirty flash (setIdx, w) tick s)
                               (\<lambda>(tick, s). Inr (True, tick, s))
                        else rbind (getValidWay g (gc_ghost s) (rq_slpn req) tick) (\<lambda>(gw, tick).
                             if gw \<noteq> gf_ghostWaySize g
                             then rbind (updateGhostCacheForWrites be g (setIdx, gw) tick s)
                                    (\<lambda>(tick, s). Inr (True, tick, s))
                             else write_miss g be False req dirty flash tick s))
                   (\<lambda>(ret, tick, s). Inr (ret, tick + gf_applyLatency g CPU_WRITE, s)))
            else rbind (write_uncached g be True req r dirty flash tick s) (\<lambda>(tick, s). Inr (False, tick, s)))
       (\<lambda>(ret, tick, s). Inr (ret, tick, count_write ret s)))"

section \<open>Reading\<close>

text \<open>The range of lines to read, and the two members that the read-ahead sets.\<close>

definition read_range :: "gconf \<Rightarrow> icl_request \<Rightarrow> 'f gcache \<Rightarrow> nat \<times> 'f gcache" where
  "read_range g req s =
     (if sd_enabled (gc_detect s)
      then let n = (if gf_prefetchMode g = MODE_ALL \<or> \<not> gf_bSuperPage g then gf_lineCountInMaxIO g
                    else gf_lineCountInSuperPage g)
           in (rq_slpn req + n, s\<lparr>gc_prefetchTrigger := rq_slpn req + n div 2, gc_lastPrefetched := rq_slpn req + n\<rparr>)
      else (rq_slpn req + 1, s))"

text \<open>The first loop reserves a way for every line that is not there. It carries the tick of its last
  iteration, the latest tick, and the list of the lines to read with their cells.\<close>

definition reserve_line :: "nat \<Rightarrow> line \<Rightarrow> line" where
  "reserve_line t l = l\<lparr>ln_insertedAt := t, ln_lastAccessed := t, ln_valid := True, ln_dirty := False\<rparr>"

definition reserve_way ::
  "gconf \<Rightarrow> 'f below \<Rightarrow> nat \<Rightarrow> nat \<Rightarrow> nat \<times> nat \<times> (nat \<times> cell) list \<times> 'f gcache
    \<Rightarrow> (nat \<times> nat \<times> (nat \<times> cell) list \<times> 'f gcache) res"
where
  "reserve_way g be tick lca = (\<lambda>(_, finishedAt, readList, s).
     rbind (getValidWay g (gc_data s) lca tick) (\<lambda>(w, beginAt).
     if w \<noteq> gf_waySize g then Inr (beginAt, finishedAt, readList, s)
     else let setIdx = calcSetIndex g lca in
       rbind (getEmptyWay g (gc_data s) setIdx beginAt) (\<lambda>(w, beginAt).
       rbind (if w = gf_waySize g
              then rbind (rnth (gc_data s) setIdx) (\<lambda>ls.
                   let (w, n, beginAt) = evictFunction (gf_policy g) (gf_dist g) (lat8 g) ls (gc_draws s) beginAt in
                   rbind (at2 (gc_data s) (setIdx, w)) (\<lambda>l.
                   rbind (put2 (gc_evict s) (calcIOPosition g (ln_tag l)) (Some (setIdx, w))) (\<lambda>e.
                   rbind (evictCache g be tick True (s\<lparr>gc_evict := e, gc_draws := n\<rparr>)) (\<lambda>s. Inr (w, beginAt, s)))))
              else Inr (w, beginAt, s)) (\<lambda>(w, beginAt, s).
       rbind (mod2 (gc_data s) (setIdx, w) (reserve_line beginAt)) (\<lambda>d.
         Inr (beginAt, max finishedAt beginAt, readList @ [(lca, (setIdx, w))], s\<lparr>gc_data := d\<rparr>))))))"

text \<open>The second loop reads the lines. In \<^verbatim>\<open>read\<close> every read of the FTL starts at \<^verbatim>\<open>tick\<close>; in
  \<^verbatim>\<open>readForCachedGc\<close> it starts where the one before ended.\<close>

definition loaded_line :: "nat \<Rightarrow> nat \<Rightarrow> line \<Rightarrow> line" where
  "loaded_line lca t l = l\<lparr>ln_insertedAt := t, ln_lastAccessed := t, ln_tag := lca, ln_valid := True, ln_accessCount := 1\<rparr>"

definition load_line ::
  "gconf \<Rightarrow> 'f below \<Rightarrow> icl_request \<Rightarrow> nat option \<Rightarrow> nat \<times> cell \<Rightarrow> nat \<times> nat \<times> 'f gcache \<Rightarrow> (nat \<times> nat \<times> 'f gcache) res"
where
  "load_line g be req start it = (\<lambda>(beginAt, finishedAt, s).
     let (lca, c) = it; L = gf_lineCountInSuperPage g;
         beginAt = (case start of Some tick \<Rightarrow> tick | None \<Rightarrow> beginAt) in
     rbind (one_flag g (lca mod L)) (\<lambda>b.
     rbind (call_read be \<lparr>fr_lpn = lca div L, fr_ioFlag = b\<rparr> beginAt s) (\<lambda>(beginAt, s).
     rbind (at2 (gc_data s) c) (\<lambda>l.
       let (dramAt, s) = dram_write be (gf_lineSize g) (ln_insertedAt l) s;
           beginAt = max beginAt dramAt
       in rbind (mod2 (gc_data s) c (loaded_line lca beginAt)) (\<lambda>d.
            Inr (beginAt, if lca = rq_slpn req then beginAt else finishedAt, s\<lparr>gc_data := d\<rparr>))))))"

definition fetch_lines ::
  "gconf \<Rightarrow> 'f below \<Rightarrow> bool \<Rightarrow> icl_request \<Rightarrow> bool \<Rightarrow> nat \<Rightarrow> nat \<Rightarrow> nat \<Rightarrow> nat \<Rightarrow> 'f gcache \<Rightarrow> (nat \<times> 'f gcache) res"
where
  "fetch_lines g be fromTick req ret arrived beginAt finishedAt tick s =
     (let enabled = sd_enabled (gc_detect s);
          s = (if enabled then setScheduling be False s else s);
          (endLCA, s) = read_range g req s in
      rbind (rfold (reserve_way g be tick) [rq_slpn req..<endLCA] (beginAt, finishedAt, [], s))
        (\<lambda>(beginAt, finishedAt, readList, s).
      let tick = finishedAt in
      rbind (evictCache g be tick True s) (\<lambda>s.
      rbind (rfold (load_line g be req (if fromTick then Some tick else None)) readList (beginAt, finishedAt, s))
        (\<lambda>(_, finishedAt, s).
      let tick = finishedAt
      in Inr (if enabled then (if ret then arrived else tick, setScheduling be True s) else (tick, s))))))"

text \<open>A hit: wait for the line, stamp it, the DRAM access; then whether the prefetch is triggered.\<close>

definition read_hit ::
  "'f below \<Rightarrow> icl_request \<Rightarrow> cell \<Rightarrow> nat \<Rightarrow> 'f gcache \<Rightarrow> (nat \<times> 'f gcache) res"
where
  "read_hit be req c tick s =
     rbind (at2 (gc_data s) c) (\<lambda>l.
       let tick = (if tick < ln_insertedAt l then ln_insertedAt l else tick)
       in rbind (mod2 (gc_data s) c (\<lambda>l. l\<lparr>ln_lastAccessed := tick, ln_accessCount := ln_accessCount l + 1\<rparr>)) (\<lambda>d.
            Inr (dram_read be (rq_length req) tick (s\<lparr>gc_data := d\<rparr>))))"

definition read_uncached :: "gconf \<Rightarrow> 'f below \<Rightarrow> icl_request \<Rightarrow> nat \<Rightarrow> 'f gcache \<Rightarrow> (nat \<times> 'f gcache) res" where
  "read_uncached g be req tick s =
     rbind (ftl_request_of g (rq_slpn req)) (\<lambda>r.
       let (tick, s) = dram_write be (rq_length req) tick s in call_read be r tick s)"

text \<open>Both read operations: search, on a hit with a triggered prefetch continue as for a miss at the
  line last prefetched. \<^verbatim>\<open>miss\<close> gets the request, whether this is a prefetch, and the two ticks.\<close>

definition read_cached ::
  "gconf \<Rightarrow> 'f below \<Rightarrow> (icl_request \<Rightarrow> bool \<Rightarrow> nat \<Rightarrow> nat \<Rightarrow> 'f gcache \<Rightarrow> (bool \<times> nat \<times> 'f gcache) res)
    \<Rightarrow> icl_request \<Rightarrow> nat \<Rightarrow> 'f gcache \<Rightarrow> (bool \<times> nat \<times> 'f gcache) res"
where
  "read_cached g be miss req tick s =
     (let arrived = tick;
          s = (if gf_useReadPrefetch g then s\<lparr>gc_detect := checkSequential g req (gc_detect s)\<rparr> else s) in
      rbind (getValidWay g (gc_data s) (rq_slpn req) tick) (\<lambda>(w, tick).
      rbind (if w \<noteq> gf_waySize g
             then let tickBackup = tick in
                  rbind (read_hit be req (calcSetIndex g (rq_slpn req), w) tick s) (\<lambda>(tick, s).
                    if gf_useReadPrefetch g \<and> rq_slpn req = gc_prefetchTrigger s
                    then miss (req\<lparr>rq_slpn := gc_lastPrefetched s\<rparr>) True tick tickBackup s
                    else Inr (True, tick, s))
             else miss req False arrived tick s)
        (\<lambda>(ret, tick, s). Inr (ret, tick + gf_applyLatency g CPU_READ, s))))"

definition gc_read :: "gconf \<Rightarrow> 'f below \<Rightarrow> icl_request \<Rightarrow> nat \<Rightarrow> 'f gcache \<Rightarrow> (bool \<times> nat \<times> 'f gcache) res" where
  "gc_read g be req tick s =
     rbind (if gf_useReadCaching g
            then read_cached g be (\<lambda>req ret arrived tick s.
                   rbind (ftl_request_of g (rq_slpn req)) (\<lambda>_.
                   rbind (fetch_lines g be True req ret arrived tick tick tick s) (\<lambda>(tick, s). Inr (ret, tick, s))))
                   req tick s
            else rbind (read_uncached g be req tick s) (\<lambda>(tick, s). Inr (False, tick, s)))
       (\<lambda>(ret, tick, s). Inr (ret, tick, count_read ret s))"

text \<open>\<^verbatim>\<open>readForCachedGc\<close> looks into the ghost cache first, with the number of the FTL page. A hit there
  does not change the tick of the caller; the set index is the one of the original request.\<close>

definition readForCachedGc ::
  "gconf \<Rightarrow> 'f below \<Rightarrow> icl_request \<Rightarrow> nat \<Rightarrow> 'f gcache \<Rightarrow> (bool \<times> nat \<times> 'f gcache) res"
where
  "readForCachedGc g be req0 tick s =
     rbind (if gf_useReadCaching g
            then read_cached g be (\<lambda>req ret arrived tick s.
                   rbind (ftl_request_of g (rq_slpn req)) (\<lambda>r.
                   let finishedAt = tick in
                   rbind (getValidWay g (gc_ghost s) (fr_lpn r) tick) (\<lambda>(gw, tick).
                   if gw \<noteq> gf_ghostWaySize g
                   then rbind (updateGhostCacheForReads be g (calcSetIndex g (rq_slpn req0), gw) tick s) (\<lambda>(_, s).
                          Inr (True, tick, s))
                   else rbind (fetch_lines g be False req ret arrived tick finishedAt tick s)
                          (\<lambda>(tick, s). Inr (ret, tick, s)))))
                   req0 tick s
            else rbind (read_uncached g be req0 tick s) (\<lambda>(tick, s). Inr (False, tick, s)))
       (\<lambda>(ret, tick, s). Inr (ret, tick, count_read ret s))"

section \<open>Flush, trim, format\<close>

text \<open>The request of \<^verbatim>\<open>flush\<close> and \<^verbatim>\<open>trim\<close> is made once: its flags are not reset between the lines.
  The loops carry the tick, the latest tick of the FTL and the flags.\<close>

definition in_range :: "nat \<Rightarrow> nat \<Rightarrow> nat \<Rightarrow> bool" where
  "in_range slpn nlp tag \<longleftrightarrow> slpn \<le> tag \<and> tag < slpn + nlp"

definition flush_line ::
  "gconf \<Rightarrow> 'f below \<Rightarrow> nat \<Rightarrow> nat \<Rightarrow> cell \<Rightarrow> nat \<times> nat \<times> bitset \<times> 'f gcache \<Rightarrow> (nat \<times> nat \<times> bitset \<times> 'f gcache) res"
where
  "flush_line g be slpn nlp c = (\<lambda>(tick, finishedAt, b, s).
     rbind (at2 (gc_data s) c) (\<lambda>l.
     let tick = tick + lat8 g; L = gf_lineCountInSuperPage g in
     if in_range slpn nlp (ln_tag l)
     then rbind (if ln_dirty l
                 then rbind (bs_set b (ln_tag l mod L) True) (\<lambda>b.
                      rbind (call_write g be \<lparr>fr_lpn = ln_tag l div L, fr_ioFlag = b\<rparr> tick s) (\<lambda>(ftlTick, s).
                        Inr (max finishedAt ftlTick, b, s)))
                 else Inr (finishedAt, b, s)) (\<lambda>(finishedAt, b, s).
          rbind (mod2 (gc_data s) c (\<lambda>l. l\<lparr>ln_valid := False\<rparr>)) (\<lambda>d.
            Inr (tick, finishedAt, b, s\<lparr>gc_data := d\<rparr>)))
     else Inr (tick, finishedAt, b, s)))"

definition gc_flush :: "gconf \<Rightarrow> 'f below \<Rightarrow> nat \<Rightarrow> nat \<Rightarrow> nat \<Rightarrow> 'f gcache \<Rightarrow> (nat \<times> 'f gcache) res" where
  "gc_flush g be slpn nlp tick s =
     (if gf_useReadCaching g \<or> gf_useWriteCaching g
      then rbind (rfold (flush_line g be slpn nlp) (positions (gf_setSize g) (gf_waySize g))
                    (tick, tick, bs_new (gf_lineCountInSuperPage g), s)) (\<lambda>(tick, finishedAt, b, s).
             Inr (max tick finishedAt + gf_applyLatency g CPU_FLUSH, s))
      else Inr (tick, s))"

definition trim_line ::
  "gconf \<Rightarrow> 'f below \<Rightarrow> nat \<Rightarrow> nat \<Rightarrow> cell \<Rightarrow> nat \<times> nat \<times> bitset \<times> 'f gcache \<Rightarrow> (nat \<times> nat \<times> bitset \<times> 'f gcache) res"
where
  "trim_line g be slpn nlp c = (\<lambda>(tick, finishedAt, b, s).
     rbind (at2 (gc_data s) c) (\<lambda>l.
     let tick = tick + lat8 g; L = gf_lineCountInSuperPage g in
     if in_range slpn nlp (ln_tag l)
     then rbind (bs_set b (ln_tag l mod L) True) (\<lambda>b.
          rbind (call_trim be \<lparr>fr_lpn = ln_tag l div L, fr_ioFlag = b\<rparr> tick s) (\<lambda>(ftlTick, s).
          rbind (mod2 (gc_data s) c (\<lambda>l. l\<lparr>ln_valid := False\<rparr>)) (\<lambda>d.
            Inr (tick, max finishedAt ftlTick, b, s\<lparr>gc_data := d\<rparr>))))
     else Inr (tick, finishedAt, b, s)))"

definition gc_trim :: "gconf \<Rightarrow> 'f below \<Rightarrow> nat \<Rightarrow> nat \<Rightarrow> nat \<Rightarrow> 'f gcache \<Rightarrow> (nat \<times> 'f gcache) res" where
  "gc_trim g be slpn nlp tick s =
     (if gf_useReadCaching g \<or> gf_useWriteCaching g
      then rbind (rfold (trim_line g be slpn nlp) (positions (gf_setSize g) (gf_waySize g))
                    (tick, tick, bs_new (gf_lineCountInSuperPage g), s)) (\<lambda>(tick, finishedAt, b, s).
             Inr (max tick finishedAt + gf_applyLatency g CPU_TRIM, s))
      else Inr (tick, s))"

text \<open>\<^verbatim>\<open>range.nlp - 1\<close> wraps around for an empty range.\<close>

definition gc_format :: "gconf \<Rightarrow> 'f below \<Rightarrow> nat \<Rightarrow> nat \<Rightarrow> nat \<Rightarrow> 'f gcache \<Rightarrow> (nat \<times> 'f gcache) res" where
  "gc_format g be slpn nlp tick s =
     rbind (if gf_useReadCaching g \<or> gf_useWriteCaching g
            then rfold (\<lambda>lpn (tick, s).
                   rbind (getValidWay g (gc_data s) lpn tick) (\<lambda>(w, tick).
                   if w \<noteq> gf_waySize g
                   then rbind (mod2 (gc_data s) (calcSetIndex g lpn, w) (\<lambda>l. l\<lparr>ln_valid := False\<rparr>)) (\<lambda>d.
                          Inr (tick, s\<lparr>gc_data := d\<rparr>))
                   else Inr (tick, s))) [slpn..<slpn + nlp] (tick, s)
            else Inr (tick, s)) (\<lambda>(tick, s).
     rbind (call_format g be (slpn div gf_lineCountInSuperPage g)
              (((if nlp = 0 then uint64_max else nlp - 1) div gf_lineCountInSuperPage g + 1) mod (uint64_max + 1)) tick s) (\<lambda>(tick, s).
       Inr (tick + gf_applyLatency g CPU_FORMAT, s)))"

section \<open>The lines set aside, the statistics\<close>

text \<open>\<^verbatim>\<open>EvictedLinesToFTl\<close> empties the global list \<^verbatim>\<open>evictLines\<close>, here its argument, when it has 16
  lines at least. A dirty line is written when the clock has moved since the last one that was; a line
  that is not is taken off the cache marks under the number of the line written last. The request is
  one for the number of the line, not of its FTL page.\<close>

definition evicted_line_out ::
  "gconf \<Rightarrow> 'f below \<Rightarrow> nat \<Rightarrow> line \<Rightarrow> nat \<times> nat \<times> nat \<times> 'f gcache \<Rightarrow> (nat \<times> nat \<times> nat \<times> 'f gcache) res"
where
  "evicted_line_out g be latency l = (\<lambda>(tick, time_access, lpn, s).
     rbind (one_flag g 0) (\<lambda>b.
     rbind (if ln_dirty l \<and> ln_valid l
            then let lpn = ln_tag l in
              if tick > time_access
              then rbind (call_decache be lpn s) (\<lambda>s.
                   rbind (call_write g be \<lparr>fr_lpn = lpn, fr_ioFlag = b\<rparr> tick s) (\<lambda>(_, s). Inr (tick, lpn, s)))
              else Inr (time_access, lpn, s)
            else rbind (call_decache be lpn s) (\<lambda>s. Inr (time_access, lpn, s))) (\<lambda>(time_access, lpn, s).
       Inr (tick + latency, time_access, lpn, s))))"

definition EvictedLinesToFTl ::
  "gconf \<Rightarrow> 'f below \<Rightarrow> nat \<Rightarrow> line list \<Rightarrow> nat \<Rightarrow> 'f gcache \<Rightarrow> (line list \<times> nat \<times> 'f gcache) res"
where
  "EvictedLinesToFTl g be latency evictLines tick s =
     (if length evictLines < 16 then Inr (evictLines, tick, s)
      else rbind (rfold (evicted_line_out g be latency) evictLines (tick, 0, 0, s)) (\<lambda>(tick, _, _, s). Inr ([], tick, s)))"

definition pageEvictionIndication :: "'f gcache \<Rightarrow> nat \<Rightarrow> bool" where
  "pageEvictionIndication s lpn = (case gc_pageEvictionIndicator s lpn of None \<Rightarrow> False | Some b \<Rightarrow> b)"

definition pageEvictedByHost :: "'f gcache \<Rightarrow> nat \<Rightarrow> bool" where
  "pageEvictedByHost s lpn = (case gc_pageEvictionIndicator s lpn of None \<Rightarrow> True | Some b \<Rightarrow> b)"

definition gc_getStatValues :: "'f gcache \<Rightarrow> nat list" where
  "gc_getStatValues s = [gc_readRequests s, gc_readHits s, gc_writeRequests s, gc_writeHits s]"

definition gc_resetStatValues :: "'f gcache \<Rightarrow> 'f gcache" where
  "gc_resetStatValues s = s\<lparr>gc_readRequests := 0, gc_readHits := 0, gc_writeRequests := 0, gc_writeHits := 0\<rparr>"

end
