(* ===== verification/Runs.thy ===== *)
theory Runs
  imports Prelude
begin

text \<open>
  Reasoning about computations that may stop. \<^verbatim>\<open>run F P r\<close> says that the result \<^verbatim>\<open>r\<close> is a fault of
  the set \<^verbatim>\<open>F\<close> or a value with the property \<^verbatim>\<open>P\<close>: with \<^verbatim>\<open>F\<close> all faults it is partial
  correctness, with no fault total correctness, and with the faults of a callee it says that the
  caller adds none of its own.
\<close>

definition run :: "fault set \<Rightarrow> ('a \<Rightarrow> bool) \<Rightarrow> 'a res \<Rightarrow> bool" where
  "run F P r = (case r of Inl e \<Rightarrow> e \<in> F | Inr x \<Rightarrow> P x)"

lemma run_Inl [simp]: "run F P (Inl e) \<longleftrightarrow> e \<in> F"
  by (simp add: run_def)

lemma run_Inr [simp]: "run F P (Inr x) \<longleftrightarrow> P x"
  by (simp add: run_def)

lemma run_bind [simp]: "run F P (rbind m f) \<longleftrightarrow> run F (\<lambda>x. run F P (f x)) m"
  by (cases m) auto

lemma run_mono: "run F P r \<Longrightarrow> (\<And>x. r = Inr x \<Longrightarrow> P x \<Longrightarrow> Q x) \<Longrightarrow> run F Q r"
  by (cases r) auto

lemma run_bindI: "run F P m \<Longrightarrow> (\<And>x. m = Inr x \<Longrightarrow> P x \<Longrightarrow> run F Q (f x)) \<Longrightarrow> run F Q (rbind m f)"
  by (cases m) auto

lemma run_faults: "run F P r \<Longrightarrow> F \<subseteq> G \<Longrightarrow> run G P r"
  by (cases r) auto

lemma run_if [simp]: "run F P (if b then r else r') \<longleftrightarrow> (if b then run F P r else run F P r')"
  by simp

lemma run_Inr_D: "run F P r \<Longrightarrow> r = Inr x \<Longrightarrow> P x"
  by simp

lemma run_Inl_D: "run F P r \<Longrightarrow> r = Inl e \<Longrightarrow> e \<in> F"
  by simp

lemma run_total: "run {} P r \<longleftrightarrow> (\<exists>x. r = Inr x \<and> P x)"
  by (cases r) auto

lemma run_partial: "run UNIV P r \<longleftrightarrow> (\<forall>x. r = Inr x \<longrightarrow> P x)"
  by (cases r) auto

text \<open>A loop keeps an invariant that may speak of the elements already done.\<close>

lemma run_rfold_index:
  assumes "I [] s" and "\<And>ys x zs s. xs = ys @ x # zs \<Longrightarrow> I ys s \<Longrightarrow> run F (I (ys @ [x])) (f x s)"
  shows "run F (I xs) (rfold f xs s)"
proof -
  have "run F (I xs) (rfold f zs t)" if "xs = ys @ zs" "I ys t" for ys zs t
    using that
  proof (induction zs arbitrary: ys t)
    case (Cons z zs)
    have "run F (I (ys @ [z])) (f z t)" using assms(2) Cons.prems by blast
    then have "run F (\<lambda>u. run F (I xs) (rfold f zs u)) (f z t)"
      by (rule run_mono) (rule Cons.IH, use Cons.prems(1) in auto)
    then show ?case by simp
  qed simp
  from this[of "[]" xs s] assms(1) show ?thesis by simp
qed

lemma run_rfold:
  assumes "I s" and "\<And>x s. x \<in> set xs \<Longrightarrow> I s \<Longrightarrow> run F I (f x s)"
  shows "run F I (rfold f xs s)"
  by (rule run_rfold_index[where I = "\<lambda>_. I"]) (use assms in auto)

end
