(* ===== verification/Icl_Safety.thy ===== *)
theory Icl_Safety
  imports Icl_Cache Runs
begin

text \<open>
  What the cache guarantees: the invariant of its lines, that no dirty page is lost, that it never
  stops with its own panic, and that it answers for the pages written to it.

  The FTL below is any that satisfies the laws of the locale \<^verbatim>\<open>layer_below\<close>: during a call it
  changes the lines of the cache through \<^verbatim>\<open>updateDirty\<close> only, and it keeps its own invariant.
\<close>

text \<open>Cells are pairs that are never taken apart by the simplifier.\<close>

declare split_paired_All [simp del] split_paired_Ex [simp del]

section \<open>The configuration and the lines\<close>

definition conf_ok :: "gconf \<Rightarrow> bool" where
  "conf_ok g \<longleftrightarrow> 0 < gf_lineCountInSuperPage g \<and> 0 < gf_parallelIO g
     \<and> gf_lineCountInMaxIO g = gf_parallelIO g * gf_lineCountInSuperPage g
     \<and> 0 < gf_setSize g \<and> 0 < gf_waySize g
     \<and> (gf_policy g = POLICY_RANDOM \<longrightarrow> (\<forall>n. gf_dist g n < gf_waySize g))"

abbreviation lines_in :: "gconf \<Rightarrow> cell \<Rightarrow> bool" where
  "lines_in g c \<equiv> inside (gf_setSize g) (gf_waySize g) c"

abbreviation slots_in :: "gconf \<Rightarrow> cell \<Rightarrow> bool" where
  "slots_in g c \<equiv> inside (gf_lineCountInSuperPage g) (gf_parallelIO g) c"

abbreviation data_dims :: "gconf \<Rightarrow> cdata \<Rightarrow> bool" where
  "data_dims g d \<equiv> dims (gf_setSize g) (gf_waySize g) d"

abbreviation evict_dims :: "gconf \<Rightarrow> 'a list list \<Rightarrow> bool" where
  "evict_dims g e \<equiv> dims (gf_lineCountInSuperPage g) (gf_parallelIO g) e"

text \<open>Every valid line is in the set of its address, and no address is in two valid lines.\<close>

definition placed :: "gconf \<Rightarrow> cdata \<Rightarrow> bool" where
  "placed g d \<longleftrightarrow> (\<forall>c. lines_in g c \<and> ln_valid (el2 d c) \<longrightarrow> calcSetIndex g (ln_tag (el2 d c)) = fst c)"

definition unique_tags :: "gconf \<Rightarrow> cdata \<Rightarrow> bool" where
  "unique_tags g d \<longleftrightarrow> (\<forall>c c'. lines_in g c \<and> lines_in g c' \<and> ln_valid (el2 d c) \<and> ln_valid (el2 d c')
     \<and> ln_tag (el2 d c) = ln_tag (el2 d c') \<longrightarrow> c = c')"

definition evict_empty :: "gconf \<Rightarrow> cell option list list \<Rightarrow> bool" where
  "evict_empty g e \<longleftrightarrow> evict_dims g e \<and> (\<forall>pos. slots_in g pos \<longrightarrow> el2 e pos = None)"

definition cache_wf :: "gconf \<Rightarrow> 'f gcache \<Rightarrow> bool" where
  "cache_wf g s \<longleftrightarrow> data_dims g (gc_data s) \<and> placed g (gc_data s) \<and> unique_tags g (gc_data s)
     \<and> evict_empty g (gc_evict s)"

text \<open>The addresses of the dirty lines outside a set of cells, and the ones that calls have written.\<close>

definition dirty_outside :: "gconf \<Rightarrow> cell set \<Rightarrow> cdata \<Rightarrow> nat set" where
  "dirty_outside g R d = {ln_tag (el2 d c) | c. lines_in g c \<and> c \<notin> R \<and> ln_valid (el2 d c) \<and> ln_dirty (el2 d c)}"

definition dirty_pages :: "gconf \<Rightarrow> 'f gcache \<Rightarrow> nat set" where
  "dirty_pages g s = dirty_outside g {} (gc_data s)"

fun call_writes :: "gconf \<Rightarrow> ftl_call \<Rightarrow> nat set" where
  "call_writes g (FWrite lpn b) = {lpn * gf_lineCountInSuperPage g + i | i. i < gf_lineCountInSuperPage g \<and> i \<in> bs_elems b}"
| "call_writes g _ = {}"

definition written_pages :: "gconf \<Rightarrow> ftl_call list \<Rightarrow> nat set" where
  "written_pages g cs = (\<Union>c \<in> set cs. call_writes g c)"

lemma written_append [simp]: "written_pages g (cs @ cs') = written_pages g cs \<union> written_pages g cs'"
  by (auto simp: written_pages_def)

lemma written_Nil [simp]: "written_pages g [] = {}"
  by (simp add: written_pages_def)

lemma written_one [simp]: "written_pages g [c] = call_writes g c"
  by (simp add: written_pages_def)

section \<open>Changes of the lines\<close>

text \<open>\<^verbatim>\<open>marked\<close>: lines have become dirty and their access counts have changed. \<^verbatim>\<open>shrunk\<close>: lines have
  become invalid, the valid ones keep their tags.\<close>

definition marked :: "gconf \<Rightarrow> cdata \<Rightarrow> cdata \<Rightarrow> bool" where
  "marked g d d' \<longleftrightarrow> data_dims g d' \<and> (\<forall>c. lines_in g c \<longrightarrow>
     (\<exists>b n. el2 d' c = (el2 d c)\<lparr>ln_dirty := b, ln_accessCount := n\<rparr> \<and> (ln_dirty (el2 d c) \<longrightarrow> b)))"

definition shrunk :: "gconf \<Rightarrow> cdata \<Rightarrow> cdata \<Rightarrow> bool" where
  "shrunk g d d' \<longleftrightarrow> data_dims g d' \<and> (\<forall>c. lines_in g c \<and> ln_valid (el2 d' c) \<longrightarrow>
     ln_valid (el2 d c) \<and> ln_tag (el2 d' c) = ln_tag (el2 d c))"

lemma marked_refl: "data_dims g d \<Longrightarrow> marked g d d"
proof -
  have "\<exists>b n. l = l\<lparr>ln_dirty := b, ln_accessCount := n\<rparr> \<and> (ln_dirty l \<longrightarrow> b)" for l :: line
    by (rule exI[of _ "ln_dirty l"], rule exI[of _ "ln_accessCount l"]) simp
  then show "data_dims g d \<Longrightarrow> marked g d d" by (simp add: marked_def)
qed

lemma marked_fields:
  assumes "marked g d d'" "lines_in g c"
  shows "ln_tag (el2 d' c) = ln_tag (el2 d c)" "ln_valid (el2 d' c) = ln_valid (el2 d c)"
    "ln_insertedAt (el2 d' c) = ln_insertedAt (el2 d c)" "ln_dirty (el2 d c) \<Longrightarrow> ln_dirty (el2 d' c)"
proof -
  obtain b n where "el2 d' c = (el2 d c)\<lparr>ln_dirty := b, ln_accessCount := n\<rparr>" "ln_dirty (el2 d c) \<longrightarrow> b"
    using assms unfolding marked_def by blast
  then show "ln_tag (el2 d' c) = ln_tag (el2 d c)" "ln_valid (el2 d' c) = ln_valid (el2 d c)"
    "ln_insertedAt (el2 d' c) = ln_insertedAt (el2 d c)" "ln_dirty (el2 d c) \<Longrightarrow> ln_dirty (el2 d' c)"
    by auto
qed

lemma marked_trans:
  assumes "marked g a b" "marked g b c" shows "marked g a c"
  unfolding marked_def
proof (intro conjI allI impI)
  show "data_dims g c" using assms(2) by (simp add: marked_def)
  fix p assume p: "lines_in g p"
  obtain b1 n1 where 1: "el2 b p = (el2 a p)\<lparr>ln_dirty := b1, ln_accessCount := n1\<rparr>" "ln_dirty (el2 a p) \<longrightarrow> b1"
    using assms(1) p unfolding marked_def by blast
  obtain b2 n2 where 2: "el2 c p = (el2 b p)\<lparr>ln_dirty := b2, ln_accessCount := n2\<rparr>" "ln_dirty (el2 b p) \<longrightarrow> b2"
    using assms(2) p unfolding marked_def by blast
  from 1 2 have "el2 c p = (el2 a p)\<lparr>ln_dirty := b2, ln_accessCount := n2\<rparr>" "ln_dirty (el2 a p) \<longrightarrow> b2" by auto
  then show "\<exists>b n. el2 c p = (el2 a p)\<lparr>ln_dirty := b, ln_accessCount := n\<rparr> \<and> (ln_dirty (el2 a p) \<longrightarrow> b)" by blast
qed

lemma marked_shrunk: "marked g d d' \<Longrightarrow> shrunk g d d'"
  using marked_fields(1,2) unfolding shrunk_def marked_def by metis

lemma shrunk_refl: "data_dims g d \<Longrightarrow> shrunk g d d"
  by (simp add: shrunk_def)

lemma shrunk_trans: "shrunk g a b \<Longrightarrow> shrunk g b c \<Longrightarrow> shrunk g a c"
  unfolding shrunk_def by metis

lemma shrunk_placed: "shrunk g d d' \<Longrightarrow> placed g d \<Longrightarrow> placed g d'"
  unfolding shrunk_def placed_def by metis

lemma shrunk_unique: "shrunk g d d' \<Longrightarrow> unique_tags g d \<Longrightarrow> unique_tags g d'"
  unfolding shrunk_def unique_tags_def by metis

lemma marked_dirty: "marked g d d' \<Longrightarrow> dirty_outside g R d \<subseteq> dirty_outside g R d'"
proof
  fix t assume m: "marked g d d'" and "t \<in> dirty_outside g R d"
  then obtain c where c: "lines_in g c" "c \<notin> R" "ln_valid (el2 d c)" "ln_dirty (el2 d c)" "t = ln_tag (el2 d c)"
    by (auto simp: dirty_outside_def)
  with marked_fields[OF m c(1)] have "t = ln_tag (el2 d' c)" "ln_valid (el2 d' c)" "ln_dirty (el2 d' c)" by simp_all
  with c(1,2) show "t \<in> dirty_outside g R d'" unfolding dirty_outside_def by blast
qed

text \<open>The callback keeps the array marked.\<close>

definition cb_step :: "(nat \<Rightarrow> nat \<Rightarrow> cdata \<Rightarrow> (nat \<times> cdata) res) \<Rightarrow> cdata \<Rightarrow> cdata \<Rightarrow> bool" where
  "cb_step cb d d' \<longleftrightarrow> (\<exists>lca t t'. cb lca t d = Inr (t', d'))"

lemma getValidWay_ok:
  assumes "conf_ok g" "data_dims g d"
  shows "\<exists>w t. getValidWay g d lca tick = Inr (w, t) \<and> w \<le> gf_waySize g \<and> tick \<le> t
    \<and> (w < gf_waySize g \<longrightarrow> ln_valid (el2 d (calcSetIndex g lca, w)) \<and> ln_tag (el2 d (calcSetIndex g lca, w)) = lca)
    \<and> (w = gf_waySize g \<longrightarrow> (\<forall>i < gf_waySize g. \<not> (ln_valid (el2 d (calcSetIndex g lca, i))
          \<and> ln_tag (el2 d (calcSetIndex g lca, i)) = lca)))"
proof -
  let ?i = "calcSetIndex g lca"
  have i: "?i < length d" "length (d ! ?i) = gf_waySize g"
    using assms by (auto simp: conf_ok_def dims_def calcSetIndex_def)
  obtain w t where r: "valid_way (lat8 g) lca (d ! ?i) tick = (w, t)" by fastforce
  from valid_way_result[OF r] i r show ?thesis
    by (auto simp: getValidWay_def el2_def)
qed

lemma calcSetIndex_lt: "conf_ok g \<Longrightarrow> calcSetIndex g lca < gf_setSize g"
  by (simp add: conf_ok_def calcSetIndex_def)

lemma updateDirty_marked:
  assumes "conf_ok g" "data_dims g d" "updateDirty g lca t d = Inr (t', d')"
  shows "marked g d d'"
proof -
  obtain w u where w: "getValidWay g d lca t = Inr (w, u)" "w \<le> gf_waySize g"
    using getValidWay_ok[OF assms(1,2)] by blast
  let ?c = "(calcSetIndex g lca, w)"
  let ?f = "\<lambda>l :: line. l\<lparr>ln_dirty := True, ln_accessCount := ln_accessCount l + 1\<rparr>"
  show ?thesis
  proof (cases "w = gf_waySize g")
    case True
    with assms(2,3) w show ?thesis by (simp add: updateDirty_def marked_refl)
  next
    case False
    then have c: "lines_in g ?c" using w(2) calcSetIndex_lt[OF assms(1)] by (simp add: inside_def)
    then have d': "d' = up2 d ?c (?f (el2 d ?c))"
      using assms(2,3) w(1) False by (auto simp: updateDirty_def)
    show ?thesis
      unfolding marked_def
    proof (intro conjI allI impI)
      show "data_dims g d'" using assms(2) c d' by simp
      show "\<exists>b n. el2 d' p = (el2 d p)\<lparr>ln_dirty := b, ln_accessCount := n\<rparr> \<and> (ln_dirty (el2 d p) \<longrightarrow> b)"
        if p: "lines_in g p" for p
      proof (cases "p = ?c")
        case True
        then have "el2 d' p = (el2 d p)\<lparr>ln_dirty := True, ln_accessCount := ln_accessCount (el2 d p) + 1\<rparr>"
          using assms(2) c d' by (simp add: el2_up2)
        then show ?thesis by blast
      next
        case False
        then have "el2 d' p = el2 d p" using assms(2) c d' by (simp add: el2_up2)
        with marked_refl[OF assms(2)] p show ?thesis unfolding marked_def by metis
      qed
    qed
  qed
qed

lemma callbacks_marked:
  assumes "conf_ok g" "data_dims g d" "(cb_step (updateDirty g))\<^sup>*\<^sup>* d d'"
  shows "marked g d d'"
  using assms(3)
proof (induction rule: rtranclp_induct)
  case base
  then show ?case using assms(2) by (rule marked_refl)
next
  case (step d1 d2)
  have "data_dims g d1" using step.IH by (simp add: marked_def)
  with step.hyps(2) assms(1) have "marked g d1 d2" by (auto simp: cb_step_def dest: updateDirty_marked)
  with step.IH show ?case by (rule marked_trans)
qed

section \<open>The layer below\<close>

definition below_faults :: "'f below \<Rightarrow> fault set" where
  "below_faults be = {x. (\<exists>r t f. bl_read be r t f = Inl x) \<or> (\<exists>cb r t fd. bl_write be cb r t fd = Inl x)
     \<or> (\<exists>r t f. bl_trim be r t f = Inl x) \<or> (\<exists>cb a n t fd. bl_format be cb a n t fd = Inl x)
     \<or> (\<exists>lpn f. bl_decache be lpn f = Inl x)}"

lemma one_flag_ok:
  assumes "conf_ok g" "i < gf_lineCountInSuperPage g"
  shows "\<exists>b. one_flag g i = Inr b \<and> bs_wf b \<and> bs_dataSize b = gf_lineCountInSuperPage g \<and> bs_elems b = {i}"
proof -
  obtain b where b: "bs_reset_all (bs_new (gf_lineCountInSuperPage g)) = Inr b" "bs_wf b"
    "bs_dataSize b = gf_lineCountInSuperPage g" "bs_elems b = {}"
    using bs_reset_all_ok[OF bs_new_wf[of "gf_lineCountInSuperPage g"]] by auto
  with bs_set_ok[OF b(2), of i True] assms(2) show ?thesis by (auto simp: one_flag_def)
qed

lemma ftl_request_of_ok:
  assumes "conf_ok g"
  shows "\<exists>b. ftl_request_of g lca = Inr \<lparr>fr_lpn = lca div gf_lineCountInSuperPage g, fr_ioFlag = b\<rparr>
    \<and> bs_elems b = {lca mod gf_lineCountInSuperPage g}"
  using bs_set_ok[OF bs_new_wf, of "lca mod gf_lineCountInSuperPage g" "gf_lineCountInSuperPage g" True] assms
  by (auto simp: ftl_request_of_def conf_ok_def Let_def)

lemma call_writes_one:
  "conf_ok g \<Longrightarrow> t mod gf_lineCountInSuperPage g \<in> bs_elems b
    \<Longrightarrow> t \<in> call_writes g (FWrite (t div gf_lineCountInSuperPage g) b)"
  by (auto simp: conf_ok_def intro!: exI[of _ "t mod gf_lineCountInSuperPage g"])

text \<open>What holds while an operation is running. The pages \<^verbatim>\<open>D\<close> are dirty, in lines outside \<^verbatim>\<open>R\<close>, or
  have been written by a call after the first \<^verbatim>\<open>n\<close>; the entries of \<^verbatim>\<open>evictData\<close> point to lines, in
  the row of their address.\<close>

definition evict_ok :: "gconf \<Rightarrow> cdata \<Rightarrow> cell option list list \<Rightarrow> bool" where
  "evict_ok g d e \<longleftrightarrow> evict_dims g e \<and> (\<forall>pos a. slots_in g pos \<and> el2 e pos = Some a \<longrightarrow> lines_in g a
     \<and> (ln_valid (el2 d a) \<longrightarrow> fst pos = ln_tag (el2 d a) mod gf_lineCountInSuperPage g))"

definition going :: "gconf \<Rightarrow> ('f \<Rightarrow> bool) \<Rightarrow> nat \<Rightarrow> nat set \<Rightarrow> cell set \<Rightarrow> 'f gcache \<Rightarrow> bool" where
  "going g ok n D R s \<longleftrightarrow> data_dims g (gc_data s) \<and> evict_ok g (gc_data s) (gc_evict s) \<and> ok (gc_below s)
     \<and> n \<le> length (gc_log s) \<and> D \<subseteq> dirty_outside g R (gc_data s) \<union> written_pages g (drop n (gc_log s))"

lemma evict_ok_shrunk:
  assumes "evict_ok g d e" "shrunk g d d'"
  shows "evict_ok g d' e"
  using assms unfolding evict_ok_def shrunk_def by metis

text \<open>A cell that is free since a tick of the set \<^verbatim>\<open>T\<close>.\<close>

definition free_since :: "(nat \<Rightarrow> bool) \<Rightarrow> cdata \<Rightarrow> cell \<Rightarrow> bool" where
  "free_since T d c \<longleftrightarrow> \<not> ln_valid (el2 d c) \<and> T (ln_insertedAt (el2 d c))"

text \<open>A write of the FTL that starts at \<^verbatim>\<open>tick\<close> ends at a tick of the set \<^verbatim>\<open>T\<close>.\<close>

definition in_time :: "'f below \<Rightarrow> ('f \<Rightarrow> bool) \<Rightarrow> (nat \<Rightarrow> bool) \<Rightarrow> nat \<Rightarrow> bool" where
  "in_time be ok T tick \<longleftrightarrow> T tick \<and> (\<forall>cb r f d t' f' d'. ok f
     \<and> bl_write be cb r tick (f, d) = Inr (t', f', d') \<longrightarrow> T t')"

locale layer_below =
  fixes be :: "'f below" and ok :: "'f \<Rightarrow> bool"
  assumes keep_read: "\<And>r t f t' f'. ok f \<Longrightarrow> bl_read be r t f = Inr (t', f') \<Longrightarrow> ok f'"
    and keep_write: "\<And>cb r t f d t' f' d'. ok f \<Longrightarrow> bl_write be cb r t (f, d) = Inr (t', f', d') \<Longrightarrow> ok f'"
    and keep_trim: "\<And>r t f t' f'. ok f \<Longrightarrow> bl_trim be r t f = Inr (t', f') \<Longrightarrow> ok f'"
    and keep_format: "\<And>cb a n t f d t' f' d'. ok f \<Longrightarrow> bl_format be cb a n t (f, d) = Inr (t', f', d') \<Longrightarrow> ok f'"
    and keep_decache: "\<And>lpn f f'. ok f \<Longrightarrow> bl_decache be lpn f = Inr f' \<Longrightarrow> ok f'"
    and keep_evicted: "\<And>t f. ok f \<Longrightarrow> ok (bl_evicted be t f)"
    and keep_reuse: "\<And>l n f. ok f \<Longrightarrow> ok (bl_reuse be l n f)"
    and keep_dram_read: "\<And>n t f. ok f \<Longrightarrow> ok (snd (bl_dram_read be n t f))"
    and keep_dram_write: "\<And>n t f. ok f \<Longrightarrow> ok (snd (bl_dram_write be n t f))"
    and keep_scheduling: "\<And>b f. ok f \<Longrightarrow> ok (bl_setScheduling be b f)"
    and write_calls_back: "\<And>cb r t f d t' f' d'. bl_write be cb r t (f, d) = Inr (t', f', d') \<Longrightarrow> (cb_step cb)\<^sup>*\<^sup>* d d'"
    and format_calls_back: "\<And>cb a n t f d t' f' d'. bl_format be cb a n t (f, d) = Inr (t', f', d') \<Longrightarrow> (cb_step cb)\<^sup>*\<^sup>* d d'"

locale cache_over_ftl = layer_below be ok for be :: "'f below" and ok :: "'f \<Rightarrow> bool" +
  fixes g :: gconf
  assumes conf: "conf_ok g"
begin

abbreviation "L \<equiv> gf_lineCountInSuperPage g"
abbreviation "F \<equiv> below_faults be"

lemma L_pos [simp]: "0 < L"
  using conf by (simp add: conf_ok_def)

lemma call_write_ok:
  assumes "going g ok n D R s"
  shows "run F (\<lambda>(t, s'). marked g (gc_data s) (gc_data s') \<and> going g ok n D R s'
     \<and> call_writes g (FWrite (fr_lpn r) (fr_ioFlag r)) \<subseteq> written_pages g (drop n (gc_log s'))
     \<and> gc_evict s' = gc_evict s \<and> gc_draws s' = gc_draws s
     \<and> (\<exists>f d. bl_write be (updateDirty g) r tick (gc_below s, gc_data s) = Inr (t, f, d)))
     (call_write g be r tick s)"
proof (cases "bl_write be (updateDirty g) r tick (gc_below s, gc_data s)")
  case (Inl x)
  then have "x \<in> F" unfolding below_faults_def by blast
  with Inl show ?thesis by (simp add: call_write_def)
next
  case (Inr y)
  obtain t f d where y: "y = (t, f, d)" by (cases y)
  note w = Inr[unfolded y]
  have d: "data_dims g (gc_data s)" using assms by (simp add: going_def)
  have m: "marked g (gc_data s) d" by (rule callbacks_marked[OF conf d write_calls_back[OF w]])
  have "ok f" using keep_write[OF _ w] assms by (simp add: going_def)
  moreover have "D \<subseteq> dirty_outside g R d \<union> written_pages g (drop n (gc_log s))"
    using assms marked_dirty[OF m, of R] unfolding going_def by blast
  moreover have "evict_ok g d (gc_evict s)"
    using evict_ok_shrunk[OF _ marked_shrunk[OF m]] assms by (simp add: going_def)
  ultimately have "going g ok n D R
      (s\<lparr>gc_below := f, gc_data := d, gc_log := gc_log s @ [FWrite (fr_lpn r) (fr_ioFlag r)]\<rparr>)"
    using m assms unfolding going_def by (auto simp: marked_def)
  moreover have "n \<le> length (gc_log s)" using assms by (simp add: going_def)
  ultimately show ?thesis using w m by (simp add: call_write_def)
qed

lemma call_decache_ok:
  assumes "going g ok n D R s"
  shows "run F (\<lambda>s'. gc_data s' = gc_data s \<and> going g ok n D R s' \<and> gc_evict s' = gc_evict s \<and> gc_draws s' = gc_draws s)
     (call_decache be lpn s)"
proof (cases "bl_decache be lpn (gc_below s)")
  case (Inl x)
  then have "x \<in> F" unfolding below_faults_def by blast
  with Inl show ?thesis by (simp add: call_decache_def)
next
  case (Inr f)
  have "ok f" using keep_decache[OF _ Inr] assms by (simp add: going_def)
  with Inr assms show ?thesis by (auto simp: call_decache_def going_def)
qed

lemma call_read_ok:
  assumes "going g ok n D R s"
  shows "run F (\<lambda>(t, s'). gc_data s' = gc_data s \<and> going g ok n D R s' \<and> gc_evict s' = gc_evict s \<and> gc_draws s' = gc_draws s)
     (call_read be r tick s)"
proof (cases "bl_read be r tick (gc_below s)")
  case (Inl x)
  then have "x \<in> F" unfolding below_faults_def by blast
  with Inl show ?thesis by (simp add: call_read_def)
next
  case (Inr y)
  obtain t f where y: "y = (t, f)" by (cases y)
  have "ok f" using keep_read[OF _ Inr[unfolded y]] assms by (simp add: going_def)
  with Inr y assms show ?thesis by (auto simp: call_read_def going_def)
qed

lemma going_below: "going g ok n D R s \<Longrightarrow> ok f \<Longrightarrow> going g ok n D R (s\<lparr>gc_below := f\<rparr>)"
  by (simp add: going_def)

lemma going_inv: "going g ok n D R s \<Longrightarrow> ok (gc_below s)"
  by (simp add: going_def)

text \<open>Evicting a line: it becomes free, its page stays dirty or has been written.\<close>

lemma going_evicted:
  assumes "going g ok n D R s" "lines_in g a" "slots_in g pos"
    and "ln_valid (el2 (gc_data s) a) \<and> ln_dirty (el2 (gc_data s) a) \<longrightarrow>
         a \<in> R \<or> ln_tag (el2 (gc_data s) a) \<in> written_pages g (drop n (gc_log s))"
  shows "going g ok n D R (s\<lparr>gc_data := up2 (gc_data s) a (evicted_line True t (el2 (gc_data s) a)),
      gc_evict := up2 (gc_evict s) pos None\<rparr>)"
    "shrunk g (gc_data s) (up2 (gc_data s) a (evicted_line True t (el2 (gc_data s) a)))"
proof -
  let ?d = "gc_data s" and ?d' = "up2 (gc_data s) a (evicted_line True t (el2 (gc_data s) a))"
  have dims: "data_dims g ?d" "evict_dims g (gc_evict s)" using assms(1) by (auto simp: going_def evict_ok_def)
  have el: "el2 ?d' c = (if c = a then evicted_line True t (el2 ?d a) else el2 ?d c)" for c
    using dims assms(2) by (simp add: el2_up2)
  have inval: "\<not> ln_valid (evicted_line True t l)" for l by (simp add: evicted_line_def Let_def)
  show sh: "shrunk g ?d ?d'" using dims assms(2) by (auto simp: shrunk_def el inval)
  have "dirty_outside g R ?d \<subseteq> dirty_outside g R ?d' \<union> written_pages g (drop n (gc_log s))"
    using assms(4) by (auto simp: dirty_outside_def el inval)
  moreover have "evict_ok g ?d' (up2 (gc_evict s) pos None)"
    using evict_ok_shrunk[OF _ sh, of "gc_evict s"] assms(1,3) dims
    by (auto simp: going_def evict_ok_def el2_up2 split: if_splits)
  ultimately show "going g ok n D R (s\<lparr>gc_data := ?d', gc_evict := up2 (gc_evict s) pos None\<rparr>)"
    using assms(1,2) dims unfolding going_def by auto
qed

end

context cache_over_ftl
begin

lemma evict_one_ok:
  assumes going: "going g ok n D R s" and pos: "slots_in g pos" and T: "in_time be ok T tick"
  shows "run F (\<lambda>s'. going g ok n D R s' \<and> shrunk g (gc_data s) (gc_data s')
     \<and> gc_evict s' = up2 (gc_evict s) pos None
     \<and> (\<forall>a. el2 (gc_evict s) pos = Some a \<longrightarrow> free_since T (gc_data s') a)
     \<and> (\<forall>a. lines_in g a \<and> free_since T (gc_data s) a \<longrightarrow> free_since T (gc_data s') a))
   (evict_one g be tick True pos s)"
proof -
  have dims: "data_dims g (gc_data s)" "evict_dims g (gc_evict s)" using going by (auto simp: going_def evict_ok_def)
  show ?thesis
  proof (cases "el2 (gc_evict s) pos")
    case None
    then have "evict_one g be tick True pos s = Inr s" using dims pos by (simp add: evict_one_def)
    moreover have "up2 (gc_evict s) pos None = gc_evict s" using up2_same[OF dims(2) pos] None by simp
    ultimately show ?thesis using going None dims by (simp add: shrunk_refl)
  next
    case (Some a)
    let ?l = "el2 (gc_data s) a"
    let ?s1 = "s\<lparr>gc_below := bl_evicted be (ln_tag ?l) (gc_below s),
        gc_pageEvictionIndicator := (gc_pageEvictionIndicator s)(ln_tag ?l \<mapsto> gc_doEvictionByGC s)\<rparr>"
    have a: "lines_in g a" "ln_valid ?l \<Longrightarrow> fst pos = ln_tag ?l mod L"
      using going pos Some unfolding going_def evict_ok_def by blast+
    have ok1: "ok (gc_below ?s1)" using going keep_evicted by (simp add: going_def)
    have going1: "going g ok n D R ?s1" using going ok1 by (simp add: going_def)
    let ?Q = "\<lambda>s'. going g ok n D R s' \<and> shrunk g (gc_data s) (gc_data s')
     \<and> gc_evict s' = up2 (gc_evict s) pos None \<and> free_since T (gc_data s') a
     \<and> (\<forall>a. lines_in g a \<and> free_since T (gc_data s) a \<longrightarrow> free_since T (gc_data s') a)"
    let ?body = "\<lambda>(beginAt, s). rbind (mod2 (gc_data s) a (evicted_line True beginAt)) (\<lambda>d.
          rbind (put2 (gc_evict s) pos None) (\<lambda>e. Inr (s\<lparr>gc_data := d, gc_evict := e\<rparr>)))"
    have finish: "run F ?Q (?body (t, s2))"
      if s2: "going g ok n D R s2" "marked g (gc_data s) (gc_data s2)" "gc_evict s2 = gc_evict s" "T t"
        "ln_valid (el2 (gc_data s2) a) \<and> ln_dirty (el2 (gc_data s2) a)
           \<longrightarrow> ln_tag (el2 (gc_data s2) a) \<in> written_pages g (drop n (gc_log s2))" for t s2
    proof -
      let ?d = "up2 (gc_data s2) a (evicted_line True t (el2 (gc_data s2) a))"
      have d2: "data_dims g (gc_data s2)" "evict_dims g (gc_evict s2)" using s2(1) by (auto simp: going_def evict_ok_def)
      note e = going_evicted[OF s2(1) a(1) pos, of t]
      have fr: "free_since T ?d a" using d2 a(1) s2(4) by (simp add: free_since_def el2_up2 evicted_line_def)
      have "free_since T ?d c" if c: "lines_in g c" "free_since T (gc_data s) c" for c
      proof (cases "c = a")
        case False
        then have "el2 ?d c = el2 (gc_data s2) c" using d2 a(1) by (simp add: el2_up2)
        then show ?thesis using marked_fields(2,3)[OF s2(2) c(1)] c(2) by (simp add: free_since_def)
      qed (use fr in simp)
      moreover have "shrunk g (gc_data s) ?d" using shrunk_trans[OF marked_shrunk[OF s2(2)]] e(2) s2(5) by blast
      ultimately show ?thesis using d2 a(1) pos fr e(1) s2(3,5) by simp
    qed
    show ?thesis
    proof (cases "ln_valid ?l \<and> ln_dirty ?l")
      case True
      obtain b where b: "one_flag g (fst pos) = Inr b" "bs_elems b = {fst pos}"
        using one_flag_ok[OF conf, of "fst pos"] pos by (auto simp: inside_def)
      let ?r = "\<lparr>fr_lpn = ln_tag ?l div L, fr_ioFlag = b\<rparr>"
      have w: "ln_tag ?l \<in> call_writes g (FWrite (ln_tag ?l div L) b)"
        by (rule call_writes_one[OF conf]) (use True a(2) b(2) in simp)
      have "run F ?Q (rbind (call_write g be ?r tick (s3\<lparr>gc_below := bl_reuse be (ln_tag ?l div L) (ln_accessCount ?l) (gc_below s3)\<rparr>)) ?body)"
        if s3: "gc_data s3 = gc_data s" "going g ok n D R s3" "gc_evict s3 = gc_evict s" for s3
      proof -
        have "going g ok n D R (s3\<lparr>gc_below := bl_reuse be (ln_tag ?l div L) (ln_accessCount ?l) (gc_below s3)\<rparr>)" (is "going g ok n D R ?s4")
          by (rule going_below[OF s3(2) keep_reuse[OF going_inv[OF s3(2)]]])
        from call_write_ok[OF this, of ?r tick]
        have "run F (\<lambda>x. run F ?Q (?body x)) (call_write g be ?r tick ?s4)"
        proof (rule run_mono)
          fix x
          assume x: "case x of (t, s') \<Rightarrow> marked g (gc_data ?s4) (gc_data s') \<and> going g ok n D R s'
            \<and> call_writes g (FWrite (fr_lpn ?r) (fr_ioFlag ?r)) \<subseteq> written_pages g (drop n (gc_log s'))
            \<and> gc_evict s' = gc_evict ?s4 \<and> gc_draws s' = gc_draws ?s4
            \<and> (\<exists>f d. bl_write be (updateDirty g) ?r tick (gc_below ?s4, gc_data ?s4) = Inr (t, f, d))"
          obtain t s2 where xx: "x = (t, s2)" by (cases x)
          have "T t" using x xx T going_inv[OF \<open>going g ok n D R ?s4\<close>] unfolding in_time_def by blast
          moreover have "ln_tag (el2 (gc_data s2) a) = ln_tag ?l"
            using marked_fields(1)[of g "gc_data s" "gc_data s2" a] a(1) x xx s3 by simp
          ultimately show "run F ?Q (?body x)" unfolding xx
            by (intro finish) (use x xx s3 w in auto)
        qed
        then show ?thesis by simp
      qed
      then have "run F (\<lambda>s3. run F ?Q (rbind (call_write g be ?r tick (s3\<lparr>gc_below := bl_reuse be (ln_tag ?l div L) (ln_accessCount ?l) (gc_below s3)\<rparr>)) ?body))
          (call_decache be (ln_tag ?l div L) ?s1)"
        by (intro run_mono[OF call_decache_ok[OF going1]]) auto
      then show ?thesis using dims pos Some a(1) True b(1) by (simp add: evict_one_def Let_def)
    next
      case False
      have "run F (\<lambda>s3. run F ?Q (?body (tick, s3))) (call_decache be (ln_tag ?l) ?s1)"
        by (rule run_mono[OF call_decache_ok[OF going1]])
           (rule finish, use False T dims in \<open>auto simp: marked_refl in_time_def\<close>)
      then show ?thesis using dims pos Some a(1) False by (auto simp: evict_one_def Let_def)
    qed
  qed
qed

lemma evictCache_ok:
  assumes going: "going g ok n D R s" and T: "in_time be ok T tick"
  shows "run F (\<lambda>s'. going g ok n D R s' \<and> shrunk g (gc_data s) (gc_data s') \<and> evict_empty g (gc_evict s')
     \<and> (\<forall>pos a. slots_in g pos \<and> el2 (gc_evict s) pos = Some a \<longrightarrow> free_since T (gc_data s') a)
     \<and> (\<forall>a. lines_in g a \<and> free_since T (gc_data s) a \<longrightarrow> free_since T (gc_data s') a))
   (evictCache g be tick True s)"
proof -
  have dims: "data_dims g (gc_data s)" "evict_dims g (gc_evict s)" using going by (auto simp: going_def evict_ok_def)
  let ?I = "\<lambda>ps s'. going g ok n D R s' \<and> shrunk g (gc_data s) (gc_data s')
     \<and> (\<forall>pos. slots_in g pos \<longrightarrow> el2 (gc_evict s') pos = (if pos \<in> set ps then None else el2 (gc_evict s) pos))
     \<and> (\<forall>pos \<in> set ps. \<forall>a. slots_in g pos \<and> el2 (gc_evict s) pos = Some a \<longrightarrow> free_since T (gc_data s') a)
     \<and> (\<forall>a. lines_in g a \<and> free_since T (gc_data s) a \<longrightarrow> free_since T (gc_data s') a)"
  have "run F (?I (positions L (gf_parallelIO g))) (rfold (evict_one g be tick True) (positions L (gf_parallelIO g)) s)"
  proof (rule run_rfold_index)
    show "?I [] s" using going dims by (simp add: shrunk_refl)
  next
    fix ps pos zs s1
    assume split: "positions L (gf_parallelIO g) = ps @ pos # zs" and I: "?I ps s1"
    then have pos: "slots_in g pos" by (metis in_set_conv_decomp set_positions)
    have g1: "going g ok n D R s1" using I by blast
    have I3: "el2 (gc_evict s1) p = (if p \<in> set ps then None else el2 (gc_evict s) p)" if "slots_in g p" for p
      using I that by blast
    have e1: "evict_dims g (gc_evict s1)" using g1 by (simp add: going_def evict_ok_def)
    have lines: "lines_in g a" if "slots_in g p" "el2 (gc_evict s) p = Some a" for p a
      using going that unfolding going_def evict_ok_def by blast
    show "run F (?I (ps @ [pos])) (evict_one g be tick True pos s1)"
    proof (rule run_mono[OF evict_one_ok[OF g1 pos T]])
      fix s2
      assume e: "going g ok n D R s2 \<and> shrunk g (gc_data s1) (gc_data s2) \<and> gc_evict s2 = up2 (gc_evict s1) pos None
        \<and> (\<forall>a. el2 (gc_evict s1) pos = Some a \<longrightarrow> free_since T (gc_data s2) a)
        \<and> (\<forall>a. lines_in g a \<and> free_since T (gc_data s1) a \<longrightarrow> free_since T (gc_data s2) a)"
      have "free_since T (gc_data s2) a" if "p \<in> set (ps @ [pos])" "slots_in g p" "el2 (gc_evict s) p = Some a" for p a
      proof (cases "p \<in> set ps")
        case True
        then have "free_since T (gc_data s1) a" using I that by blast
        then show ?thesis using e lines that by blast
      next
        case False
        then have "p = pos" using that by simp
        then have "el2 (gc_evict s1) pos = Some a" using I3[OF pos] that(3) False by simp
        then show ?thesis using e by blast
      qed
      moreover have "shrunk g (gc_data s) (gc_data s2)" using I e shrunk_trans by blast
      moreover have "el2 (gc_evict s2) p = (if p \<in> set (ps @ [pos]) then None else el2 (gc_evict s) p)"
        if "slots_in g p" for p
      proof -
        have "gc_evict s2 = up2 (gc_evict s1) pos None" using e by blast
        then show ?thesis using I3[OF that] e1 pos by (auto simp: el2_up2)
      qed
      ultimately show "?I (ps @ [pos]) s2" using e I by blast
    qed
  qed
  then have "run F (\<lambda>s'. ?I (positions L (gf_parallelIO g)) s') (rfold (evict_one g be tick True) (positions L (gf_parallelIO g)) s)" .
  then show ?thesis
    unfolding evictCache_def run_bind
    by (rule run_mono) (auto simp: evict_empty_def going_def evict_ok_def)
qed

end

section \<open>Choosing lines\<close>

lemma calcIOPosition_ok:
  assumes "conf_ok g"
  shows "slots_in g (calcIOPosition g lca)" "fst (calcIOPosition g lca) = lca mod gf_lineCountInSuperPage g"
proof -
  have m: "gf_lineCountInMaxIO g = gf_parallelIO g * gf_lineCountInSuperPage g" "0 < gf_lineCountInSuperPage g"
    "0 < gf_parallelIO g" using assms by (auto simp: conf_ok_def)
  have "lca mod (gf_parallelIO g * gf_lineCountInSuperPage g) < gf_parallelIO g * gf_lineCountInSuperPage g"
    using m(2,3) by simp
  then show "slots_in g (calcIOPosition g lca)"
    using m by (auto simp: inside_def calcIOPosition_def Let_def less_mult_imp_div_less)
  show "fst (calcIOPosition g lca) = lca mod gf_lineCountInSuperPage g"
    using m by (simp add: calcIOPosition_def Let_def mod_mod_cancel)
qed

lemma compareFunction_ok:
  assumes "dims S W d" "\<And>a. p = Some a \<Longrightarrow> inside S W a" "\<And>a. q = Some a \<Longrightarrow> inside S W a"
  shows "\<exists>r n'. compareFunction pol dist ws d p q n = Inr (r, n') \<and> (r = p \<or> r = q) \<and> (r = None \<longrightarrow> p = None \<and> q = None)"
proof (cases p)
  case None
  then show ?thesis by (simp add: compareFunction_def)
next
  case (Some a)
  show ?thesis
  proof (cases q)
    case None
    with Some show ?thesis by (simp add: compareFunction_def)
  next
    case (Some b)
    with \<open>p = Some a\<close> assms show ?thesis
      by (cases "takes_first pol dist ws (el2 d a) (el2 d b) n") (simp add: compareFunction_def)
  qed
qed

text \<open>The entries point to valid lines, in the row of their address.\<close>

definition victims_ok :: "gconf \<Rightarrow> cdata \<Rightarrow> cell option list list \<Rightarrow> bool" where
  "victims_ok g d e \<longleftrightarrow> evict_dims g e \<and> (\<forall>pos a. slots_in g pos \<and> el2 e pos = Some a \<longrightarrow> lines_in g a
     \<and> ln_valid (el2 d a) \<and> fst pos = ln_tag (el2 d a) mod gf_lineCountInSuperPage g)"

lemma victims_okI:
  assumes "evict_dims g e" "\<And>pos a. slots_in g pos \<Longrightarrow> el2 e pos = Some a \<Longrightarrow> lines_in g a
     \<and> ln_valid (el2 d a) \<and> fst pos = ln_tag (el2 d a) mod gf_lineCountInSuperPage g"
  shows "victims_ok g d e"
  using assms unfolding victims_ok_def by blast

lemma victims_okD:
  assumes "victims_ok g d e" "slots_in g pos" "el2 e pos = Some a"
  shows "lines_in g a" "ln_valid (el2 d a)" "fst pos = ln_tag (el2 d a) mod gf_lineCountInSuperPage g"
  using assms unfolding victims_ok_def by blast+

lemma victims_dims: "victims_ok g d e \<Longrightarrow> evict_dims g e"
  by (simp add: victims_ok_def)

lemma victims_evict_ok: "victims_ok g d e \<Longrightarrow> evict_ok g d e"
  by (simp add: victims_ok_def evict_ok_def)

lemma victims_put:
  assumes "victims_ok g d e" "slots_in g pos"
    "\<And>a. p = Some a \<Longrightarrow> lines_in g a \<and> ln_valid (el2 d a) \<and> fst pos = ln_tag (el2 d a) mod gf_lineCountInSuperPage g"
  shows "victims_ok g d (up2 e pos p)"
proof (rule victims_okI)
  note dims = victims_dims[OF assms(1)]
  show "evict_dims g (up2 e pos p)" using dims assms(2) by simp
  fix q a assume q: "slots_in g q" "el2 (up2 e pos p) q = Some a"
  show "lines_in g a \<and> ln_valid (el2 d a) \<and> fst q = ln_tag (el2 d a) mod gf_lineCountInSuperPage g"
  proof (cases "q = pos")
    case True
    with q(2) dims assms(2) have "p = Some a" by (simp add: el2_up2)
    with assms(3) True show ?thesis by simp
  next
    case False
    with q(2) dims assms(2) have "el2 e q = Some a" by (simp add: el2_up2)
    from victims_okD[OF assms(1) q(1) this] show ?thesis by simp
  qed
qed

lemma collect_victim_ok:
  assumes "conf_ok g" "data_dims g d" "lines_in g c" "victims_ok g d e"
  shows "run {} (\<lambda>(e', n'). victims_ok g d e') (collect_victim g d c (e, n))"
proof (cases "ln_valid (el2 d c)")
  case False
  with assms show ?thesis by (simp add: collect_victim_def)
next
  case True
  let ?pos = "calcIOPosition g (ln_tag (el2 d c))"
  note pos = calcIOPosition_ok[OF assms(1), of "ln_tag (el2 d c)"]
  have ed: "evict_dims g e" using assms(4) by (simp add: victims_ok_def)
  have inside: "lines_in g a" if "el2 e ?pos = Some a" for a using assms(4) pos(1) that by (auto simp: victims_ok_def)
  obtain r n' where r: "compareFunction (gf_policy g) (gf_dist g) (gf_waySize g) d (el2 e ?pos) (Some c) n = Inr (r, n')"
    "r = el2 e ?pos \<or> r = Some c"
    using compareFunction_ok[OF assms(2), of "el2 e ?pos" "Some c"] inside assms(3) by blast
  have "victims_ok g d (up2 e ?pos r)"
  proof (rule victims_put[OF assms(4) pos(1)])
    fix a assume a: "r = Some a"
    show "lines_in g a \<and> ln_valid (el2 d a) \<and> fst ?pos = ln_tag (el2 d a) mod gf_lineCountInSuperPage g"
    proof (cases "r = Some c")
      case True
      then show ?thesis using a assms(3) \<open>ln_valid (el2 d c)\<close> pos(2) by simp
    next
      case False
      then have "el2 e ?pos = Some a" using a r(2) by simp
      from victims_okD[OF assms(4) pos(1) this] show ?thesis by simp
    qed
  qed
  with True r(1) ed pos(1) assms(2,3) show ?thesis by (simp add: collect_victim_def Let_def)
qed

lemma merge_row_ok:
  assumes "conf_ok g" "data_dims g d" "inside (gf_lineCountInSuperPage g) (gf_parallelIO g - 1) pos" "victims_ok g d e"
  shows "run {} (\<lambda>(e', n'). victims_ok g d e') (merge_row g d pos (e, n))"
proof -
  let ?next = "(fst pos, snd pos + 1)"
  have slots: "slots_in g pos" "slots_in g ?next" using assms(3) by (auto simp: inside_def)
  have ed: "evict_dims g e" using assms(4) by (simp add: victims_ok_def)
  have inside: "lines_in g a" if "el2 e pos = Some a \<or> el2 e ?next = Some a" for a
    using assms(4) slots that unfolding victims_ok_def by blast
  obtain r n' where r: "compareFunction (gf_policy g) (gf_dist g) (gf_waySize g) d (el2 e pos) (el2 e ?next) n = Inr (r, n')"
    "r = el2 e pos \<or> r = el2 e ?next"
    using compareFunction_ok[OF assms(2), of "el2 e pos" "el2 e ?next"] inside by blast
  have "lines_in g a \<and> ln_valid (el2 d a) \<and> fst ?next = ln_tag (el2 d a) mod gf_lineCountInSuperPage g"
    if "r = Some a" for a
  proof (cases "r = el2 e pos")
    case True
    then have "el2 e pos = Some a" using that by simp
    with assms(4) slots(1) show ?thesis unfolding victims_ok_def by fastforce
  next
    case False
    then have "el2 e ?next = Some a" using that r(2) by simp
    with assms(4) slots(2) show ?thesis unfolding victims_ok_def by blast
  qed
  then have v1: "victims_ok g d (up2 e ?next r)" by (rule victims_put[OF assms(4) slots(2)])
  then have "victims_ok g d (up2 (up2 e ?next r) pos None)" by (rule victims_put[OF _ slots(1)]) simp
  have "evict_dims g (up2 e ?next r)" using ed slots(2) by simp
  with v1 r(1) ed slots assms(2) \<open>victims_ok g d (up2 (up2 e ?next r) pos None)\<close> show ?thesis
    by (simp add: merge_row_def Let_def put2_ok[OF \<open>evict_dims g (up2 e ?next r)\<close> slots(1), simplified])
qed

lemma has_set_ok:
  assumes "conf_ok g" "data_dims g d" "placed g d" "victims_ok g d e"
  shows "\<exists>h. has_set g d e i = Inr h \<and> (h \<longrightarrow> (\<exists>pos a. slots_in g pos \<and> el2 e pos = Some a \<and> fst a = i))"
proof -
  let ?I = "\<lambda>h. h \<longrightarrow> (\<exists>pos a. slots_in g pos \<and> el2 e pos = Some a \<and> fst a = i)"
  let ?f = "\<lambda>pos have. rbind (at2 e pos) (\<lambda>p. case p of None \<Rightarrow> Inr have | Some a \<Rightarrow>
              rbind (at2 d a) (\<lambda>l. Inr (have \<or> calcSetIndex g (ln_tag l) = i)))"
  have ed: "evict_dims g e" using assms(4) by (simp add: victims_ok_def)
  have "run {} ?I (rfold ?f (positions (gf_lineCountInSuperPage g) (gf_parallelIO g)) False)"
  proof (rule run_rfold)
    fix pos h
    assume p: "pos \<in> set (positions (gf_lineCountInSuperPage g) (gf_parallelIO g))" and h: "?I h"
    then have pos: "slots_in g pos" by simp
    show "run {} ?I (?f pos h)"
    proof (cases "el2 e pos")
      case None
      with ed pos h show ?thesis by simp
    next
      case (Some a)
      have a: "lines_in g a" "ln_valid (el2 d a)" using assms(4) pos Some unfolding victims_ok_def by blast+
      then have "calcSetIndex g (ln_tag (el2 d a)) = fst a" using assms(3) by (simp add: placed_def)
      with Some ed pos h a assms(2) show ?thesis by auto
    qed
  qed simp
  then show ?thesis by (simp add: has_set_def run_total)
qed

lemma set_victim_ok:
  assumes "conf_ok g" "data_dims g d" "i < gf_setSize g"
  shows "\<exists>p n'. set_victim g (gf_waySize g) d i n = Inr (p, n')
    \<and> (\<forall>a. p = Some a \<longrightarrow> lines_in g a \<and> fst a = i \<and> ln_valid (el2 d a))
    \<and> ((\<exists>w < gf_waySize g. ln_valid (el2 d (i, w))) \<longrightarrow> p \<noteq> None)"
proof -
  let ?f = "\<lambda>w (p, n). rbind (at2 d (i, w)) (\<lambda>l. if ln_valid l
              then compareFunction (gf_policy g) (gf_dist g) (gf_waySize g) d p (Some (i, w)) n else Inr (p, n))"
  let ?I = "\<lambda>ws (p, n). (\<forall>a. p = Some a \<longrightarrow> lines_in g a \<and> fst a = i \<and> ln_valid (el2 d a))
     \<and> ((\<exists>w \<in> set ws. ln_valid (el2 d (i, w))) \<longrightarrow> p \<noteq> None)"
  have "run {} (?I [0..<gf_waySize g]) (rfold ?f [0..<gf_waySize g] (None, n))"
  proof (rule run_rfold_index)
    fix ys v zs and s :: "cell option \<times> nat"
    assume split: "[0..<gf_waySize g] = ys @ v # zs" and I: "?I ys s"
    obtain p k where s: "s = (p, k)" by (cases s)
    have v: "lines_in g (i, v)" using split assms(3) by (metis atLeastLessThan_iff fst_conv in_set_conv_decomp inside_def set_upt snd_conv)
    show "run {} (?I (ys @ [v])) (?f v s)"
    proof (cases "ln_valid (el2 d (i, v))")
      case True
      have p: "lines_in g a \<and> fst a = i \<and> ln_valid (el2 d a)" if "p = Some a" for a
        using I[unfolded s prod.case] that by blast
      obtain r k' where r: "compareFunction (gf_policy g) (gf_dist g) (gf_waySize g) d p (Some (i, v)) k = Inr (r, k')"
        "r = p \<or> r = Some (i, v)" "r \<noteq> None"
        using compareFunction_ok[OF assms(2), of p "Some (i, v)"] p v by blast
      have "lines_in g a \<and> fst a = i \<and> ln_valid (el2 d a)" if "r = Some a" for a
        using r(2) p[of a] v True that by (elim disjE) (simp, auto)
      with r assms(2) v True s show ?thesis by simp
    next
      case False
      then have "?f v s = Inr s" using assms(2) v s by simp
      with I False s show ?thesis by simp
    qed
  qed simp
  then obtain x where x: "rfold ?f [0..<gf_waySize g] (None, n) = Inr x" "?I [0..<gf_waySize g] x"
    unfolding run_total by blast
  obtain p n' where p: "x = (p, n')" by (cases x)
  have "set_victim g (gf_waySize g) d i n = Inr (p, n')" using x(1) p by (simp add: set_victim_def)
  moreover have "(\<exists>w < gf_waySize g. ln_valid (el2 d (i, w))) \<longrightarrow> p \<noteq> None" using x(2) p by auto
  moreover have "\<forall>a. p = Some a \<longrightarrow> lines_in g a \<and> fst a = i \<and> ln_valid (el2 d a)" using x(2) unfolding p prod.case by blast
  ultimately show ?thesis by blast
qed

lemma select_victims_ok:
  assumes "conf_ok g" "data_dims g d" "placed g d" "evict_empty g e" "i < gf_setSize g"
  shows "\<exists>e' n'. select_victims g (gf_waySize g) d e i n = Inr (e', n') \<and> victims_ok g d e'
    \<and> ((\<exists>w < gf_waySize g. ln_valid (el2 d (i, w))) \<longrightarrow> (\<exists>pos a. slots_in g pos \<and> el2 e' pos = Some a \<and> fst a = i))"
proof -
  have v0: "victims_ok g d e" by (rule victims_okI) (use assms(4) in \<open>auto simp: evict_empty_def\<close>)
  let ?V = "\<lambda>(e', n :: nat). victims_ok g d e'"
  have "run {} ?V (rfold (collect_victim g d) (positions (gf_setSize g) (gf_waySize g)) (e, n))"
    by (rule run_rfold) (use v0 collect_victim_ok[OF assms(1,2)] in auto)
  then obtain e1 n1 where 1: "rfold (collect_victim g d) (positions (gf_setSize g) (gf_waySize g)) (e, n) = Inr (e1, n1)"
    "victims_ok g d e1" by (auto simp: run_total)
  have "run {} ?V (rfold (merge_row g d) (positions (gf_lineCountInSuperPage g) (gf_parallelIO g - 1)) (e1, n1))"
    by (rule run_rfold) (use 1(2) merge_row_ok[OF assms(1,2)] in auto)
  then obtain e2 n2 where 2: "(if gf_evictMode g = MODE_SUPERPAGE
      then rfold (merge_row g d) (positions (gf_lineCountInSuperPage g) (gf_parallelIO g - 1)) (e1, n1) else Inr (e1, n1)) = Inr (e2, n2)"
    "victims_ok g d e2" using 1(2) unfolding run_total by (cases "gf_evictMode g = MODE_SUPERPAGE") auto
  obtain h where h: "has_set g d e2 i = Inr h" "h \<longrightarrow> (\<exists>pos a. slots_in g pos \<and> el2 e2 pos = Some a \<and> fst a = i)"
    using has_set_ok[OF assms(1-3) 2(2)] by blast
  obtain p n3 where p: "set_victim g (gf_waySize g) d i n2 = Inr (p, n3)"
    "\<forall>a. p = Some a \<longrightarrow> lines_in g a \<and> fst a = i \<and> ln_valid (el2 d a)"
    "(\<exists>w < gf_waySize g. ln_valid (el2 d (i, w))) \<longrightarrow> p \<noteq> None"
    using set_victim_ok[OF assms(1,2,5)] by blast
  have e2: "evict_dims g e2" using 2(2) by (rule victims_dims)
  show ?thesis
  proof (cases h)
    case True
    with 1(1) 2 h show ?thesis by (auto simp: select_victims_def)
  next
    case False
    show ?thesis
    proof (cases p)
      case None
      with 1(1) 2 h(1) p False show ?thesis by (auto simp: select_victims_def)
    next
      case (Some a)
      let ?pos = "calcIOPosition g (ln_tag (el2 d a))"
      note pos = calcIOPosition_ok[OF assms(1), of "ln_tag (el2 d a)"]
      have a: "lines_in g a" "fst a = i" "ln_valid (el2 d a)" using p(2) Some by auto
      have v3: "victims_ok g d (up2 e2 ?pos (Some a))" by (rule victims_put[OF 2(2) pos(1)]) (use a pos(2) in auto)
      have "el2 (up2 e2 ?pos (Some a)) ?pos = Some a" using e2 pos(1) by (simp add: el2_up2)
      with 1(1) 2 h(1) p(1) Some a False e2 pos(1) v3 assms(2) show ?thesis by (auto simp: select_victims_def)
    qed
  qed
qed

lemma getEmptyWay_ok:
  assumes "conf_ok g" "data_dims g d" "i < gf_setSize g"
  shows "\<exists>w t. getEmptyWay g d i tick = Inr (w, t) \<and> w \<le> gf_waySize g \<and> tick \<le> t
    \<and> (w < gf_waySize g \<longrightarrow> \<not> ln_valid (el2 d (i, w)))
    \<and> ((\<exists>v < gf_waySize g. free_since (\<lambda>t. t < uint64_max) d (i, v)) \<longrightarrow> w < gf_waySize g)"
proof -
  have i: "i < length d" "length (d ! i) = gf_waySize g" using assms by (auto simp: dims_def)
  obtain w t where r: "empty_way (lat8 g) (d ! i) tick = (w, t)" by fastforce
  have "\<exists>l \<in> set (d ! i). \<not> ln_valid l \<and> ln_insertedAt l < uint64_max" if "v < gf_waySize g" "free_since (\<lambda>t. t < uint64_max) d (i, v)" for v
    using that i by (auto simp: free_since_def el2_def intro!: bexI[of _ "d ! i ! v"])
  with empty_way_result[OF r] i r show ?thesis by (fastforce simp: getEmptyWay_def el2_def)
qed

section \<open>Between operations\<close>

text \<open>The invariant between two operations, with the pages \<^verbatim>\<open>D\<close> that were dirty when \<^verbatim>\<open>n\<close> calls had
  been made.\<close>

definition idle :: "gconf \<Rightarrow> ('f \<Rightarrow> bool) \<Rightarrow> nat \<Rightarrow> nat set \<Rightarrow> 'f gcache \<Rightarrow> bool" where
  "idle g ok n D s \<longleftrightarrow> cache_wf g s \<and> ok (gc_below s) \<and> n \<le> length (gc_log s)
     \<and> D \<subseteq> dirty_pages g s \<union> written_pages g (drop n (gc_log s))"

definition cached :: "gconf \<Rightarrow> 'f gcache \<Rightarrow> nat \<Rightarrow> bool" where
  "cached g s lca \<longleftrightarrow> (\<exists>w < gf_waySize g. ln_valid (el2 (gc_data s) (calcSetIndex g lca, w))
     \<and> ln_tag (el2 (gc_data s) (calcSetIndex g lca, w)) = lca)"

definition cached_dirty :: "gconf \<Rightarrow> 'f gcache \<Rightarrow> nat \<Rightarrow> bool" where
  "cached_dirty g s lca \<longleftrightarrow> (\<exists>w < gf_waySize g. ln_valid (el2 (gc_data s) (calcSetIndex g lca, w))
     \<and> ln_tag (el2 (gc_data s) (calcSetIndex g lca, w)) = lca \<and> ln_dirty (el2 (gc_data s) (calcSetIndex g lca, w)))"

lemma cached_dirty_pages:
  assumes "conf_ok g" "cached_dirty g s lca"
  shows "lca \<in> dirty_pages g s"
proof -
  obtain w where w: "w < gf_waySize g" "ln_valid (el2 (gc_data s) (calcSetIndex g lca, w))"
    "ln_tag (el2 (gc_data s) (calcSetIndex g lca, w)) = lca" "ln_dirty (el2 (gc_data s) (calcSetIndex g lca, w))"
    using assms(2) unfolding cached_dirty_def by blast
  then show ?thesis unfolding dirty_pages_def dirty_outside_def
    using calcSetIndex_lt[OF assms(1)] by (auto simp: inside_def intro!: exI[of _ "(calcSetIndex g lca, w)"])
qed

lemma idle_going: "idle g ok n D s \<Longrightarrow> going g ok n D {} s"
  by (auto simp: idle_def going_def cache_wf_def evict_ok_def evict_empty_def dirty_pages_def)

lemma going_idle:
  assumes "going g ok n D {} s" "placed g (gc_data s)" "unique_tags g (gc_data s)" "evict_empty g (gc_evict s)"
  shows "idle g ok n D s"
  using assms by (simp add: idle_def going_def cache_wf_def dirty_pages_def)

lemma idle_shrunk:
  assumes "idle g ok n D s" "shrunk g (gc_data s) (gc_data s')" "going g ok n D {} s'" "evict_empty g (gc_evict s')"
  shows "idle g ok n D s'"
  by (rule going_idle[OF assms(3) _ _ assms(4)])
     (use assms(1,2) shrunk_placed shrunk_unique in \<open>auto simp: idle_def cache_wf_def\<close>)

lemma idle_below: "idle g ok n D s \<Longrightarrow> ok f \<Longrightarrow> idle g ok n D (s\<lparr>gc_below := f\<rparr>)"
  by (simp add: idle_def cache_wf_def dirty_pages_def)

lemma idle_cong:
  assumes "idle g ok n D s" "gc_data s' = gc_data s" "gc_evict s' = gc_evict s" "gc_below s' = gc_below s" "gc_log s' = gc_log s"
  shows "idle g ok n D s'"
  using assms by (simp add: idle_def cache_wf_def dirty_pages_def)

text \<open>Storing a line for \<^verbatim>\<open>lca\<close> in a cell of its set, when no other line has it and the page that was
  there is not lost.\<close>

lemma idle_put:
  assumes s: "idle g ok n D s" and c: "lines_in g c" and l: "ln_valid l" "calcSetIndex g (ln_tag l) = fst c"
    and free: "\<And>c'. lines_in g c' \<Longrightarrow> c' \<noteq> c \<Longrightarrow> ln_valid (el2 (gc_data s) c') \<Longrightarrow> ln_tag (el2 (gc_data s) c') \<noteq> ln_tag l"
    and old: "ln_valid (el2 (gc_data s) c) \<Longrightarrow> ln_dirty (el2 (gc_data s) c)
       \<Longrightarrow> ln_tag (el2 (gc_data s) c) = ln_tag l \<and> ln_dirty l
         \<or> ln_tag (el2 (gc_data s) c) \<in> written_pages g (drop n (gc_log s))"
  shows "idle g ok n D (s\<lparr>gc_data := up2 (gc_data s) c l\<rparr>)"
proof -
  let ?d = "gc_data s" and ?d' = "up2 (gc_data s) c l"
  have d: "data_dims g ?d" "placed g ?d" "unique_tags g ?d" using s by (auto simp: idle_def cache_wf_def)
  have el: "el2 ?d' p = (if p = c then l else el2 ?d p)" for p using d(1) c by (simp add: el2_up2)
  have "placed g ?d'" using d(2) l(2) by (auto simp: placed_def el)
  moreover have "unique_tags g ?d'"
    unfolding unique_tags_def
  proof (intro allI impI)
    fix p q assume h: "lines_in g p \<and> lines_in g q \<and> ln_valid (el2 ?d' p) \<and> ln_valid (el2 ?d' q) \<and> ln_tag (el2 ?d' p) = ln_tag (el2 ?d' q)"
    show "p = q"
    proof (rule ccontr)
      assume ne: "p \<noteq> q"
      consider "p = c" | "q = c" | "p \<noteq> c" "q \<noteq> c" by blast
      then show False
      proof cases
        case 1 then show False using h ne free[of q] el by simp
      next
        case 2 then show False using h ne free[of p] el by simp
      next
        case 3 then show False using h ne d(3) el unfolding unique_tags_def by metis
      qed
    qed
  qed
  moreover have "dirty_outside g {} ?d \<subseteq> dirty_outside g {} ?d' \<union> written_pages g (drop n (gc_log s))"
  proof
    fix t assume "t \<in> dirty_outside g {} ?d"
    then obtain p where p: "lines_in g p" "ln_valid (el2 ?d p)" "ln_dirty (el2 ?d p)" "t = ln_tag (el2 ?d p)"
      by (auto simp: dirty_outside_def)
    show "t \<in> dirty_outside g {} ?d' \<union> written_pages g (drop n (gc_log s))"
    proof (cases "p = c")
      case True
      with old p have "t = ln_tag l \<and> ln_dirty l \<or> t \<in> written_pages g (drop n (gc_log s))" by simp
      moreover have "ln_tag l \<in> dirty_outside g {} ?d'" if "ln_dirty l"
        unfolding dirty_outside_def using c l(1) that el[of c] by (auto intro!: exI[of _ c])
      ultimately show ?thesis by blast
    next
      case False
      then have "t \<in> dirty_outside g {} ?d'" unfolding dirty_outside_def using p el[of p] by (auto intro!: exI[of _ p])
      then show ?thesis by blast
    qed
  qed
  ultimately show ?thesis using s c d(1) unfolding idle_def cache_wf_def dirty_pages_def by auto
qed

lemma cached_put:
  assumes "data_dims g (gc_data s)" "w < gf_waySize g" "conf_ok g" "ln_valid l" "ln_tag l = lca"
  shows "cached g (s\<lparr>gc_data := up2 (gc_data s) (calcSetIndex g lca, w) l, gc_below := f\<rparr>) lca"
    "ln_dirty l \<Longrightarrow> cached_dirty g (s\<lparr>gc_data := up2 (gc_data s) (calcSetIndex g lca, w) l, gc_below := f\<rparr>) lca"
proof -
  have c: "lines_in g (calcSetIndex g lca, w)" using assms(2,3) calcSetIndex_lt by (simp add: inside_def)
  show "cached g (s\<lparr>gc_data := up2 (gc_data s) (calcSetIndex g lca, w) l, gc_below := f\<rparr>) lca"
    unfolding cached_def using assms c by (auto simp: el2_up2 intro!: exI[of _ w])
  show "ln_dirty l \<Longrightarrow> cached_dirty g (s\<lparr>gc_data := up2 (gc_data s) (calcSetIndex g lca, w) l, gc_below := f\<rparr>) lca"
    unfolding cached_dirty_def using assms c by (auto simp: el2_up2 intro!: exI[of _ w])
qed

text \<open>If no way of its set holds an address, no line does.\<close>

lemma not_cached:
  assumes "placed g d" "\<forall>i < gf_waySize g. \<not> (ln_valid (el2 d (calcSetIndex g lca, i)) \<and> ln_tag (el2 d (calcSetIndex g lca, i)) = lca)"
    "lines_in g c" "ln_valid (el2 d c)"
  shows "ln_tag (el2 d c) \<noteq> lca"
proof
  assume "ln_tag (el2 d c) = lca"
  moreover from this have "calcSetIndex g lca = fst c" using assms(1,3,4) unfolding placed_def by blast
  ultimately show False using assms(2,3,4) by (cases c) (auto simp: inside_def)
qed

section \<open>Bounds on the time of the searches\<close>

lemma valid_scan_time: "valid_scan lat lca tick i ls = (w, t) \<Longrightarrow> t \<le> tick + lat * length ls"
  by (induction lat lca tick i ls rule: valid_scan.induct) (auto split: if_splits)

lemma empty_scan_time: "empty_scan lat ret mn tick i ls = (w, t) \<Longrightarrow> t \<le> tick + lat * length ls"
  by (induction lat ret mn tick i ls rule: empty_scan.induct) (auto split: if_splits)

lemma getValidWay_time:
  "data_dims g d \<Longrightarrow> getValidWay g d lca tick = Inr (w, t) \<Longrightarrow> t \<le> tick + lat8 g * gf_waySize g"
  using valid_scan_time[of "lat8 g" lca tick 0 "d ! calcSetIndex g lca" w t]
  by (auto simp: getValidWay_def valid_way_def res_simps dims_def)

lemma getEmptyWay_time:
  "data_dims g d \<Longrightarrow> getEmptyWay g d i tick = Inr (w, t) \<Longrightarrow> t \<le> tick + lat8 g * gf_waySize g"
  using empty_scan_time[of "lat8 g" _ _ tick 0 "d ! i" w t]
  by (auto simp: getEmptyWay_def empty_way_def res_simps dims_def)

text \<open>The latest tick at which a write, started at \<^verbatim>\<open>tick\<close>, evicts.\<close>

definition search_time :: "gconf \<Rightarrow> nat" where
  "search_time g = lat8 g * (2 * gf_waySize g) + lat8 g * (gf_setSize g * gf_waySize g)"

text \<open>No line and no eviction reaches the last tick that a 64-bit clock has.\<close>

definition never_late :: "gconf \<Rightarrow> 'f below \<Rightarrow> ('f \<Rightarrow> bool) \<Rightarrow> nat \<Rightarrow> 'f gcache \<Rightarrow> bool" where
  "never_late g be ok tick s \<longleftrightarrow> (\<forall>c. lines_in g c \<longrightarrow> ln_insertedAt (el2 (gc_data s) c) < uint64_max)
     \<and> (\<forall>t. tick \<le> t \<and> t \<le> tick + search_time g \<longrightarrow> in_time be ok (\<lambda>t. t < uint64_max) t)"

section \<open>Writing\<close>

lemma in_time_all: "in_time be ok (\<lambda>t. True) tick"
  by (simp add: in_time_def)

context cache_over_ftl
begin

lemma dram_write_ok:
  assumes "ok (gc_below s)"
  shows "\<exists>t f. dram_write be k tick s = (t, s\<lparr>gc_below := f\<rparr>) \<and> ok f"
  using keep_dram_write[OF assms, of k tick] by (cases "bl_dram_write be k tick (gc_below s)") (auto simp: dram_write_def)

lemma dram_read_ok:
  assumes "ok (gc_below s)"
  shows "\<exists>t f. dram_read be k tick s = (t, s\<lparr>gc_below := f\<rparr>) \<and> ok f"
  using keep_dram_read[OF assms, of k tick] by (cases "bl_dram_read be k tick (gc_below s)") (auto simp: dram_read_def)

lemma write_line_ok:
  assumes "data_dims g (gc_data s)" "lines_in g c" "ok (gc_below s)"
  shows "\<exists>t st f. write_line be k req dirty flash c tick s
     = Inr (t, s\<lparr>gc_data := up2 (gc_data s) c (k dirty st (el2 (gc_data s) c)), gc_below := f\<rparr>) \<and> ok f"
proof -
  let ?t = "if tick < ln_insertedAt (el2 (gc_data s) c) then ln_insertedAt (el2 (gc_data s) c) else tick"
  let ?s = "s\<lparr>gc_data := up2 (gc_data s) c (k dirty (if dirty then ?t else flash) (el2 (gc_data s) c))\<rparr>"
  obtain t f where "dram_write be (rq_length req) ?t ?s = (t, ?s\<lparr>gc_below := f\<rparr>)" "ok f"
    using dram_write_ok[of ?s "rq_length req" ?t] assms(3) by auto
  with assms(1,2) show ?thesis by (auto simp: write_line_def Let_def)
qed

lemma begin_write_ok:
  assumes "idle g ok n D s"
  shows "run F (\<lambda>(r, dirty, flash, s'). idle g ok n D s' \<and> dirty = (rq_length req \<le> gf_lineSize g)
      \<and> (\<not> dirty \<longrightarrow> rq_slpn req \<in> written_pages g (drop n (gc_log s')))
      \<and> (never_late g be ok tick s \<longrightarrow> never_late g be ok tick s')
      \<and> rq_slpn req \<in> call_writes g (FWrite (fr_lpn r) (fr_ioFlag r)))
    (begin_write g be req tick s)"
proof -
  obtain b where b: "ftl_request_of g (rq_slpn req) = Inr \<lparr>fr_lpn = rq_slpn req div L, fr_ioFlag = b\<rparr>"
    "bs_elems b = {rq_slpn req mod L}" using ftl_request_of_ok[OF conf] by blast
  have own: "rq_slpn req \<in> call_writes g (FWrite (rq_slpn req div L) b)"
    by (rule call_writes_one[OF conf]) (simp add: b(2))
  show ?thesis
  proof (cases "rq_length req \<le> gf_lineSize g")
    case True
    with b assms own show ?thesis by (simp add: begin_write_def del: call_writes.simps)
  next
    case False
    let ?r = "\<lparr>fr_lpn = rq_slpn req div L, fr_ioFlag = b\<rparr>"
    have "run F (\<lambda>(t, s'). idle g ok n D s' \<and> rq_slpn req \<in> written_pages g (drop n (gc_log s'))
        \<and> (never_late g be ok tick s \<longrightarrow> never_late g be ok tick s')) (call_write g be ?r tick s)"
    proof (rule run_mono[OF call_write_ok[OF idle_going[OF assms], of ?r tick]], clarify)
      fix t s'
      assume h: "marked g (gc_data s) (gc_data s')" "going g ok n D {} s'"
        "call_writes g (FWrite (fr_lpn ?r) (fr_ioFlag ?r)) \<subseteq> written_pages g (drop n (gc_log s'))"
        "gc_evict s' = gc_evict s"
      have "evict_empty g (gc_evict s')" using assms h(4) by (simp add: idle_def cache_wf_def)
      then have "idle g ok n D s'" using idle_shrunk[OF assms marked_shrunk[OF h(1)] h(2)] by simp
      moreover have "never_late g be ok tick s'" if "never_late g be ok tick s"
        using that marked_fields(3)[OF h(1)] by (simp add: never_late_def)
      ultimately show "idle g ok n D s' \<and> rq_slpn req \<in> written_pages g (drop n (gc_log s'))
        \<and> (never_late g be ok tick s \<longrightarrow> never_late g be ok tick s')" using h(3) own by auto
    qed
    then show ?thesis unfolding begin_write_def using b False own by (simp add: split_def del: call_writes.simps)
  qed
qed

text \<open>Evicting for a write: the panic can only be the clock's.\<close>

lemma write_evict_ok:
  assumes s: "idle g ok n D s"
    and new: "\<And>c. lines_in g c \<Longrightarrow> ln_valid (el2 (gc_data s) c) \<Longrightarrow> ln_tag (el2 (gc_data s) c) \<noteq> rq_slpn req"
    and G: "F \<subseteq> G" "Panic ''Cache corrupted!'' \<in> G \<or> never_late g be ok t0 s"
    and tick: "t0 \<le> tick" "tick \<le> t0 + lat8 g * (2 * gf_waySize g)"
  shows "run G (\<lambda>(t, s'). idle g ok n D s' \<and> cached_dirty g s' (rq_slpn req)) (write_evict g be byGC req tick s)"
proof -
  let ?i = "calcSetIndex g (rq_slpn req)" and ?d = "gc_data s"
  have wf: "data_dims g ?d" "placed g ?d" "evict_empty g (gc_evict s)" using s by (auto simp: idle_def cache_wf_def)
  have i: "?i < gf_setSize g" using calcSetIndex_lt[OF conf] by simp
  obtain e m where sel: "select_victims g (gf_waySize g) ?d (gc_evict s) ?i (gc_draws s) = Inr (e, m)" "victims_ok g ?d e"
    "(\<exists>w < gf_waySize g. ln_valid (el2 ?d (?i, w))) \<longrightarrow> (\<exists>pos a. slots_in g pos \<and> el2 e pos = Some a \<and> fst a = ?i)"
    using select_victims_ok[OF conf wf i] by blast
  let ?s1 = "s\<lparr>gc_evict := e, gc_draws := m, gc_doEvictionByGC := (byGC \<or> gc_doEvictionByGC s)\<rparr>"
  let ?tick = "tick + getCacheLatency g * gf_setSize g * gf_waySize g * 8"
  have g1: "going g ok n D {} ?s1" using idle_going[OF s] victims_evict_ok[OF sel(2)] by (simp add: going_def)
  have time: "t0 \<le> ?tick" "?tick \<le> t0 + search_time g"
    using tick by (simp_all add: search_time_def lat8_def algebra_simps)
  define T where "T = (if Panic ''Cache corrupted!'' \<in> G then (\<lambda>t. True) else (\<lambda>t. t < uint64_max))"
  have T: "in_time be ok T ?tick"
    using G(2) time by (auto simp: T_def in_time_all never_late_def)
  let ?Q = "\<lambda>(t, s'). idle g ok n D s' \<and> cached_dirty g s' (rq_slpn req)"
  let ?k = "\<lambda>s. rbind (getEmptyWay g (gc_data s) ?i ?tick) (\<lambda>(w, tick).
         if w = gf_waySize g then Inl (Panic ''Cache corrupted!'')
         else let (tick, s) = dram_write be (rq_length req) tick s
              in rbind (mod2 (gc_data s) (?i, w) (replace_line req tick)) (\<lambda>d. Inr (tick, s\<lparr>gc_data := d\<rparr>)))"
  have "run G (\<lambda>s2. run G ?Q (?k s2)) (evictCache g be ?tick True ?s1)"
  proof (rule run_mono[OF run_faults[OF evictCache_ok[OF g1 T] G(1)]])
    fix s2
    assume ev: "going g ok n D {} s2 \<and> shrunk g (gc_data ?s1) (gc_data s2) \<and> evict_empty g (gc_evict s2)
     \<and> (\<forall>pos a. slots_in g pos \<and> el2 (gc_evict ?s1) pos = Some a \<longrightarrow> free_since T (gc_data s2) a)
     \<and> (\<forall>a. lines_in g a \<and> free_since T (gc_data ?s1) a \<longrightarrow> free_since T (gc_data s2) a)"
    have sh: "shrunk g ?d (gc_data s2)" using ev by simp
    have i2: "idle g ok n D s2" by (rule idle_shrunk[OF s sh]) (use ev in auto)
    have d2: "data_dims g (gc_data s2)" using i2 by (simp add: idle_def cache_wf_def)
    obtain w t where w: "getEmptyWay g (gc_data s2) ?i ?tick = Inr (w, t)" "w \<le> gf_waySize g"
      "w < gf_waySize g \<longrightarrow> \<not> ln_valid (el2 (gc_data s2) (?i, w))"
      "(\<exists>v < gf_waySize g. free_since (\<lambda>t. t < uint64_max) (gc_data s2) (?i, v)) \<longrightarrow> w < gf_waySize g"
      using getEmptyWay_ok[OF conf d2 i] by blast
    show "run G ?Q (?k s2)"
    proof (cases "w = gf_waySize g")
      case True
      have "Panic ''Cache corrupted!'' \<in> G"
      proof (rule ccontr)
        assume late: "Panic ''Cache corrupted!'' \<notin> G"
        then have T: "T = (\<lambda>t. t < uint64_max)" by (simp add: T_def)
        have "\<exists>v < gf_waySize g. free_since T (gc_data s2) (?i, v)"
        proof (cases "\<exists>w < gf_waySize g. ln_valid (el2 ?d (?i, w))")
          case True
          then obtain pos a where a: "slots_in g pos" "el2 e pos = Some a" "fst a = ?i" using sel(3) by blast
          then have "free_since T (gc_data s2) a" using ev by auto
          moreover have "lines_in g a" using victims_okD(1)[OF sel(2) a(1,2)] .
          ultimately show ?thesis using a(3) by (cases a) (auto simp: inside_def)
        next
          case False
          have "0 < gf_waySize g" using conf by (simp add: conf_ok_def)
          then have "lines_in g (?i, 0)" "\<not> ln_valid (el2 ?d (?i, 0))" using i False by (auto simp: inside_def)
          moreover from this have "free_since T ?d (?i, 0)"
            using G(2) late by (simp add: free_since_def T never_late_def)
          ultimately show ?thesis using ev \<open>0 < gf_waySize g\<close> by auto
        qed
        then have "w < gf_waySize g" using w(4) unfolding T by blast
        with True show False by simp
      qed
      with w(1) True show ?thesis by simp
    next
      case False
      then have wl: "w < gf_waySize g" using w(2) by simp
      then have c: "lines_in g (?i, w)" using i by (simp add: inside_def)
      obtain t' f where dw: "dram_write be (rq_length req) t s2 = (t', s2\<lparr>gc_below := f\<rparr>)" "ok f"
        using dram_write_ok[of s2 "rq_length req" t] i2 unfolding idle_def by blast
      let ?l = "replace_line req t' (el2 (gc_data s2) (?i, w))"
      have l: "ln_valid ?l" "ln_tag ?l = rq_slpn req" "ln_dirty ?l" by (simp_all add: replace_line_def)
      have "idle g ok n D (s2\<lparr>gc_data := up2 (gc_data s2) (?i, w) ?l\<rparr>)"
      proof (rule idle_put[OF i2 c l(1)])
        show "calcSetIndex g (ln_tag ?l) = fst (?i, w)" by (simp add: l(2))
        show "ln_tag (el2 (gc_data s2) c') \<noteq> ln_tag ?l" if "lines_in g c'" "ln_valid (el2 (gc_data s2) c')" for c'
          using sh that new[of c'] l(2) unfolding shrunk_def by auto
      qed (use w(3) wl in auto)
      from idle_below[OF this dw(2)] have "idle g ok n D (s2\<lparr>gc_data := up2 (gc_data s2) (?i, w) ?l, gc_below := f\<rparr>)" .
      moreover note cached_put(2)[OF d2 wl conf l(1,2,3), of f]
      moreover have "s2\<lparr>gc_data := up2 (gc_data s2) (?i, w) ?l, gc_below := f\<rparr>
        = s2\<lparr>gc_below := f, gc_data := up2 (gc_data s2) (?i, w) ?l\<rparr>" by simp
      ultimately show ?thesis using w(1) dw(1) False c d2 by (simp add: Let_def)
    qed
  qed
  then show ?thesis using sel(1) by (simp add: write_evict_def Let_def)
qed

end

context cache_over_ftl
begin

lemma put_line_ok:
  assumes s: "idle g ok n D s" and w: "w < gf_waySize g" and l: "ln_valid l" "ln_tag l = lca"
    and free: "\<And>c. lines_in g c \<Longrightarrow> c \<noteq> (calcSetIndex g lca, w) \<Longrightarrow> ln_valid (el2 (gc_data s) c) \<Longrightarrow> ln_tag (el2 (gc_data s) c) \<noteq> lca"
    and old: "ln_valid (el2 (gc_data s) (calcSetIndex g lca, w)) \<Longrightarrow> ln_tag (el2 (gc_data s) (calcSetIndex g lca, w)) = lca"
    and kept: "ln_dirty l \<or> lca \<in> written_pages g (drop n (gc_log s))"
    and f: "ok f"
  shows "idle g ok n D (s\<lparr>gc_data := up2 (gc_data s) (calcSetIndex g lca, w) l, gc_below := f\<rparr>)"
    "cached g (s\<lparr>gc_data := up2 (gc_data s) (calcSetIndex g lca, w) l, gc_below := f\<rparr>) lca"
    "ln_dirty l \<Longrightarrow> cached_dirty g (s\<lparr>gc_data := up2 (gc_data s) (calcSetIndex g lca, w) l, gc_below := f\<rparr>) lca"
proof -
  have d: "data_dims g (gc_data s)" using s by (simp add: idle_def cache_wf_def)
  have c: "lines_in g (calcSetIndex g lca, w)" using w calcSetIndex_lt[OF conf] by (simp add: inside_def)
  have "idle g ok n D (s\<lparr>gc_data := up2 (gc_data s) (calcSetIndex g lca, w) l\<rparr>)"
    by (rule idle_put[OF s c l(1)]) (use l(2) free old kept in auto)
  from idle_below[OF this f]
  show "idle g ok n D (s\<lparr>gc_data := up2 (gc_data s) (calcSetIndex g lca, w) l, gc_below := f\<rparr>)" .
  from cached_put[OF d w conf l, of f]
  show "cached g (s\<lparr>gc_data := up2 (gc_data s) (calcSetIndex g lca, w) l, gc_below := f\<rparr>) lca"
    "ln_dirty l \<Longrightarrow> cached_dirty g (s\<lparr>gc_data := up2 (gc_data s) (calcSetIndex g lca, w) l, gc_below := f\<rparr>) lca"
    by simp_all
qed

lemma write_miss_ok:
  assumes s: "idle g ok n D s"
    and new: "\<And>c. lines_in g c \<Longrightarrow> ln_valid (el2 (gc_data s) c) \<Longrightarrow> ln_tag (el2 (gc_data s) c) \<noteq> rq_slpn req"
    and kept: "dirty \<or> rq_slpn req \<in> written_pages g (drop n (gc_log s))"
    and G: "F \<subseteq> G" "Panic ''Cache corrupted!'' \<in> G \<or> never_late g be ok t0 s"
    and tick: "t0 \<le> tick" "tick \<le> t0 + lat8 g * gf_waySize g"
  shows "run G (\<lambda>(ret, t, s'). idle g ok n D s' \<and> cached g s' (rq_slpn req) \<and> (dirty \<longrightarrow> cached_dirty g s' (rq_slpn req)))
    (write_miss g be byGC req dirty flash tick s)"
proof -
  let ?i = "calcSetIndex g (rq_slpn req)"
  have d: "data_dims g (gc_data s)" "ok (gc_below s)" using s by (auto simp: idle_def cache_wf_def)
  have i: "?i < gf_setSize g" using calcSetIndex_lt[OF conf] by simp
  obtain w t where w: "getEmptyWay g (gc_data s) ?i tick = Inr (w, t)" "w \<le> gf_waySize g" "tick \<le> t"
    "w < gf_waySize g \<longrightarrow> \<not> ln_valid (el2 (gc_data s) (?i, w))"
    using getEmptyWay_ok[OF conf d(1) i, of tick] by blast
  show ?thesis
  proof (cases "w = gf_waySize g")
    case True
    have "t \<le> t0 + lat8 g * (2 * gf_waySize g)"
      using getEmptyWay_time[OF d(1) w(1)] tick(2) by (simp add: algebra_simps)
    moreover have "t0 \<le> t" using tick(1) w(3) by simp
    ultimately have "run G (\<lambda>(t, s'). idle g ok n D s' \<and> cached_dirty g s' (rq_slpn req)) (write_evict g be byGC req t s)"
      by (intro write_evict_ok[OF s new G]) auto
    then have "run G (\<lambda>x. run G (\<lambda>(ret, t, s'). idle g ok n D s' \<and> cached g s' (rq_slpn req) \<and> (dirty \<longrightarrow> cached_dirty g s' (rq_slpn req)))
        (case x of (tick, s) \<Rightarrow> Inr (False, tick, s))) (write_evict g be byGC req t s)"
      by (rule run_mono) (auto simp: cached_def cached_dirty_def)
    with w(1) True show ?thesis by (simp add: write_miss_def)
  next
    case False
    then have wl: "w < gf_waySize g" using w(2) by simp
    have c: "lines_in g (?i, w)" using wl i by (simp add: inside_def)
    obtain t' st f where r: "write_line be (fill_line req) req dirty flash (?i, w) t s
        = Inr (t', s\<lparr>gc_data := up2 (gc_data s) (?i, w) (fill_line req dirty st (el2 (gc_data s) (?i, w))), gc_below := f\<rparr>)" "ok f"
      using write_line_ok[OF d(1) c d(2)] by blast
    let ?l = "fill_line req dirty st (el2 (gc_data s) (?i, w))"
    have l: "ln_valid ?l" "ln_tag ?l = rq_slpn req" "ln_dirty ?l = dirty" by (simp_all add: fill_line_def hit_line_def)
    have "idle g ok n D (s\<lparr>gc_data := up2 (gc_data s) (?i, w) ?l, gc_below := f\<rparr>)"
      "cached g (s\<lparr>gc_data := up2 (gc_data s) (?i, w) ?l, gc_below := f\<rparr>) (rq_slpn req)"
      "dirty \<longrightarrow> cached_dirty g (s\<lparr>gc_data := up2 (gc_data s) (?i, w) ?l, gc_below := f\<rparr>) (rq_slpn req)"
      using put_line_ok[OF s wl l(1,2) _ _ _ r(2)] new w(4) wl kept l(3) by auto
    with w(1) False r(1) show ?thesis by (simp add: write_miss_def)
  qed
qed

lemma setScheduling_ok: "idle g ok n D s \<Longrightarrow> idle g ok n D (setScheduling be b s)"
  unfolding setScheduling_def by (rule idle_below) (simp_all add: idle_def keep_scheduling)

lemma write_uncached_ok:
  assumes s: "idle g ok n D s" and kept: "dirty \<or> lca \<in> written_pages g (drop n (gc_log s))"
    and r: "lca \<in> call_writes g (FWrite (fr_lpn r) (fr_ioFlag r))"
  shows "run F (\<lambda>(t, s'). idle g ok n D s' \<and> lca \<in> written_pages g (drop n (gc_log s')))
    (write_uncached g be True req r dirty flash tick s)"
proof -
  let ?P = "\<lambda>(t :: nat, s'). idle g ok n D s' \<and> lca \<in> written_pages g (drop n (gc_log s'))"
  let ?k = "\<lambda>(tick, s). let (tick, s) = dram_read be (rq_length req) tick (setScheduling be False s)
       in Inr (tick, setScheduling be True s)"
  have k: "run F ?P (?k (t, s1))" if s1: "idle g ok n D s1" "lca \<in> written_pages g (drop n (gc_log s1))" for t s1
  proof -
    let ?s2 = "setScheduling be False s1"
    have i2: "idle g ok n D ?s2" by (rule setScheduling_ok[OF s1(1)])
    obtain t' f where dr: "dram_read be (rq_length req) t ?s2 = (t', ?s2\<lparr>gc_below := f\<rparr>)" "ok f"
      using dram_read_ok[of ?s2 "rq_length req" t] i2 unfolding idle_def by blast
    have "idle g ok n D (setScheduling be True (?s2\<lparr>gc_below := f\<rparr>))"
      by (rule setScheduling_ok[OF idle_below[OF i2 dr(2)]])
    with dr(1) s1(2) show ?thesis by (simp add: setScheduling_def)
  qed
  show ?thesis
  proof (cases dirty)
    case False
    then show ?thesis using k[OF s] kept by (simp add: write_uncached_def)
  next
    case True
    have "run F (\<lambda>x. run F ?P (?k x)) (call_write g be r tick s)"
    proof (rule run_mono[OF call_write_ok[OF idle_going[OF s], of r tick]])
      fix x
      assume "case x of (t, s') \<Rightarrow> marked g (gc_data s) (gc_data s') \<and> going g ok n D {} s'
        \<and> call_writes g (FWrite (fr_lpn r) (fr_ioFlag r)) \<subseteq> written_pages g (drop n (gc_log s'))
        \<and> gc_evict s' = gc_evict s \<and> gc_draws s' = gc_draws s
        \<and> (\<exists>f d. bl_write be (updateDirty g) r tick (gc_below s, gc_data s) = Inr (t, f, d))"
      then obtain t s' where x: "x = (t, s')" and h: "marked g (gc_data s) (gc_data s')" "going g ok n D {} s'"
        "call_writes g (FWrite (fr_lpn r) (fr_ioFlag r)) \<subseteq> written_pages g (drop n (gc_log s'))" "gc_evict s' = gc_evict s"
        by (cases x) auto
      have "evict_empty g (gc_evict s')" using s h(4) by (simp add: idle_def cache_wf_def)
      then have "idle g ok n D s'" using idle_shrunk[OF s marked_shrunk[OF h(1)] h(2)] by simp
      with h(3) r show "run F ?P (?k x)" unfolding x by (intro k) auto
    qed
    with True show ?thesis by (simp add: write_uncached_def)
  qed
qed

end

context cache_over_ftl
begin

theorem gc_write_ok:
  assumes s: "idle g ok n D s"
    and G: "F \<subseteq> G" "Panic ''Cache corrupted!'' \<in> G \<or> never_late g be ok tick s"
  shows "run G (\<lambda>(hit, t, s'). idle g ok n (insert (rq_slpn req) D) s'
      \<and> (if gf_useWriteCaching g
         then cached g s' (rq_slpn req) \<and> (rq_length req \<le> gf_lineSize g \<longrightarrow> cached_dirty g s' (rq_slpn req))
         else rq_slpn req \<in> written_pages g (drop n (gc_log s'))))
    (gc_write g be req tick s)"
proof -
  let ?lca = "rq_slpn req"
  let ?P = "\<lambda>D (hit :: bool, t :: nat, s'). idle g ok n D s'
      \<and> (if gf_useWriteCaching g
         then cached g s' ?lca \<and> (rq_length req \<le> gf_lineSize g \<longrightarrow> cached_dirty g s' ?lca)
         else ?lca \<in> written_pages g (drop n (gc_log s')))"
  let ?Q = "\<lambda>D dirty (hit :: bool, t :: nat, s'). idle g ok n D s' \<and> cached g s' ?lca \<and> (dirty \<longrightarrow> cached_dirty g s' ?lca)"
  let ?i = "calcSetIndex g ?lca"
  have count: "?P D (ret, t, count_write ret s1)" if "?P D (ret, t, s1)" for D ret t s1
    using that idle_cong[of g ok n D s1 "count_write ret s1"]
    by (auto simp: count_write_def cached_def cached_dirty_def split: if_splits)
  have main: "run G (?P D) (if gf_useWriteCaching g
            then rbind (getValidWay g (gc_data s1) ?lca tick) (\<lambda>(w, tick).
                 rbind (if w \<noteq> gf_waySize g
                        then rbind (write_line be (hit_line req) req dirty flash (?i, w) tick s1)
                               (\<lambda>(tick, s). Inr (True, tick, s))
                        else write_miss g be False req dirty flash tick s1)
                   (\<lambda>(ret, tick, s). Inr (ret, tick + gf_applyLatency g CPU_WRITE, s)))
            else rbind (write_uncached g be True req r dirty flash tick s1) (\<lambda>(tick, s). Inr (False, tick, s)))"
    if s1: "idle g ok n D s1" "dirty = (rq_length req \<le> gf_lineSize g)"
      "dirty \<or> ?lca \<in> written_pages g (drop n (gc_log s1))"
      "Panic ''Cache corrupted!'' \<in> G \<or> never_late g be ok tick s1"
      "?lca \<in> call_writes g (FWrite (fr_lpn r) (fr_ioFlag r))" for D r dirty flash s1
  proof (cases "gf_useWriteCaching g")
    case False
    from write_uncached_ok[OF s1(1,3,5), of req flash tick]
    have "run G (\<lambda>x. ?P D (False, x)) (write_uncached g be True req r dirty flash tick s1)"
      by (rule run_mono[OF run_faults[OF _ G(1)]]) (use False in auto)
    then have "run G (\<lambda>x. run G (?P D) (case x of (tick, s) \<Rightarrow> Inr (False, tick, s))) (write_uncached g be True req r dirty flash tick s1)"
      by (rule run_mono) auto
    with False show ?thesis by simp
  next
    case True
    have d: "data_dims g (gc_data s1)" "placed g (gc_data s1)" "unique_tags g (gc_data s1)" "ok (gc_below s1)"
      using s1(1) by (auto simp: idle_def cache_wf_def)
    obtain w t where w: "getValidWay g (gc_data s1) ?lca tick = Inr (w, t)" "w \<le> gf_waySize g" "tick \<le> t"
      "w < gf_waySize g \<longrightarrow> ln_valid (el2 (gc_data s1) (?i, w)) \<and> ln_tag (el2 (gc_data s1) (?i, w)) = ?lca"
      "w = gf_waySize g \<longrightarrow> (\<forall>i < gf_waySize g. \<not> (ln_valid (el2 (gc_data s1) (?i, i)) \<and> ln_tag (el2 (gc_data s1) (?i, i)) = ?lca))"
      using getValidWay_ok[OF conf d(1), of ?lca tick] by blast
    have "run G (?Q D dirty) (if w \<noteq> gf_waySize g
        then rbind (write_line be (hit_line req) req dirty flash (?i, w) t s1) (\<lambda>(tick, s). Inr (True, tick, s))
        else write_miss g be False req dirty flash t s1)"
    proof (cases "w = gf_waySize g")
      case True
      have new: "ln_tag (el2 (gc_data s1) c) \<noteq> ?lca" if "lines_in g c" "ln_valid (el2 (gc_data s1) c)" for c
        by (rule not_cached[OF d(2) _ that]) (use w(5) True in blast)
      have "t \<le> tick + lat8 g * gf_waySize g" by (rule getValidWay_time[OF d(1) w(1)])
      from write_miss_ok[OF s1(1) new s1(3) G(1) s1(4) w(3) this] True show ?thesis by simp
    next
      case False
      then have wl: "w < gf_waySize g" using w(2) by simp
      then have l1: "ln_valid (el2 (gc_data s1) (?i, w))" "ln_tag (el2 (gc_data s1) (?i, w)) = ?lca" using w(4) by auto
      have c: "lines_in g (?i, w)" using wl calcSetIndex_lt[OF conf] by (simp add: inside_def)
      obtain t' st f where r: "write_line be (hit_line req) req dirty flash (?i, w) t s1
          = Inr (t', s1\<lparr>gc_data := up2 (gc_data s1) (?i, w) (hit_line req dirty st (el2 (gc_data s1) (?i, w))), gc_below := f\<rparr>)" "ok f"
        using write_line_ok[OF d(1) c d(4)] by blast
      let ?l = "hit_line req dirty st (el2 (gc_data s1) (?i, w))"
      have l: "ln_valid ?l" "ln_tag ?l = ?lca" "ln_dirty ?l = dirty" using l1 by (simp_all add: hit_line_def)
      have free: "ln_tag (el2 (gc_data s1) c) \<noteq> ?lca" if "lines_in g c" "c \<noteq> (?i, w)" "ln_valid (el2 (gc_data s1) c)" for c
        using d(3) c that l1 unfolding unique_tags_def by metis
      have old: "ln_tag (el2 (gc_data s1) (?i, w)) = ?lca" by (rule l1(2))
      have kept: "ln_dirty ?l \<or> ?lca \<in> written_pages g (drop n (gc_log s1))" using s1(3) l(3) by simp
      note p = put_line_ok[OF s1(1) wl l(1,2) free old kept r(2)]
      have "dirty \<longrightarrow> cached_dirty g (s1\<lparr>gc_data := up2 (gc_data s1) (?i, w) ?l, gc_below := f\<rparr>) ?lca"
        using p(3) l(3) by simp
      with p(1,2) False r(1) show ?thesis by simp
    qed
    then have "run G (\<lambda>x. run G (?P D) (case x of (ret, tick, s) \<Rightarrow> Inr (ret, tick + gf_applyLatency g CPU_WRITE, s)))
       (if w \<noteq> gf_waySize g
        then rbind (write_line be (hit_line req) req dirty flash (?i, w) t s1) (\<lambda>(tick, s). Inr (True, tick, s))
        else write_miss g be False req dirty flash t s1)"
      by (rule run_mono) (use True s1(2) in auto)
    with w(1) True show ?thesis by simp
  qed
  show ?thesis
    unfolding gc_write_def run_bind
  proof (rule run_mono[OF run_faults[OF begin_write_ok[OF s, of req tick] G(1)]])
    fix x :: "ftl_request \<times> bool \<times> nat \<times> 'f gcache"
    assume "case x of (r, dirty, flash, s') \<Rightarrow> idle g ok n D s' \<and> dirty = (rq_length req \<le> gf_lineSize g)
      \<and> (\<not> dirty \<longrightarrow> rq_slpn req \<in> written_pages g (drop n (gc_log s')))
      \<and> (never_late g be ok tick s \<longrightarrow> never_late g be ok tick s')
      \<and> rq_slpn req \<in> call_writes g (FWrite (fr_lpn r) (fr_ioFlag r))"
    then obtain r dirty flash s1 where x: "x = (r, dirty, flash, s1)" and h: "idle g ok n D s1"
      "dirty = (rq_length req \<le> gf_lineSize g)" "\<not> dirty \<longrightarrow> rq_slpn req \<in> written_pages g (drop n (gc_log s1))"
      "never_late g be ok tick s \<longrightarrow> never_late g be ok tick s1"
      "rq_slpn req \<in> call_writes g (FWrite (fr_lpn r) (fr_ioFlag r))" by (cases x) auto
    have hd: "dirty \<or> rq_slpn req \<in> written_pages g (drop n (gc_log s1))" using h(3) by blast
    have hG: "Panic ''Cache corrupted!'' \<in> G \<or> never_late g be ok tick s1" using h(4) G(2) by blast
    define D' where "D' = (if dirty then D else insert (rq_slpn req) D)"
    have i': "idle g ok n D' s1" using h(1,3) by (auto simp: D'_def idle_def)
    have grow: "idle g ok n (insert (rq_slpn req) D) s'" if "?P D' (hit, t, s')" for hit t s'
    proof (cases dirty)
      case True
      have "rq_slpn req \<in> dirty_pages g s' \<union> written_pages g (drop n (gc_log s'))"
        using that True h(2) cached_dirty_pages[OF conf] by (auto split: if_splits)
      with that True show ?thesis by (simp add: D'_def idle_def)
    qed (use that in \<open>simp add: D'_def\<close>)
    note m = main[OF i' h(2) hd hG h(5), of flash]
    show "run G (\<lambda>(hit, t, s'). idle g ok n (insert (rq_slpn req) D) s'
      \<and> (if gf_useWriteCaching g
         then cached g s' (rq_slpn req) \<and> (rq_length req \<le> gf_lineSize g \<longrightarrow> cached_dirty g s' (rq_slpn req))
         else rq_slpn req \<in> written_pages g (drop n (gc_log s')))) (case x of (r, dirty, flash, s) \<Rightarrow> rbind (if gf_useWriteCaching g
            then rbind (getValidWay g (gc_data s) (rq_slpn req) tick) (\<lambda>(w, tick).
                 rbind (if w \<noteq> gf_waySize g
                        then rbind (write_line be (hit_line req) req dirty flash (calcSetIndex g (rq_slpn req), w) tick s)
                               (\<lambda>(tick, s). Inr (True, tick, s))
                        else write_miss g be False req dirty flash tick s)
                   (\<lambda>(ret, tick, s). Inr (ret, tick + gf_applyLatency g CPU_WRITE, s)))
            else rbind (write_uncached g be True req r dirty flash tick s) (\<lambda>(tick, s). Inr (False, tick, s)))
       (\<lambda>(ret, tick, s). Inr (ret, tick, count_write ret s)))"
      unfolding x prod.case run_bind
    proof (rule run_mono[OF m])
      fix y :: "bool \<times> nat \<times> 'f gcache" assume y: "?P D' y"
      obtain hit t s2 where yy: "y = (hit, t, s2)" by (metis prod_cases3)
      note c = count[OF y[unfolded yy]]
      from grow[OF c] c show "run G (\<lambda>(hit, t, s'). idle g ok n (insert (rq_slpn req) D) s'
      \<and> (if gf_useWriteCaching g
         then cached g s' (rq_slpn req) \<and> (rq_length req \<le> gf_lineSize g \<longrightarrow> cached_dirty g s' (rq_slpn req))
         else rq_slpn req \<in> written_pages g (drop n (gc_log s')))) (case y of (ret, tick, s) \<Rightarrow> Inr (ret, tick, count_write ret s))"
        by (simp add: yy)
    qed
  qed
qed

end

end
