(* ===== verification/Icl_Reads.thy ===== *)
theory Icl_Reads
  imports Icl_Safety
begin

text \<open>
  The reading operations of the cache: the loop that reserves ways and the loop that loads them keep
  the invariant, lose no dirty page and never stop by themselves; a page that is cached is read
  without the FTL.
\<close>

section \<open>Reserving ways\<close>

lemma evictFunction_lt:
  assumes "gf_policy g = POLICY_RANDOM \<longrightarrow> (\<forall>n. gf_dist g n < gf_waySize g)" "length ls = gf_waySize g" "0 < gf_waySize g"
    "evictFunction (gf_policy g) (gf_dist g) lat ls n tick = (w, m, t)"
  shows "w < gf_waySize g" "tick \<le> t"
proof -
  have ls: "ls \<noteq> []" using assms(2,3) by auto
  note ways = fifo.pick_in[OF ls] lru.pick_in[OF ls] lfu.pick_in[OF ls] lru_clean_pick.pick_in[OF ls]
  show "w < gf_waySize g" using assms ways by (cases "gf_policy g") (auto simp: evictFunction_def)
  show "tick \<le> t" using assms(4) by (cases "gf_policy g") (auto simp: evictFunction_def)
qed

text \<open>The lines outside the reserved cells \<^verbatim>\<open>R\<close>, against the list of the lines to load.\<close>

definition reserved :: "gconf \<Rightarrow> cdata \<Rightarrow> (nat \<times> cell) list \<Rightarrow> bool" where
  "reserved g d rl \<longleftrightarrow> distinct (map fst rl)
     \<and> (\<forall>lca c. (lca, c) \<in> set rl \<longrightarrow> lines_in g c \<and> calcSetIndex g lca = fst c)
     \<and> (\<forall>lca c. lca \<in> fst ` set rl \<and> lines_in g c \<and> c \<notin> snd ` set rl \<and> ln_valid (el2 d c) \<longrightarrow> ln_tag (el2 d c) \<noteq> lca)
     \<and> (\<forall>c. lines_in g c \<and> c \<notin> snd ` set rl \<and> ln_valid (el2 d c) \<longrightarrow> calcSetIndex g (ln_tag (el2 d c)) = fst c)
     \<and> (\<forall>c c'. lines_in g c \<and> lines_in g c' \<and> c \<notin> snd ` set rl \<and> c' \<notin> snd ` set rl
          \<and> ln_valid (el2 d c) \<and> ln_valid (el2 d c') \<and> ln_tag (el2 d c) = ln_tag (el2 d c') \<longrightarrow> c = c')"

lemma reservedI:
  assumes "distinct (map fst rl)"
    "\<And>lca c. (lca, c) \<in> set rl \<Longrightarrow> lines_in g c \<and> calcSetIndex g lca = fst c"
    "\<And>lca c. lca \<in> fst ` set rl \<Longrightarrow> lines_in g c \<Longrightarrow> c \<notin> snd ` set rl \<Longrightarrow> ln_valid (el2 d c) \<Longrightarrow> ln_tag (el2 d c) \<noteq> lca"
    "\<And>c. lines_in g c \<Longrightarrow> c \<notin> snd ` set rl \<Longrightarrow> ln_valid (el2 d c) \<Longrightarrow> calcSetIndex g (ln_tag (el2 d c)) = fst c"
    "\<And>c c'. lines_in g c \<Longrightarrow> lines_in g c' \<Longrightarrow> c \<notin> snd ` set rl \<Longrightarrow> c' \<notin> snd ` set rl \<Longrightarrow> ln_valid (el2 d c)
       \<Longrightarrow> ln_valid (el2 d c') \<Longrightarrow> ln_tag (el2 d c) = ln_tag (el2 d c') \<Longrightarrow> c = c'"
  shows "reserved g d rl"
  unfolding reserved_def by (intro conjI allI impI; (elim conjE)?) (use assms in \<open>assumption | blast\<close>)+

lemma reservedD:
  assumes "reserved g d rl"
  shows "distinct (map fst rl)"
    "(lca, c) \<in> set rl \<Longrightarrow> lines_in g c \<and> calcSetIndex g lca = fst c"
    "lca \<in> fst ` set rl \<Longrightarrow> lines_in g c \<Longrightarrow> c \<notin> snd ` set rl \<Longrightarrow> ln_valid (el2 d c) \<Longrightarrow> ln_tag (el2 d c) \<noteq> lca"
    "lines_in g c \<Longrightarrow> c \<notin> snd ` set rl \<Longrightarrow> ln_valid (el2 d c) \<Longrightarrow> calcSetIndex g (ln_tag (el2 d c)) = fst c"
    "lines_in g c \<Longrightarrow> lines_in g c' \<Longrightarrow> c \<notin> snd ` set rl \<Longrightarrow> c' \<notin> snd ` set rl \<Longrightarrow> ln_valid (el2 d c)
       \<Longrightarrow> ln_valid (el2 d c') \<Longrightarrow> ln_tag (el2 d c) = ln_tag (el2 d c') \<Longrightarrow> c = c'"
  using assms unfolding reserved_def by blast+

lemma reserved_Nil:
  assumes "placed g d" "unique_tags g d"
  shows "reserved g d []"
  by (rule reservedI) (use assms in \<open>auto simp: placed_def unique_tags_def\<close>)

lemma reserved_shrunk:
  assumes "reserved g d rl" "shrunk g d d'"
  shows "reserved g d' rl"
proof -
  have sh: "ln_valid (el2 d c)" "ln_tag (el2 d' c) = ln_tag (el2 d c)" if "lines_in g c" "ln_valid (el2 d' c)" for c
    using assms(2) that unfolding shrunk_def by blast+
  show ?thesis
  proof (rule reservedI)
    show "distinct (map fst rl)" by (rule reservedD(1)[OF assms(1)])
    show "lines_in g c \<and> calcSetIndex g lca = fst c" if "(lca, c) \<in> set rl" for lca c
      by (rule reservedD(2)[OF assms(1) that])
    show "ln_tag (el2 d' c) \<noteq> lca" if "lca \<in> fst ` set rl" "lines_in g c" "c \<notin> snd ` set rl" "ln_valid (el2 d' c)" for lca c
      using reservedD(3)[OF assms(1) that(1-3)] sh[OF that(2,4)] by simp
    show "calcSetIndex g (ln_tag (el2 d' c)) = fst c" if "lines_in g c" "c \<notin> snd ` set rl" "ln_valid (el2 d' c)" for c
      using reservedD(4)[OF assms(1) that(1,2)] sh[OF that(1,3)] by simp
    show "c = c'" if "lines_in g c" "lines_in g c'" "c \<notin> snd ` set rl" "c' \<notin> snd ` set rl" "ln_valid (el2 d' c)"
      "ln_valid (el2 d' c')" "ln_tag (el2 d' c) = ln_tag (el2 d' c')" for c c'
      using reservedD(5)[OF assms(1) that(1-4)] sh[OF that(1,5)] sh[OF that(2,6)] that(7) by simp
  qed
qed

text \<open>Reserving a free cell for an address that no line outside \<^verbatim>\<open>R\<close> has.\<close>

lemma reserved_add:
  assumes "reserved g d rl" "data_dims g d" "lines_in g c" "fst c = calcSetIndex g lca" "lca \<notin> fst ` set rl"
    and new: "\<And>c'. lines_in g c' \<Longrightarrow> c' \<notin> snd ` set rl \<Longrightarrow> ln_valid (el2 d c') \<Longrightarrow> ln_tag (el2 d c') \<noteq> lca"
  shows "reserved g (up2 d c l) (rl @ [(lca, c)])"
proof -
  have el: "el2 (up2 d c l) p = el2 d p" if "p \<notin> snd ` set (rl @ [(lca, c)])" for p
    using that assms(2,3) by (auto simp: el2_up2)
  have out: "p \<notin> snd ` set rl" if "p \<notin> snd ` set (rl @ [(lca, c)])" for p using that by auto
  show ?thesis
  proof (rule reservedI)
    show "distinct (map fst (rl @ [(lca, c)]))" using reservedD(1)[OF assms(1)] assms(5) by auto
    show "lines_in g b \<and> calcSetIndex g k = fst b" if "(k, b) \<in> set (rl @ [(lca, c)])" for k b
      using reservedD(2)[OF assms(1), of k b] that assms(3,4) by auto
    show "ln_tag (el2 (up2 d c l) b) \<noteq> k" if "k \<in> fst ` set (rl @ [(lca, c)])" "lines_in g b"
      "b \<notin> snd ` set (rl @ [(lca, c)])" "ln_valid (el2 (up2 d c l) b)" for k b
      using reservedD(3)[OF assms(1), of k b] new[of b] that out[OF that(3)] el[OF that(3)] by auto
    show "calcSetIndex g (ln_tag (el2 (up2 d c l) b)) = fst b" if "lines_in g b"
      "b \<notin> snd ` set (rl @ [(lca, c)])" "ln_valid (el2 (up2 d c l) b)" for b
      using reservedD(4)[OF assms(1), of b] that out[OF that(2)] el[OF that(2)] by simp
    show "b = b'" if "lines_in g b" "lines_in g b'" "b \<notin> snd ` set (rl @ [(lca, c)])" "b' \<notin> snd ` set (rl @ [(lca, c)])"
      "ln_valid (el2 (up2 d c l) b)" "ln_valid (el2 (up2 d c l) b')" "ln_tag (el2 (up2 d c l) b) = ln_tag (el2 (up2 d c l) b')" for b b'
      using reservedD(5)[OF assms(1) that(1,2) out[OF that(3)] out[OF that(4)]] el[OF that(3)] el[OF that(4)] that(5-7) by simp
  qed
qed

lemma evict_empty_ok: "evict_empty g e \<Longrightarrow> evict_ok g d e"
  by (auto simp: evict_empty_def evict_ok_def)

lemma going_reserve:
  assumes "going g ok n D R s" "evict_empty g (gc_evict s)" "lines_in g c" "\<not> ln_valid (el2 (gc_data s) c)"
  shows "going g ok n D (insert c R) (s\<lparr>gc_data := up2 (gc_data s) c l\<rparr>)"
proof -
  have d: "data_dims g (gc_data s)" using assms(1) by (simp add: going_def)
  have "dirty_outside g R (gc_data s) \<subseteq> dirty_outside g (insert c R) (up2 (gc_data s) c l)"
  proof
    fix t assume "t \<in> dirty_outside g R (gc_data s)"
    then obtain b where b: "lines_in g b" "b \<notin> R" "ln_valid (el2 (gc_data s) b)" "ln_dirty (el2 (gc_data s) b)"
      "t = ln_tag (el2 (gc_data s) b)" by (auto simp: dirty_outside_def)
    then have "b \<noteq> c" using assms(4) by auto
    then have "el2 (up2 (gc_data s) c l) b = el2 (gc_data s) b" using d assms(3) by (simp add: el2_up2)
    with b \<open>b \<noteq> c\<close> show "t \<in> dirty_outside g (insert c R) (up2 (gc_data s) c l)"
      unfolding dirty_outside_def by (auto intro!: exI[of _ b])
  qed
  with assms(1,3) d show ?thesis by (auto simp: going_def evict_empty_ok[OF assms(2)])
qed

lemma going_cong:
  assumes "going g ok n D R s" "gc_data s' = gc_data s" "gc_evict s' = gc_evict s" "gc_below s' = gc_below s" "gc_log s' = gc_log s"
  shows "going g ok n D R s'"
  using assms by (simp add: going_def)

context cache_over_ftl
begin

lemma reserve_way_ok:
  assumes going: "going g ok n D (snd ` set rl) s" and ev: "evict_empty g (gc_evict s)"
    and res: "reserved g (gc_data s) rl" and new: "lca \<notin> fst ` set rl"
  shows "run F (\<lambda>(b, m, rl', s'). going g ok n D (snd ` set rl') s' \<and> evict_empty g (gc_evict s')
      \<and> reserved g (gc_data s') rl' \<and> fst ` set rl' \<subseteq> insert lca (fst ` set rl)
      \<and> (cached g s lca \<or> lca \<in> fst ` set rl'))
    (reserve_way g be tick lca (b0, m0, rl, s))"
proof -
  let ?R = "snd ` set rl"
  let ?P = "\<lambda>(b :: nat, m :: nat, rl', s'). going g ok n D (snd ` set rl') s' \<and> evict_empty g (gc_evict s')
      \<and> reserved g (gc_data s') rl' \<and> fst ` set rl' \<subseteq> insert lca (fst ` set rl)
      \<and> (cached g s lca \<or> lca \<in> fst ` set rl')"
  let ?i = "calcSetIndex g lca"
  have d: "data_dims g (gc_data s)" using going by (simp add: going_def)
  have i: "?i < gf_setSize g" by (rule calcSetIndex_lt[OF conf])
  obtain w t where w: "getValidWay g (gc_data s) lca tick = Inr (w, t)"
    "w = gf_waySize g \<longrightarrow> (\<forall>i < gf_waySize g. \<not> (ln_valid (el2 (gc_data s) (?i, i)) \<and> ln_tag (el2 (gc_data s) (?i, i)) = lca))"
    "w \<noteq> gf_waySize g \<longrightarrow> cached g s lca"
    using getValidWay_ok[OF conf d, of lca tick] unfolding cached_def by (metis le_neq_implies_less)
  show ?thesis
  proof (cases "w = gf_waySize g")
    case False
    with w(1,3) going ev res show ?thesis by (auto simp: reserve_way_def)
  next
    case True
    have absent: "ln_tag (el2 (gc_data s) c) \<noteq> lca" if c: "lines_in g c" "c \<notin> ?R" "ln_valid (el2 (gc_data s) c)" for c
    proof
      assume t: "ln_tag (el2 (gc_data s) c) = lca"
      then have "fst c = ?i" using reservedD(4)[OF res c] by simp
      then show False using c t w(2) True by (cases c) (auto simp: inside_def)
    qed
    let ?stamp = "\<lambda>(w, b, s). rbind (mod2 (gc_data s) (?i, w) (reserve_line b)) (\<lambda>d.
         Inr (b, max m0 b, rl @ [(lca, (?i, w))], s\<lparr>gc_data := d\<rparr>))"
    have stamp: "run F ?P (?stamp (v, b, s1))" if s1: "going g ok n D ?R s1" "evict_empty g (gc_evict s1)"
      "shrunk g (gc_data s) (gc_data s1)" "v < gf_waySize g" "\<not> ln_valid (el2 (gc_data s1) (?i, v))" for v b s1
    proof -
      have c: "lines_in g (?i, v)" using i s1(4) by (simp add: inside_def)
      have d1: "data_dims g (gc_data s1)" using s1(1) by (simp add: going_def)
      let ?l = "reserve_line b (el2 (gc_data s1) (?i, v))"
      have "going g ok n D (insert (?i, v) ?R) (s1\<lparr>gc_data := up2 (gc_data s1) (?i, v) ?l\<rparr>)"
        by (rule going_reserve[OF s1(1,2) c s1(5)])
      moreover have "reserved g (up2 (gc_data s1) (?i, v) ?l) (rl @ [(lca, (?i, v))])"
      proof (rule reserved_add[OF reserved_shrunk[OF res s1(3)] d1 c _ new])
        show "ln_tag (el2 (gc_data s1) c') \<noteq> lca" if "lines_in g c'" "c' \<notin> ?R" "ln_valid (el2 (gc_data s1) c')" for c'
          using absent[of c'] s1(3) that unfolding shrunk_def by auto
      qed simp
      ultimately show ?thesis using c d1 s1(2) by auto
    qed
    obtain v u where v: "getEmptyWay g (gc_data s) ?i t = Inr (v, u)" "v \<le> gf_waySize g"
      "v < gf_waySize g \<longrightarrow> \<not> ln_valid (el2 (gc_data s) (?i, v))"
      using getEmptyWay_ok[OF conf d i, of t] by blast
    show ?thesis
    proof (cases "v = gf_waySize g")
      case False
      with v stamp[OF going ev shrunk_refl[OF d], of v u] w(1) True show ?thesis
        by (simp add: reserve_way_def Let_def)
    next
      case full: True
      have row: "rnth (gc_data s) ?i = Inr (gc_data s ! ?i)" "length (gc_data s ! ?i) = gf_waySize g"
        using d i by (auto simp: dims_def)
      obtain x k y where x: "evictFunction (gf_policy g) (gf_dist g) (lat8 g) (gc_data s ! ?i) (gc_draws s) u = (x, k, y)"
        by (metis prod_cases3)
      have "0 < gf_waySize g" using conf by (simp add: conf_ok_def)
      from evictFunction_lt(1)[OF _ row(2) this x] have xl: "x < gf_waySize g" using conf by (simp add: conf_ok_def)
      then have c: "lines_in g (?i, x)" using i by (simp add: inside_def)
      let ?l = "el2 (gc_data s) (?i, x)"
      let ?pos = "calcIOPosition g (ln_tag ?l)"
      note pos = calcIOPosition_ok[OF conf, of "ln_tag ?l"]
      let ?s1 = "s\<lparr>gc_evict := up2 (gc_evict s) ?pos (Some (?i, x)), gc_draws := k\<rparr>"
      have ed: "evict_dims g (gc_evict s)" using ev by (simp add: evict_empty_def)
      have "evict_ok g (gc_data s) (gc_evict ?s1)"
        using ev ed pos c by (auto simp: evict_ok_def evict_empty_def el2_up2 split: if_splits)
      then have g1: "going g ok n D ?R ?s1" using going by (simp add: going_def)
      have at: "el2 (gc_evict ?s1) ?pos = Some (?i, x)" using ed pos(1) by (simp add: el2_up2)
      have "run F (\<lambda>s2. run F ?P (?stamp (x, y, s2))) (evictCache g be tick True ?s1)"
      proof (rule run_mono[OF evictCache_ok[OF g1 in_time_all]])
        fix s2 assume h: "going g ok n D ?R s2 \<and> shrunk g (gc_data ?s1) (gc_data s2) \<and> evict_empty g (gc_evict s2)
          \<and> (\<forall>pos a. slots_in g pos \<and> el2 (gc_evict ?s1) pos = Some a \<longrightarrow> free_since (\<lambda>t. True) (gc_data s2) a)
          \<and> (\<forall>a. lines_in g a \<and> free_since (\<lambda>t. True) (gc_data ?s1) a \<longrightarrow> free_since (\<lambda>t. True) (gc_data s2) a)"
        have "free_since (\<lambda>t. True) (gc_data s2) (?i, x)" using h pos(1) at by blast
        then show "run F ?P (?stamp (x, y, s2))" by (intro stamp) (use h xl in \<open>auto simp: free_since_def\<close>)
      qed
      with w(1) True v(1) full row(1) x d c ed pos(1) show ?thesis
        by (simp add: reserve_way_def Let_def)
    qed
  qed
qed

end

section \<open>Loading them\<close>

fun call_reads :: "gconf \<Rightarrow> ftl_call \<Rightarrow> nat set" where
  "call_reads g (FRead lpn b) = {lpn * gf_lineCountInSuperPage g + i | i. i < gf_lineCountInSuperPage g \<and> i \<in> bs_elems b}"
| "call_reads g _ = {}"

definition read_pages :: "gconf \<Rightarrow> ftl_call list \<Rightarrow> nat set" where
  "read_pages g cs = (\<Union>c \<in> set cs. call_reads g c)"

lemma read_pages_append [simp]: "read_pages g (cs @ cs') = read_pages g cs \<union> read_pages g cs'"
  by (auto simp: read_pages_def)

lemma read_pages_one [simp]: "read_pages g [c] = call_reads g c"
  by (simp add: read_pages_def)

lemma call_reads_one:
  "conf_ok g \<Longrightarrow> t mod gf_lineCountInSuperPage g \<in> bs_elems b
    \<Longrightarrow> t \<in> call_reads g (FRead (t div gf_lineCountInSuperPage g) b)"
  by (auto simp: conf_ok_def intro!: exI[of _ "t mod gf_lineCountInSuperPage g"])

lemma reserved_inner:
  assumes "reserved g d rl" "data_dims g d" "lines_in g c" "c \<in> snd ` set rl"
  shows "reserved g (up2 d c l) rl"
proof -
  have el: "el2 (up2 d c l) p = el2 d p" if "p \<notin> snd ` set rl" for p
    using that assms(2,3,4) by (auto simp: el2_up2)
  show ?thesis
  proof (rule reservedI)
    show "distinct (map fst rl)" by (rule reservedD(1)[OF assms(1)])
    show "lines_in g b \<and> calcSetIndex g k = fst b" if "(k, b) \<in> set rl" for k b
      by (rule reservedD(2)[OF assms(1) that])
    show "ln_tag (el2 (up2 d c l) b) \<noteq> k" if "k \<in> fst ` set rl" "lines_in g b" "b \<notin> snd ` set rl" "ln_valid (el2 (up2 d c l) b)" for k b
      using reservedD(3)[OF assms(1) that(1-3)] that(4) el[OF that(3)] by simp
    show "calcSetIndex g (ln_tag (el2 (up2 d c l) b)) = fst b" if "lines_in g b" "b \<notin> snd ` set rl" "ln_valid (el2 (up2 d c l) b)" for b
      using reservedD(4)[OF assms(1) that(1,2)] that(3) el[OF that(2)] by simp
    show "b = b'" if "lines_in g b" "lines_in g b'" "b \<notin> snd ` set rl" "b' \<notin> snd ` set rl"
      "ln_valid (el2 (up2 d c l) b)" "ln_valid (el2 (up2 d c l) b')" "ln_tag (el2 (up2 d c l) b) = ln_tag (el2 (up2 d c l) b')" for b b'
      by (rule reservedD(5)[OF assms(1) that(1-4)]) (use that(5-7) el[OF that(3)] el[OF that(4)] in simp_all)
  qed
qed

lemma going_inner:
  assumes "going g ok n D R s" "evict_empty g (gc_evict s)" "lines_in g c" "c \<in> R"
  shows "going g ok n D R (s\<lparr>gc_data := up2 (gc_data s) c l\<rparr>)"
proof -
  have d: "data_dims g (gc_data s)" using assms(1) by (simp add: going_def)
  have el: "el2 (up2 (gc_data s) c l) b = el2 (gc_data s) b" if "b \<notin> R" for b
    using that d assms(3,4) by (auto simp: el2_up2)
  have "dirty_outside g R (gc_data s) \<subseteq> dirty_outside g R (up2 (gc_data s) c l)"
  proof
    fix t assume "t \<in> dirty_outside g R (gc_data s)"
    then obtain b where b: "lines_in g b" "b \<notin> R" "ln_valid (el2 (gc_data s) b)" "ln_dirty (el2 (gc_data s) b)"
      "t = ln_tag (el2 (gc_data s) b)" by (auto simp: dirty_outside_def)
    with el[OF b(2)] show "t \<in> dirty_outside g R (up2 (gc_data s) c l)"
      unfolding dirty_outside_def by (auto intro!: exI[of _ b])
  qed
  with assms(1,3) d show ?thesis by (auto simp: going_def evict_empty_ok[OF assms(2)])
qed

text \<open>When every reserved cell holds one of the lines to load, the invariant is back.\<close>

lemma reserved_done:
  assumes "reserved g d rl" and loaded: "\<And>c. c \<in> snd ` set rl \<Longrightarrow> (ln_tag (el2 d c), c) \<in> set rl"
  shows "placed g d" "unique_tags g d"
proof -
  note D = reservedD[OF assms(1)]
  show "placed g d"
    unfolding placed_def
  proof (intro allI impI)
    fix c assume c: "lines_in g c \<and> ln_valid (el2 d c)"
    show "calcSetIndex g (ln_tag (el2 d c)) = fst c"
      using D(2)[of "ln_tag (el2 d c)" c] D(4)[of c] loaded[of c] c by blast
  qed
  show "unique_tags g d"
    unfolding unique_tags_def
  proof (intro allI impI)
    fix c c' assume h: "lines_in g c \<and> lines_in g c' \<and> ln_valid (el2 d c) \<and> ln_valid (el2 d c') \<and> ln_tag (el2 d c) = ln_tag (el2 d c')"
    consider "c \<in> snd ` set rl" "c' \<in> snd ` set rl" | "c \<in> snd ` set rl" "c' \<notin> snd ` set rl"
      | "c \<notin> snd ` set rl" "c' \<in> snd ` set rl" | "c \<notin> snd ` set rl" "c' \<notin> snd ` set rl" by blast
    then show "c = c'"
    proof cases
      case 1
      then have "(ln_tag (el2 d c), c) \<in> set rl" "(ln_tag (el2 d c), c') \<in> set rl" using loaded[of c] loaded[of c'] h by simp_all
      then show ?thesis using eq_key_imp_eq_value[OF D(1)] by blast
    next
      case 2
      then have "ln_tag (el2 d c') \<in> fst ` set rl" using loaded[OF 2(1)] h by (metis fst_conv image_eqI)
      then show ?thesis using D(3)[of "ln_tag (el2 d c')" c'] 2(2) h by blast
    next
      case 3
      then have "ln_tag (el2 d c) \<in> fst ` set rl" using loaded[OF 3(2)] h by (metis fst_conv image_eqI)
      then show ?thesis using D(3)[of "ln_tag (el2 d c)" c] 3(1) h by blast
    next
      case 4
      then show ?thesis using D(5)[of c c'] h by blast
    qed
  qed
qed

lemma going_all: "going g ok n D R s \<Longrightarrow> going g ok n D {} s"
  unfolding going_def dirty_outside_def by blast

text \<open>What the second loop has done after the lines \<^verbatim>\<open>ps\<close>.\<close>

definition loading :: "gconf \<Rightarrow> ('f \<Rightarrow> bool) \<Rightarrow> nat \<Rightarrow> nat set \<Rightarrow> (nat \<times> cell) list \<Rightarrow> (nat \<times> cell) list \<Rightarrow> 'f gcache \<Rightarrow> bool" where
  "loading g ok n D rl ps s \<longleftrightarrow> going g ok n D (snd ` set rl) s \<and> evict_empty g (gc_evict s) \<and> reserved g (gc_data s) rl
     \<and> (\<forall>c \<in> snd ` set ps. ln_valid (el2 (gc_data s) c) \<and> (ln_tag (el2 (gc_data s) c), c) \<in> set ps)
     \<and> fst ` set ps \<subseteq> read_pages g (drop n (gc_log s))"

context cache_over_ftl
begin

lemma load_line_ok:
  assumes ld: "loading g ok n D rl ps s" and x: "(lca, c) \<in> set rl"
  shows "run F (\<lambda>(b, m, s'). loading g ok n D rl (ps @ [(lca, c)]) s') (load_line g be req start (lca, c) (b0, m0, s))"
proof -
  note h = ld[unfolded loading_def]
  have going: "going g ok n D (snd ` set rl) s" and ev: "evict_empty g (gc_evict s)" and res: "reserved g (gc_data s) rl"
    and dn: "\<forall>c \<in> snd ` set ps. ln_valid (el2 (gc_data s) c) \<and> (ln_tag (el2 (gc_data s) c), c) \<in> set ps"
    and rd: "fst ` set ps \<subseteq> read_pages g (drop n (gc_log s))" using h by auto
  have c: "lines_in g c" "c \<in> snd ` set rl" using reservedD(2)[OF res x] x by force+
  obtain fl where fl: "one_flag g (lca mod L) = Inr fl" "bs_elems fl = {lca mod L}"
    using one_flag_ok[OF conf, of "lca mod L"] by auto
  let ?r = "\<lparr>fr_lpn = lca div L, fr_ioFlag = fl\<rparr>"
  let ?b = "case start of Some tick \<Rightarrow> tick | None \<Rightarrow> b0"
  have own: "lca \<in> call_reads g (FRead (lca div L) fl)" by (rule call_reads_one[OF conf]) (simp add: fl(2))
  show ?thesis
  proof (cases "bl_read be ?r ?b (gc_below s)")
    case (Inl e)
    then have "e \<in> F" unfolding below_faults_def by blast
    with Inl fl show ?thesis by (simp add: load_line_def Let_def call_read_def)
  next
    case (Inr y)
    obtain t f where y: "y = (t, f)" by (cases y)
    have okf: "ok f" using keep_read[OF _ Inr[unfolded y]] going by (simp add: going_def)
    let ?s1 = "s\<lparr>gc_below := f, gc_log := gc_log s @ [FRead (lca div L) fl]\<rparr>"
    have n: "n \<le> length (gc_log s)" using going by (simp add: going_def)
    have g1: "going g ok n D (snd ` set rl) ?s1" using going okf by (auto simp: going_def)
    let ?l = "el2 (gc_data s) c"
    obtain t' f' where dw: "dram_write be (gf_lineSize g) (ln_insertedAt ?l) ?s1 = (t', ?s1\<lparr>gc_below := f'\<rparr>)" "ok f'"
      using dram_write_ok[of ?s1 "gf_lineSize g" "ln_insertedAt ?l"] okf by auto
    let ?s2 = "?s1\<lparr>gc_below := f'\<rparr>"
    have g2: "going g ok n D (snd ` set rl) ?s2" by (rule going_below[OF g1 dw(2)])
    let ?l' = "loaded_line lca (max t t') ?l"
    let ?s3 = "?s2\<lparr>gc_data := up2 (gc_data ?s2) c ?l'\<rparr>"
    have d: "data_dims g (gc_data s)" using going by (simp add: going_def)
    have el: "el2 (gc_data ?s3) p = (if p = c then ?l' else el2 (gc_data s) p)" for p using d c(1) by (simp add: el2_up2)
    have "going g ok n D (snd ` set rl) ?s3" by (rule going_inner[OF g2 _ c]) (use ev in simp)
    moreover have "reserved g (gc_data ?s3) rl" using reserved_inner[OF res d c] by simp
    moreover have "ln_valid (el2 (gc_data ?s3) p) \<and> (ln_tag (el2 (gc_data ?s3) p), p) \<in> set (ps @ [(lca, c)])"
      if "p \<in> snd ` set (ps @ [(lca, c)])" for p
      using that dn unfolding el by (auto simp: loaded_line_def)
    moreover have "fst ` set (ps @ [(lca, c)]) \<subseteq> read_pages g (drop n (gc_log ?s3))"
      using rd own n by (auto simp del: call_reads.simps)
    ultimately have "loading g ok n D rl (ps @ [(lca, c)]) ?s3" using ev unfolding loading_def by simp
    then show ?thesis using Inr y fl(1) dw(1) c(1) d
      by (simp add: load_line_def Let_def call_read_def)
  qed
qed

end

section \<open>Reading\<close>

context cache_over_ftl
begin

lemma reserve_ways_ok:
  assumes s: "idle g ok n D s" and xs: "distinct xs"
  shows "run F (\<lambda>(b, m, rl, s'). going g ok n D (snd ` set rl) s' \<and> evict_empty g (gc_evict s')
      \<and> reserved g (gc_data s') rl \<and> fst ` set rl \<subseteq> set xs \<and> (xs = [lca] \<and> \<not> cached g s lca \<longrightarrow> lca \<in> fst ` set rl))
    (rfold (reserve_way g be tick) xs (b0, m0, [], s))"
proof -
  let ?I = "\<lambda>ys (b :: nat, m :: nat, rl, s'). going g ok n D (snd ` set rl) s' \<and> evict_empty g (gc_evict s')
      \<and> reserved g (gc_data s') rl \<and> fst ` set rl \<subseteq> set ys \<and> (ys = [] \<longrightarrow> s' = s)
      \<and> (ys = [lca] \<and> \<not> cached g s lca \<longrightarrow> lca \<in> fst ` set rl)"
  have "run F (?I xs) (rfold (reserve_way g be tick) xs (b0, m0, [], s))"
  proof (rule run_rfold_index)
    have "reserved g (gc_data s) []" using s by (intro reserved_Nil) (auto simp: idle_def cache_wf_def)
    with idle_going[OF s] s show "?I [] (b0, m0, [], s)" by (simp add: idle_def cache_wf_def)
  next
    fix ys v zs and st :: "nat \<times> nat \<times> (nat \<times> cell) list \<times> 'f gcache"
    assume split: "xs = ys @ v # zs" and I: "?I ys st"
    obtain b m rl s' where st: "st = (b, m, rl, s')" by (metis prod_cases4)
    have I': "going g ok n D (snd ` set rl) s'" "evict_empty g (gc_evict s')" "reserved g (gc_data s') rl"
      "fst ` set rl \<subseteq> set ys" "ys = [] \<longrightarrow> s' = s" using I unfolding st by auto
    have nv: "v \<notin> fst ` set rl" using I'(4) xs split by auto
    show "run F (?I (ys @ [v])) (reserve_way g be tick v st)"
      unfolding st
    proof (rule run_mono[OF reserve_way_ok[OF I'(1-3) nv, of tick b m]])
      fix u :: "nat \<times> nat \<times> (nat \<times> cell) list \<times> 'f gcache"
      assume h: "case u of (b, m, rl', s'') \<Rightarrow> going g ok n D (snd ` set rl') s'' \<and> evict_empty g (gc_evict s'')
        \<and> reserved g (gc_data s'') rl' \<and> fst ` set rl' \<subseteq> insert v (fst ` set rl)
        \<and> (cached g s' v \<or> v \<in> fst ` set rl')"
      obtain b m rl' s2 where u: "u = (b, m, rl', s2)" by (metis prod_cases4)
      have "fst ` set rl' \<subseteq> set (ys @ [v])" using h I'(4) unfolding u prod.case set_append by (simp only: list.set) blast
      moreover have "ys @ [v] = [lca] \<and> \<not> cached g s lca \<longrightarrow> lca \<in> fst ` set rl'"
        using h I'(5) unfolding u prod.case by (metis append_self_conv2 butlast_snoc last_snoc butlast.simps(2) last.simps)
      ultimately show "?I (ys @ [v]) u" using h unfolding u prod.case by blast
    qed
  qed
  then show ?thesis by (rule run_mono) auto
qed

lemma load_lines_ok:
  assumes "loading g ok n D rl [] s"
  shows "run F (\<lambda>(b, m, s'). idle g ok n D s' \<and> fst ` set rl \<subseteq> read_pages g (drop n (gc_log s'))
      \<and> (lca \<in> fst ` set rl \<and> fst ` set rl \<subseteq> {lca} \<longrightarrow> cached g s' lca))
    (rfold (load_line g be req start) rl (b0, m0, s))"
proof -
  let ?I = "\<lambda>ps (b :: nat, m :: nat, s'). loading g ok n D rl ps s'"
  have "run F (?I rl) (rfold (load_line g be req start) rl (b0, m0, s))"
  proof (rule run_rfold_index[where I = ?I])
    fix ps x zs and st :: "nat \<times> nat \<times> 'f gcache"
    assume split: "rl = ps @ x # zs" and I: "?I ps st"
    obtain b m s' where st: "st = (b, m, s')" by (metis prod_cases3)
    obtain lca c where x: "x = (lca, c)" by (cases x)
    show "run F (?I (ps @ [x])) (load_line g be req start x st)"
      unfolding st x by (rule load_line_ok) (use I split st x in auto)
  qed (use assms in simp)
  then show ?thesis
  proof (rule run_mono)
    fix st :: "nat \<times> nat \<times> 'f gcache" assume I: "?I rl st"
    obtain b m s' where st: "st = (b, m, s')" by (metis prod_cases3)
    have l: "going g ok n D (snd ` set rl) s'" "evict_empty g (gc_evict s')" "reserved g (gc_data s') rl"
      "\<And>c. c \<in> snd ` set rl \<Longrightarrow> ln_valid (el2 (gc_data s') c)"
      "\<And>c. c \<in> snd ` set rl \<Longrightarrow> (ln_tag (el2 (gc_data s') c), c) \<in> set rl"
      "fst ` set rl \<subseteq> read_pages g (drop n (gc_log s'))"
      using I unfolding st loading_def by auto
    have "idle g ok n D s'" by (rule going_idle[OF going_all[OF l(1)] reserved_done[OF l(3,5)] l(2)])
    moreover have "cached g s' lca" if one: "lca \<in> fst ` set rl" "fst ` set rl \<subseteq> {lca}"
    proof -
      obtain c where c: "(lca, c) \<in> set rl" using one(1) by auto
      then have R: "c \<in> snd ` set rl" by force
      have "ln_tag (el2 (gc_data s') c) = lca" using l(5)[OF R] one(2) by force
      moreover have "lines_in g c" "fst c = calcSetIndex g lca" using reservedD(2)[OF l(3) c] by simp_all
      moreover note l(4)[OF R]
      ultimately show ?thesis unfolding cached_def by (cases c) (auto simp: inside_def intro!: exI[of _ "snd c"])
    qed
    ultimately show "case st of (b, m, s') \<Rightarrow> idle g ok n D s' \<and> fst ` set rl \<subseteq> read_pages g (drop n (gc_log s'))
      \<and> (lca \<in> fst ` set rl \<and> fst ` set rl \<subseteq> {lca} \<longrightarrow> cached g s' lca)"
      using l(6) st by simp
  qed
qed

lemma read_range_ok:
  "idle g ok n D s \<Longrightarrow> idle g ok n D (snd (read_range g req s))"
  "cached g (snd (read_range g req s)) lca = cached g s lca"
  "\<not> sd_enabled (gc_detect s) \<Longrightarrow> fst (read_range g req s) = rq_slpn req + 1"
  by (auto simp: read_range_def Let_def cached_def elim!: idle_cong)

lemma fetch_lines_ok:
  assumes s: "idle g ok n D s"
  shows "run F (\<lambda>(t, s'). idle g ok n D s' \<and> (\<not> cached g s (rq_slpn req) \<and> \<not> sd_enabled (gc_detect s)
      \<longrightarrow> cached g s' (rq_slpn req) \<and> rq_slpn req \<in> read_pages g (drop n (gc_log s'))))
    (fetch_lines g be fromTick req ret arrived beginAt finishedAt tick s)"
proof -
  let ?lca = "rq_slpn req" and ?en = "sd_enabled (gc_detect s)"
  let ?s0 = "if ?en then setScheduling be False s else s"
  let ?s1 = "snd (read_range g req ?s0)" and ?last = "fst (read_range g req ?s0)"
  let ?one = "\<not> cached g s ?lca \<and> \<not> ?en"
  let ?P = "\<lambda>(t :: nat, s'). idle g ok n D s' \<and> (?one \<longrightarrow> cached g s' ?lca \<and> ?lca \<in> read_pages g (drop n (gc_log s')))"
  have i1: "idle g ok n D ?s1" by (rule read_range_ok(1)) (use s setScheduling_ok in simp)
  have xs: "[?lca..<?last] = [?lca] \<and> \<not> cached g ?s1 ?lca" if ?one
    using that read_range_ok(3)[of s req] read_range_ok(2)[of req s ?lca] by simp
  let ?k = "\<lambda>(beginAt, finishedAt, rl, s). rbind (evictCache g be finishedAt True s) (\<lambda>s.
      rbind (rfold (load_line g be req (if fromTick then Some finishedAt else None)) rl (beginAt, finishedAt, s))
        (\<lambda>(_, finishedAt, s).
           Inr (if ?en then (if ret then arrived else finishedAt, setScheduling be True s) else (finishedAt, s))))"
  have "run F (\<lambda>x. run F ?P (?k x)) (rfold (reserve_way g be tick) [?lca..<?last] (beginAt, finishedAt, [], ?s1))"
  proof (rule run_mono[OF reserve_ways_ok[OF i1, of "[?lca..<?last]" ?lca]])
    fix st :: "nat \<times> nat \<times> (nat \<times> cell) list \<times> 'f gcache"
    assume h: "case st of (b, m, rl, s') \<Rightarrow> going g ok n D (snd ` set rl) s' \<and> evict_empty g (gc_evict s')
      \<and> reserved g (gc_data s') rl \<and> fst ` set rl \<subseteq> set [?lca..<?last]
      \<and> ([?lca..<?last] = [?lca] \<and> \<not> cached g ?s1 ?lca \<longrightarrow> ?lca \<in> fst ` set rl)"
    obtain b m rl s2 where st: "st = (b, m, rl, s2)" by (metis prod_cases4)
    have h2: "going g ok n D (snd ` set rl) s2" "evict_empty g (gc_evict s2)" "reserved g (gc_data s2) rl"
      "fst ` set rl \<subseteq> set [?lca..<?last]" "?one \<longrightarrow> ?lca \<in> fst ` set rl" using h xs unfolding st by auto
    have one: "?one \<longrightarrow> ?lca \<in> fst ` set rl \<and> fst ` set rl \<subseteq> {?lca}"
    proof
      assume o: ?one
      have "[?lca..<?last] = [?lca]" using xs[OF o] by blast
      then have "fst ` set rl \<subseteq> {?lca}" using h2(4) by (simp only: list.set)
      with h2(5) o show "?lca \<in> fst ` set rl \<and> fst ` set rl \<subseteq> {?lca}" by blast
    qed
    let ?ld = "rfold (load_line g be req (if fromTick then Some m else None)) rl"
    have "run F (\<lambda>s3. run F (\<lambda>x. run F ?P (case x of (_, finishedAt, s) \<Rightarrow>
           Inr (if ?en then (if ret then arrived else finishedAt, setScheduling be True s) else (finishedAt, s))))
         (?ld (b, m, s3))) (evictCache g be m True s2)"
    proof (rule run_mono[OF evictCache_ok[OF h2(1) in_time_all]])
      fix s3 assume e: "going g ok n D (snd ` set rl) s3 \<and> shrunk g (gc_data s2) (gc_data s3) \<and> evict_empty g (gc_evict s3)
        \<and> (\<forall>pos a. slots_in g pos \<and> el2 (gc_evict s2) pos = Some a \<longrightarrow> free_since (\<lambda>t. True) (gc_data s3) a)
        \<and> (\<forall>a. lines_in g a \<and> free_since (\<lambda>t. True) (gc_data s2) a \<longrightarrow> free_since (\<lambda>t. True) (gc_data s3) a)"
      have "shrunk g (gc_data s2) (gc_data s3)" using e by blast
      from reserved_shrunk[OF h2(3) this] e have ld: "loading g ok n D rl [] s3" by (simp add: loading_def)
      show "run F (\<lambda>x. run F ?P (case x of (_, finishedAt, s) \<Rightarrow>
           Inr (if ?en then (if ret then arrived else finishedAt, setScheduling be True s) else (finishedAt, s)))) (?ld (b, m, s3))"
      proof (rule run_mono[OF load_lines_ok[OF ld, of ?lca]])
        fix x :: "nat \<times> nat \<times> 'f gcache"
        assume x: "case x of (b, m, s') \<Rightarrow> idle g ok n D s' \<and> fst ` set rl \<subseteq> read_pages g (drop n (gc_log s'))
          \<and> (?lca \<in> fst ` set rl \<and> fst ` set rl \<subseteq> {?lca} \<longrightarrow> cached g s' ?lca)"
        obtain b m s' where xx: "x = (b, m, s')" by (metis prod_cases3)
        have x': "idle g ok n D s'" "fst ` set rl \<subseteq> read_pages g (drop n (gc_log s'))"
          "?lca \<in> fst ` set rl \<and> fst ` set rl \<subseteq> {?lca} \<longrightarrow> cached g s' ?lca" using x xx by simp_all
        have "idle g ok n D (setScheduling be True s')" by (rule setScheduling_ok[OF x'(1)])
        with x' one xx show "run F ?P (case x of (_, finishedAt, s) \<Rightarrow>
           Inr (if ?en then (if ret then arrived else finishedAt, setScheduling be True s) else (finishedAt, s)))" by auto
      qed
    qed
    then show "run F ?P (?k st)" unfolding st by simp
  qed simp
  then show ?thesis unfolding fetch_lines_def Let_def by (simp add: split_def)
qed

end

context cache_over_ftl
begin

lemma read_hit_ok:
  assumes s: "idle g ok n D s" and c: "lines_in g c" and v: "ln_valid (el2 (gc_data s) c)"
  shows "\<exists>t f l. read_hit be req c tick s = Inr (t, s\<lparr>gc_data := up2 (gc_data s) c l, gc_below := f\<rparr>)
     \<and> idle g ok n D (s\<lparr>gc_data := up2 (gc_data s) c l, gc_below := f\<rparr>)
     \<and> ln_valid l \<and> ln_tag l = ln_tag (el2 (gc_data s) c)"
proof -
  have d: "data_dims g (gc_data s)" "placed g (gc_data s)" "unique_tags g (gc_data s)" "ok (gc_below s)"
    using s by (auto simp: idle_def cache_wf_def)
  let ?o = "el2 (gc_data s) c"
  let ?t = "if tick < ln_insertedAt ?o then ln_insertedAt ?o else tick"
  let ?l = "?o\<lparr>ln_lastAccessed := ?t, ln_accessCount := ln_accessCount ?o + 1\<rparr>"
  let ?s1 = "s\<lparr>gc_data := up2 (gc_data s) c ?l\<rparr>"
  have i1: "idle g ok n D ?s1"
  proof (rule idle_put[OF s c])
    show "calcSetIndex g (ln_tag ?l) = fst c" using d(2) c v by (simp add: placed_def)
    show "ln_tag (el2 (gc_data s) c') \<noteq> ln_tag ?l" if "lines_in g c'" "c' \<noteq> c" "ln_valid (el2 (gc_data s) c')" for c'
      using d(3) that c v unfolding unique_tags_def by auto
  qed (use v in auto)
  obtain t f where dr: "dram_read be (rq_length req) ?t ?s1 = (t, ?s1\<lparr>gc_below := f\<rparr>)" "ok f"
    using dram_read_ok[of ?s1 "rq_length req" ?t] d(4) by auto
  have "read_hit be req c tick s = Inr (t, ?s1\<lparr>gc_below := f\<rparr>)"
    using d(1) c dr(1) by (simp add: read_hit_def Let_def)
  moreover note idle_below[OF i1 dr(2)]
  moreover have "ln_valid ?l" "ln_tag ?l = ln_tag ?o" using v by simp_all
  ultimately show ?thesis by blast
qed

lemma call_read_idle:
  assumes s: "idle g ok n D s" and own: "lca \<in> call_reads g (FRead (fr_lpn r) (fr_ioFlag r))"
  shows "run F (\<lambda>(t, s'). idle g ok n D s' \<and> lca \<in> read_pages g (drop n (gc_log s'))) (call_read be r tick s)"
proof (cases "bl_read be r tick (gc_below s)")
  case (Inl e)
  then have "e \<in> F" unfolding below_faults_def by blast
  with Inl show ?thesis by (simp add: call_read_def)
next
  case (Inr y)
  obtain t f where y: "y = (t, f)" by (cases y)
  have "ok f" using keep_read[OF _ Inr[unfolded y]] s by (simp add: idle_def)
  moreover have "n \<le> length (gc_log s)" using s by (simp add: idle_def)
  ultimately show ?thesis using Inr y s own
    by (auto simp: call_read_def idle_def cache_wf_def dirty_pages_def simp del: call_reads.simps)
qed

lemma read_cached_ok:
  assumes s: "idle g ok n D s"
    and miss: "\<And>req' ret arrived t s1. idle g ok n D s1 \<Longrightarrow> run F (\<lambda>(hit, t', s'). hit = ret \<and> idle g ok n D s'
       \<and> (\<not> cached g s1 (rq_slpn req') \<and> \<not> sd_enabled (gc_detect s1)
            \<longrightarrow> cached g s' (rq_slpn req') \<and> rq_slpn req' \<in> read_pages g (drop n (gc_log s')))) (miss req' ret arrived t s1)"
  shows "run F (\<lambda>(hit, t, s'). idle g ok n D s' \<and> (\<not> gf_useReadPrefetch g \<and> cached g s (rq_slpn req)
      \<longrightarrow> hit \<and> cached g s' (rq_slpn req) \<and> gc_log s' = gc_log s)
      \<and> (\<not> gf_useReadPrefetch g \<and> \<not> cached g s (rq_slpn req) \<and> \<not> sd_enabled (gc_detect s)
      \<longrightarrow> \<not> hit \<and> cached g s' (rq_slpn req) \<and> rq_slpn req \<in> read_pages g (drop n (gc_log s'))))
    (read_cached g be miss req tick s)"
proof -
  let ?lca = "rq_slpn req" and ?off = "\<not> gf_useReadPrefetch g"
  let ?i = "calcSetIndex g ?lca"
  define s0 where "s0 = (if gf_useReadPrefetch g then s\<lparr>gc_detect := checkSequential g req (gc_detect s)\<rparr> else s)"
  have same: "gc_data s0 = gc_data s" "gc_log s0 = gc_log s" "\<not> gf_useReadPrefetch g \<Longrightarrow> s0 = s"
    by (simp_all add: s0_def)
  let ?P = "\<lambda>(hit, t :: nat, s'). idle g ok n D s' \<and> (?off \<and> cached g s ?lca \<longrightarrow> hit \<and> cached g s' ?lca \<and> gc_log s' = gc_log s)
      \<and> (?off \<and> \<not> cached g s ?lca \<and> \<not> sd_enabled (gc_detect s)
        \<longrightarrow> \<not> hit \<and> cached g s' ?lca \<and> ?lca \<in> read_pages g (drop n (gc_log s')))"
  have i0: "idle g ok n D s0" by (rule idle_cong[OF s]) (simp_all add: s0_def)
  have d: "data_dims g (gc_data s0)" using i0 by (simp add: idle_def cache_wf_def)
  obtain w u where w: "getValidWay g (gc_data s0) ?lca tick = Inr (w, u)" "w \<le> gf_waySize g"
    "w < gf_waySize g \<longrightarrow> ln_valid (el2 (gc_data s0) (?i, w)) \<and> ln_tag (el2 (gc_data s0) (?i, w)) = ?lca"
    "w = gf_waySize g \<longrightarrow> (\<forall>i < gf_waySize g. \<not> (ln_valid (el2 (gc_data s0) (?i, i)) \<and> ln_tag (el2 (gc_data s0) (?i, i)) = ?lca))"
    using getValidWay_ok[OF conf d, of ?lca tick] by blast
  let ?r = "if w \<noteq> gf_waySize g
             then rbind (read_hit be req (?i, w) u s0) (\<lambda>(tick, s).
                    if gf_useReadPrefetch g \<and> ?lca = gc_prefetchTrigger s
                    then miss (req\<lparr>rq_slpn := gc_lastPrefetched s\<rparr>) True tick u s
                    else Inr (True, tick, s))
             else miss req False tick u s0"
  have "run F ?P ?r"
  proof (cases "w = gf_waySize g")
    case True
    have "\<not> cached g s0 ?lca" using w(4) True by (auto simp: cached_def)
    then have nc: "\<not> cached g s0 ?lca \<and> \<not> cached g s ?lca" by (simp add: cached_def same(1))
    have "run F ?P (miss req False tick u s0)"
      by (rule run_mono[OF miss[OF i0, where req' = req and ret = False and arrived = tick and t = u]]) (use nc same(3) in auto)
    with True show ?thesis by simp
  next
    case False
    then have wl: "w < gf_waySize g" using w(2) by simp
    then have c: "lines_in g (?i, w)" using calcSetIndex_lt[OF conf] by (simp add: inside_def)
    have v: "ln_valid (el2 (gc_data s0) (?i, w))" "ln_tag (el2 (gc_data s0) (?i, w)) = ?lca" using w(3) wl by blast+
    obtain t f l where h: "read_hit be req (?i, w) u s0 = Inr (t, s0\<lparr>gc_data := up2 (gc_data s0) (?i, w) l, gc_below := f\<rparr>)"
      "idle g ok n D (s0\<lparr>gc_data := up2 (gc_data s0) (?i, w) l, gc_below := f\<rparr>)" "ln_valid l" "ln_tag l = ?lca"
      using read_hit_ok[OF i0 c v(1), of req u] v(2) by auto
    let ?s1 = "s0\<lparr>gc_data := up2 (gc_data s0) (?i, w) l, gc_below := f\<rparr>"
    have hit: "cached g s ?lca" using v wl by (auto simp: cached_def same(1))
    have "cached g ?s1 ?lca" by (rule cached_put(1)[OF d wl conf h(3,4)])
    then have done1: "?P (True, t, ?s1)" using h(2) hit same(2) by simp
    have pf: "run F ?P (miss (req\<lparr>rq_slpn := gc_lastPrefetched ?s1\<rparr>) True t u ?s1)" if "gf_useReadPrefetch g"
      by (rule run_mono[OF miss[OF h(2)]]) (use that in auto)
    have "run F ?P (if gf_useReadPrefetch g \<and> ?lca = gc_prefetchTrigger ?s1
        then miss (req\<lparr>rq_slpn := gc_lastPrefetched ?s1\<rparr>) True t u ?s1 else Inr (True, t, ?s1))"
    proof (cases "gf_useReadPrefetch g \<and> ?lca = gc_prefetchTrigger ?s1")
      case True
      then have "gf_useReadPrefetch g" by blast
      then show ?thesis unfolding if_P[OF True] by (rule pf)
    next
      case False
      show ?thesis unfolding if_not_P[OF False] run_Inr by (rule done1)
    qed
    then show ?thesis by (simp only: h(1) False rbind_Inr prod.case if_True not_False_eq_True)
  qed
  then have "run F (\<lambda>x. run F ?P (case x of (ret, tick, s) \<Rightarrow> Inr (ret, tick + gf_applyLatency g CPU_READ, s))) ?r"
    by (rule run_mono) auto
  with w(1) show ?thesis unfolding read_cached_def Let_def s0_def[symmetric] by simp
qed

theorem gc_read_ok:
  assumes s: "idle g ok n D s"
  shows "run F (\<lambda>(hit, t, s'). idle g ok n D s'
      \<and> (gf_useReadCaching g \<and> \<not> gf_useReadPrefetch g \<and> cached g s (rq_slpn req)
         \<longrightarrow> hit \<and> cached g s' (rq_slpn req) \<and> gc_log s' = gc_log s)
      \<and> (gf_useReadCaching g \<and> \<not> gf_useReadPrefetch g \<and> \<not> cached g s (rq_slpn req) \<and> \<not> sd_enabled (gc_detect s)
         \<longrightarrow> \<not> hit \<and> cached g s' (rq_slpn req) \<and> rq_slpn req \<in> read_pages g (drop n (gc_log s')))
      \<and> (\<not> gf_useReadCaching g \<longrightarrow> \<not> hit \<and> rq_slpn req \<in> read_pages g (drop n (gc_log s'))))
    (gc_read g be req tick s)"
proof -
  let ?P = "\<lambda>(hit, t :: nat, s'). idle g ok n D s'
      \<and> (gf_useReadCaching g \<and> \<not> gf_useReadPrefetch g \<and> cached g s (rq_slpn req)
         \<longrightarrow> hit \<and> cached g s' (rq_slpn req) \<and> gc_log s' = gc_log s)
      \<and> (gf_useReadCaching g \<and> \<not> gf_useReadPrefetch g \<and> \<not> cached g s (rq_slpn req) \<and> \<not> sd_enabled (gc_detect s)
         \<longrightarrow> \<not> hit \<and> cached g s' (rq_slpn req) \<and> rq_slpn req \<in> read_pages g (drop n (gc_log s')))
      \<and> (\<not> gf_useReadCaching g \<longrightarrow> \<not> hit \<and> rq_slpn req \<in> read_pages g (drop n (gc_log s')))"
  let ?miss = "\<lambda>req ret arrived tick s. rbind (ftl_request_of g (rq_slpn req)) (\<lambda>_.
                   rbind (fetch_lines g be True req ret arrived tick tick tick s) (\<lambda>(tick, s). Inr (ret, tick, s)))"
  let ?r = "if gf_useReadCaching g then read_cached g be ?miss req tick s
            else rbind (read_uncached g be req tick s) (\<lambda>(tick, s). Inr (False, tick, s))"
  have miss: "run F (\<lambda>(hit, t', s'). hit = ret \<and> idle g ok n D s'
       \<and> (\<not> cached g s1 (rq_slpn req') \<and> \<not> sd_enabled (gc_detect s1)
            \<longrightarrow> cached g s' (rq_slpn req') \<and> rq_slpn req' \<in> read_pages g (drop n (gc_log s')))) (?miss req' ret arrived t s1)"
    if "idle g ok n D s1" for req' ret arrived t s1
  proof -
    obtain b where "ftl_request_of g (rq_slpn req') = Inr \<lparr>fr_lpn = rq_slpn req' div L, fr_ioFlag = b\<rparr>"
      using ftl_request_of_ok[OF conf] by blast
    with fetch_lines_ok[OF that, of req' True ret arrived t t t] show ?thesis by (simp add: split_def)
  qed
  have "run F ?P ?r"
  proof (cases "gf_useReadCaching g")
    case True
    from read_cached_ok[OF s miss, where req = req and tick = tick] True show ?thesis by (simp add: split_def)
  next
    case False
    obtain b where b: "ftl_request_of g (rq_slpn req) = Inr \<lparr>fr_lpn = rq_slpn req div L, fr_ioFlag = b\<rparr>"
      "bs_elems b = {rq_slpn req mod L}" using ftl_request_of_ok[OF conf] by blast
    let ?q = "\<lparr>fr_lpn = rq_slpn req div L, fr_ioFlag = b\<rparr>"
    obtain t f where dw: "dram_write be (rq_length req) tick s = (t, s\<lparr>gc_below := f\<rparr>)" "ok f"
      using dram_write_ok[of s "rq_length req" tick] s by (auto simp: idle_def)
    have "rq_slpn req \<in> call_reads g (FRead (fr_lpn ?q) (fr_ioFlag ?q))"
      using call_reads_one[OF conf, of "rq_slpn req" b] b(2) by simp
    from call_read_idle[OF idle_below[OF s dw(2)] this, of t]
    have "run F (\<lambda>x. ?P (False, x)) (call_read be ?q t (s\<lparr>gc_below := f\<rparr>))"
      by (rule run_mono) (use False in auto)
    with b dw(1) False show ?thesis by (simp add: read_uncached_def split_def)
  qed
  then have "run F (\<lambda>x. run F ?P (case x of (ret, tick, s) \<Rightarrow> Inr (ret, tick, count_read ret s))) ?r"
  proof (rule run_mono)
    fix x :: "bool \<times> nat \<times> 'f gcache" assume x: "?P x"
    obtain hit t s1 where xx: "x = (hit, t, s1)" by (metis prod_cases3)
    have "idle g ok n D (count_read hit s1)" by (rule idle_cong[of g ok n D s1]) (use x xx in \<open>auto simp: count_read_def\<close>)
    then show "run F ?P (case x of (ret, tick, s) \<Rightarrow> Inr (ret, tick, count_read ret s))"
      using x xx by (simp add: count_read_def cached_def)
  qed
  then show ?thesis unfolding gc_read_def by simp
qed

end

end
