(* ===== verification/Icl_Flush.thy ===== *)
theory Icl_Flush
  imports Icl_Reads
begin

text \<open>
  Flushing and trimming. Neither clears the dirty flag of a line, and neither looks at its valid flag:
  a flush writes every line of the range with a dirty flag, the trimmed ones as well.
\<close>

section \<open>Lines that keep their tags and their dirty flags\<close>

definition steady :: "gconf \<Rightarrow> cdata \<Rightarrow> cdata \<Rightarrow> bool" where
  "steady g d d' \<longleftrightarrow> data_dims g d' \<and> (\<forall>c. lines_in g c \<longrightarrow> ln_tag (el2 d' c) = ln_tag (el2 d c)
     \<and> (ln_dirty (el2 d c) \<longrightarrow> ln_dirty (el2 d' c)) \<and> (ln_valid (el2 d' c) \<longrightarrow> ln_valid (el2 d c)))"

text \<open>The addresses of the lines with a dirty flag, valid or not.\<close>

definition dirty_tags :: "gconf \<Rightarrow> 'f gcache \<Rightarrow> nat set" where
  "dirty_tags g s = {ln_tag (el2 (gc_data s) c) | c. lines_in g c \<and> ln_dirty (el2 (gc_data s) c)}"

lemma steady_refl: "data_dims g d \<Longrightarrow> steady g d d"
  by (simp add: steady_def)

lemma steadyD:
  assumes "steady g d d'"
  shows "data_dims g d'" "lines_in g c \<Longrightarrow> ln_tag (el2 d' c) = ln_tag (el2 d c)"
    "lines_in g c \<Longrightarrow> ln_dirty (el2 d c) \<Longrightarrow> ln_dirty (el2 d' c)" "lines_in g c \<Longrightarrow> ln_valid (el2 d' c) \<Longrightarrow> ln_valid (el2 d c)"
  using assms unfolding steady_def by blast+

lemma steady_trans:
  assumes "steady g a b" "steady g b c" shows "steady g a c"
  unfolding steady_def
proof (intro conjI allI impI)
  show "data_dims g c" by (rule steadyD(1)[OF assms(2)])
  show "ln_tag (el2 c p) = ln_tag (el2 a p)" if "lines_in g p" for p
    using steadyD(2)[OF assms(1) that] steadyD(2)[OF assms(2) that] by simp
  show "ln_dirty (el2 c p)" if "lines_in g p" "ln_dirty (el2 a p)" for p
    by (rule steadyD(3)[OF assms(2) that(1) steadyD(3)[OF assms(1) that]])
  show "ln_valid (el2 a p)" if "lines_in g p" "ln_valid (el2 c p)" for p
    by (rule steadyD(4)[OF assms(1) that(1) steadyD(4)[OF assms(2) that]])
qed

lemma marked_steady:
  assumes m: "marked g d d'" shows "steady g d d'"
  unfolding steady_def
proof (intro conjI allI impI)
  show "data_dims g d'" using m by (simp add: marked_def)
  show "ln_tag (el2 d' c) = ln_tag (el2 d c)" if "lines_in g c" for c by (rule marked_fields(1)[OF m that])
  show "ln_dirty (el2 d' c)" if "lines_in g c" "ln_dirty (el2 d c)" for c by (rule marked_fields(4)[OF m that])
  show "ln_valid (el2 d c)" if "lines_in g c" "ln_valid (el2 d' c)" for c using marked_fields(2)[OF m that(1)] that(2) by simp
qed

lemma steady_invalid:
  assumes "data_dims g d" "lines_in g c"
  shows "steady g d (up2 d c ((el2 d c)\<lparr>ln_valid := False\<rparr>))"
  using assms by (auto simp: steady_def el2_up2)

lemma steady_tags: "steady g (gc_data s) (gc_data s') \<Longrightarrow> dirty_tags g s \<subseteq> dirty_tags g s'"
proof
  fix t assume st: "steady g (gc_data s) (gc_data s')" and "t \<in> dirty_tags g s"
  then obtain c where c: "lines_in g c" "ln_dirty (el2 (gc_data s) c)" "t = ln_tag (el2 (gc_data s) c)"
    by (auto simp: dirty_tags_def)
  with steadyD(2,3)[OF st c(1)] show "t \<in> dirty_tags g s'" unfolding dirty_tags_def by (auto intro!: exI[of _ c])
qed

text \<open>What holds of the state of a flush or a trim that started with the lines \<^verbatim>\<open>d\<close>.\<close>

definition sweep :: "gconf \<Rightarrow> ('f \<Rightarrow> bool) \<Rightarrow> nat \<Rightarrow> cdata \<Rightarrow> 'f gcache \<Rightarrow> bool" where
  "sweep g ok n d s \<longleftrightarrow> steady g d (gc_data s) \<and> ok (gc_below s) \<and> n \<le> length (gc_log s)"

definition flags_ok :: "gconf \<Rightarrow> bitset \<Rightarrow> bool" where
  "flags_ok g b \<longleftrightarrow> bs_wf b \<and> bs_dataSize b = gf_lineCountInSuperPage g"

lemma flags_set: "conf_ok g \<Longrightarrow> flags_ok g b \<Longrightarrow> \<exists>b'. bs_set b (t mod gf_lineCountInSuperPage g) True = Inr b' \<and> flags_ok g b' \<and> t mod gf_lineCountInSuperPage g \<in> bs_elems b'"
  unfolding flags_ok_def using bs_set_ok[of b "t mod gf_lineCountInSuperPage g" True] by (auto simp: conf_ok_def)

lemma flags_new: "flags_ok g (bs_new (gf_lineCountInSuperPage g))"
  unfolding flags_ok_def using bs_new_wf by simp

section \<open>Flush\<close>

context cache_over_ftl
begin

lemma sweep_write:
  assumes "sweep g ok n d s"
  shows "run F (\<lambda>(t, s'). sweep g ok n d s' \<and> marked g (gc_data s) (gc_data s')
      \<and> written_pages g (drop n (gc_log s)) \<union> call_writes g (FWrite (fr_lpn r) (fr_ioFlag r)) = written_pages g (drop n (gc_log s')))
    (call_write g be r tick s)"
proof (cases "bl_write be (updateDirty g) r tick (gc_below s, gc_data s)")
  case (Inl x)
  then have "x \<in> F" unfolding below_faults_def by blast
  with Inl show ?thesis by (simp add: call_write_def)
next
  case (Inr y)
  obtain t f dd where y: "y = (t, f, dd)" by (cases y)
  note w = Inr[unfolded y]
  have s: "steady g d (gc_data s)" "ok (gc_below s)" "n \<le> length (gc_log s)" using assms by (auto simp: sweep_def)
  have m: "marked g (gc_data s) dd" by (rule callbacks_marked[OF conf steadyD(1)[OF s(1)] write_calls_back[OF w]])
  have "steady g d dd" by (rule steady_trans[OF s(1) marked_steady[OF m]])
  moreover have "ok f" by (rule keep_write[OF s(2) w])
  ultimately show ?thesis using w m s(3) by (simp add: call_write_def sweep_def del: call_writes.simps)
qed

lemma sweep_trim:
  assumes "sweep g ok n d s"
  shows "run F (\<lambda>(t, s'). sweep g ok n d s' \<and> gc_data s' = gc_data s) (call_trim be r tick s)"
proof (cases "bl_trim be r tick (gc_below s)")
  case (Inl x)
  then have "x \<in> F" unfolding below_faults_def by blast
  with Inl show ?thesis by (simp add: call_trim_def)
next
  case (Inr y)
  obtain t f where y: "y = (t, f)" by (cases y)
  have "ok f" using keep_trim[OF _ Inr[unfolded y]] assms by (simp add: sweep_def)
  with Inr y assms show ?thesis by (simp add: call_trim_def sweep_def)
qed

lemma sweep_invalid:
  assumes "sweep g ok n d s" "lines_in g c"
  shows "sweep g ok n d (s\<lparr>gc_data := up2 (gc_data s) c ((el2 (gc_data s) c)\<lparr>ln_valid := False\<rparr>)\<rparr>)"
proof -
  have s: "steady g d (gc_data s)" using assms(1) by (simp add: sweep_def)
  from steady_trans[OF s steady_invalid[OF steadyD(1)[OF s] assms(2)]] assms(1) show ?thesis
    by (simp add: sweep_def)
qed

end

context cache_over_ftl
begin

lemma flush_line_ok:
  assumes s: "sweep g ok n d s" and b: "flags_ok g b" and c: "lines_in g c"
  shows "run F (\<lambda>(t, m, b', s'). sweep g ok n d s' \<and> flags_ok g b' \<and> steady g (gc_data s) (gc_data s')
      \<and> written_pages g (drop n (gc_log s)) \<subseteq> written_pages g (drop n (gc_log s'))
      \<and> (in_range slpn nlp (ln_tag (el2 d c)) \<longrightarrow> \<not> ln_valid (el2 (gc_data s') c)
          \<and> (ln_dirty (el2 d c) \<longrightarrow> ln_tag (el2 d c) \<in> written_pages g (drop n (gc_log s')))))
    (flush_line g be slpn nlp c (tick, m0, b, s))"
proof -
  have st: "steady g d (gc_data s)" using s by (simp add: sweep_def)
  have dims: "data_dims g (gc_data s)" by (rule steadyD(1)[OF st])
  let ?l = "el2 (gc_data s) c" and ?W = "\<lambda>s. written_pages g (drop n (gc_log s))"
  have tag: "ln_tag ?l = ln_tag (el2 d c)" by (rule steadyD(2)[OF st c])
  let ?P = "\<lambda>(t :: nat, m :: nat, b', s'). sweep g ok n d s' \<and> flags_ok g b' \<and> steady g (gc_data s) (gc_data s')
      \<and> ?W s \<subseteq> ?W s'
      \<and> (in_range slpn nlp (ln_tag (el2 d c)) \<longrightarrow> \<not> ln_valid (el2 (gc_data s') c)
          \<and> (ln_dirty (el2 d c) \<longrightarrow> ln_tag (el2 d c) \<in> ?W s'))"
  show ?thesis
  proof (cases "in_range slpn nlp (ln_tag ?l)")
    case False
    with s b c dims tag show ?thesis by (simp add: flush_line_def Let_def steady_refl)
  next
    case True
    let ?k = "\<lambda>(m, b, s1). rbind (mod2 (gc_data s1) c (\<lambda>l. l\<lparr>ln_valid := False\<rparr>)) (\<lambda>d'.
            Inr (tick + lat8 g, m, b, s1\<lparr>gc_data := d'\<rparr>))"
    have k: "run F ?P (?k (m, b1, s1))" if s1: "sweep g ok n d s1" "flags_ok g b1" "steady g (gc_data s) (gc_data s1)"
      "?W s \<subseteq> ?W s1" "ln_dirty ?l \<longrightarrow> ln_tag ?l \<in> ?W s1" for m b1 s1
    proof -
      have d1: "data_dims g (gc_data s1)" by (rule steadyD(1)[OF s1(3)])
      have "ln_dirty (el2 d c) \<longrightarrow> ln_tag (el2 d c) \<in> ?W s1"
        using s1(5) steadyD(3)[OF st c] tag by auto
      moreover note steady_trans[OF s1(3) steady_invalid[OF d1 c]] sweep_invalid[OF s1(1) c]
      ultimately show ?thesis using d1 c s1(2,4) by (simp add: el2_up2)
    qed
    show ?thesis
    proof (cases "ln_dirty ?l")
      case False
      from k[OF s b steady_refl[OF dims], of m0] False True dims c show ?thesis
        by (simp add: flush_line_def Let_def)
    next
      case dirty: True
      obtain b' where b': "bs_set b (ln_tag ?l mod L) True = Inr b'" "flags_ok g b'" "ln_tag ?l mod L \<in> bs_elems b'"
        using flags_set[OF conf b, of "ln_tag ?l"] by blast
      let ?r = "\<lparr>fr_lpn = ln_tag ?l div L, fr_ioFlag = b'\<rparr>"
      have own: "ln_tag ?l \<in> call_writes g (FWrite (fr_lpn ?r) (fr_ioFlag ?r))"
        using call_writes_one[OF conf b'(3)] by simp
      have "run F (\<lambda>x. run F ?P (case x of (t, s1) \<Rightarrow> ?k (max m0 t, b', s1))) (call_write g be ?r (tick + lat8 g) s)"
      proof (rule run_mono[OF sweep_write[OF s]])
        fix x :: "nat \<times> 'f gcache"
        assume x: "case x of (t, s') \<Rightarrow> sweep g ok n d s' \<and> marked g (gc_data s) (gc_data s')
          \<and> ?W s \<union> call_writes g (FWrite (fr_lpn ?r) (fr_ioFlag ?r)) = ?W s'"
        obtain t s1 where xx: "x = (t, s1)" by (cases x)
        have h: "sweep g ok n d s1" "marked g (gc_data s) (gc_data s1)"
          "?W s \<union> call_writes g (FWrite (fr_lpn ?r) (fr_ioFlag ?r)) = ?W s1" using x xx by auto
        have "run F ?P (?k (max m0 t, b', s1))"
          by (rule k[OF h(1) b'(2) marked_steady[OF h(2)]]) (use h(3) own in blast)+
        then show "run F ?P (case x of (t, s1) \<Rightarrow> ?k (max m0 t, b', s1))" by (simp add: xx)
      qed
      with True dirty dims c b'(1) show ?thesis by (simp add: flush_line_def Let_def split_def)
    qed
  qed
qed

text \<open>A flush writes every line of the range whose dirty flag is set, valid or not, and afterwards
  none of the range is cached. The dirty flags stay.\<close>

theorem gc_flush_ok:
  assumes d: "data_dims g (gc_data s)" "ok (gc_below s)" and on: "gf_useReadCaching g \<or> gf_useWriteCaching g"
  shows "run F (\<lambda>(t, s'). steady g (gc_data s) (gc_data s') \<and> ok (gc_below s')
      \<and> (\<forall>lca \<in> dirty_tags g s. in_range slpn nlp lca \<longrightarrow> lca \<in> written_pages g (drop (length (gc_log s)) (gc_log s')))
      \<and> (\<forall>lca. in_range slpn nlp lca \<longrightarrow> \<not> cached g s' lca))
    (gc_flush g be slpn nlp tick s)"
proof -
  let ?n = "length (gc_log s)" and ?d = "gc_data s"
  let ?W = "\<lambda>s'. written_pages g (drop ?n (gc_log s'))"
  let ?I = "\<lambda>ps (t :: nat, m :: nat, b, s'). sweep g ok ?n ?d s' \<and> flags_ok g b
      \<and> (\<forall>c \<in> set ps. in_range slpn nlp (ln_tag (el2 ?d c)) \<longrightarrow> \<not> ln_valid (el2 (gc_data s') c)
          \<and> (ln_dirty (el2 ?d c) \<longrightarrow> ln_tag (el2 ?d c) \<in> ?W s'))"
  let ?ps = "positions (gf_setSize g) (gf_waySize g)"
  have "run F (?I ?ps) (rfold (flush_line g be slpn nlp) ?ps (tick, tick, bs_new L, s))"
  proof (rule run_rfold_index[where I = ?I])
    show "?I [] (tick, tick, bs_new L, s)" using d by (simp add: sweep_def steady_refl flags_new)
  next
    fix ps c zs and x :: "nat \<times> nat \<times> bitset \<times> 'f gcache"
    assume split: "?ps = ps @ c # zs" and I: "?I ps x"
    obtain t m b s1 where x: "x = (t, m, b, s1)" by (metis prod_cases4)
    have c: "lines_in g c" using split by (metis in_set_conv_decomp set_positions)
    have psl: "lines_in g p" if "p \<in> set ps" for p using split that by (metis in_set_conv_decomp set_positions append.assoc append_Cons)
    have h: "sweep g ok ?n ?d s1" "flags_ok g b" and old: "\<And>p. p \<in> set ps \<Longrightarrow> in_range slpn nlp (ln_tag (el2 ?d p))
        \<Longrightarrow> \<not> ln_valid (el2 (gc_data s1) p) \<and> (ln_dirty (el2 ?d p) \<longrightarrow> ln_tag (el2 ?d p) \<in> ?W s1)"
      using I unfolding x by auto
    show "run F (?I (ps @ [c])) (flush_line g be slpn nlp c x)"
      unfolding x
    proof (rule run_mono[OF flush_line_ok[OF h c]])
      fix y :: "nat \<times> nat \<times> bitset \<times> 'f gcache"
      assume y: "case y of (t, m, b', s') \<Rightarrow> sweep g ok ?n ?d s' \<and> flags_ok g b' \<and> steady g (gc_data s1) (gc_data s')
        \<and> ?W s1 \<subseteq> ?W s'
        \<and> (in_range slpn nlp (ln_tag (el2 ?d c)) \<longrightarrow> \<not> ln_valid (el2 (gc_data s') c)
            \<and> (ln_dirty (el2 ?d c) \<longrightarrow> ln_tag (el2 ?d c) \<in> ?W s'))"
      obtain t' m' b' s2 where yy: "y = (t', m', b', s2)" by (metis prod_cases4)
      have y': "sweep g ok ?n ?d s2" "flags_ok g b'" "steady g (gc_data s1) (gc_data s2)" "?W s1 \<subseteq> ?W s2"
        "in_range slpn nlp (ln_tag (el2 ?d c)) \<longrightarrow> \<not> ln_valid (el2 (gc_data s2) c)
            \<and> (ln_dirty (el2 ?d c) \<longrightarrow> ln_tag (el2 ?d c) \<in> ?W s2)" using y yy by simp_all
      have "\<not> ln_valid (el2 (gc_data s2) p) \<and> (ln_dirty (el2 ?d p) \<longrightarrow> ln_tag (el2 ?d p) \<in> ?W s2)"
        if "p \<in> set (ps @ [c])" "in_range slpn nlp (ln_tag (el2 ?d p))" for p
      proof (cases "p = c")
        case True
        then show ?thesis using y'(5) that(2) by blast
      next
        case False
        then have p: "p \<in> set ps" using that(1) by simp
        show ?thesis using old[OF p that(2)] steadyD(4)[OF y'(3) psl[OF p]] y'(4) by blast
      qed
      then show "?I (ps @ [c]) y" using y'(1,2) yy by simp
    qed
  qed
  then have "run F (\<lambda>x. run F (\<lambda>(t, s'). steady g ?d (gc_data s') \<and> ok (gc_below s')
      \<and> (\<forall>lca \<in> dirty_tags g s. in_range slpn nlp lca \<longrightarrow> lca \<in> ?W s') \<and> (\<forall>lca. in_range slpn nlp lca \<longrightarrow> \<not> cached g s' lca))
      (case x of (tick, finishedAt, b, s) \<Rightarrow> Inr (max tick finishedAt + gf_applyLatency g CPU_FLUSH, s)))
      (rfold (flush_line g be slpn nlp) ?ps (tick, tick, bs_new L, s))"
  proof (rule run_mono)
    fix x :: "nat \<times> nat \<times> bitset \<times> 'f gcache" assume I: "?I ?ps x"
    obtain t m b s1 where x: "x = (t, m, b, s1)" by (metis prod_cases4)
    have st: "steady g ?d (gc_data s1)" "ok (gc_below s1)" using I unfolding x by (auto simp: sweep_def)
    have all: "\<not> ln_valid (el2 (gc_data s1) c) \<and> (ln_dirty (el2 ?d c) \<longrightarrow> ln_tag (el2 ?d c) \<in> ?W s1)"
      if "lines_in g c" "in_range slpn nlp (ln_tag (el2 ?d c))" for c using I that unfolding x by simp
    have "lca \<in> ?W s1" if "lca \<in> dirty_tags g s" "in_range slpn nlp lca" for lca
      using that all unfolding dirty_tags_def by blast
    moreover have "\<not> cached g s1 lca" if r: "in_range slpn nlp lca" for lca
    proof
      assume "cached g s1 lca"
      then obtain w where w: "w < gf_waySize g" "ln_valid (el2 (gc_data s1) (calcSetIndex g lca, w))"
        "ln_tag (el2 (gc_data s1) (calcSetIndex g lca, w)) = lca" unfolding cached_def by blast
      have c: "lines_in g (calcSetIndex g lca, w)" using w(1) calcSetIndex_lt[OF conf] by (simp add: inside_def)
      show False using all[OF c] w(2,3) steadyD(2)[OF st(1) c] r by simp
    qed
    ultimately show "run F (\<lambda>(t, s'). steady g ?d (gc_data s') \<and> ok (gc_below s')
      \<and> (\<forall>lca \<in> dirty_tags g s. in_range slpn nlp lca \<longrightarrow> lca \<in> ?W s') \<and> (\<forall>lca. in_range slpn nlp lca \<longrightarrow> \<not> cached g s' lca))
      (case x of (tick, finishedAt, b, s) \<Rightarrow> Inr (max tick finishedAt + gf_applyLatency g CPU_FLUSH, s))"
      using st x by simp
  qed
  then show ?thesis unfolding gc_flush_def using on by simp
qed

end

section \<open>Trim\<close>

lemma written_drop: "m \<le> n \<Longrightarrow> written_pages g (drop n cs) \<subseteq> written_pages g (drop m cs)"
  unfolding written_pages_def using set_drop_subset_set_drop[of m n cs] by blast

context cache_over_ftl
begin

lemma trim_line_ok:
  assumes s: "sweep g ok n d s" and b: "flags_ok g b" and c: "lines_in g c"
  shows "run F (\<lambda>(t, m, b', s'). sweep g ok n d s' \<and> flags_ok g b' \<and> steady g (gc_data s) (gc_data s')
      \<and> (in_range slpn nlp (ln_tag (el2 d c)) \<longrightarrow> \<not> ln_valid (el2 (gc_data s') c)))
    (trim_line g be slpn nlp c (tick, m0, b, s))"
proof -
  have st: "steady g d (gc_data s)" using s by (simp add: sweep_def)
  have dims: "data_dims g (gc_data s)" by (rule steadyD(1)[OF st])
  let ?l = "el2 (gc_data s) c"
  have tag: "ln_tag ?l = ln_tag (el2 d c)" by (rule steadyD(2)[OF st c])
  show ?thesis
  proof (cases "in_range slpn nlp (ln_tag ?l)")
    case False
    with s b c dims tag show ?thesis by (simp add: trim_line_def Let_def steady_refl)
  next
    case True
    obtain b' where b': "bs_set b (ln_tag ?l mod L) True = Inr b'" "flags_ok g b'"
      using flags_set[OF conf b, of "ln_tag ?l"] by blast
    let ?r = "\<lparr>fr_lpn = ln_tag ?l div L, fr_ioFlag = b'\<rparr>"
    let ?P = "\<lambda>(t :: nat, m :: nat, b', s'). sweep g ok n d s' \<and> flags_ok g b' \<and> steady g (gc_data s) (gc_data s')
      \<and> (in_range slpn nlp (ln_tag (el2 d c)) \<longrightarrow> \<not> ln_valid (el2 (gc_data s') c))"
    let ?k = "\<lambda>(t, s1). rbind (mod2 (gc_data s1) c (\<lambda>l. l\<lparr>ln_valid := False\<rparr>)) (\<lambda>d'.
            Inr (tick + lat8 g, max m0 t, b', s1\<lparr>gc_data := d'\<rparr>))"
    have "run F (\<lambda>x. run F ?P (?k x)) (call_trim be ?r (tick + lat8 g) s)"
    proof (rule run_mono[OF sweep_trim[OF s]])
      fix x :: "nat \<times> 'f gcache"
      assume x: "case x of (t, s') \<Rightarrow> sweep g ok n d s' \<and> gc_data s' = gc_data s"
      obtain t s1 where xx: "x = (t, s1)" by (cases x)
      have h: "sweep g ok n d s1" "gc_data s1 = gc_data s" using x xx by auto
      from steady_invalid[OF dims c] sweep_invalid[OF h(1) c] h(2) dims c b'(2)
      show "run F ?P (?k x)" by (simp add: xx el2_up2)
    qed
    with True dims c b'(1) show ?thesis by (simp add: trim_line_def Let_def split_def)
  qed
qed

text \<open>After a trim none of the range is cached, but the dirty flags and the tags stay.\<close>

theorem gc_trim_ok:
  assumes d: "data_dims g (gc_data s)" "ok (gc_below s)" and on: "gf_useReadCaching g \<or> gf_useWriteCaching g"
  shows "run F (\<lambda>(t, s'). steady g (gc_data s) (gc_data s') \<and> ok (gc_below s') \<and> length (gc_log s) \<le> length (gc_log s')
      \<and> (\<forall>lca. in_range slpn nlp lca \<longrightarrow> \<not> cached g s' lca))
    (gc_trim g be slpn nlp tick s)"
proof -
  let ?n = "length (gc_log s)" and ?d = "gc_data s"
  let ?I = "\<lambda>ps (t :: nat, m :: nat, b, s'). sweep g ok ?n ?d s' \<and> flags_ok g b
      \<and> (\<forall>c \<in> set ps. in_range slpn nlp (ln_tag (el2 ?d c)) \<longrightarrow> \<not> ln_valid (el2 (gc_data s') c))"
  let ?ps = "positions (gf_setSize g) (gf_waySize g)"
  have "run F (?I ?ps) (rfold (trim_line g be slpn nlp) ?ps (tick, tick, bs_new L, s))"
  proof (rule run_rfold_index[where I = ?I])
    show "?I [] (tick, tick, bs_new L, s)" using d by (simp add: sweep_def steady_refl flags_new)
  next
    fix ps c zs and x :: "nat \<times> nat \<times> bitset \<times> 'f gcache"
    assume split: "?ps = ps @ c # zs" and I: "?I ps x"
    obtain t m b s1 where x: "x = (t, m, b, s1)" by (metis prod_cases4)
    have c: "lines_in g c" using split by (metis in_set_conv_decomp set_positions)
    have psl: "lines_in g p" if "p \<in> set ps" for p using split that by (metis in_set_conv_decomp set_positions append.assoc append_Cons)
    have h: "sweep g ok ?n ?d s1" "flags_ok g b" and old: "\<And>p. p \<in> set ps \<Longrightarrow> in_range slpn nlp (ln_tag (el2 ?d p))
        \<Longrightarrow> \<not> ln_valid (el2 (gc_data s1) p)" using I unfolding x by auto
    show "run F (?I (ps @ [c])) (trim_line g be slpn nlp c x)"
      unfolding x
    proof (rule run_mono[OF trim_line_ok[OF h c]])
      fix y :: "nat \<times> nat \<times> bitset \<times> 'f gcache"
      assume y: "case y of (t, m, b', s') \<Rightarrow> sweep g ok ?n ?d s' \<and> flags_ok g b' \<and> steady g (gc_data s1) (gc_data s')
        \<and> (in_range slpn nlp (ln_tag (el2 ?d c)) \<longrightarrow> \<not> ln_valid (el2 (gc_data s') c))"
      obtain t' m' b' s2 where yy: "y = (t', m', b', s2)" by (metis prod_cases4)
      have y': "sweep g ok ?n ?d s2" "flags_ok g b'" "steady g (gc_data s1) (gc_data s2)"
        "in_range slpn nlp (ln_tag (el2 ?d c)) \<longrightarrow> \<not> ln_valid (el2 (gc_data s2) c)" using y yy by simp_all
      have "\<not> ln_valid (el2 (gc_data s2) p)" if "p \<in> set (ps @ [c])" "in_range slpn nlp (ln_tag (el2 ?d p))" for p
      proof (cases "p = c")
        case True
        then show ?thesis using y'(4) that(2) by blast
      next
        case False
        then have p: "p \<in> set ps" using that(1) by simp
        show ?thesis using old[OF p that(2)] steadyD(4)[OF y'(3) psl[OF p]] by blast
      qed
      then show "?I (ps @ [c]) y" using y'(1,2) yy by simp
    qed
  qed
  then have "run F (\<lambda>x. run F (\<lambda>(t, s'). steady g ?d (gc_data s') \<and> ok (gc_below s') \<and> ?n \<le> length (gc_log s')
      \<and> (\<forall>lca. in_range slpn nlp lca \<longrightarrow> \<not> cached g s' lca))
      (case x of (tick, finishedAt, b, s) \<Rightarrow> Inr (max tick finishedAt + gf_applyLatency g CPU_TRIM, s)))
      (rfold (trim_line g be slpn nlp) ?ps (tick, tick, bs_new L, s))"
  proof (rule run_mono)
    fix x :: "nat \<times> nat \<times> bitset \<times> 'f gcache" assume I: "?I ?ps x"
    obtain t m b s1 where x: "x = (t, m, b, s1)" by (metis prod_cases4)
    have st: "steady g ?d (gc_data s1)" "ok (gc_below s1)" "?n \<le> length (gc_log s1)" using I unfolding x by (auto simp: sweep_def)
    have all: "\<not> ln_valid (el2 (gc_data s1) c)" if "lines_in g c" "in_range slpn nlp (ln_tag (el2 ?d c))" for c
      using I that unfolding x by simp
    have "\<not> cached g s1 lca" if r: "in_range slpn nlp lca" for lca
    proof
      assume "cached g s1 lca"
      then obtain w where w: "w < gf_waySize g" "ln_valid (el2 (gc_data s1) (calcSetIndex g lca, w))"
        "ln_tag (el2 (gc_data s1) (calcSetIndex g lca, w)) = lca" unfolding cached_def by blast
      have c: "lines_in g (calcSetIndex g lca, w)" using w(1) calcSetIndex_lt[OF conf] by (simp add: inside_def)
      show False using all[OF c] w(2,3) steadyD(2)[OF st(1) c] r by simp
    qed
    then show "run F (\<lambda>(t, s'). steady g ?d (gc_data s') \<and> ok (gc_below s') \<and> ?n \<le> length (gc_log s')
      \<and> (\<forall>lca. in_range slpn nlp lca \<longrightarrow> \<not> cached g s' lca))
      (case x of (tick, finishedAt, b, s) \<Rightarrow> Inr (max tick finishedAt + gf_applyLatency g CPU_TRIM, s))"
      using st x by simp
  qed
  then show ?thesis unfolding gc_trim_def using on by simp
qed

text \<open>So a flush after a trim writes the trimmed pages to the FTL again.\<close>

theorem trim_then_flush:
  assumes d: "data_dims g (gc_data s)" "ok (gc_below s)" and on: "gf_useReadCaching g \<or> gf_useWriteCaching g"
  shows "run F (\<lambda>(t, s'). \<forall>lca \<in> dirty_tags g s. in_range slpn nlp lca
      \<longrightarrow> lca \<in> written_pages g (drop (length (gc_log s)) (gc_log s')))
    (rbind (gc_trim g be slpn nlp tick s) (\<lambda>(t, s1). gc_flush g be slpn nlp t s1))"
  unfolding run_bind
proof (rule run_mono[OF gc_trim_ok[OF assms]])
  fix x :: "nat \<times> 'f gcache"
  assume x: "case x of (t, s') \<Rightarrow> steady g (gc_data s) (gc_data s') \<and> ok (gc_below s') \<and> length (gc_log s) \<le> length (gc_log s')
      \<and> (\<forall>lca. in_range slpn nlp lca \<longrightarrow> \<not> cached g s' lca)"
  obtain t s1 where xx: "x = (t, s1)" by (cases x)
  have h: "steady g (gc_data s) (gc_data s1)" "ok (gc_below s1)" "length (gc_log s) \<le> length (gc_log s1)" using x xx by auto
  have tags: "dirty_tags g s \<subseteq> dirty_tags g s1" by (rule steady_tags[OF h(1)])
  have "run F (\<lambda>(t, s'). \<forall>lca \<in> dirty_tags g s. in_range slpn nlp lca
      \<longrightarrow> lca \<in> written_pages g (drop (length (gc_log s)) (gc_log s'))) (gc_flush g be slpn nlp t s1)"
    by (rule run_mono[OF gc_flush_ok[OF steadyD(1)[OF h(1)] h(2) on]])
       (use tags written_drop[OF h(3)] in blast)
  then show "run F (\<lambda>(t, s'). \<forall>lca \<in> dirty_tags g s. in_range slpn nlp lca
      \<longrightarrow> lca \<in> written_pages g (drop (length (gc_log s)) (gc_log s')))
      (case x of (t, s1) \<Rightarrow> gc_flush g be slpn nlp t s1)" by (simp add: xx)
qed

end

end
