(* ===== verification/Icl_Props.thy ===== *)
theory Icl_Props
  imports Icl_Flush "HOL-Library.Code_Target_Nat"
begin

text \<open>
  The properties of the cache of the internal cache layer, over any layer below that keeps the laws
  of \<^verbatim>\<open>layer_below\<close>, and their instances at a cache with one set of two ways.
\<close>

declare split_paired_All [simp del] split_paired_Ex [simp del]

section \<open>Sequences of requests\<close>

datatype icl_op = OpRead icl_request nat | OpWrite icl_request nat

fun icl_op_step :: "gconf \<Rightarrow> 'f below \<Rightarrow> icl_op \<Rightarrow> 'f gcache \<Rightarrow> 'f gcache res" where
  "icl_op_step g be (OpRead req t) s = rbind (gc_read g be req t s) (\<lambda>(hit, t, s). Inr s)"
| "icl_op_step g be (OpWrite req t) s = rbind (gc_write g be req t s) (\<lambda>(hit, t, s). Inr s)"

definition icl_run :: "gconf \<Rightarrow> 'f below \<Rightarrow> icl_op list \<Rightarrow> 'f \<Rightarrow> 'f gcache res" where
  "icl_run g be ops f = rfold (icl_op_step g be) ops (GenericCache_new g f)"

fun op_written :: "icl_op \<Rightarrow> nat set" where
  "op_written (OpRead req t) = {}"
| "op_written (OpWrite req t) = {rq_slpn req}"

lemma GenericCache_new_line [simp]: "lines_in g c \<Longrightarrow> el2 (gc_data (GenericCache_new g f)) c = Line_new"
  by (simp add: GenericCache_new_def)

lemma GenericCache_new_idle:
  assumes "conf_ok g" "ok f"
  shows "idle g ok 0 {} (GenericCache_new g f)"
  using assms by (auto simp: idle_def cache_wf_def GenericCache_new_def placed_def unique_tags_def
      evict_empty_def Line_new_def)

context cache_over_ftl
begin

lemma icl_op_step_ok:
  assumes "idle g ok n D s"
  shows "run (insert (Panic ''Cache corrupted!'') F) (idle g ok n (D \<union> op_written op)) (icl_op_step g be op s)"
proof (cases op)
  case (OpRead req t)
  have "run F (\<lambda>x. run (insert (Panic ''Cache corrupted!'') F) (idle g ok n D) (case x of (hit, t, s) \<Rightarrow> Inr s)) (gc_read g be req t s)"
    by (rule run_mono[OF gc_read_ok[OF assms]]) auto
  then show ?thesis by (auto simp: OpRead intro: run_faults)
next
  case (OpWrite req t)
  have "run (insert (Panic ''Cache corrupted!'') F) (\<lambda>x. run (insert (Panic ''Cache corrupted!'') F)
      (idle g ok n (insert (rq_slpn req) D)) (case x of (hit, t, s) \<Rightarrow> Inr s)) (gc_write g be req t s)"
    by (rule run_mono[OF gc_write_ok[OF assms]]) auto
  then show ?thesis by (simp add: OpWrite)
qed

lemma icl_run_ok:
  assumes "ok f"
  shows "run (insert (Panic ''Cache corrupted!'') F) (idle g ok 0 (\<Union>(op_written ` set ops))) (icl_run g be ops f)"
  unfolding icl_run_def
proof (rule run_rfold_index[where I = "\<lambda>ops. idle g ok 0 (\<Union>(op_written ` set ops))"])
  show "idle g ok 0 (\<Union>(op_written ` set [])) (GenericCache_new g f)"
    using GenericCache_new_idle[OF conf, of ok f] assms by simp
  show "run (insert (Panic ''Cache corrupted!'') F) (idle g ok 0 (\<Union>(op_written ` set (ys @ [x])))) (icl_op_step g be x s)"
    if "idle g ok 0 (\<Union>(op_written ` set ys)) s" for ys x s
    using icl_op_step_ok[OF that, of x] by (simp add: Un_commute)
qed

end

text \<open>The sequence that a page is written and then read, and that is trimmed and then flushed.\<close>

definition write_then_read ::
  "gconf \<Rightarrow> 'f below \<Rightarrow> icl_request \<Rightarrow> icl_request \<Rightarrow> nat \<Rightarrow> 'f gcache \<Rightarrow> (bool \<times> ftl_call list \<times> ftl_call list) res"
where
  "write_then_read g be wreq rreq tick s =
     rbind (gc_write g be wreq tick s) (\<lambda>(hit, t, s1).
     rbind (gc_read g be rreq t s1) (\<lambda>(hit, t, s2). Inr (hit, gc_log s1, gc_log s2)))"

context cache_over_ftl
begin

lemma write_then_read_ok:
  assumes s: "idle g ok n D s" and late: "never_late g be ok tick s"
    and on: "gf_useReadCaching g" "gf_useWriteCaching g" "\<not> gf_useReadPrefetch g"
    and same: "rq_slpn rreq = rq_slpn wreq"
  shows "run F (\<lambda>(hit, log, log'). hit \<and> log' = log) (write_then_read g be wreq rreq tick s)"
  unfolding write_then_read_def run_bind
proof (rule run_mono[OF gc_write_ok[OF s subset_refl]])
  show "Panic ''Cache corrupted!'' \<in> F \<or> never_late g be ok tick s" using late by blast
next
  fix x :: "bool \<times> nat \<times> 'f gcache"
  assume x: "case x of (hit, t, s') \<Rightarrow> idle g ok n (insert (rq_slpn wreq) D) s'
      \<and> (if gf_useWriteCaching g then cached g s' (rq_slpn wreq)
           \<and> (rq_length wreq \<le> gf_lineSize g \<longrightarrow> cached_dirty g s' (rq_slpn wreq))
         else rq_slpn wreq \<in> written_pages g (drop n (gc_log s')))"
  obtain h t s1 where xx: "x = (h, t, s1)" by (metis prod_cases3)
  have i1: "idle g ok n (insert (rq_slpn wreq) D) s1" and c1: "cached g s1 (rq_slpn rreq)" using x on(2) xx same by auto
  show "run F (\<lambda>(hit, log, log'). hit \<and> log' = log)
      (case x of (hit, t, s1) \<Rightarrow> rbind (gc_read g be rreq t s1) (\<lambda>(hit, t, s2). Inr (hit, gc_log s1, gc_log s2)))"
    unfolding xx prod.case run_bind
    by (intro run_mono[OF gc_read_ok[OF i1]]) (use on c1 in \<open>auto split: if_splits\<close>)
qed

end

section \<open>The 64-bit clock\<close>

text \<open>
  Ticks are 64-bit numbers, and the largest one is the start value of the search for the line to evict.
  The layer below whose writes stop, as \<^verbatim>\<open>ClockOverflow\<close>, when they end at that tick or later is a layer
  below as well; a cache over it tells the writes that the clock cannot hold from those that the cache
  fails to serve.
\<close>

definition clocked :: "'f below \<Rightarrow> 'f below" where
  "clocked be = be\<lparr>bl_write := (\<lambda>cb r t fd. rbind (bl_write be cb r t fd) (\<lambda>(t', fd').
     if t' < uint64_max then Inr (t', fd') else Inl ClockOverflow))\<rparr>"

lemma clocked_same [simp]:
  "bl_read (clocked be) = bl_read be" "bl_trim (clocked be) = bl_trim be" "bl_format (clocked be) = bl_format be"
  "bl_decache (clocked be) = bl_decache be" "bl_evicted (clocked be) = bl_evicted be" "bl_reuse (clocked be) = bl_reuse be"
  "bl_dram_read (clocked be) = bl_dram_read be" "bl_dram_write (clocked be) = bl_dram_write be"
  "bl_setScheduling (clocked be) = bl_setScheduling be"
  by (simp_all add: clocked_def)

lemma clocked_write:
  "bl_write (clocked be) cb r t fd = Inr (t', fd') \<longleftrightarrow> bl_write be cb r t fd = Inr (t', fd') \<and> t' < uint64_max"
  by (cases "bl_write be cb r t fd") (auto simp: clocked_def split: if_splits)

lemma clocked_faults: "below_faults (clocked be) \<subseteq> insert ClockOverflow (below_faults be)"
proof -
  have "e = ClockOverflow \<or> bl_write be cb r t fd = Inl e" if "bl_write (clocked be) cb r t fd = Inl e" for cb r t fd e
    using that by (cases "bl_write be cb r t fd") (auto simp: clocked_def split: if_splits)
  then show ?thesis by (fastforce simp: below_faults_def)
qed

context cache_over_ftl
begin

lemma clocked_cache: "cache_over_ftl (clocked be) ok g"
proof (unfold_locales, goal_cases)
  case (2 cb r t f d t' f' d')
  then show ?case unfolding clocked_write using keep_write by blast
next
  case (11 cb r t f d t' f' d')
  then show ?case unfolding clocked_write using write_calls_back by blast
qed (unfold clocked_same, (rule conf keep_read keep_trim keep_format keep_decache keep_evicted keep_reuse keep_dram_read
    keep_dram_write keep_scheduling format_calls_back; assumption)+)

lemma clocked_never_late:
  assumes "tick + search_time g < uint64_max" "\<And>c. lines_in g c \<Longrightarrow> ln_insertedAt (el2 (gc_data s) c) < uint64_max"
  shows "never_late g (clocked be) ok tick s"
  unfolding never_late_def in_time_def using assms by (auto simp: clocked_write)

lemma clocked_write_ok:
  assumes s: "idle g ok n D s" and tick: "tick + search_time g < uint64_max"
    and lines: "\<And>c. lines_in g c \<Longrightarrow> ln_insertedAt (el2 (gc_data s) c) < uint64_max"
  shows "run (insert ClockOverflow F) (\<lambda>(hit, t, s'). idle g ok n (insert (rq_slpn req) D) s'
      \<and> (if gf_useWriteCaching g
         then cached g s' (rq_slpn req) \<and> (rq_length req \<le> gf_lineSize g \<longrightarrow> cached_dirty g s' (rq_slpn req))
         else rq_slpn req \<in> written_pages g (drop n (gc_log s'))))
    (gc_write g (clocked be) req tick s)"
  by (rule cache_over_ftl.gc_write_ok[OF clocked_cache s clocked_faults])
    (use clocked_never_late[OF tick lines] in blast)

end

section \<open>A small cache over an FTL that only takes time\<close>

definition instant_ftl :: "unit below" where
  "instant_ftl = \<lparr>bl_read = (\<lambda>r t f. Inr (t + 60, f)), bl_write = (\<lambda>cb r t (f, d). Inr (t + 900, f, d)),
     bl_trim = (\<lambda>r t f. Inr (t + 10, f)), bl_format = (\<lambda>cb a n t (f, d). Inr (t + 9000, f, d)),
     bl_decache = (\<lambda>lpn f. Inr f), bl_evicted = (\<lambda>t f. f), bl_reuse = (\<lambda>l n f. f),
     bl_dram_read = (\<lambda>n t f. (t + 1, f)), bl_dram_write = (\<lambda>n t f. (t + 1, f)), bl_setScheduling = (\<lambda>b f. f)\<rparr>"

definition small_cache :: gconf where
  "small_cache = \<lparr>gf_superPageSize = 4096, gf_parallelIO = 2, gf_lineCountInSuperPage = 1, gf_lineCountInMaxIO = 2,
     gf_lineSize = 4096, gf_setSize = 1, gf_waySize = 2, gf_ghostWaySize = 1, gf_prefetchIOCount = 1,
     gf_prefetchIORatio = (\<lambda>a b. False), gf_useReadCaching = True, gf_useWriteCaching = True,
     gf_useReadPrefetch = False, gf_bSuperPage = False, gf_prefetchMode = MODE_ALL, gf_evictMode = MODE_ALL,
     gf_policy = POLICY_LEAST_RECENTLY_USED, gf_dist = (\<lambda>n. 0), gf_cacheLatency = 10, gf_iclCores = 1,
     gf_applyLatency = (\<lambda>f. 5)\<rparr>"

definition page_request :: "nat \<Rightarrow> icl_request" where
  "page_request lca = \<lparr>rq_reqID = 1, rq_offset = 0, rq_length = 4096, rq_slpn = lca, rq_nlp = 1, rq_loadedFromBlock = False\<rparr>"

lemma small_cache_over_instant: "cache_over_ftl instant_ftl (\<lambda>f. True) small_cache"
  by unfold_locales (auto simp: instant_ftl_def small_cache_def conf_ok_def)

lemma instant_no_faults: "below_faults instant_ftl = {}"
  by (auto simp: below_faults_def instant_ftl_def split: prod.splits)

lemma small_idle: "idle small_cache (\<lambda>f. True) 0 {} (GenericCache_new small_cache ())"
  by (rule GenericCache_new_idle) (simp_all add: small_cache_def conf_ok_def)

lemma small_in_time: "never_late small_cache instant_ftl (\<lambda>f. True) 0 (GenericCache_new small_cache ())"
  by (auto simp: never_late_def in_time_def instant_ftl_def Line_new_def
      search_time_def lat8_def getCacheLatency_def uint64_max_def small_cache_def)

definition five :: line where
  "five = \<lparr>ln_tag = 5, ln_lastAccessed = 7, ln_insertedAt = 7, ln_dirty = True, ln_valid = True, ln_accessCount = 1,
     ln_loadedFromBlock = False\<rparr>"

definition page_five :: "unit gcache" where
  "page_five = (GenericCache_new small_cache ())\<lparr>gc_data := [[five, Line_new]]\<rparr>"

lemma small_cells: "lines_in small_cache c \<Longrightarrow> c = (0, 0) \<or> c = (0, 1)"
  by (cases c) (auto simp: inside_def small_cache_def)

lemma page_five_cells: "el2 (gc_data page_five) (0, 0) = five" "el2 (gc_data page_five) (0, 1) = Line_new"
  by (simp_all add: page_five_def el2_def)

lemma page_five_idle: "idle small_cache (\<lambda>f. True) 0 {} page_five"
proof -
  have "placed small_cache (gc_data page_five)"
    unfolding placed_def using small_cells by (fastforce simp: calcSetIndex_def small_cache_def)
  moreover have "unique_tags small_cache (gc_data page_five)"
    unfolding unique_tags_def
  proof (intro allI impI, elim conjE)
    fix c c' assume h: "lines_in small_cache c" "lines_in small_cache c'" "ln_valid (el2 (gc_data page_five) c)"
      "ln_valid (el2 (gc_data page_five) c')"
    have "\<not> ln_valid Line_new" by (simp add: Line_new_def)
    with h small_cells[OF h(1)] small_cells[OF h(2)] page_five_cells show "c = c'" by auto
  qed
  moreover have "data_dims small_cache (gc_data page_five)" by (simp add: page_five_def small_cache_def dims_def)
  moreover have "evict_empty small_cache (gc_evict page_five)"
    using small_idle by (simp add: idle_def cache_wf_def page_five_def)
  ultimately show ?thesis by (simp add: idle_def cache_wf_def)
qed

lemma page_five_cached: "cached small_cache page_five 5"
  unfolding cached_def by (rule exI[of _ 0]) (simp add: small_cache_def calcSetIndex_def page_five_cells five_def)

lemma page_five_dirty: "5 \<in> dirty_tags small_cache page_five"
  unfolding dirty_tags_def
  by (auto intro!: exI[of _ "(0, 0)"] simp: page_five_cells five_def inside_def small_cache_def)

section \<open>Properties\<close>

text \<open>C18: Whatever the order of reads and writes, whatever is evicted and whatever the garbage
  collection of the FTL marks, every page that has been written is still dirty in a valid line or has
  been written to the FTL; and the lines keep their invariant: each valid line is in the set of its
  address, and no address is in two valid lines.\<close>

theorem no_lost_write:
  assumes "cache_over_ftl be ok g" "ok f"
  shows "run (insert (Panic ''Cache corrupted!'') (below_faults be)) (\<lambda>s. cache_wf g s \<and>
      (\<forall>req t. OpWrite req t \<in> set ops \<longrightarrow> rq_slpn req \<in> dirty_pages g s \<union> written_pages g (gc_log s)))
    (icl_run g be ops f)"
  by (rule run_mono[OF cache_over_ftl.icl_run_ok[OF assms]]) (fastforce simp: idle_def)

theorem no_lost_write_witness:
  "run {Panic ''Cache corrupted!''} (\<lambda>s. cache_wf small_cache s \<and>
      (\<forall>req t. OpWrite req t \<in> set [OpWrite (page_request 5) 0, OpWrite (page_request 6) 2000, OpWrite (page_request 7) 4000, OpRead (page_request 5) 6000]
         \<longrightarrow> rq_slpn req \<in> dirty_pages small_cache s \<union> written_pages small_cache (gc_log s)))
    (icl_run small_cache instant_ftl [OpWrite (page_request 5) 0, OpWrite (page_request 6) 2000, OpWrite (page_request 7) 4000,
       OpRead (page_request 5) 6000] ())"
  using no_lost_write[OF small_cache_over_instant, where f = "()"] by (simp only: instant_no_faults simp_thms)

text \<open>C19: From any state between requests a write never reaches the panic "Cache corrupted!", the eviction
  frees a way of the set: provided that the search of the ways, started at the tick of the request, and
  the ticks at which the lines were inserted stay below the largest 64-bit tick, the write ends, or an
  operation of the FTL fails, or a write of the FTL ends at the largest 64-bit tick or later
  (\<^verbatim>\<open>ClockOverflow\<close>). When it ends, the page is in a valid line, a dirty one when the request fits into
  a line; without write caching the FTL has been called for it.\<close>

theorem write_is_cached:
  assumes "cache_over_ftl be ok g" "idle g ok n D s" "tick + search_time g < uint64_max"
    "\<And>c. lines_in g c \<Longrightarrow> ln_insertedAt (el2 (gc_data s) c) < uint64_max"
  shows "run (insert ClockOverflow (below_faults be)) (\<lambda>(hit, t, s'). idle g ok n (insert (rq_slpn req) D) s'
      \<and> (if gf_useWriteCaching g
         then cached g s' (rq_slpn req) \<and> (rq_length req \<le> gf_lineSize g \<longrightarrow> cached_dirty g s' (rq_slpn req))
         else rq_slpn req \<in> written_pages g (drop n (gc_log s'))))
    (gc_write g (clocked be) req tick s)"
  by (rule cache_over_ftl.clocked_write_ok[OF assms])

text \<open>Two pages take the two ways of the set; the write of a third one evicts one of them.\<close>

definition two_writes :: "icl_op list" where
  "two_writes = [OpWrite (page_request 5) 0, OpWrite (page_request 7) 2000]"

definition early :: "line list list \<Rightarrow> bool" where
  "early d = list_all (list_all (\<lambda>l. ln_insertedAt l < uint64_max)) d"

lemma third_write:
  "(case icl_run small_cache instant_ftl two_writes () of Inl e \<Rightarrow> False
    | Inr s \<Rightarrow> early (gc_data s)
        \<and> (case gc_write small_cache (clocked instant_ftl) (page_request 6) 4000 s of Inl e \<Rightarrow> False
           | Inr (hit, t, s') \<Rightarrow> gc_log s = [] \<and> length (gc_log s') = 2))"
  by code_simp

lemma early_line:
  assumes "early d" "dims n m d" "inside n m c"
  shows "ln_insertedAt (el2 d c) < uint64_max"
  using assms by (cases c) (auto simp: early_def dims_def inside_def el2_def list_all_length)

theorem write_is_cached_witness:
  "\<exists>s hit t s'. icl_run small_cache instant_ftl two_writes () = Inr s
     \<and> gc_write small_cache (clocked instant_ftl) (page_request 6) 4000 s = Inr (hit, t, s')
     \<and> length (gc_log s') = 2 \<and> cached_dirty small_cache s' 6"
proof -
  obtain s where s: "icl_run small_cache instant_ftl two_writes () = Inr s" "early (gc_data s)"
    "case gc_write small_cache (clocked instant_ftl) (page_request 6) 4000 s of Inl e \<Rightarrow> False
           | Inr (hit, t, s') \<Rightarrow> gc_log s = [] \<and> length (gc_log s') = 2"
    using third_write by (auto split: sum.splits)
  then obtain hit t s' where w: "gc_write small_cache (clocked instant_ftl) (page_request 6) 4000 s = Inr (hit, t, s')"
    "length (gc_log s') = 2"
    by (auto split: sum.splits)
  have i: "idle small_cache (\<lambda>f. True) 0 (\<Union>(op_written ` set two_writes)) s"
    using cache_over_ftl.icl_run_ok[OF small_cache_over_instant, where ops = two_writes and f = "()"] s(1) by simp
  have tick: "4000 + search_time small_cache < uint64_max"
    by (simp add: search_time_def lat8_def getCacheLatency_def uint64_max_def small_cache_def)
  have lines: "ln_insertedAt (el2 (gc_data s) c) < uint64_max" if "lines_in small_cache c" for c
    using early_line[OF s(2) _ that] i by (simp add: idle_def cache_wf_def)
  have "gf_useWriteCaching small_cache" "rq_length (page_request 6) \<le> gf_lineSize small_cache" "rq_slpn (page_request 6) = 6"
    by (simp_all add: small_cache_def page_request_def)
  with write_is_cached[OF small_cache_over_instant i tick lines, of "page_request 6"] w(1)
  have "cached_dirty small_cache s' 6" by simp
  with s(1) w show ?thesis by blast
qed

text \<open>A page that has been written is read from the cache: the read is a hit and calls the FTL
  for nothing.\<close>

lemma read_after_write_hits:
  assumes "cache_over_ftl be ok g" "idle g ok n D s" "never_late g be ok tick s"
    "gf_useReadCaching g" "gf_useWriteCaching g" "\<not> gf_useReadPrefetch g" "rq_slpn rreq = rq_slpn wreq"
  shows "run (below_faults be) (\<lambda>(hit, log, log'). hit \<and> log' = log) (write_then_read g be wreq rreq tick s)"
  by (rule cache_over_ftl.write_then_read_ok[OF assms])

lemma read_after_write_hits_example:
  "\<exists>log. write_then_read small_cache instant_ftl (page_request 6) (page_request 6) 0 (GenericCache_new small_cache ())
     = Inr (True, log, log)"
  using read_after_write_hits[OF small_cache_over_instant small_idle small_in_time, of "page_request 6" "page_request 6"]
  by (auto simp: instant_no_faults run_total small_cache_def)

text \<open>C20: No read loses a dirty page or stops by itself, whatever the configuration. With read caching on
  and the prefetch off, a read of a page that is cached is a hit without any call of the FTL, and while
  the detection of sequential reads is off a read of a page that is not cached calls the FTL for it and
  leaves it in the cache. With read caching off, the default, every read calls the FTL for its page.\<close>

theorem read_hit_or_fetched:
  assumes "cache_over_ftl be ok g" "idle g ok n D s"
  shows "run (below_faults be) (\<lambda>(hit, t, s'). idle g ok n D s'
      \<and> (gf_useReadCaching g \<and> \<not> gf_useReadPrefetch g \<and> cached g s (rq_slpn req)
         \<longrightarrow> hit \<and> cached g s' (rq_slpn req) \<and> gc_log s' = gc_log s)
      \<and> (gf_useReadCaching g \<and> \<not> gf_useReadPrefetch g \<and> \<not> cached g s (rq_slpn req) \<and> \<not> sd_enabled (gc_detect s)
         \<longrightarrow> \<not> hit \<and> cached g s' (rq_slpn req) \<and> rq_slpn req \<in> read_pages g (drop n (gc_log s')))
      \<and> (\<not> gf_useReadCaching g \<longrightarrow> \<not> hit \<and> rq_slpn req \<in> read_pages g (drop n (gc_log s'))))
    (gc_read g be req tick s)"
  by (rule cache_over_ftl.gc_read_ok[OF assms])

theorem read_hit_or_fetched_witness:
  "(\<exists>t s'. gc_read small_cache instant_ftl (page_request 5) 9 page_five = Inr (True, t, s') \<and> gc_log s' = gc_log page_five)
   \<and> (\<exists>t s'. gc_read small_cache instant_ftl (page_request 6) 9 page_five = Inr (False, t, s') \<and> cached small_cache s' 6)"
proof -
  note r = read_hit_or_fetched[OF small_cache_over_instant page_five_idle]
  have 6: "\<not> cached small_cache page_five 6"
  proof
    assume "cached small_cache page_five 6"
    then obtain w where w: "w < 2" "ln_tag (el2 (gc_data page_five) (0, w)) = 6"
      by (auto simp: cached_def small_cache_def calcSetIndex_def)
    then show False using page_five_cells less_2_cases[OF w(1)] by (auto simp: five_def Line_new_def)
  qed
  show ?thesis
    using r[of "page_request 5" 9] r[of "page_request 6" 9] page_five_cached 6
    by (auto simp: instant_no_faults run_total page_request_def small_cache_def page_five_def GenericCache_new_def)
qed

text \<open>C21: A flush leaves no page of its range in the cache, and every page of the range whose line has
  the dirty flag has been written to the FTL by it. No line changes its tag, loses its dirty flag or
  becomes valid.\<close>

theorem flush_writes_range:
  assumes "cache_over_ftl be ok g" "data_dims g (gc_data s)" "ok (gc_below s)" "gf_useReadCaching g \<or> gf_useWriteCaching g"
  shows "run (below_faults be) (\<lambda>(t, s'). steady g (gc_data s) (gc_data s')
      \<and> (\<forall>lca \<in> dirty_tags g s. in_range slpn nlp lca \<longrightarrow> lca \<in> written_pages g (drop (length (gc_log s)) (gc_log s')))
      \<and> (\<forall>lca. in_range slpn nlp lca \<longrightarrow> \<not> cached g s' lca))
    (gc_flush g be slpn nlp tick s)"
  by (rule run_mono[OF cache_over_ftl.gc_flush_ok[OF assms]]) auto

theorem flush_writes_range_witness:
  "\<exists>t s'. gc_flush small_cache instant_ftl 4 3 9 page_five = Inr (t, s') \<and> 5 \<in> written_pages small_cache (gc_log s')
     \<and> \<not> cached small_cache s' 5"
  using flush_writes_range[OF small_cache_over_instant, of page_five 4 3 9] page_five_idle page_five_dirty
  by (auto simp: instant_no_faults run_total idle_def cache_wf_def in_range_def page_five_def GenericCache_new_def
      small_cache_def)

text \<open>A trim invalidates the lines of its range but leaves their dirty flags, and a flush does not
  look at the valid flag: a flush of the same range after the trim writes every trimmed page that was
  dirty to the FTL again, which maps it again.\<close>

lemma flush_writes_trimmed_pages:
  assumes "cache_over_ftl be ok g" "data_dims g (gc_data s)" "ok (gc_below s)" "gf_useReadCaching g \<or> gf_useWriteCaching g"
  shows "run (below_faults be) (\<lambda>(t, s'). \<forall>lca \<in> dirty_tags g s. in_range slpn nlp lca
      \<longrightarrow> lca \<in> written_pages g (drop (length (gc_log s)) (gc_log s')))
    (rbind (gc_trim g be slpn nlp tick s) (\<lambda>(t, s1). gc_flush g be slpn nlp t s1))"
  by (rule cache_over_ftl.trim_then_flush[OF assms])

lemma flush_writes_trimmed_pages_example:
  "\<exists>t s'. rbind (gc_trim small_cache instant_ftl 5 1 9 page_five) (\<lambda>(t, s1). gc_flush small_cache instant_ftl 5 1 t s1)
     = Inr (t, s') \<and> 5 \<in> written_pages small_cache (gc_log s')"
  using flush_writes_trimmed_pages[OF small_cache_over_instant, of page_five 5 1 9] page_five_idle page_five_dirty
  by (auto simp: instant_no_faults run_total idle_def cache_wf_def in_range_def page_five_def GenericCache_new_def
      small_cache_def simp del: run_bind)

text \<open>C22: The operation with which the garbage collection puts the pages of its victim block into the
  cache does not search for the page: when the page is cached and the set has an empty way, there are
  two valid lines with the same address afterwards.\<close>

theorem victim_page_cached_twice:
  assumes "cache_over_ftl be ok g" "idle g ok n D s" "gf_useWriteCaching g" "rq_length req \<le> gf_lineSize g"
    "cached g s (rq_slpn req)"
    "getEmptyWay g (gc_data s) (calcSetIndex g (rq_slpn req)) tick = Inr (w, t)" "w < gf_waySize g"
  shows "\<exists>t s'. writeVictimPagesToCache g be req tick s = Inr (True, t, s') \<and> \<not> unique_tags g (gc_data s')"
proof -
  let ?lca = "rq_slpn req" and ?i = "calcSetIndex g (rq_slpn req)"
  note conf = cache_over_ftl.conf[OF assms(1)]
  have d: "data_dims g (gc_data s)" "ok (gc_below s)" using assms(2) by (auto simp: idle_def cache_wf_def)
  have i: "?i < gf_setSize g" by (rule calcSetIndex_lt[OF conf])
  have c: "lines_in g (?i, w)" using i assms(7) by (simp add: inside_def)
  have inval: "\<not> ln_valid (el2 (gc_data s) (?i, w))" using getEmptyWay_ok[OF conf d(1) i, of tick] assms(6,7) by auto
  obtain v where v: "v < gf_waySize g" "ln_valid (el2 (gc_data s) (?i, v))" "ln_tag (el2 (gc_data s) (?i, v)) = ?lca"
    using assms(5) unfolding cached_def by blast
  obtain b where b: "ftl_request_of g ?lca = Inr \<lparr>fr_lpn = ?lca div gf_lineCountInSuperPage g, fr_ioFlag = b\<rparr>"
    using ftl_request_of_ok[OF conf] by blast
  obtain t' st f where r: "write_line be (fill_line req) req True tick (?i, w) t s
      = Inr (t', s\<lparr>gc_data := up2 (gc_data s) (?i, w) (fill_line req True st (el2 (gc_data s) (?i, w))), gc_below := f\<rparr>)"
    using cache_over_ftl.write_line_ok[OF assms(1) d(1) c d(2)] by blast
  let ?d = "up2 (gc_data s) (?i, w) (fill_line req True st (el2 (gc_data s) (?i, w)))"
  have "el2 ?d (?i, v) = el2 (gc_data s) (?i, v)" using inval v(2) d(1) c by (auto simp: el2_up2)
  moreover have "ln_valid (el2 ?d (?i, w))" "ln_tag (el2 ?d (?i, w)) = ?lca" using d(1) c by (simp_all add: el2_up2 fill_line_def)
  moreover have "(?i, v) \<noteq> (?i, w)" "lines_in g (?i, v)" using inval v i by (auto simp: inside_def)
  ultimately have "\<not> unique_tags g ?d" using v c unfolding unique_tags_def by metis
  moreover have "w \<noteq> gf_waySize g" using assms(7) by simp
  ultimately show ?thesis using assms(3,4,6) b r
    by (simp add: writeVictimPagesToCache_def begin_write_def write_miss_def count_write_def)
qed

theorem victim_page_cached_twice_witness:
  "\<exists>t s'. writeVictimPagesToCache small_cache instant_ftl (page_request 5) 9 page_five = Inr (True, t, s')
     \<and> \<not> unique_tags small_cache (gc_data s')"
proof (rule victim_page_cached_twice[OF small_cache_over_instant page_five_idle, where w = 1 and t = 89])
  show "getEmptyWay small_cache (gc_data page_five) (calcSetIndex small_cache (rq_slpn (page_request 5))) 9 = Inr (1, 89)"
    by (simp add: getEmptyWay_def empty_way_def uint64_max_def lat8_def getCacheLatency_def small_cache_def calcSetIndex_def
        page_five_def five_def Line_new_def)
qed (use page_five_cached in \<open>simp_all add: small_cache_def page_request_def\<close>)

text \<open>Which of two lines a policy is to evict before the other.\<close>

fun goes_before :: "evict_policy \<Rightarrow> line \<Rightarrow> line \<Rightarrow> bool" where
  "goes_before POLICY_RANDOM = (\<lambda>a b. False)"
| "goes_before POLICY_FIFO = fifo_first"
| "goes_before POLICY_LEAST_RECENTLY_USED = lru_first"
| "goes_before POLICY_LRU_CLEAN = dirty_later"
| "goes_before POLICY_LFU = lfu_first"

text \<open>C23: The way that a policy picks is one of the set, and no line of the set should go before it: it
  is inserted first, used least recently, or used least often and then least recently. The policy that
  prefers clean lines takes a clean line whenever there is one, and else the dirty one used least
  recently.\<close>

theorem evicted_way_goes_first:
  assumes "ls \<noteq> []" "\<forall>l \<in> set ls. fits64 l" "\<forall>n. dist n < length ls" "l \<in> set ls"
    "evictFunction policy dist lat ls n tick = (w, m, t)"
  shows "w < length ls \<and> \<not> goes_before policy l (ls ! w) \<and> tick \<le> t"
  using assms fifo.pick_in[OF assms(1)] lru.pick_in[OF assms(1)] lfu.pick_in[OF assms(1)] lru_clean_pick.pick_in[OF assms(1)]
    fifo.pick_least[OF assms(1,2,4)] lru.pick_least[OF assms(1,2,4)] lfu.pick_least[OF assms(1,2,4)]
    lru_clean_pick.pick_least[OF assms(1,2,4)]
  by (cases policy) (auto simp: evictFunction_def)

theorem evicted_way_goes_first_witness:
  "evictFunction POLICY_LFU (\<lambda>n. 0) 80 [five, five\<lparr>ln_accessCount := 0\<rparr>, five] 0 9 = (1, 0, 249)
   \<and> \<not> goes_before POLICY_LFU five ([five, five\<lparr>ln_accessCount := 0\<rparr>, five] ! 1)"
proof -
  have e: "evictFunction POLICY_LFU (\<lambda>n. 0) 80 [five, five\<lparr>ln_accessCount := 0\<rparr>, five] 0 9 = (1, 0, 249)"
    by (simp add: evictFunction_def lfu_way_def uint64_max_def five_def)
  from evicted_way_goes_first[OF _ _ _ _ this, of five] e show ?thesis
    by (simp add: fits64_def five_def uint64_max_def)
qed

end
