(* ===== verification/Ftl_Mapping.thy ===== *)
theory Ftl_Mapping
  imports Blocks Icl_Cache
begin

text \<open>
  The flash translation layer: the class \<^verbatim>\<open>PageMapping\<close> (ftl/page_mapping.hh, ftl/page_mapping.cc)
  and its wrapper \<^verbatim>\<open>FTL\<close> (ftl/ftl.cc). It maps logical pages to pages of physical blocks, with a
  cache of the mapping (\<^verbatim>\<open>cmt\<close>), and collects garbage.

  The flash below and the DRAM, of type \<^verbatim>\<open>'p\<close>, are the record \<^verbatim>\<open>pal\<close> of functions; the calls to the
  flash are recorded in \<^verbatim>\<open>pm_log\<close>. A hash table is a list of pairs in the order of its iteration; the
  position at which the library puts a new key is the parameter \<^verbatim>\<open>pc_place\<close>. (The tables \<^verbatim>\<open>table\<close>
  and \<^verbatim>\<open>blocks\<close> have their full size reserved, so an insertion moves nothing else; \<^verbatim>\<open>cmt\<close> and
  \<^verbatim>\<open>shadowwCache\<close> may be rehashed, where only ties between equal times would be decided otherwise.)
  What the code computes
  in floats is a parameter: the test of the free block ratio, the number of blocks to reclaim in the
  threshold mode, the weight of the cost-benefit policy. So are the random draws. A garbage
  collection calls the cache back: \<^verbatim>\<open>cb\<close> is its function, \<^verbatim>\<open>'d\<close> what it works on. The statistics that
  are only printed are left out.
\<close>

section \<open>Configuration and state\<close>

datatype gc_mode = GC_MODE_0 | GC_MODE_1
datatype gc_policy = POLICY_GREEDY | POLICY_COST_BENEFIT | POLICY_RANDOM_BLOCK | POLICY_DCHOICE | CACHED_GC | HOTBLOCK
datatype filling_mode = FILLING_MODE_0 | FILLING_MODE_1 | FILLING_MODE_2

datatype ftl_function = FTL_READ | FTL_WRITE | FTL_TRIM | FTL_FORMAT | PM_READ | PM_WRITE | PM_TRIM | PM_FORMAT
  | PM_READ_INTERNAL | PM_WRITE_INTERNAL | PM_TRIM_INTERNAL | PM_ERASE_INTERNAL | PM_SELECT_VICTIM_BLOCK
  | PM_DO_GARBAGE_COLLECTION

record pmconf =
  pc_totalPhysicalBlocks :: nat
  pc_totalLogicalBlocks :: nat
  pc_pagesInBlock :: nat
  pc_ioUnitInPage :: nat
  pc_pageCountToMaxPerf :: nat
  pc_bRandomTweak :: bool
  pc_bitsetSize :: nat
  pc_mode :: gc_mode
  pc_policy :: gc_policy
  pc_dChoiceParam :: nat
  pc_reclaimBlock :: nat
  pc_reclaimCount :: "nat \<Rightarrow> nat"
  pc_belowThreshold :: "nat \<Rightarrow> bool"
  pc_badBlockThreshold :: nat
  pc_costBenefit :: "nat \<Rightarrow> nat \<Rightarrow> nat \<Rightarrow> nat"
  pc_draws :: "nat \<Rightarrow> nat list"
  pc_place :: "nat \<Rightarrow> nat list \<Rightarrow> nat"
  pc_enableCMT :: bool
  pc_cmtSize :: nat
  pc_shadowSize :: nat
  pc_predictorThreshold :: nat
  pc_useDeadOnArrivalPredictor :: bool
  pc_optimalreplacementPolicy :: bool
  pc_pageAwareofCache :: bool
  pc_blockToBlockMovement :: bool
  pc_SimlationIORequests :: nat
  pc_garbage :: nat
  pc_latency :: "ftl_function \<Rightarrow> nat"

text \<open>An entry of the cached mapping table, and of the shadow cache.\<close>

record mapping_entry =
  me_block_id :: nat
  me_page_Id :: nat
  me_lastAccessedTime :: nat
  me_cmtEntryAccessCount :: nat
  me_iclEntry :: nat

definition mapping_entry_new :: mapping_entry where
  "mapping_entry_new = \<lparr>me_block_id = 0, me_page_Id = 0, me_lastAccessedTime = 0, me_cmtEntryAccessCount = 0, me_iclEntry = 0\<rparr>"

datatype pal_call = PalRead nat nat bitset | PalWrite nat nat bitset | PalErase nat

record 'p pal =
  pl_read :: "nat \<Rightarrow> nat \<Rightarrow> bitset \<Rightarrow> nat \<Rightarrow> 'p \<Rightarrow> nat \<times> 'p"
  pl_write :: "nat \<Rightarrow> nat \<Rightarrow> bitset \<Rightarrow> nat \<Rightarrow> 'p \<Rightarrow> nat \<times> 'p"
  pl_erase :: "nat \<Rightarrow> nat \<Rightarrow> 'p \<Rightarrow> nat \<times> 'p"
  pl_dram_read :: "nat \<Rightarrow> nat \<Rightarrow> 'p \<Rightarrow> nat \<times> 'p"
  pl_dram_write :: "nat \<Rightarrow> nat \<Rightarrow> 'p \<Rightarrow> nat \<times> 'p"
  pl_setScheduling :: "bool \<Rightarrow> 'p \<Rightarrow> 'p"

type_synonym mapping_table = "(nat \<times> (nat \<times> nat) list) list"

record 'p pmap =
  pm_table :: mapping_table
  pm_blocks :: "(nat \<times> block) list"
  pm_freeBlocks :: "block list"
  pm_nFreeBlocks :: nat
  pm_lastFreeBlock :: "nat list"
  pm_lastFreeBlockIOMap :: bitset
  pm_lastFreeBlockIndex :: nat
  pm_bReclaimMore :: bool
  pm_currentIndex :: nat                     \<comment> \<open>the two static variables of \<^verbatim>\<open>findBlockWithLeastValidDirtyPagesFromVector\<close>\<close>
  pm_currentPageInBlock :: nat
  pm_cmt :: "(nat \<times> mapping_entry) list"
  pm_shadow :: "(nat \<times> mapping_entry) list"
  pm_evictedCmt :: "nat \<rightharpoonup> nat"
  pm_erased :: "nat list"                    \<comment> \<open>\<^verbatim>\<open>erased_block_id\<close>\<close>
  pm_movePagesToCache :: "nat list"
  pm_putPagesInCache :: bool
  pm_iclCount :: nat
  pm_optMap :: "nat \<rightharpoonup> nat list"
  pm_reuseMap :: "nat \<rightharpoonup> nat"               \<comment> \<open>\<^verbatim>\<open>globalLBaReuseMap\<close>\<close>
  pm_evictionFrequency :: "nat \<rightharpoonup> nat"
  pm_lastUse :: "nat \<rightharpoonup> nat"                \<comment> \<open>\<^verbatim>\<open>AddressReuseDistanceMap\<close>\<close>
  pm_clusters :: "int \<Rightarrow> nat"                \<comment> \<open>\<^verbatim>\<open>AddressReuseDistanceClusters\<close>\<close>
  pm_selections :: nat                       \<comment> \<open>victim selections that have drawn\<close>
  pm_gcCount :: nat
  pm_reclaimedBlocks :: nat
  pm_validSuperPageCopies :: nat
  pm_validPageCopies :: nat
  pm_inconsistent :: nat
  pm_pal :: 'p
  pm_log :: "pal_call list"

section \<open>Hash tables\<close>

definition um_has :: "nat \<Rightarrow> (nat \<times> 'a) list \<Rightarrow> bool" where
  "um_has k xs \<longleftrightarrow> k \<in> fst ` set xs"

definition um_set :: "nat \<Rightarrow> 'a \<Rightarrow> (nat \<times> 'a) list \<Rightarrow> (nat \<times> 'a) list" where
  "um_set k v xs = map (\<lambda>(k', v'). (k', if k' = k then v else v')) xs"

definition um_put :: "(nat \<Rightarrow> nat list \<Rightarrow> nat) \<Rightarrow> nat \<Rightarrow> 'a \<Rightarrow> (nat \<times> 'a) list \<Rightarrow> (nat \<times> 'a) list" where
  "um_put place k v xs =
     (if um_has k xs then um_set k v xs
      else let n = place k (map fst xs) in take n xs @ (k, v) # drop n xs)"

definition um_erase :: "nat \<Rightarrow> (nat \<times> 'a) list \<Rightarrow> (nat \<times> 'a) list" where
  "um_erase k xs = filter (\<lambda>(k', v'). k' \<noteq> k) xs"

section \<open>Calls below\<close>

definition pal_read :: "'p pal \<Rightarrow> nat \<Rightarrow> nat \<Rightarrow> bitset \<Rightarrow> nat \<Rightarrow> 'p pmap \<Rightarrow> nat \<times> 'p pmap" where
  "pal_read pl b p io tick s = (let (t, x) = pl_read pl b p io tick (pm_pal s)
     in (t, s\<lparr>pm_pal := x, pm_log := pm_log s @ [PalRead b p io]\<rparr>))"

definition pal_write :: "'p pal \<Rightarrow> nat \<Rightarrow> nat \<Rightarrow> bitset \<Rightarrow> nat \<Rightarrow> 'p pmap \<Rightarrow> nat \<times> 'p pmap" where
  "pal_write pl b p io tick s = (let (t, x) = pl_write pl b p io tick (pm_pal s)
     in (t, s\<lparr>pm_pal := x, pm_log := pm_log s @ [PalWrite b p io]\<rparr>))"

definition pal_erase :: "'p pal \<Rightarrow> nat \<Rightarrow> nat \<Rightarrow> 'p pmap \<Rightarrow> nat \<times> 'p pmap" where
  "pal_erase pl b tick s = (let (t, x) = pl_erase pl b tick (pm_pal s)
     in (t, s\<lparr>pm_pal := x, pm_log := pm_log s @ [PalErase b]\<rparr>))"

definition pm_dram_read :: "'p pal \<Rightarrow> nat \<Rightarrow> nat \<Rightarrow> 'p pmap \<Rightarrow> nat \<times> 'p pmap" where
  "pm_dram_read pl n tick s = (let (t, x) = pl_dram_read pl n tick (pm_pal s) in (t, s\<lparr>pm_pal := x\<rparr>))"

definition pm_dram_write :: "'p pal \<Rightarrow> nat \<Rightarrow> nat \<Rightarrow> 'p pmap \<Rightarrow> nat \<times> 'p pmap" where
  "pm_dram_write pl n tick s = (let (t, x) = pl_dram_write pl n tick (pm_pal s) in (t, s\<lparr>pm_pal := x\<rparr>))"

text \<open>The flags of a request to the flash: one unit, or all of them.\<close>

definition unit_flags :: "pmconf \<Rightarrow> nat \<Rightarrow> bitset \<Rightarrow> bitset res" where
  "unit_flags c idx io = (if pc_bRandomTweak c then rbind (bs_reset_all io) (\<lambda>io. bs_set io idx True) else bs_set_all io)"

text \<open>The size of an access to the mapping table.\<close>

definition table_bytes :: "pmconf \<Rightarrow> bitset \<Rightarrow> nat res" where
  "table_bytes c io = (if pc_bRandomTweak c then rbind (bs_count io) (\<lambda>n. Inr (8 * n)) else Inr 8)"

definition with_block :: "nat \<Rightarrow> (block \<Rightarrow> block res) \<Rightarrow> 'p pmap \<Rightarrow> 'p pmap res" where
  "with_block b f s = (case map_of (pm_blocks s) b of None \<Rightarrow> Inl NullDeref
     | Some blk \<Rightarrow> rbind (f blk) (\<lambda>blk. Inr (s\<lparr>pm_blocks := um_set b blk (pm_blocks s)\<rparr>)))"

section \<open>Free blocks\<close>

definition convertBlockIdx :: "pmconf \<Rightarrow> nat \<Rightarrow> nat" where
  "convertBlockIdx c blockIdx = blockIdx mod pc_pageCountToMaxPerf c"

text \<open>The first free block whose index has the remainder \<^verbatim>\<open>idx\<close>; if there is none, the first.\<close>

definition take_free :: "pmconf \<Rightarrow> nat \<Rightarrow> block list \<Rightarrow> (block \<times> block list) option" where
  "take_free c idx xs =
     (let a = takeWhile (\<lambda>b. blk_getBlockIndex b mod pc_pageCountToMaxPerf c \<noteq> idx) xs
      in case drop (length a) xs of b # bs \<Rightarrow> Some (b, a @ bs)
         | [] \<Rightarrow> (case xs of [] \<Rightarrow> None | b # bs \<Rightarrow> Some (b, bs)))"

definition getFreeBlock :: "pmconf \<Rightarrow> nat \<Rightarrow> 'p pmap \<Rightarrow> (nat \<times> 'p pmap) res" where
  "getFreeBlock c idx s =
     (if pc_pageCountToMaxPerf c \<le> idx then Inl (Panic ''Index out of range'')
      else if 0 < pm_nFreeBlocks s
      then rbind (rderef (take_free c idx (pm_freeBlocks s))) (\<lambda>(blk, rest).
           let b = blk_getBlockIndex blk in
           if um_has b (pm_blocks s) then Inl (Panic ''Corrupted'')
           else Inr (b, s\<lparr>pm_blocks := um_put (pc_place c) b (fst (blk_move (pc_garbage c) blk)) (pm_blocks s),
                      pm_freeBlocks := rest, pm_nFreeBlocks := pm_nFreeBlocks s - 1\<rparr>))
      else Inl (Panic ''No free block left''))"

text \<open>\<^verbatim>\<open>lastFreeBlock.at(i) = getFreeBlock(i)\<close>.\<close>

definition renew_free :: "pmconf \<Rightarrow> nat \<Rightarrow> 'p pmap \<Rightarrow> 'p pmap res" where
  "renew_free c i s = rbind (getFreeBlock c i s) (\<lambda>(b, s).
     rbind (rupd (pm_lastFreeBlock s) i b) (\<lambda>l. Inr (s\<lparr>pm_lastFreeBlock := l\<rparr>)))"

text \<open>The part that \<^verbatim>\<open>getLastFreeBlock\<close> and \<^verbatim>\<open>getUpdatedLastFreeBlock\<close> share.\<close>

definition usable_free :: "pmconf \<Rightarrow> nat \<Rightarrow> 'p pmap \<Rightarrow> (nat \<times> 'p pmap) res" where
  "usable_free c i s =
     rbind (rnth (pm_lastFreeBlock s) i) (\<lambda>b.
     rbind (if b \<in> set (pm_erased s)
            then rbind (renew_free c i s) (\<lambda>s. Inr (s\<lparr>pm_erased := filter (\<lambda>x. x \<noteq> b) (pm_erased s)\<rparr>))
            else Inr s) (\<lambda>s.
     rbind (rnth (pm_lastFreeBlock s) i) (\<lambda>b.
     case map_of (pm_blocks s) b of None \<Rightarrow> Inl (Panic ''Corrupted'')
     | Some blk \<Rightarrow>
        rbind (blk_getNextWritePageIndex blk) (\<lambda>n.
        rbind (if n = pc_pagesInBlock c
               then rbind (renew_free c i s) (\<lambda>s. Inr (s\<lparr>pm_bReclaimMore := True\<rparr>))
               else Inr s) (\<lambda>s.
        rbind (rnth (pm_lastFreeBlock s) i) (\<lambda>b. Inr (b, s)))))))"

definition getLastFreeBlock :: "pmconf \<Rightarrow> bitset \<Rightarrow> 'p pmap \<Rightarrow> (nat \<times> 'p pmap) res" where
  "getLastFreeBlock c iomap s =
     rbind (if pc_bRandomTweak c
            then rbind (bs_and_assign (pm_lastFreeBlockIOMap s) iomap) bs_any
            else Inr True) (\<lambda>advance.
     rbind (if advance
            then let i = pm_lastFreeBlockIndex s + 1
                 in Inr (s\<lparr>pm_lastFreeBlockIndex := (if i = pc_pageCountToMaxPerf c then 0 else i),
                           pm_lastFreeBlockIOMap := iomap\<rparr>)
            else rbind (bs_or_assign (pm_lastFreeBlockIOMap s) iomap) (\<lambda>m. Inr (s\<lparr>pm_lastFreeBlockIOMap := m\<rparr>)))
       (\<lambda>s. usable_free c (pm_lastFreeBlockIndex s) s))"

definition findBlockWithLeastValidDirtyPagesFromVector :: "pmconf \<Rightarrow> 'p pmap \<Rightarrow> nat \<times> 'p pmap" where
  "findBlockWithLeastValidDirtyPagesFromVector c s =
     (let s = (if pm_currentPageInBlock s \<ge> pc_pagesInBlock c
               then s\<lparr>pm_currentIndex := (pm_currentIndex s + 1) mod pc_pageCountToMaxPerf c, pm_currentPageInBlock := 0\<rparr>
               else s)
      in (pm_currentIndex s, s\<lparr>pm_currentPageInBlock := pm_currentPageInBlock s + 1\<rparr>))"

definition getUpdatedLastFreeBlock :: "pmconf \<Rightarrow> 'p pmap \<Rightarrow> (nat \<times> 'p pmap) res" where
  "getUpdatedLastFreeBlock c s = (let (i, s) = findBlockWithLeastValidDirtyPagesFromVector c s in usable_free c i s)"

text \<open>\<^verbatim>\<open>eraseInternal\<close> puts the block behind the last free block that has not been erased more often.
  Stepping back from the end of an empty list is undefined.\<close>

definition insert_free :: "block \<Rightarrow> block list \<Rightarrow> block list" where
  "insert_free b xs =
     (let worn = takeWhile (\<lambda>x. blk_getEraseCount b < blk_getEraseCount x) (rev xs)
      in take (length xs - length worn) xs @ b # rev worn)"

definition eraseInternal :: "pmconf \<Rightarrow> 'p pal \<Rightarrow> nat \<Rightarrow> nat \<Rightarrow> 'p pmap \<Rightarrow> (nat \<times> 'p pmap) res" where
  "eraseInternal c pl b tick s =
     (case map_of (pm_blocks s) b of None \<Rightarrow> Inl (Panic ''No such block'')
      | Some blk \<Rightarrow>
         rbind (blk_erase blk) (\<lambda>blk.
         let (tick, s) = pal_erase pl b tick s in
         rbind (if blk_getEraseCount blk < pc_badBlockThreshold c
                then if pm_freeBlocks s = [] then Inl BeforeBegin
                     else Inr (s\<lparr>pm_freeBlocks := insert_free (fst (blk_move (pc_garbage c) blk)) (pm_freeBlocks s),
                                 pm_nFreeBlocks := pm_nFreeBlocks s + 1\<rparr>)
                else Inr s) (\<lambda>s.
           Inr (tick + pc_latency c PM_ERASE_INTERNAL, s\<lparr>pm_blocks := um_erase b (pm_blocks s)\<rparr>))))"

section \<open>The cached mapping table\<close>

text \<open>The loop that looks for the entry used least recently: the first with the least time.\<close>

fun oldest_entry :: "nat \<Rightarrow> nat \<Rightarrow> nat \<Rightarrow> (nat \<times> mapping_entry) list \<Rightarrow> nat \<times> nat" where
  "oldest_entry time key count [] = (key, count)"
| "oldest_entry time key count ((k, e) # es) =
     (if me_lastAccessedTime e < time
      then oldest_entry (me_lastAccessedTime e) k (me_cmtEntryAccessCount e) es
      else oldest_entry time key count es)"

text \<open>The key 0 stands for "none found".\<close>

definition evictEntryFromCMT :: "pmconf \<Rightarrow> 'p pmap \<Rightarrow> 'p pmap" where
  "evictEntryFromCMT c s =
     (if length (pm_cmt s) \<ge> pc_cmtSize c
      then let (lruKey, count) = oldest_entry uint64_max 0 0 (pm_cmt s) in
        if lruKey \<noteq> 0
        then s\<lparr>pm_cmt := um_erase lruKey (pm_cmt s),
               pm_evictedCmt := (if count = 1
                  then (pm_evictedCmt s)(lruKey \<mapsto> (case pm_evictedCmt s lruKey of None \<Rightarrow> 0 | Some n \<Rightarrow> n) + 1)
                  else pm_evictedCmt s)\<rparr>
        else s
      else s)"

definition EvictFromShadowCache :: "pmconf \<Rightarrow> 'p pmap \<Rightarrow> 'p pmap" where
  "EvictFromShadowCache c s =
     (if length (pm_shadow s) \<ge> pc_shadowSize c
      then let (lruKey, count) = oldest_entry uint64_max 0 0 (pm_shadow s) in
        if lruKey \<noteq> 0 then s\<lparr>pm_shadow := um_erase lruKey (pm_shadow s)\<rparr> else s
      else s)"

text \<open>The optimal policy knows the future uses of the pages (\<^verbatim>\<open>optMap\<close>): the uses of the past are taken
  off; entries without a future use go, and the entry whose next use is the latest. The loop carries
  the keys to remove, the key and the next use of that entry, the access count of the last entry
  looked at, and the map.\<close>

fun optimal_scan ::
  "nat \<Rightarrow> nat list \<times> nat \<times> nat \<times> nat \<times> (nat \<rightharpoonup> nat list) \<Rightarrow> (nat \<times> mapping_entry) list
    \<Rightarrow> nat list \<times> nat \<times> nat \<times> nat \<times> (nat \<rightharpoonup> nat list)"
where
  "optimal_scan icl st [] = st"
| "optimal_scan icl (removal, key, farthest, count, om) ((k, e) # es) =
     optimal_scan icl
       (case om k of
          None \<Rightarrow> (removal, key, farthest, me_cmtEntryAccessCount e, om)
        | Some uses \<Rightarrow>
            let uses = filter (\<lambda>u. \<not> u \<le> icl) uses; om = om(k \<mapsto> uses) in
            (case uses of
               [] \<Rightarrow> (removal @ [k], key, farthest, me_cmtEntryAccessCount e, om)
             | u # us \<Rightarrow> if u > farthest then (removal, k, u, me_cmtEntryAccessCount e, om)
                         else (removal, key, farthest, me_cmtEntryAccessCount e, om))) es"

definition optimalRepalcementPolicy :: "pmconf \<Rightarrow> 'p pmap \<Rightarrow> 'p pmap" where
  "optimalRepalcementPolicy c s =
     (if length (pm_cmt s) \<ge> pc_cmtSize c
      then let (removal, key, farthest, count, om) = optimal_scan (pm_iclCount s) ([], 0, 0, 0, pm_optMap s) (pm_cmt s);
               removal = removal @ [key]
           in s\<lparr>pm_optMap := om, pm_cmt := fold um_erase removal (pm_cmt s),
                pm_evictedCmt := fold (\<lambda>k m. m(k \<mapsto> count)) removal (pm_evictedCmt s)\<rparr>
      else s)"

text \<open>Whether the history says that the entry would not be used again.\<close>

definition dead_on_arrival :: "pmconf \<Rightarrow> nat \<Rightarrow> 'p pmap \<Rightarrow> bool" where
  "dead_on_arrival c lpn s =
     (case pm_evictedCmt s lpn of None \<Rightarrow> False
      | Some n \<Rightarrow> n \<ge> pc_predictorThreshold c \<and> pc_useDeadOnArrivalPredictor c)"

definition cmt_update :: "pmconf \<Rightarrow> nat \<Rightarrow> (mapping_entry \<Rightarrow> mapping_entry) \<Rightarrow> 'p pmap \<Rightarrow> 'p pmap" where
  "cmt_update c lpn f s = s\<lparr>pm_cmt := um_put (pc_place c) lpn
     (f (case map_of (pm_cmt s) lpn of None \<Rightarrow> mapping_entry_new | Some e \<Rightarrow> e)) (pm_cmt s)\<rparr>"

definition shadow_put :: "pmconf \<Rightarrow> nat \<Rightarrow> nat \<times> nat \<Rightarrow> nat \<Rightarrow> 'p pmap \<Rightarrow> 'p pmap" where
  "shadow_put c lpn m time s =
     (let s = EvictFromShadowCache c s in
      s\<lparr>pm_shadow := um_put (pc_place c) lpn
          ((case map_of (pm_shadow s) lpn of None \<Rightarrow> mapping_entry_new | Some e \<Rightarrow> e)
             \<lparr>me_lastAccessedTime := time, me_block_id := fst m, me_page_Id := snd m\<rparr>) (pm_shadow s)\<rparr>)"

definition cmt_make_room :: "pmconf \<Rightarrow> 'p pmap \<Rightarrow> 'p pmap" where
  "cmt_make_room c s = (if pc_optimalreplacementPolicy c then optimalRepalcementPolicy c s else evictEntryFromCMT c s)"

text \<open>Loading an entry when a page is read through the table.\<close>

definition cmt_load :: "pmconf \<Rightarrow> nat \<Rightarrow> nat \<times> nat \<Rightarrow> nat \<Rightarrow> bool \<Rightarrow> 'p pmap \<Rightarrow> bool \<times> 'p pmap" where
  "cmt_load c lpn m time dead s =
     (let dead = (dead \<or> dead_on_arrival c lpn s) in
      (dead, if dead then shadow_put c lpn m time s
             else let s = cmt_make_room c s in
               cmt_update c lpn (\<lambda>e. e\<lparr>me_block_id := fst m, me_page_Id := snd m, me_lastAccessedTime := time,
                  me_cmtEntryAccessCount := 1, me_iclEntry := pm_iclCount s\<rparr>) s))"

text \<open>And when it is written; the access count of an entry that was hit is kept.\<close>

definition cmt_store :: "pmconf \<Rightarrow> nat \<Rightarrow> nat \<times> nat \<Rightarrow> nat \<Rightarrow> bool \<times> bool \<Rightarrow> 'p pmap \<Rightarrow> (bool \<times> bool) \<times> 'p pmap" where
  "cmt_store c lpn m time = (\<lambda>(dead, hit) s.
     let dead = (dead \<or> dead_on_arrival c lpn s) in
     if dead then ((dead, hit), shadow_put c lpn m time s)
     else let s = cmt_make_room c s in
       ((dead, False), cmt_update c lpn (\<lambda>e.
          let e = e\<lparr>me_block_id := fst m, me_page_Id := snd m, me_lastAccessedTime := time\<rparr>
          in if hit then e else e\<lparr>me_cmtEntryAccessCount := 1, me_iclEntry := pm_iclCount s\<rparr>) s))"

text \<open>A page of the shadow cache is taken back into the table.\<close>

definition cmt_unshadow :: "pmconf \<Rightarrow> nat \<Rightarrow> mapping_entry \<Rightarrow> nat \<Rightarrow> 'p pmap \<Rightarrow> 'p pmap" where
  "cmt_unshadow c lpn sh time s =
     (let s = s\<lparr>pm_evictedCmt := (case pm_evictedCmt s lpn of None \<Rightarrow> pm_evictedCmt s | Some _ \<Rightarrow> (pm_evictedCmt s)(lpn \<mapsto> 0))\<rparr>;
          s = evictEntryFromCMT c s
      in cmt_update c lpn (\<lambda>e. e\<lparr>me_block_id := me_block_id sh, me_page_Id := me_page_Id sh,
           me_lastAccessedTime := time, me_cmtEntryAccessCount := 1\<rparr>) s)"

section \<open>Reading\<close>

text \<open>One unit of a page that is mapped to \<^verbatim>\<open>m\<close>. A page of a block that has been erased since is
  dropped, and the whole operation returns: the flag of the loop state. \<^verbatim>\<open>load\<close> is what the read
  through the table does with the cached table first; it uses \<^verbatim>\<open>beginAt\<close>, which the loop sets only
  afterwards: the finishing tick of the unit before, and at first the parameter \<^verbatim>\<open>garbage\<close>.\<close>

definition read_unit ::
  "pmconf \<Rightarrow> 'p pal \<Rightarrow> ftl_request \<Rightarrow> nat \<Rightarrow> (nat \<Rightarrow> (nat \<times> nat) res)
    \<Rightarrow> (nat \<times> nat \<Rightarrow> nat \<Rightarrow> 'l \<Rightarrow> 'p pmap \<Rightarrow> 'l \<times> 'p pmap)
    \<Rightarrow> nat \<Rightarrow> bool \<times> 'l \<times> nat \<times> nat \<times> 'p pmap \<Rightarrow> (bool \<times> 'l \<times> nat \<times> nat \<times> 'p pmap) res"
where
  "read_unit c pl req tick mapping load idx = (\<lambda>(stop, l, beginAt, finishedAt, s).
     if stop then Inr (stop, l, beginAt, finishedAt, s)
     else rbind (bs_test (fr_ioFlag req) idx) (\<lambda>on.
       if on \<or> \<not> pc_bRandomTweak c
       then rbind (mapping idx) (\<lambda>(b, p).
         if b < pc_totalPhysicalBlocks c \<and> p < pc_pagesInBlock c
         then rbind (unit_flags c idx (fr_ioFlag req)) (\<lambda>io.
              let (l, s) = load (b, p) beginAt l s in
              if b \<in> set (pm_erased s)
              then Inr (True, l, beginAt, finishedAt, s\<lparr>pm_inconsistent := pm_inconsistent s + 1\<rparr>)
              else case map_of (pm_blocks s) b of None \<Rightarrow> Inl (Panic ''Block is not in use'')
              | Some blk \<Rightarrow> rbind (blk_read blk p idx tick) (\<lambda>(valid, blk).
                  let s = s\<lparr>pm_blocks := um_set b blk (pm_blocks s)\<rparr>;
                      (beginAt, s) = pal_read pl b p io tick s
                  in Inr (False, l, beginAt, max finishedAt beginAt, s)))
         else Inr (False, l, beginAt, finishedAt, s))
       else Inr (False, l, beginAt, finishedAt, s)))"

definition no_load :: "nat \<times> nat \<Rightarrow> nat \<Rightarrow> unit \<Rightarrow> 'p pmap \<Rightarrow> unit \<times> 'p pmap" where
  "no_load m beginAt l s = (l, s)"

text \<open>Reading through an entry of the cached table: the tick is the one of the DRAM access; the
  finishing tick of the flash is not used.\<close>

definition read_entry :: "pmconf \<Rightarrow> 'p pal \<Rightarrow> ftl_request \<Rightarrow> mapping_entry \<Rightarrow> nat \<Rightarrow> nat \<Rightarrow> 'p pmap \<Rightarrow> 'p pmap res" where
  "read_entry c pl req e tick finishedAt s =
     rbind (rfold (read_unit c pl req tick (\<lambda>idx. Inr (me_block_id e, me_page_Id e)) no_load)
              [0..<pc_bitsetSize c] (False, (), pc_garbage c, finishedAt, s))
       (\<lambda>(stop, l, beginAt, finishedAt, s). Inr s)"

definition readInternal :: "pmconf \<Rightarrow> 'p pal \<Rightarrow> ftl_request \<Rightarrow> nat \<Rightarrow> 'p pmap \<Rightarrow> (nat \<times> 'p pmap) res" where
  "readInternal c pl req tick s =
     (let lpn = fr_lpn req; finishedAt = tick; entry = map_of (pm_cmt s) lpn in
      rbind (table_bytes c (fr_ioFlag req)) (\<lambda>bytes.
      if pc_enableCMT c \<and> entry \<noteq> None
      then let (tick, s) = pm_dram_read pl bytes tick s;
               e = (the entry)\<lparr>me_lastAccessedTime := tick, me_cmtEntryAccessCount := me_cmtEntryAccessCount (the entry) + 1,
                     me_iclEntry := pm_iclCount s\<rparr>
           in rbind (read_entry c pl req e tick finishedAt (s\<lparr>pm_cmt := um_set lpn e (pm_cmt s)\<rparr>)) (\<lambda>s. Inr (tick, s))
      else case (if pc_useDeadOnArrivalPredictor c \<and> pc_enableCMT c then map_of (pm_shadow s) lpn else None) of
        Some sh \<Rightarrow>
          let s = cmt_unshadow c lpn sh tick s in
          (case map_of (pm_cmt s) lpn of None \<Rightarrow> Inr (tick, s)
           | Some e \<Rightarrow>
              let (tick, s) = pm_dram_read pl bytes tick s
              in rbind (read_entry c pl req e tick finishedAt s) (\<lambda>s. Inr (tick, s)))
      | None \<Rightarrow>
          (case map_of (pm_table s) lpn of None \<Rightarrow> Inr (tick, s)
           | Some ms \<Rightarrow>
              let (tick, s) = pm_dram_read pl bytes tick s;
                  load = (\<lambda>m beginAt dead s. if pc_enableCMT c then cmt_load c lpn m beginAt dead s else (dead, s))
              in rbind (rfold (read_unit c pl req tick (rnth ms) load) [0..<pc_bitsetSize c]
                          (False, False, pc_garbage c, finishedAt, s))
                   (\<lambda>(stop, dead, beginAt, finishedAt, s).
                     if stop then Inr (tick, s) else Inr (finishedAt + pc_latency c PM_READ_INTERNAL, s)))))"

section \<open>Writing\<close>

definition invalidate_at :: "pmconf \<Rightarrow> nat \<times> nat \<Rightarrow> nat \<Rightarrow> 'p pmap \<Rightarrow> 'p pmap res" where
  "invalidate_at c m idx s =
     (if fst m < pc_totalPhysicalBlocks c \<and> snd m < pc_pagesInBlock c \<and> um_has (fst m) (pm_blocks s)
      then with_block (fst m) (\<lambda>b. blk_invalidate b (snd m) idx) s else Inr s)"

definition invalidate_units :: "pmconf \<Rightarrow> ftl_request \<Rightarrow> (nat \<Rightarrow> (nat \<times> nat) res) \<Rightarrow> 'p pmap \<Rightarrow> 'p pmap res" where
  "invalidate_units c req mapping s =
     rfold (\<lambda>idx s. rbind (bs_test (fr_ioFlag req) idx) (\<lambda>on.
         if on \<or> \<not> pc_bRandomTweak c then rbind (mapping idx) (\<lambda>m. invalidate_at c m idx s) else Inr s))
       [0..<pc_bitsetSize c] s"

text \<open>The first part: the old page is invalidated. The result is the key of the table entry that
  \<^verbatim>\<open>mappingList\<close> points to, and \<^verbatim>\<open>cmtWriteHit\<close>. The pointer starts at \<^verbatim>\<open>table.begin()\<close>, which is the end of an
  empty table (\<^verbatim>\<open>None\<close>); when the page is in the cached table or in the shadow cache it stays there.\<close>

definition table_begin :: "'p pmap \<Rightarrow> nat option" where
  "table_begin s = (case pm_table s of [] \<Rightarrow> None | (k, ms) # es \<Rightarrow> Some k)"

definition invalidate_old :: "pmconf \<Rightarrow> ftl_request \<Rightarrow> nat \<Rightarrow> bool \<Rightarrow> 'p pmap \<Rightarrow> (nat option \<times> bool \<times> 'p pmap) res" where
  "invalidate_old c req tick sendToPAL s =
     (let lpn = fr_lpn req in
      case (if pc_enableCMT c then map_of (pm_cmt s) lpn else None) of
        Some e \<Rightarrow>
          let e = (if sendToPAL then e\<lparr>me_cmtEntryAccessCount := me_cmtEntryAccessCount e + 1,
                     me_lastAccessedTime := tick, me_iclEntry := pm_iclCount s\<rparr> else e);
              s = s\<lparr>pm_cmt := um_set lpn e (pm_cmt s)\<rparr>
          in rbind (invalidate_units c req (\<lambda>idx. Inr (me_block_id e, me_page_Id e)) s) (\<lambda>s.
             Inr (table_begin s, sendToPAL, s))
      | None \<Rightarrow>
      case (if pc_useDeadOnArrivalPredictor c \<and> pc_enableCMT c then map_of (pm_shadow s) lpn else None) of
        Some sh \<Rightarrow>
          let s = (if sendToPAL then cmt_unshadow c lpn sh tick s else s) in
          rbind (case map_of (pm_cmt s) lpn of None \<Rightarrow> Inr s
                 | Some e \<Rightarrow> invalidate_units c req (\<lambda>idx. Inr (me_block_id e, me_page_Id e)) s) (\<lambda>s.
             Inr (table_begin s, sendToPAL, s))
      | None \<Rightarrow>
      case map_of (pm_table s) lpn of
        Some ms \<Rightarrow> rbind (invalidate_units c req (rnth ms) s) (\<lambda>s. Inr (Some lpn, False, s))
      | None \<Rightarrow>
          Inr (Some lpn, False, s\<lparr>pm_table := um_put (pc_place c) lpn
            (replicate (pc_bitsetSize c) (pc_totalPhysicalBlocks c, pc_pagesInBlock c)) (pm_table s)\<rparr>))"

text \<open>One unit is written to the page after the last one written of the block \<^verbatim>\<open>b\<close>. The loop carries
  \<^verbatim>\<open>(deadonArrival, cmtWriteHit)\<close> and the finishing tick.\<close>

definition write_unit ::
  "pmconf \<Rightarrow> 'p pal \<Rightarrow> ftl_request \<Rightarrow> nat \<Rightarrow> bool \<Rightarrow> nat option \<Rightarrow> nat \<Rightarrow> bool \<Rightarrow> nat
    \<Rightarrow> (bool \<times> bool) \<times> nat \<times> 'p pmap \<Rightarrow> ((bool \<times> bool) \<times> nat \<times> 'p pmap) res"
where
  "write_unit c pl req tick sendToPAL key b readBeforeWrite idx = (\<lambda>(fl, finishedAt, s).
     rbind (bs_test (fr_ioFlag req) idx) (\<lambda>on.
     if on \<or> \<not> pc_bRandomTweak c
     then rbind (rderef (map_of (pm_blocks s) b)) (\<lambda>blk.
          rbind (blk_getNextWritePageIndex_at blk idx) (\<lambda>pageIndex.
          rbind (rderef key) (\<lambda>key.
          rbind (rderef (map_of (pm_table s) key)) (\<lambda>ms.
          rbind (rnth ms idx) (\<lambda>old.
          rbind (with_block b (\<lambda>blk. rbind (blk_write blk pageIndex (fr_lpn req) idx tick) (\<lambda>(w, blk). Inr blk)) s) (\<lambda>s.
          rbind (if readBeforeWrite \<and> sendToPAL
                 then rbind (bs_flip_all (fr_ioFlag req)) (\<lambda>rest. Inr (pal_read pl (fst old) (snd old) rest tick s))
                 else Inr (tick, s)) (\<lambda>(beginAt, s).
          let s = s\<lparr>pm_table := um_set key (ms[idx := (b, pageIndex)]) (pm_table s)\<rparr>
          in if sendToPAL
             then rbind (unit_flags c idx (fr_ioFlag req)) (\<lambda>io.
                  let (fl, s) = (if pc_enableCMT c then cmt_store c (fr_lpn req) (b, pageIndex) beginAt fl s else (fl, s));
                      (beginAt, s) = pal_write pl b pageIndex io beginAt s
                  in Inr (fl, max finishedAt beginAt, s))
             else Inr (fl, max finishedAt beginAt, s))))))))
     else Inr (fl, finishedAt, s)))"

text \<open>\<^verbatim>\<open>writeInternal\<close> up to the garbage collection; first the part that comes after the choice of the
  block.\<close>

definition write_to_block ::
  "pmconf \<Rightarrow> 'p pal \<Rightarrow> ftl_request \<Rightarrow> nat \<Rightarrow> bool \<Rightarrow> nat option \<Rightarrow> bool \<Rightarrow> nat \<Rightarrow> 'p pmap \<Rightarrow> (nat \<times> 'p pmap) res"
where
  "write_to_block c pl req tick sendToPAL key hit b s =
     (if \<not> um_has b (pm_blocks s) then Inl (Panic ''No such block'')
      else rbind (table_bytes c (fr_ioFlag req)) (\<lambda>bytes.
        let finishedAt = tick;
            (tick, s) = (if sendToPAL
               then let (tick, s) = pm_dram_read pl bytes tick s in pm_dram_write pl bytes tick s
               else (tick, s)) in
        rbind (bs_all (fr_ioFlag req)) (\<lambda>full.
        rbind (rfold (write_unit c pl req tick sendToPAL key b (\<not> pc_bRandomTweak c \<and> \<not> full))
                 [0..<pc_bitsetSize c] ((False, hit), finishedAt, s))
          (\<lambda>(fl, finishedAt, s).
             Inr (if sendToPAL then finishedAt + pc_latency c PM_WRITE_INTERNAL else tick, s)))))"

definition write_pages :: "pmconf \<Rightarrow> 'p pal \<Rightarrow> ftl_request \<Rightarrow> nat \<Rightarrow> bool \<Rightarrow> 'p pmap \<Rightarrow> (nat \<times> 'p pmap) res" where
  "write_pages c pl req tick sendToPAL s =
     rbind (invalidate_old c req tick sendToPAL s) (\<lambda>(key, hit, s).
     rbind (getLastFreeBlock c (fr_ioFlag req) s) (\<lambda>(b, s).
       write_to_block c pl req tick sendToPAL key hit b s))"

end
