(* ===== verification/Ftl_Collect.thy ===== *)
theory Ftl_Collect
  imports Ftl_Mapping "HOL-Library.Product_Lexorder"
begin

text \<open>
  The second half of \<^verbatim>\<open>PageMapping\<close> (ftl/page_mapping.cc): the choice of the victim blocks, the garbage
  collection, the operations that the wrapper \<^verbatim>\<open>FTL\<close> (ftl/ftl.cc) calls, the construction and the fill,
  and the record of functions that the cache above has of this layer. The loop of
  \<^verbatim>\<open>writeToLeastusedBlock\<close>, which nothing calls, tests a bit set that is all zero; it is left out.
\<close>

section \<open>Victim selection\<close>

text \<open>The loop over the blocks that are fully written; \<^verbatim>\<open>f\<close> is the weight of one.\<close>

definition full_blocks :: "pmconf \<Rightarrow> (block \<Rightarrow> 'w res) \<Rightarrow> 'p pmap \<Rightarrow> (nat \<times> 'w) list res" where
  "full_blocks c f s =
     rfold (\<lambda>(b, blk) ws. rbind (blk_getNextWritePageIndex blk) (\<lambda>n.
         if n \<noteq> pc_pagesInBlock c then Inr ws else rbind (f blk) (\<lambda>w. Inr (ws @ [(b, w)]))))
       (pm_blocks s) []"

definition calculateVictimWeight :: "pmconf \<Rightarrow> nat \<Rightarrow> 'p pmap \<Rightarrow> (nat \<times> nat) list res" where
  "calculateVictimWeight c tick s =
     (case pc_policy c of
        POLICY_GREEDY \<Rightarrow> full_blocks c blk_getValidPageCountRaw s
      | POLICY_RANDOM_BLOCK \<Rightarrow> full_blocks c blk_getValidPageCountRaw s
      | POLICY_DCHOICE \<Rightarrow> full_blocks c blk_getValidPageCountRaw s
      | HOTBLOCK \<Rightarrow> full_blocks c (\<lambda>b. Inr (blk_getBlockAccessCount b)) s
      | POLICY_COST_BENEFIT \<Rightarrow> full_blocks c (\<lambda>b. rbind (blk_getValidPageCountRaw b) (\<lambda>v.
          Inr (pc_costBenefit c v tick (blk_getLastAccessedTime b)))) s
      | CACHED_GC \<Rightarrow> Inl (Panic ''Invalid evict policy''))"

text \<open>The pairs of cached and valid pages.\<close>

definition calculateVictimCachedWeight :: "pmconf \<Rightarrow> 'p pmap \<Rightarrow> (nat \<times> nat \<times> nat) list res" where
  "calculateVictimCachedWeight c s =
     full_blocks c (\<lambda>b. rbind (blk_getCachedPageCount b) (\<lambda>n. rbind (blk_getValidPageCount b) (\<lambda>v. Inr (n, v)))) s"

definition findHotAccessBlock :: "pmconf \<Rightarrow> 'p pmap \<Rightarrow> (nat \<times> nat \<times> nat) list res" where
  "findHotAccessBlock c s =
     full_blocks c (\<lambda>b. rbind (blk_getCachedPageCount b) (\<lambda>n. Inr (blk_getBlockAccessCount b, n))) s"

definition getAccessCountOfLBA :: "nat \<Rightarrow> 'p pmap \<Rightarrow> nat" where
  "getAccessCountOfLBA lpn s = (case pm_reuseMap s lpn of None \<Rightarrow> 0 | Some n \<Rightarrow> n)"

definition getLPNEvictionFrequency :: "nat \<Rightarrow> 'p pmap \<Rightarrow> nat" where
  "getLPNEvictionFrequency lpn s = (case pm_evictionFrequency s lpn of None \<Rightarrow> 0 | Some n \<Rightarrow> n)"

text \<open>The random selection: blocks are drawn until \<^verbatim>\<open>n\<close> different ones are; the index of a block that
  was drawn is set to the largest number. Draws that run out are a loop that does not end.\<close>

abbreviation uint32_max :: nat where "uint32_max \<equiv> nat (2 ^ 32 - 1)"

fun draw_victims :: "nat \<Rightarrow> nat list \<Rightarrow> (nat \<times> nat) list \<Rightarrow> (nat \<times> nat) list \<Rightarrow> (nat \<times> nat) list res" where
  "draw_victims n [] weight selected = (if length selected < n then Inl Diverges else Inr selected)"
| "draw_victims n (idx # draws) weight selected =
     (if length selected < n
      then rbind (rnth weight idx) (\<lambda>w.
        if fst w < uint32_max then draw_victims n draws (weight[idx := (uint32_max, snd w)]) (selected @ [w])
        else draw_victims n draws weight selected)
      else Inr selected)"

text \<open>The victim is the block with the least valid pages; if there are more, the one of them with the
  most cached pages. The vector is sorted in place and the victim stays in it. (The order in which
  \<^verbatim>\<open>std::sort\<close> leaves equal elements is not specified; here they keep their order.)\<close>

definition findVictimBlock :: "(nat \<times> nat \<times> nat) list \<Rightarrow> (nat \<times> (nat \<times> nat \<times> nat) list) res" where
  "findVictimBlock cw =
     (let cw = sort_key (\<lambda>(b, n, v). (v, - int n)) cw
      in rbind (rnth cw 0) (\<lambda>w. Inr (fst w, cw)))"

definition selectVictimBlock :: "pmconf \<Rightarrow> nat \<Rightarrow> 'p pmap \<Rightarrow> (nat list \<times> nat \<times> 'p pmap) res" where
  "selectVictimBlock c tick s =
     (let nBlocks = (case pc_mode c of GC_MODE_0 \<Rightarrow> pc_reclaimBlock c | GC_MODE_1 \<Rightarrow> pc_reclaimCount c (pm_nFreeBlocks s));
          s = s\<lparr>pm_bReclaimMore := False\<rparr>;
          aware = (pc_policy c = CACHED_GC \<or> pc_pageAwareofCache c)
      in rbind (if aware then calculateVictimCachedWeight c s else Inr []) (\<lambda>cachedWeight.
         rbind (if aware then Inr [] else calculateVictimWeight c tick s) (\<lambda>weight.
         rbind (if pc_policy c = POLICY_RANDOM_BLOCK \<or> pc_policy c = POLICY_DCHOICE
                then rbind (draw_victims (if pc_policy c = POLICY_RANDOM_BLOCK then nBlocks else pc_dChoiceParam c * nBlocks)
                              (pc_draws c (pm_selections s)) weight [])
                       (\<lambda>w. Inr (w, s\<lparr>pm_selections := pm_selections s + 1\<rparr>))
                else Inr (weight, s)) (\<lambda>(weight, s).
         rbind (if aware
                then rbind (rfold (\<lambda>i (list, cw). rbind (findVictimBlock cw) (\<lambda>(b, cw). Inr (list @ [b], cw)))
                              [0..<min nBlocks (length cachedWeight)] ([], cachedWeight)) (\<lambda>(list, cw). Inr list)
                else Inr (map fst (take (min nBlocks (length weight)) (sort_key snd weight)))) (\<lambda>list.
           Inr (list, tick + pc_latency c PM_SELECT_VICTIM_BLOCK, s))))))"

definition getSSDInternalInfo :: "nat \<times> nat \<times> nat \<times> nat \<Rightarrow> nat \<Rightarrow> (nat \<times> nat \<times> nat \<times> nat) res" where
  "getSSDInternalInfo = (\<lambda>(n0, n1, n2, n3) blockId.
     if n0 = 0 \<or> n1 = 0 \<or> n2 = 0 \<or> n3 = 0 then Inl DivByZero
     else let channels = blockId mod n0; blockId = blockId div n0;
              chips = blockId mod n1; blockId = blockId div n1;
              dies = blockId mod n2; blockId = blockId div n2
          in Inr (channels, chips, dies, blockId mod n3))"

section \<open>Garbage collection\<close>

text \<open>What the first part of a collection carries: the bit set and the page numbers that
  \<^verbatim>\<open>getPageInfo\<close> fills, the requests it collects for the second part, the lists of logical pages, and
  the tick, which the DRAM moves.\<close>

type_synonym pal_request = "nat \<times> nat \<times> bitset"

record gc_work =
  gw_bit :: bitset
  gw_lpns :: "nat list"
  gw_reads :: "pal_request list"
  gw_writes :: "pal_request list"
  gw_erases :: "nat list"
  gw_lpa :: "nat list"
  gw_lpnListForCache :: "nat list"
  gw_CachedValidLPN :: "nat list"
  gw_tick :: nat

text \<open>One unit of a page moves to the block \<^verbatim>\<open>b\<close>; the greedy collection keeps the cached table up to
  date.\<close>

definition move_unit ::
  "pmconf \<Rightarrow> 'p pal \<Rightarrow> bool \<Rightarrow> nat \<Rightarrow> nat \<Rightarrow> nat \<Rightarrow> nat \<Rightarrow> nat \<Rightarrow> gc_work \<times> 'p pmap \<Rightarrow> (gc_work \<times> 'p pmap) res"
where
  "move_unit c pl greedy beginAt victim pageIndex b idx = (\<lambda>(w, s).
     rbind (bs_test (gw_bit w) idx) (\<lambda>on.
     if on
     then rbind (with_block victim (\<lambda>blk. blk_invalidate blk pageIndex idx) s) (\<lambda>s.
          rbind (rnth (gw_lpns w) idx) (\<lambda>lpn.
          case map_of (pm_table s) lpn of None \<Rightarrow> Inl (Panic ''Invalid mapping table entry'')
          | Some ms \<Rightarrow>
            let (tick, s) = pm_dram_read pl (8 * pc_ioUnitInPage c) (gw_tick w) s in
            rbind (rderef (map_of (pm_blocks s) b)) (\<lambda>blk.
            rbind (rnth ms idx) (\<lambda>old.
            rbind (blk_getNextWritePageIndex_at blk idx) (\<lambda>page.
            let s = s\<lparr>pm_table := um_set lpn (ms[idx := (b, page)]) (pm_table s),
                      pm_cmt := (if greedy then map (\<lambda>(k, e). (k, if k = lpn then e\<lparr>me_block_id := b, me_page_Id := page\<rparr> else e)) (pm_cmt s)
                                 else pm_cmt s)\<rparr> in
            rbind (with_block b (\<lambda>blk. rbind (blk_write blk page lpn idx beginAt) (\<lambda>(ok, blk). Inr blk)) s) (\<lambda>s.
            rbind (unit_flags c idx (gw_bit w)) (\<lambda>io.
              Inr (w\<lparr>gw_tick := tick, gw_writes := gw_writes w @ [(b, page, io)]\<rparr>,
                   s\<lparr>pm_validPageCopies := pm_validPageCopies s + 1\<rparr>))))))))
     else Inr (w, s)))"

definition move_page ::
  "pmconf \<Rightarrow> 'p pal \<Rightarrow> bool \<Rightarrow> nat \<Rightarrow> nat \<Rightarrow> nat \<Rightarrow> nat \<Rightarrow> gc_work \<times> 'p pmap \<Rightarrow> (gc_work \<times> 'p pmap) res"
where
  "move_page c pl greedy beginAt victim pageIndex b ws =
     rfold (move_unit c pl greedy beginAt victim pageIndex b) [0..<pc_bitsetSize c] ws"

text \<open>\<^verbatim>\<open>getPageInfo\<close>, and \<^verbatim>\<open>bit.set()\<close> unless units are addressed on their own.\<close>

definition page_info :: "nat \<Rightarrow> nat \<Rightarrow> gc_work \<times> 'p pmap \<Rightarrow> (bool \<times> gc_work \<times> 'p pmap) res" where
  "page_info victim pageIndex = (\<lambda>(w, s).
     rbind (rderef (map_of (pm_blocks s) victim)) (\<lambda>blk.
     rbind (blk_getPageInfo blk pageIndex (gw_bit w)) (\<lambda>(any, lpns, bit).
       Inr (any, w\<lparr>gw_bit := bit, gw_lpns := lpns\<rparr>, s))))"

definition all_units :: "pmconf \<Rightarrow> gc_work \<Rightarrow> gc_work res" where
  "all_units c w = (if pc_bRandomTweak c then Inr w else rbind (bs_set_all (gw_bit w)) (\<lambda>bit. Inr (w\<lparr>gw_bit := bit\<rparr>)))"

definition greedy_page ::
  "pmconf \<Rightarrow> 'p pal \<Rightarrow> nat \<Rightarrow> nat \<Rightarrow> nat \<Rightarrow> gc_work \<times> 'p pmap \<Rightarrow> (gc_work \<times> 'p pmap) res"
where
  "greedy_page c pl beginAt victim pageIndex ws =
     rbind (page_info victim pageIndex ws) (\<lambda>(any, w, s).
     if any
     then rbind (rderef (map_of (pm_blocks s) victim)) (\<lambda>blk. rbind (blk_isPageValid blk pageIndex) (\<lambda>valid.
       if valid
       then rbind (all_units c w) (\<lambda>w.
            rbind (getLastFreeBlock c (gw_bit w) s) (\<lambda>(b, s).
            rbind (move_page c pl True beginAt victim pageIndex b
                     (w\<lparr>gw_reads := gw_reads w @ [(victim, pageIndex, gw_bit w)]\<rparr>, s)) (\<lambda>(w, s).
              Inr (w, s\<lparr>pm_validSuperPageCopies := pm_validSuperPageCopies s + 1\<rparr>))))
       else Inr (w, s)))
     else Inr (w, s))"

text \<open>The collection that keeps cached pages in the cache. A page that is valid and not cached is moved
  to another block if it has been evicted rarely, or to the cache. The page number of a cached page is
  the one that was read last (\<^verbatim>\<open>lpns[0]\<close>).\<close>

definition cached_page ::
  "pmconf \<Rightarrow> 'p pal \<Rightarrow> nat \<Rightarrow> nat \<Rightarrow> nat \<Rightarrow> gc_work \<times> 'p pmap \<Rightarrow> (gc_work \<times> 'p pmap) res"
where
  "cached_page c pl beginAt victim pageIndex = (\<lambda>(w, s).
     rbind (rderef (map_of (pm_blocks s) victim)) (\<lambda>blk.
     rbind (blk_isCached blk pageIndex) (\<lambda>cached.
     rbind (if cached then Inr False else blk_isPageValid blk pageIndex) (\<lambda>valid.
     rbind (if valid
            then rbind (page_info victim pageIndex (w, s)) (\<lambda>(any, w, s).
              if any
              then rbind (all_units c w) (\<lambda>w.
                   rbind (rnth (gw_lpns w) 0) (\<lambda>lpn.
                   let w = w\<lparr>gw_lpa := gw_lpa w @ [lpn], gw_reads := gw_reads w @ [(victim, pageIndex, gw_bit w)]\<rparr> in
                   rbind (if pc_blockToBlockMovement c
                          then if getLPNEvictionFrequency lpn s \<le> 2
                               then rbind (getLastFreeBlock c (gw_bit w) s) (\<lambda>(b, s).
                                    move_page c pl False beginAt victim pageIndex b (w, s))
                               else Inr (w\<lparr>gw_lpnListForCache := gw_lpnListForCache w @ [lpn]\<rparr>, s)
                          else Inr (w, s)) (\<lambda>(w, s).
                     Inr (w, s\<lparr>pm_validSuperPageCopies := pm_validSuperPageCopies s + 1\<rparr>))))
              else Inr (w, s))
            else Inr (w, s)) (\<lambda>(w, s).
     rbind (rderef (map_of (pm_blocks s) victim)) (\<lambda>blk.
     rbind (blk_isCached blk pageIndex) (\<lambda>cached.
       if cached
       then rbind (rnth (gw_lpns w) 0) (\<lambda>lpn. Inr (w\<lparr>gw_CachedValidLPN := gw_CachedValidLPN w @ [lpn]\<rparr>, s))
       else Inr (w, s))))))))"

definition collect_block ::
  "pmconf \<Rightarrow> 'p pal \<Rightarrow> nat \<Rightarrow> nat \<Rightarrow> gc_work \<times> 'p pmap \<Rightarrow> (gc_work \<times> 'p pmap) res"
where
  "collect_block c pl beginAt victim = (\<lambda>(w, s).
     if \<not> um_has victim (pm_blocks s) then Inl (Panic ''Invalid block'')
     else rbind (rfold (if pc_policy c = CACHED_GC then cached_page c pl beginAt victim else greedy_page c pl beginAt victim)
                   [0..<pc_pagesInBlock c] (w, s)) (\<lambda>(w, s).
          Inr (w\<lparr>gw_erases := gw_erases w @ [victim]\<rparr>, s)))"

definition RemoveEntryFromTable :: "pmconf \<Rightarrow> 'p pal \<Rightarrow> nat \<Rightarrow> nat \<Rightarrow> 'p pmap \<Rightarrow> nat \<times> 'p pmap" where
  "RemoveEntryFromTable c pl lpn tick s =
     (let (tick, s) = pm_dram_write pl (8 * pc_ioUnitInPage c) tick s
      in (tick, s\<lparr>pm_table := um_erase lpn (pm_table s)\<rparr>))"

text \<open>The second part: the flash is accessed.\<close>

definition issue :: "(nat \<Rightarrow> nat \<Rightarrow> bitset \<Rightarrow> nat \<Rightarrow> 'p pmap \<Rightarrow> nat \<times> 'p pmap) \<Rightarrow> nat \<Rightarrow> pal_request list
    \<Rightarrow> nat \<times> 'p pmap \<Rightarrow> nat \<times> 'p pmap" where
  "issue op beginAt reqs fs =
     fold (\<lambda>(b, p, io) (finishedAt, s). let (t, s) = op b p io beginAt s in (max finishedAt t, s)) reqs fs"

definition erase_victims :: "pmconf \<Rightarrow> 'p pal \<Rightarrow> nat \<Rightarrow> nat list \<Rightarrow> nat \<times> 'p pmap \<Rightarrow> (nat \<times> 'p pmap) res" where
  "erase_victims c pl beginAt victims fs =
     rfold (\<lambda>b (finishedAt, s).
       rbind (eraseInternal c pl b beginAt (s\<lparr>pm_erased := pm_erased s @ [b]\<rparr>)) (\<lambda>(t, s). Inr (max finishedAt t, s)))
       victims fs"

definition update_cached ::
  "(nat \<Rightarrow> nat \<Rightarrow> 'd \<Rightarrow> (nat \<times> 'd) res) \<Rightarrow> pmconf \<Rightarrow> 'p pal \<Rightarrow> nat \<Rightarrow> nat list
    \<Rightarrow> nat \<times> 'p pmap \<times> 'd \<Rightarrow> (nat \<times> 'p pmap \<times> 'd) res"
where
  "update_cached cb c pl tick lpns st =
     rfold (\<lambda>lpn (finishedAt, s, d).
       rbind (cb lpn tick d) (\<lambda>(t, d).
         let (t, s) = RemoveEntryFromTable c pl lpn t s in Inr (max finishedAt t, s, d))) lpns st"

definition move_to_cache :: "pmconf \<Rightarrow> 'p pal \<Rightarrow> nat list \<Rightarrow> nat \<times> 'p pmap \<Rightarrow> nat \<times> 'p pmap" where
  "move_to_cache c pl lpns ts =
     fold (\<lambda>lpn (tick, s). RemoveEntryFromTable c pl lpn tick (s\<lparr>pm_movePagesToCache := pm_movePagesToCache s @ [lpn]\<rparr>))
       lpns ts"

definition doGarbageCollection ::
  "(nat \<Rightarrow> nat \<Rightarrow> 'd \<Rightarrow> (nat \<times> 'd) res) \<Rightarrow> pmconf \<Rightarrow> 'p pal \<Rightarrow> nat list \<Rightarrow> nat \<Rightarrow> 'p pmap \<times> 'd
    \<Rightarrow> (nat \<times> 'p pmap \<times> 'd) res"
where
  "doGarbageCollection cb c pl victims tick0 = (\<lambda>(s, d).
     if pm_iclCount s > pc_SimlationIORequests c \<or> victims = [] then Inr (tick0, s, d)
     else
       let w = \<lparr>gw_bit = bs_new (pc_ioUnitInPage c), gw_lpns = [], gw_reads = [], gw_writes = [], gw_erases = [],
                gw_lpa = [], gw_lpnListForCache = [], gw_CachedValidLPN = [], gw_tick = tick0\<rparr> in
       rbind (rfold (collect_block c pl tick0) victims (w, s)) (\<lambda>(w, s).
       let tick = gw_tick w in
       rbind (if pc_policy c = CACHED_GC
              then rbind (update_cached cb c pl tick (gw_CachedValidLPN w) (tick0, s, d)) (\<lambda>(writeFinishedAt, s, d).
                   let (readFinishedAt, s) = issue (pal_read pl) tick (gw_reads w) (tick0, s);
                       (writeFinishedAt, s) = (if pc_blockToBlockMovement c
                          then issue (pal_write pl) readFinishedAt (gw_writes w) (writeFinishedAt, s)
                          else (writeFinishedAt, s))
                   in rbind (erase_victims c pl readFinishedAt (gw_erases w) (tick0, s)) (\<lambda>(eraseFinishedAt, s).
                      let (tick, s) = move_to_cache c pl
                            (if pc_blockToBlockMovement c then gw_lpnListForCache w else gw_lpa w) (tick, s);
                          s = (if pm_movePagesToCache s \<noteq> [] then s\<lparr>pm_putPagesInCache := True\<rparr> else s)
                      in Inr (writeFinishedAt, eraseFinishedAt, s, d)))
              else let (readFinishedAt, s) = issue (pal_read pl) tick (gw_reads w) (tick0, s);
                       (writeFinishedAt, s) = issue (pal_write pl) readFinishedAt (gw_writes w) (tick0, s)
                   in rbind (erase_victims c pl readFinishedAt (gw_erases w) (tick0, s)) (\<lambda>(eraseFinishedAt, s).
                      Inr (writeFinishedAt, eraseFinishedAt, s, d)))
         (\<lambda>(writeFinishedAt, eraseFinishedAt, s, d).
            Inr (max writeFinishedAt eraseFinishedAt + pc_latency c PM_DO_GARBAGE_COLLECTION, s, d))))"

section \<open>The operations of the page mapping\<close>

definition writeInternal ::
  "(nat \<Rightarrow> nat \<Rightarrow> 'd \<Rightarrow> (nat \<times> 'd) res) \<Rightarrow> pmconf \<Rightarrow> 'p pal \<Rightarrow> ftl_request \<Rightarrow> nat \<Rightarrow> bool \<Rightarrow> 'p pmap \<times> 'd
    \<Rightarrow> (nat \<times> 'p pmap \<times> 'd) res"
where
  "writeInternal cb c pl req tick sendToPAL = (\<lambda>(s, d).
     rbind (write_pages c pl req tick sendToPAL s) (\<lambda>(tick, s).
     if pc_belowThreshold c (pm_nFreeBlocks s)
     then if \<not> sendToPAL then Inl (Panic ''ftl: GC triggered while in initialization'')
          else rbind (selectVictimBlock c tick s) (\<lambda>(list, beginAt, s).
               rbind (doGarbageCollection cb c pl list beginAt (s, d)) (\<lambda>(beginAt, s, d).
                 Inr (tick, s\<lparr>pm_gcCount := pm_gcCount s + 1,
                              pm_reclaimedBlocks := pm_reclaimedBlocks s + length list\<rparr>, d)))
     else Inr (tick, s, d)))"

text \<open>The histogram of the reuse distances. The distance is a difference of 64 bit unsigned numbers.\<close>

definition reuse_class :: "int \<Rightarrow> int" where
  "reuse_class n =
     (if 8196 \<le> n \<and> n < 16391 then 16000
      else if 16392 \<le> n \<and> n < 32783 then 32000
      else if 32784 \<le> n \<and> n < 65567 then 64000
      else if 65568 \<le> n then 131136
      else 4000)"

definition addLbaToOptMap :: "nat \<Rightarrow> 'p pmap \<Rightarrow> 'p pmap" where
  "addLbaToOptMap lpn s =
     (case pm_lastUse s lpn of None \<Rightarrow> s\<lparr>pm_lastUse := (pm_lastUse s)(lpn \<mapsto> pm_iclCount s)\<rparr>
      | Some prev \<Rightarrow> let k = reuse_class ((int (pm_iclCount s) - int prev) mod 2 ^ 64) in
          s\<lparr>pm_clusters := (pm_clusters s)(k := pm_clusters s k + 1),
            pm_lastUse := (pm_lastUse s)(lpn \<mapsto> pm_iclCount s)\<rparr>)"

definition note_use :: "pmconf \<Rightarrow> nat \<Rightarrow> 'p pmap \<Rightarrow> 'p pmap" where
  "note_use c lpn s = (if pc_optimalreplacementPolicy c then s else addLbaToOptMap lpn s)"

definition pm_read :: "pmconf \<Rightarrow> 'p pal \<Rightarrow> ftl_request \<Rightarrow> nat \<Rightarrow> 'p pmap \<Rightarrow> (nat \<times> 'p pmap) res" where
  "pm_read c pl req tick s =
     rbind (bs_count (fr_ioFlag req)) (\<lambda>n.
     rbind (if n > 0 then readInternal c pl req tick (note_use c (fr_lpn req) s) else Inr (tick, s)) (\<lambda>(tick, s).
       Inr (tick + pc_latency c PM_READ, s)))"

definition pm_write ::
  "(nat \<Rightarrow> nat \<Rightarrow> 'd \<Rightarrow> (nat \<times> 'd) res) \<Rightarrow> pmconf \<Rightarrow> 'p pal \<Rightarrow> ftl_request \<Rightarrow> nat \<Rightarrow> 'p pmap \<times> 'd \<Rightarrow> (nat \<times> 'p pmap \<times> 'd) res"
where
  "pm_write cb c pl req tick = (\<lambda>(s, d).
     rbind (bs_count (fr_ioFlag req)) (\<lambda>n.
     rbind (if n > 0 then writeInternal cb c pl req tick True (note_use c (fr_lpn req) s, d) else Inr (tick, s, d))
       (\<lambda>(tick, s, d). Inr (tick + pc_latency c PM_WRITE, s, d))))"

text \<open>A trim invalidates what the page maps to, without the tests of the range.\<close>

definition unmap_unit :: "nat \<times> nat \<Rightarrow> nat \<Rightarrow> 'p pmap \<Rightarrow> 'p pmap res" where
  "unmap_unit m idx s =
     (if um_has (fst m) (pm_blocks s) then with_block (fst m) (\<lambda>b. blk_invalidate b (snd m) idx) s
      else Inl (Panic ''Block is not in use''))"

definition trimInternal :: "pmconf \<Rightarrow> 'p pal \<Rightarrow> ftl_request \<Rightarrow> nat \<Rightarrow> 'p pmap \<Rightarrow> (nat \<times> 'p pmap) res" where
  "trimInternal c pl req tick s =
     (case map_of (pm_table s) (fr_lpn req) of None \<Rightarrow> Inr (tick, s)
      | Some ms \<Rightarrow>
          rbind (table_bytes c (fr_ioFlag req)) (\<lambda>bytes.
          let (tick, s) = pm_dram_read pl bytes tick s in
          rbind (rfold (\<lambda>idx s. rbind (rnth ms idx) (\<lambda>m. unmap_unit m idx s)) [0..<pc_bitsetSize c] s) (\<lambda>s.
            Inr (tick + pc_latency c PM_TRIM_INTERNAL, s\<lparr>pm_table := um_erase (fr_lpn req) (pm_table s)\<rparr>))))"

definition pm_trim :: "pmconf \<Rightarrow> 'p pal \<Rightarrow> ftl_request \<Rightarrow> nat \<Rightarrow> 'p pmap \<Rightarrow> (nat \<times> 'p pmap) res" where
  "pm_trim c pl req tick s = rbind (trimInternal c pl req tick s) (\<lambda>(tick, s). Inr (tick + pc_latency c PM_TRIM, s))"

definition pm_format ::
  "(nat \<Rightarrow> nat \<Rightarrow> 'd \<Rightarrow> (nat \<times> 'd) res) \<Rightarrow> pmconf \<Rightarrow> 'p pal \<Rightarrow> nat \<Rightarrow> nat \<Rightarrow> nat \<Rightarrow> 'p pmap \<times> 'd \<Rightarrow> (nat \<times> 'p pmap \<times> 'd) res"
where
  "pm_format cb c pl slpn nlp tick = (\<lambda>(s, d).
     rbind (rfold (\<lambda>(lpn, ms) (list, s).
               if slpn \<le> lpn \<and> lpn < slpn + nlp
               then rbind (rfold (\<lambda>idx (list, s). rbind (rnth ms idx) (\<lambda>m.
                       rbind (unmap_unit m idx s) (\<lambda>s. Inr (list @ [fst m], s)))) [0..<pc_bitsetSize c] (list, s))
                      (\<lambda>(list, s). Inr (list, s\<lparr>pm_table := um_erase lpn (pm_table s)\<rparr>))
               else Inr (list, s)) (pm_table s) ([], s)) (\<lambda>(list, s).
     rbind (doGarbageCollection cb c pl (remdups (sort list)) tick (s, d)) (\<lambda>(tick, s, d).
       Inr (tick + pc_latency c PM_FORMAT, s, d))))"

text \<open>The page has left the cache.\<close>

definition undoCached :: "pmconf \<Rightarrow> nat \<Rightarrow> 'p pmap \<Rightarrow> 'p pmap res" where
  "undoCached c lpn s =
     (case map_of (pm_table s) lpn of None \<Rightarrow> Inr s
      | Some ms \<Rightarrow> rfold (\<lambda>idx s. rbind (rnth ms idx) (\<lambda>(b, p).
            if b < pc_totalPhysicalBlocks c \<and> p < pc_pagesInBlock c \<and> um_has b (pm_blocks s)
            then with_block b (\<lambda>blk. blk_deCache blk p) s else Inr s)) [0..<pc_bitsetSize c] s)"

definition getStatus :: "pmconf \<Rightarrow> nat \<Rightarrow> nat \<Rightarrow> 'p pmap \<Rightarrow> nat \<times> nat" where
  "getStatus c lpnBegin lpnEnd s =
     (pm_nFreeBlocks s,
      if lpnBegin = 0 \<and> lpnEnd \<ge> pc_totalLogicalBlocks c * pc_pagesInBlock c then length (pm_table s)
      else length (filter (\<lambda>lpn. um_has lpn (pm_table s)) [lpnBegin..<lpnEnd]))"

definition resetBlockAccesCount :: "'p pmap \<Rightarrow> 'p pmap" where
  "resetBlockAccesCount s = s\<lparr>pm_blocks := map (\<lambda>(b, blk). (b, blk_setAccessCountZero blk)) (pm_blocks s)\<rparr>"

text \<open>The sums of the erase counts and of their squares; the walk over the free blocks stops at the
  first, from the back, that has never been erased.\<close>

definition wear_sums :: "'p pmap \<Rightarrow> nat \<times> nat" where
  "wear_sums s =
     (let cs = map (\<lambda>(b, blk). blk_getEraseCount blk) (pm_blocks s)
             @ takeWhile (\<lambda>n. n \<noteq> 0) (rev (map blk_getEraseCount (pm_freeBlocks s)))
      in (sum_list cs, sum_list (map (\<lambda>n. n * n) cs)))"

definition calculateTotalPages :: "'p pmap \<Rightarrow> (nat \<times> nat) res" where
  "calculateTotalPages s =
     rfold (\<lambda>(b, blk) (valid, invalid). rbind (blk_getValidPageCount blk) (\<lambda>v.
         rbind (blk_getDirtyPageCount blk) (\<lambda>i. Inr (valid + v, invalid + i)))) (pm_blocks s) (0, 0)"

section \<open>Construction\<close>

text \<open>The sizes that the constructor derives.\<close>

definition PageMapping_conf :: "bool \<Rightarrow> pmconf \<Rightarrow> pmconf" where
  "PageMapping_conf usePortionOfCacheAsShadow c =
     (let shadow = 5 * pc_cmtSize c div 100
      in c\<lparr>pc_predictorThreshold := 2, pc_shadowSize := shadow,
           pc_cmtSize := (if usePortionOfCacheAsShadow then pc_cmtSize c - shadow else pc_cmtSize c),
           pc_bitsetSize := (if pc_bRandomTweak c then pc_ioUnitInPage c else 1)\<rparr>)"

definition PageMapping_new :: "pmconf \<Rightarrow> 'p \<Rightarrow> 'p pmap res" where
  "PageMapping_new c p =
     rbind (rfold (\<lambda>i free. rbind (blk_new i (pc_pagesInBlock c) (pc_ioUnitInPage c)) (\<lambda>b.
               Inr (free @ [fst (blk_move (pc_garbage c) b)]))) [0..<pc_totalPhysicalBlocks c] []) (\<lambda>free.
     rfold (renew_free c) [0..<pc_pageCountToMaxPerf c]
       \<lparr>pm_table = [], pm_blocks = [], pm_freeBlocks = free, pm_nFreeBlocks = pc_totalPhysicalBlocks c,
        pm_lastFreeBlock = replicate (pc_pageCountToMaxPerf c) 0, pm_lastFreeBlockIOMap = bs_new (pc_ioUnitInPage c),
        pm_lastFreeBlockIndex = 0, pm_bReclaimMore = False, pm_currentIndex = 0, pm_currentPageInBlock = 0,
        pm_cmt = [], pm_shadow = [], pm_evictedCmt = (\<lambda>_. None), pm_erased = [], pm_movePagesToCache = [],
        pm_putPagesInCache = False, pm_iclCount = 0, pm_optMap = (\<lambda>_. None), pm_reuseMap = (\<lambda>_. None),
        pm_evictionFrequency = (\<lambda>_. None), pm_lastUse = (\<lambda>_. None), pm_clusters = (\<lambda>_. 0), pm_selections = 0,
        pm_gcCount = 0, pm_reclaimedBlocks = 0, pm_validSuperPageCopies = 0, pm_validPageCopies = 0,
        pm_inconsistent = 0, pm_pal = p, pm_log = []\<rparr>)"

text \<open>The pages of the fill: how many (the number to invalidate is an unsigned difference) and which;
  \<^verbatim>\<open>d1\<close> and \<^verbatim>\<open>d2\<close> are the random draws.\<close>

definition uint64_sub :: "nat \<Rightarrow> nat \<Rightarrow> nat" where
  "uint64_sub a b = nat ((int a - int b) mod 2 ^ 64)"

definition fill_counts :: "nat \<Rightarrow> nat \<Rightarrow> nat \<Rightarrow> nat \<times> nat" where
  "fill_counts nPagesToWarmup nPagesToInvalidate maxPagesBeforeGC =
     (nPagesToWarmup, if nPagesToWarmup + nPagesToInvalidate > maxPagesBeforeGC
        then uint64_sub maxPagesBeforeGC nPagesToWarmup else nPagesToInvalidate)"

definition fill_pages :: "filling_mode \<Rightarrow> (nat \<Rightarrow> nat) \<Rightarrow> (nat \<Rightarrow> nat) \<Rightarrow> nat \<times> nat \<Rightarrow> nat list" where
  "fill_pages mode d1 d2 = (\<lambda>(n, m).
     (if mode = FILLING_MODE_0 \<or> mode = FILLING_MODE_1 then [0..<n] else map d1 [0..<n])
     @ (if mode = FILLING_MODE_0 then [0..<m] else map d2 [0..<m]))"

definition initialize ::
  "(nat \<Rightarrow> nat \<Rightarrow> 'd \<Rightarrow> (nat \<times> 'd) res) \<Rightarrow> pmconf \<Rightarrow> 'p pal \<Rightarrow> nat list \<Rightarrow> 'p pmap \<times> 'd \<Rightarrow> ('p pmap \<times> 'd) res"
where
  "initialize cb c pl pages sd =
     rbind (bs_set_all (bs_new (pc_ioUnitInPage c))) (\<lambda>io.
     rbind (rfold (\<lambda>lpn sd. rbind (writeInternal cb c pl \<lparr>fr_lpn = lpn, fr_ioFlag = io\<rparr> 0 False sd) (\<lambda>(tick, sd). Inr sd))
              pages sd) (\<lambda>sd.
     rbind (calculateTotalPages (fst sd)) (\<lambda>t. Inr sd)))"

section \<open>The wrapper FTL\<close>

definition ftl_read :: "pmconf \<Rightarrow> 'p pal \<Rightarrow> ftl_request \<Rightarrow> nat \<Rightarrow> 'p pmap \<Rightarrow> (nat \<times> 'p pmap) res" where
  "ftl_read c pl req tick s = rbind (pm_read c pl req tick s) (\<lambda>(tick, s). Inr (tick + pc_latency c FTL_READ, s))"

definition ftl_write ::
  "pmconf \<Rightarrow> 'p pal \<Rightarrow> (nat \<Rightarrow> nat \<Rightarrow> 'd \<Rightarrow> (nat \<times> 'd) res) \<Rightarrow> ftl_request \<Rightarrow> nat \<Rightarrow> 'p pmap \<times> 'd \<Rightarrow> (nat \<times> 'p pmap \<times> 'd) res"
where
  "ftl_write c pl cb req tick sd =
     rbind (pm_write cb c pl req tick sd) (\<lambda>(tick, sd). Inr (tick + pc_latency c FTL_WRITE, sd))"

definition ftl_trim :: "pmconf \<Rightarrow> 'p pal \<Rightarrow> ftl_request \<Rightarrow> nat \<Rightarrow> 'p pmap \<Rightarrow> (nat \<times> 'p pmap) res" where
  "ftl_trim c pl req tick s = rbind (pm_trim c pl req tick s) (\<lambda>(tick, s). Inr (tick + pc_latency c FTL_TRIM, s))"

definition ftl_format ::
  "pmconf \<Rightarrow> 'p pal \<Rightarrow> (nat \<Rightarrow> nat \<Rightarrow> 'd \<Rightarrow> (nat \<times> 'd) res) \<Rightarrow> nat \<Rightarrow> nat \<Rightarrow> nat \<Rightarrow> 'p pmap \<times> 'd \<Rightarrow> (nat \<times> 'p pmap \<times> 'd) res"
where
  "ftl_format c pl cb slpn nlp tick sd =
     rbind (pm_format cb c pl slpn nlp tick sd) (\<lambda>(tick, sd). Inr (tick + pc_latency c FTL_FORMAT, sd))"

definition DecachePage :: "pmconf \<Rightarrow> nat \<Rightarrow> 'p pmap \<Rightarrow> 'p pmap res" where
  "DecachePage c lpn s = undoCached c lpn s"

definition getUsedPageCount :: "pmconf \<Rightarrow> nat \<Rightarrow> nat \<Rightarrow> 'p pmap \<Rightarrow> nat" where
  "getUsedPageCount c lpnBegin lpnEnd s = snd (getStatus c lpnBegin lpnEnd s)"

text \<open>The check of the constructor of the wrapper.\<close>

definition FTL_checked :: "pmconf \<Rightarrow> unit res" where
  "FTL_checked c =
     (if pc_totalPhysicalBlocks c \<le> pc_totalLogicalBlocks c + pc_pageCountToMaxPerf c
      then Inl (Panic ''FTL Over-Provision Ratio is too small'') else Inr ())"

text \<open>What the cache has below it: this layer, the maps it writes to, and the DRAM.\<close>

definition ftl_below :: "pmconf \<Rightarrow> 'p pal \<Rightarrow> 'p pmap below" where
  "ftl_below c pl =
     \<lparr>bl_read = ftl_read c pl, bl_write = ftl_write c pl, bl_trim = ftl_trim c pl,
      bl_format = ftl_format c pl, bl_decache = DecachePage c,
      bl_evicted = (\<lambda>tag s. s\<lparr>pm_evictionFrequency := (pm_evictionFrequency s)
         (tag \<mapsto> (case pm_evictionFrequency s tag of None \<Rightarrow> 0 | Some n \<Rightarrow> n) + 1)\<rparr>),
      bl_reuse = (\<lambda>lpn n s. s\<lparr>pm_reuseMap := (pm_reuseMap s)(lpn \<mapsto> n)\<rparr>),
      bl_dram_read = pm_dram_read pl, bl_dram_write = pm_dram_write pl,
      bl_setScheduling = (\<lambda>b s. s\<lparr>pm_pal := pl_setScheduling pl b (pm_pal s)\<rparr>)\<rparr>"

end
