(* ===== verification/Ftl_Below.thy ===== *)
theory Ftl_Below
  imports Icl_Safety Ftl_Collect
begin

text \<open>
  The cache over the flash translation layer: the layer keeps the laws that the cache relies on, so
  what is proved of the cache over any such layer holds of the cache over this one. A write or a format
  changes the lines of the cache by calls of the function that the cache passes down, and in no other
  way.
\<close>

section \<open>The laws\<close>

lemma update_cached_calls:
  assumes "update_cached cb c pl tick lpns (t, s, d) = Inr (t', s', d')"
  shows "(cb_step cb)\<^sup>*\<^sup>* d d'"
proof -
  define I where "I = (\<lambda>x :: nat \<times> 'a pmap \<times> line list list. (cb_step cb)\<^sup>*\<^sup>* d (snd (snd x)))"
  have "run UNIV I (update_cached cb c pl tick lpns (t, s, d))"
    unfolding update_cached_def
  proof (rule run_rfold)
    fix lpn and x :: "nat \<times> 'a pmap \<times> line list list" assume x: "I x"
    obtain f s d1 where [simp]: "x = (f, s, d1)" by (cases x)
    show "run UNIV I ((case x of (finishedAt, s, d) \<Rightarrow> rbind (cb lpn tick d) (\<lambda>(t, d).
        let (t, s) = RemoveEntryFromTable c pl lpn t s in Inr (max finishedAt t, s, d))))"
    proof (cases "cb lpn tick d1")
      case (Inr r)
      obtain t2 d2 where r: "r = (t2, d2)" by (cases r)
      have "cb_step cb d1 d2" using Inr by (auto simp: cb_step_def r)
      with x have "I (f', s', d2)" for f' s' unfolding I_def by (auto intro: rtranclp.rtrancl_into_rtrancl)
      then show ?thesis by (simp add: Inr r split: prod.split)
    qed simp
  qed (simp add: I_def)
  then show ?thesis using assms by (simp add: I_def)
qed

lemma doGarbageCollection_calls:
  assumes "doGarbageCollection cb c pl victims tick (s, d) = Inr (t', s', d')"
  shows "(cb_step cb)\<^sup>*\<^sup>* d d'"
  using assms unfolding doGarbageCollection_def
  by (auto simp: Let_def split: if_splits prod.splits dest!: update_cached_calls)

lemma ftl_write_calls:
  assumes "ftl_write c pl cb r t (f, d) = Inr (t', f', d')"
  shows "(cb_step cb)\<^sup>*\<^sup>* d d'"
  using assms unfolding ftl_write_def pm_write_def writeInternal_def
  by (auto split: if_splits prod.splits dest!: doGarbageCollection_calls)

lemma ftl_format_calls:
  assumes "ftl_format c pl cb a n t (f, d) = Inr (t', f', d')"
  shows "(cb_step cb)\<^sup>*\<^sup>* d d'"
  using assms unfolding ftl_format_def pm_format_def
  by (auto split: if_splits prod.splits dest!: doGarbageCollection_calls)

interpretation ftl: layer_below "ftl_below c pl" "\<lambda>_. True"
  for c :: pmconf and pl :: "'p pal"
  by unfold_locales (auto simp: ftl_below_def dest: ftl_write_calls ftl_format_calls)

text \<open>The configuration of the cache that the program has without a configuration file, for the flash
  of \<^verbatim>\<open>config/sample.cfg\<close> (a superpage is a page of 4096 bytes, 512 of them are accessed in parallel).\<close>

definition default_gconfig :: gconfig where
  "default_gconfig = \<lparr>cf_pageSize = 4096, cf_pageCountToMaxPerf = 512, cf_ioUnitInPage = 1, cf_randomTweak = True,
     cf_waySize = 1, cf_cacheSize = 33554432, cf_ghostCacheSize = 0, cf_victimSelectionPolicy = 0\<rparr>"

definition default_cache :: "bool \<Rightarrow> (nat \<Rightarrow> nat \<Rightarrow> bool) \<Rightarrow> nat \<Rightarrow> (cpu_function \<Rightarrow> nat) \<Rightarrow> gconf" where
  "default_cache garbage ratio cores latency = GenericCache_sizes garbage default_gconfig
     \<lparr>gf_superPageSize = 0, gf_parallelIO = 0, gf_lineCountInSuperPage = 0, gf_lineCountInMaxIO = 0, gf_lineSize = 0,
      gf_setSize = 0, gf_waySize = 0, gf_ghostWaySize = 0, gf_prefetchIOCount = 1, gf_prefetchIORatio = ratio,
      gf_useReadCaching = False, gf_useWriteCaching = True, gf_useReadPrefetch = False, gf_bSuperPage = False,
      gf_prefetchMode = MODE_ALL, gf_evictMode = MODE_ALL, gf_policy = POLICY_LEAST_RECENTLY_USED, gf_dist = (\<lambda>_. 0),
      gf_cacheLatency = 10, gf_iclCores = cores, gf_applyLatency = latency\<rparr>"

lemma default_cache_ok: "conf_ok (default_cache garbage ratio cores latency)"
  by (simp add: default_cache_def GenericCache_sizes_def default_gconfig_def conf_ok_def)

interpretation default: cache_over_ftl "ftl_below c pl" "\<lambda>_. True" "default_cache garbage ratio cores latency"
  for c :: pmconf and pl :: "'p pal" and garbage ratio cores latency
  by unfold_locales (rule default_cache_ok)

end
