(* ===== verification/Ftl_Invariant.thy ===== *)
theory Ftl_Invariant
  imports Runs Ftl_Collect
begin

text \<open>
  The invariant of the page mapping: the table and the valid pages of the blocks are inverse to each
  other. A logical page is mapped to a page of a block in use that is valid and holds that logical page,
  and each valid page is the one that its logical page is mapped to; an entry of the cached mapping table
  agrees with the entry of the table, if there is one. It holds with one I/O unit in a
  page, with the cached mapping table on or off (on only without the dead-on-arrival predictor, as in
  icl/global_point.cc). Every operation but the format keeps it, a write only when it does not hit the
  cached table; the operations stop only with the faults of \<^verbatim>\<open>ftl_faults\<close>.
\<close>

declare split_paired_All [simp del] split_paired_Ex [simp del]

section \<open>Hash tables\<close>

lemma um_has_map_of: "um_has k xs \<longleftrightarrow> map_of xs k \<noteq> None"
  by (auto simp: um_has_def map_of_eq_None_iff)

lemma um_set_keys [simp]: "map fst (um_set k v xs) = map fst xs"
  by (induction xs) (auto simp: um_set_def)

lemma map_of_um_set [simp]: "map_of (um_set k v xs) j = (if j = k \<and> map_of xs k \<noteq> None then Some v else map_of xs j)"
  by (induction xs) (auto simp: um_set_def)

lemma um_put_map_of [simp]: "map_of (um_put place k v xs) j = (if j = k then Some v else map_of xs j)"
proof -
  have "map_of (take n xs @ (k, v) # drop n xs) j = (if j = k then Some v else map_of xs j)"
    if "map_of xs k = None" for n
  proof -
    have xs: "map_of xs j = map_of (take n xs @ drop n xs) j" by simp
    from that have "map_of (take n xs @ drop n xs) k = None" by simp
    then have k: "map_of (take n xs) k = None" by (simp only: map_of_append) (simp add: map_add_None)
    show ?thesis
      by (subst xs) (use k in \<open>auto simp only: map_of_append map_add_def map_of.simps fun_upd_apply fst_conv snd_conv split: option.splits if_splits\<close>)
  qed
  then show ?thesis by (auto simp: um_put_def um_has_map_of Let_def)
qed

lemma distinct_insert_at: "distinct xs \<Longrightarrow> k \<notin> set xs \<Longrightarrow> distinct (take n xs @ k # drop n xs)"
proof -
  have "distinct (as @ k # bs)" if "distinct (as @ bs)" "k \<notin> set (as @ bs)" for as bs
    using that by auto
  from this[of "take n xs" "drop n xs"] show "distinct xs \<Longrightarrow> k \<notin> set xs \<Longrightarrow> ?thesis" by simp
qed

lemma um_put_distinct: "distinct (map fst xs) \<Longrightarrow> distinct (map fst (um_put place k v xs))"
  using distinct_insert_at[of "map fst xs" k] by (auto simp: um_put_def um_has_def Let_def take_map drop_map)

lemma map_of_um_erase [simp]: "map_of (um_erase k xs) j = (if j = k then None else map_of xs j)"
  by (induction xs) (auto simp: um_erase_def)

lemma um_erase_distinct: "distinct (map fst xs) \<Longrightarrow> distinct (map fst (um_erase k xs))"
  unfolding um_erase_def by (rule distinct_map_filter)

section \<open>The state\<close>

definition conf_dims :: "pmconf \<Rightarrow> bool" where
  "conf_dims c \<longleftrightarrow> pc_ioUnitInPage c = 1 \<and> pc_bitsetSize c = 1
     \<and> 0 < pc_pageCountToMaxPerf c \<and> 0 < pc_pagesInBlock c"

definition conf_one :: "pmconf \<Rightarrow> bool" where
  "conf_one c \<longleftrightarrow> conf_dims c \<and> (pc_enableCMT c \<longrightarrow> \<not> pc_useDeadOnArrivalPredictor c)"

lemma conf_one_dims: "conf_one c \<Longrightarrow> conf_dims c"
  by (simp add: conf_one_def)

definition flag_ok :: "bitset \<Rightarrow> bool" where
  "flag_ok io \<longleftrightarrow> bs_wf io \<and> bs_dataSize io = 1"

definition page_next :: "block \<Rightarrow> nat" where
  "page_next blk = blk_pNextWritePageIndex blk ! 0"

definition block_ok :: "pmconf \<Rightarrow> nat \<Rightarrow> block \<Rightarrow> bool" where
  "block_ok c b blk \<longleftrightarrow> blk_inv blk \<and> blk_idx blk = b \<and> blk_pageCount blk = pc_pagesInBlock c
     \<and> blk_ioUnitInPage blk = 1 \<and> b < pc_totalPhysicalBlocks c \<and> page_next blk \<le> pc_pagesInBlock c"

definition block_fresh :: "block \<Rightarrow> bool" where
  "block_fresh blk \<longleftrightarrow> blk_validSet blk = {} \<and> page_next blk = 0"

definition pm_wf :: "pmconf \<Rightarrow> 'p pmap \<Rightarrow> bool" where
  "pm_wf c s \<longleftrightarrow> distinct (map fst (pm_blocks s)) \<and> distinct (map fst (pm_table s))
     \<and> (\<forall>b blk. map_of (pm_blocks s) b = Some blk \<longrightarrow> block_ok c b blk)
     \<and> (\<forall>blk \<in> set (pm_freeBlocks s). block_ok c (blk_idx blk) blk \<and> block_fresh blk
          \<and> map_of (pm_blocks s) (blk_idx blk) = None)
     \<and> distinct (map blk_idx (pm_freeBlocks s)) \<and> pm_nFreeBlocks s = length (pm_freeBlocks s)
     \<and> length (pm_lastFreeBlock s) = pc_pageCountToMaxPerf c \<and> pm_lastFreeBlockIndex s < pc_pageCountToMaxPerf c
     \<and> flag_ok (pm_lastFreeBlockIOMap s)"

text \<open>The logical page that a flash page holds, if it is valid.\<close>

definition pm_data :: "'p pmap \<Rightarrow> nat \<times> nat \<Rightarrow> nat option" where
  "pm_data s = (\<lambda>(b, p). case map_of (pm_blocks s) b of None \<Rightarrow> None
     | Some blk \<Rightarrow> if (p, 0) \<in> blk_validSet blk then Some (blk_lpn blk (p, 0)) else None)"

text \<open>The table and the pages are inverse, but for the logical pages of \<^verbatim>\<open>X\<close>, which no page holds.\<close>

definition mapped :: "nat set \<Rightarrow> 'p pmap \<Rightarrow> bool" where
  "mapped X s \<longleftrightarrow>
     (\<forall>l ms. map_of (pm_table s) l = Some ms \<longrightarrow> length ms = 1 \<and> (l \<notin> X \<longrightarrow> pm_data s (ms ! 0) = Some l))
     \<and> (\<forall>m l. pm_data s m = Some l \<longrightarrow> l \<notin> X \<and> map_of (pm_table s) l = Some [m])"

text \<open>The cached table agrees with the table.\<close>

definition cmt_ok :: "pmconf \<Rightarrow> 'p pmap \<Rightarrow> bool" where
  "cmt_ok c s \<longleftrightarrow> (pc_enableCMT c \<longrightarrow> (\<forall>l e ms. map_of (pm_cmt s) l = Some e \<longrightarrow> map_of (pm_table s) l = Some ms
     \<longrightarrow> ms = [(me_block_id e, me_page_Id e)]))"

definition pm_inv :: "pmconf \<Rightarrow> 'p pmap \<Rightarrow> bool" where
  "pm_inv c s \<longleftrightarrow> pm_wf c s \<and> mapped {} s \<and> cmt_ok c s"

text \<open>The logical page has no entry in the cached table: a write of it goes through the table.\<close>

definition unhit :: "pmconf \<Rightarrow> nat \<Rightarrow> 'p pmap \<Rightarrow> bool" where
  "unhit c l s \<longleftrightarrow> (pc_enableCMT c \<longrightarrow> map_of (pm_cmt s) l = None)"

definition ftl_faults :: "fault set" where
  "ftl_faults = {Panic ''No free block left'', Panic ''Corrupted'', BeforeBegin}"

section \<open>One block\<close>

lemma block_ok_D:
  assumes "block_ok c b blk"
  shows "blk_inv blk" "blk_wf blk" "blk_idx blk = b" "blk_pageCount blk = pc_pagesInBlock c" "blk_ioUnitInPage blk = 1"
    "b < pc_totalPhysicalBlocks c" "page_next blk \<le> pc_pagesInBlock c"
    "blk_cells blk = (\<lambda>p. (p, 0)) ` {..<pc_pagesInBlock c}" "length (blk_pNextWritePageIndex blk) = 1"
  using assms by (auto simp: block_ok_def blk_inv_wf blk_cells_one blk_wf_def[of blk] dest: blk_inv_wf)

lemma block_valid_lt: "block_ok c b blk \<Longrightarrow> (p, i) \<in> blk_validSet blk \<Longrightarrow> p < pc_pagesInBlock c"
  using blk_sets_cells(1)[of blk] block_ok_D(2,8)[of c b blk] by auto

lemma block_valid_next:
  assumes "block_ok c b blk" "(p, 0) \<in> blk_validSet blk"
  shows "p < page_next blk"
proof (rule ccontr)
  note ok = block_ok_D[OF assms(1)]
  assume "\<not> p < page_next blk"
  moreover have "(p, 0) \<in> blk_cells blk" using block_valid_lt[OF assms] ok(8) by auto
  ultimately have "(p, 0) \<in> blk_erasedSet blk" by (intro blk_inv_next[OF ok(1)]) (simp_all add: page_next_def)
  with blk_inv_disjoint[OF ok(1)] assms(2) show False by auto
qed

lemma block_next: "block_ok c b blk \<Longrightarrow> blk_getNextWritePageIndex blk = Inr (page_next blk)"
  using block_ok_D(5,9)[of c b blk] by (simp add: blk_getNextWritePageIndex_def page_next_def)

lemma block_next_at: "block_ok c b blk \<Longrightarrow> blk_getNextWritePageIndex_at blk 0 = Inr (page_next blk)"
  using block_ok_D(9)[of c b blk] by (simp add: blk_getNextWritePageIndex_at_def page_next_def)

text \<open>The pages of a block as a map: the valid ones with what they hold.\<close>

definition block_data :: "block \<Rightarrow> nat \<Rightarrow> nat option" where
  "block_data blk p = (if (p, 0) \<in> blk_validSet blk then Some (blk_lpn blk (p, 0)) else None)"

lemma pm_data_block: "pm_data s (b, p) = (case map_of (pm_blocks s) b of None \<Rightarrow> None | Some blk \<Rightarrow> block_data blk p)"
  by (auto simp: pm_data_def block_data_def split: option.splits)

lemma block_data_abs:
  assumes "blk_wf blk" "blk_ioUnitInPage blk = 1"
  shows "block_data blk p = (if (p, 0) \<in> pg_valid (blk_abs blk) then Some (pg_lpn (blk_abs blk) (p, 0)) else None)"
  using assms blk_sets_cells(1)[OF assms(1)] by (auto simp: block_data_def blk_abs_def blk_cells_def)

lemma page_next_abs: "blk_ioUnitInPage blk = 1 \<Longrightarrow> page_next blk = pg_next (blk_abs blk) 0"
  by (simp add: page_next_def blk_abs_def)

lemma block_ok_shape:
  "block_ok c b blk \<Longrightarrow> blk_inv blk' \<Longrightarrow> same_shape blk blk' \<Longrightarrow> page_next blk' \<le> pc_pagesInBlock c \<Longrightarrow> block_ok c b blk'"
  by (simp add: block_ok_def same_shape_def)

lemma block_write:
  assumes "block_ok c b blk" "page_next blk < pc_pagesInBlock c"
  shows "\<exists>blk'. blk_write blk (page_next blk) l 0 t = Inr (True, blk') \<and> block_ok c b blk'
    \<and> page_next blk' = page_next blk + 1 \<and> block_data blk' = (block_data blk)(page_next blk \<mapsto> l)
    \<and> block_data blk (page_next blk) = None"
proof -
  note ok = block_ok_D[OF assms(1)]
  let ?p = "page_next blk"
  have cell: "(?p, 0) \<in> blk_cells blk" using ok(8) assms(2) by auto
  have erased: "(?p, 0) \<in> blk_erasedSet blk" by (rule blk_inv_next[OF ok(1) cell]) (simp add: page_next_def)
  obtain blk' where w: "blk_write blk ?p l 0 t = Inr (True, blk')" "blk_inv blk'" "same_shape blk blk'"
    "blk_abs blk' = spec_write (?p, 0) l (blk_abs blk)"
    using blk_write_ok[OF ok(1) cell erased, of l t] by (auto simp: page_next_def)
  have one: "blk_ioUnitInPage blk' = 1" using w(3) ok(5) by (simp add: same_shape_def)
  have nx: "page_next blk' = ?p + 1" by (simp add: page_next_abs[OF one] w(4) spec_write_def)
  have data: "block_data blk' = (block_data blk)(?p \<mapsto> l)"
    by (rule ext) (simp add: block_data_abs[OF blk_inv_wf[OF w(2)] one] block_data_abs[OF ok(2,5)] w(4) spec_write_def)
  have none: "block_data blk ?p = None" using erased blk_inv_disjoint[OF ok(1)] by (auto simp: block_data_def)
  show ?thesis using block_ok_shape[OF assms(1) w(2,3)] nx assms(2) data none w(1) by auto
qed

lemma block_invalidate:
  assumes "block_ok c b blk" "p < pc_pagesInBlock c"
  shows "\<exists>blk'. blk_invalidate blk p 0 = Inr blk' \<and> block_ok c b blk' \<and> page_next blk' = page_next blk
    \<and> block_data blk' = (block_data blk)(p := None)"
proof -
  note ok = block_ok_D[OF assms(1)]
  have cell: "(p, 0) \<in> blk_cells blk" using ok(8) assms(2) by auto
  obtain blk' where w: "blk_invalidate blk p 0 = Inr blk'" "blk_inv blk'" "same_shape blk blk'"
    "blk_abs blk' = spec_invalidate (p, 0) (blk_abs blk)"
    using blk_invalidate_ok[OF ok(1) cell] by auto
  have one: "blk_ioUnitInPage blk' = 1" using w(3) ok(5) by (simp add: same_shape_def)
  have nx: "page_next blk' = page_next blk"
    by (simp add: page_next_abs[OF one] page_next_abs[OF ok(5)] w(4) spec_invalidate_def)
  have data: "block_data blk' = (block_data blk)(p := None)"
    by (rule ext) (simp add: block_data_abs[OF blk_inv_wf[OF w(2)] one] block_data_abs[OF ok(2,5)] w(4) spec_invalidate_def)
  show ?thesis using block_ok_shape[OF assms(1) w(2,3)] nx ok(7) data w(1) by auto
qed

lemma block_same_abs:
  assumes "block_ok c b blk" "blk_inv blk'" "same_shape blk blk'" "blk_abs blk' = blk_abs blk"
  shows "block_ok c b blk' \<and> page_next blk' = page_next blk \<and> block_data blk' = block_data blk"
proof -
  note ok = block_ok_D[OF assms(1)]
  have one: "blk_ioUnitInPage blk' = 1" using assms(3) ok(5) by (simp add: same_shape_def)
  have nx: "page_next blk' = page_next blk" by (simp add: page_next_abs[OF one] page_next_abs[OF ok(5)] assms(4))
  have "block_data blk' = block_data blk"
    by (rule ext) (simp add: block_data_abs[OF blk_inv_wf[OF assms(2)] one] block_data_abs[OF ok(2,5)] assms(4))
  then show ?thesis using block_ok_shape[OF assms(1-3)] nx ok(7) by auto
qed

lemma block_read:
  assumes "block_ok c b blk" "p < pc_pagesInBlock c"
  shows "\<exists>blk'. blk_read blk p 0 t = Inr ((p, 0) \<in> blk_validSet blk, blk') \<and> block_ok c b blk'
    \<and> page_next blk' = page_next blk \<and> block_data blk' = block_data blk"
proof -
  note ok = block_ok_D[OF assms(1)]
  have cell: "(p, 0) \<in> blk_cells blk" using ok(8) assms(2) by auto
  from blk_read_one[OF ok(1) cell ok(5)] obtain blk' where
    "blk_read blk p 0 t = Inr ((p, 0) \<in> blk_validSet blk, blk')" "blk_inv blk'" "same_shape blk blk'" "blk_abs blk' = blk_abs blk"
    by blast
  with block_same_abs[OF assms(1)] show ?thesis by auto
qed

lemma block_decache:
  assumes "block_ok c b blk" "p < pc_pagesInBlock c"
  shows "\<exists>blk'. blk_deCache blk p = Inr blk' \<and> block_ok c b blk' \<and> page_next blk' = page_next blk
    \<and> block_data blk' = block_data blk"
  using blk_deCache_one[of blk p] block_ok_D[OF assms(1)] assms(2) block_same_abs[OF assms(1)] by metis

lemma block_erase:
  assumes "block_ok c b blk"
  shows "\<exists>blk'. blk_erase blk = Inr blk' \<and> block_ok c b blk' \<and> block_fresh blk'"
proof -
  note ok = block_ok_D[OF assms]
  obtain blk' where w: "blk_erase blk = Inr blk'" "blk_inv blk'" "same_shape blk blk'"
    "blk_abs blk' = spec_erase (blk_cells blk) (blk_abs blk)" using blk_erase_inv[OF ok(1)] by blast
  have one: "blk_ioUnitInPage blk' = 1" using w(3) ok(5) by (simp add: same_shape_def)
  have "page_next blk' = 0" by (simp add: page_next_abs[OF one] w(4) spec_erase_def)
  moreover have "blk_validSet blk' = {}" using arg_cong[OF w(4), of pg_valid] by (simp add: blk_abs_def spec_erase_def)
  ultimately show ?thesis using block_ok_shape[OF assms w(2,3)] w(1) by (auto simp: block_fresh_def)
qed

lemma block_move: "block_ok c b (fst (blk_move g blk)) = block_ok c b blk"
    "block_fresh (fst (blk_move g blk)) = block_fresh blk" "blk_idx (fst (blk_move g blk)) = blk_idx blk"
    "page_next (fst (blk_move g blk)) = page_next blk" "block_data (fst (blk_move g blk)) = block_data blk"
proof -
  have "blk_abs (fst (blk_move g blk)) = blk_abs blk"
    by (simp add: blk_abs_def blk_move_def blk_validSet_def blk_erasedSet_def blk_lpn_def blk_cells_def fun_eq_iff)
  moreover have "blk_wf (fst (blk_move g blk)) = blk_wf blk" "blk_cells (fst (blk_move g blk)) = blk_cells blk"
    by (simp_all add: blk_move_def blk_wf_def blk_cells_def)
  ultimately have "blk_inv (fst (blk_move g blk)) = blk_inv blk" by (simp add: blk_inv_def)
  then show "block_ok c b (fst (blk_move g blk)) = block_ok c b blk"
    by (simp add: block_ok_def page_next_def blk_move_def)
qed (auto simp: block_fresh_def page_next_def blk_move_def blk_validSet_def blk_lpn_def block_data_def fun_eq_iff)

lemma block_fresh_data: "block_fresh blk \<Longrightarrow> block_data blk = (\<lambda>_. None)"
  by (auto simp: block_fresh_def block_data_def)

section \<open>Free blocks\<close>

lemma pm_wf_D:
  assumes "pm_wf c s"
  shows "distinct (map fst (pm_blocks s))" "distinct (map fst (pm_table s))"
    "map_of (pm_blocks s) b = Some blk \<Longrightarrow> block_ok c b blk"
    "blk' \<in> set (pm_freeBlocks s) \<Longrightarrow> block_ok c (blk_idx blk') blk' \<and> block_fresh blk' \<and> map_of (pm_blocks s) (blk_idx blk') = None"
    "distinct (map blk_idx (pm_freeBlocks s))" "pm_nFreeBlocks s = length (pm_freeBlocks s)"
    "length (pm_lastFreeBlock s) = pc_pageCountToMaxPerf c" "pm_lastFreeBlockIndex s < pc_pageCountToMaxPerf c"
    "flag_ok (pm_lastFreeBlockIOMap s)"
  using assms by (auto simp: pm_wf_def)

lemma take_free_split:
  assumes "take_free c i xs = Some (blk, rest)"
  shows "\<exists>as bs. xs = as @ blk # bs \<and> rest = as @ bs"
proof -
  let ?a = "takeWhile (\<lambda>b. blk_getBlockIndex b mod pc_pageCountToMaxPerf c \<noteq> i) xs"
  have xs: "xs = ?a @ drop (length ?a) xs" by (metis takeWhile_eq_take append_take_drop_id length_takeWhile_le length_take min.absorb2)
  show ?thesis
  proof (cases "drop (length ?a) xs")
    case Nil
    with assms show ?thesis by (cases xs) (auto simp: take_free_def Let_def)
  next
    case (Cons b bs)
    with assms have "blk = b" "rest = ?a @ bs" by (auto simp: take_free_def Let_def)
    with xs Cons show ?thesis by (intro exI[of _ ?a] exI[of _ bs]) simp
  qed
qed

lemma take_free_None: "take_free c i xs = None \<longleftrightarrow> xs = []"
  by (cases xs) (auto simp: take_free_def Let_def split: list.splits)

text \<open>The blocks in use stay, with what is in them.\<close>

definition grown :: "'p pmap \<Rightarrow> 'p pmap \<Rightarrow> bool" where
  "grown s s' \<longleftrightarrow> (\<forall>b blk. map_of (pm_blocks s) b = Some blk \<longrightarrow> map_of (pm_blocks s') b = Some blk)
     \<and> pm_data s' = pm_data s \<and> pm_table s' = pm_table s \<and> pm_log s' = pm_log s \<and> set (pm_erased s') \<subseteq> set (pm_erased s)
     \<and> pm_cmt s' = pm_cmt s"

lemma grown_refl: "grown s s"
  by (simp add: grown_def)

lemma grown_trans: "grown s s' \<Longrightarrow> grown s' s'' \<Longrightarrow> grown s s''"
  by (auto simp: grown_def)

lemma grown_blocks: "grown s s' \<Longrightarrow> map_of (pm_blocks s) b = Some blk \<Longrightarrow> map_of (pm_blocks s') b = Some blk"
  by (simp add: grown_def)

lemma grown_mapped: "grown s s' \<Longrightarrow> mapped X s' = mapped X s"
  by (simp add: grown_def mapped_def)

lemma cmt_ok_core: "pm_cmt s' = pm_cmt s \<Longrightarrow> pm_table s' = pm_table s \<Longrightarrow> cmt_ok c s' = cmt_ok c s"
  by (simp add: cmt_ok_def)

lemma cmt_ok_set:
  assumes "cmt_ok c s" "unhit c l s" "\<forall>j. j \<noteq> l \<longrightarrow> map_of (pm_table s') j = map_of (pm_table s) j"
    "pm_cmt s' = pm_cmt s"
  shows "cmt_ok c s'"
  unfolding cmt_ok_def
proof (intro impI allI)
  fix j e ms assume on: "pc_enableCMT c" and j: "map_of (pm_cmt s') j = Some e" "map_of (pm_table s') j = Some ms"
  then have "j \<noteq> l" using assms(2,4) by (auto simp: unhit_def)
  then show "ms = [(me_block_id e, me_page_Id e)]" using assms(1,3,4) on j by (auto simp: cmt_ok_def)
qed

lemma cmt_ok_D:
  "cmt_ok c s \<Longrightarrow> pc_enableCMT c \<Longrightarrow> map_of (pm_cmt s) l = Some e \<Longrightarrow> map_of (pm_table s) l = Some ms
    \<Longrightarrow> ms = [(me_block_id e, me_page_Id e)]"
  by (simp add: cmt_ok_def)

lemma renew_free_ok:
  assumes wf: "pm_wf c s" and i: "i < pc_pageCountToMaxPerf c"
  shows "run ftl_faults (\<lambda>s'. pm_wf c s' \<and> grown s s' \<and> pm_erased s' = pm_erased s
     \<and> (\<exists>b blk. pm_lastFreeBlock s' = (pm_lastFreeBlock s)[i := b] \<and> map_of (pm_blocks s') b = Some blk \<and> page_next blk = 0))
    (renew_free c i s)"
proof (cases "pm_freeBlocks s = []")
  case True
  then show ?thesis using pm_wf_D(6)[OF wf] i by (simp add: renew_free_def getFreeBlock_def ftl_faults_def)
next
  case False
  then obtain blk rest where t: "take_free c i (pm_freeBlocks s) = Some (blk, rest)"
    using take_free_None[of c i "pm_freeBlocks s"] by (cases "take_free c i (pm_freeBlocks s)") auto
  then obtain as bs where fr: "pm_freeBlocks s = as @ blk # bs" "rest = as @ bs" using take_free_split by blast
  let ?b = "blk_idx blk" and ?k = "fst (blk_move (pc_garbage c) blk)"
  have free: "block_ok c ?b blk" "block_fresh blk" "map_of (pm_blocks s) ?b = None"
    using pm_wf_D(4)[OF wf, of blk] fr(1) by auto
  let ?s = "s\<lparr>pm_blocks := um_put (pc_place c) ?b ?k (pm_blocks s), pm_freeBlocks := rest,
    pm_nFreeBlocks := pm_nFreeBlocks s - 1, pm_lastFreeBlock := (pm_lastFreeBlock s)[i := ?b]\<rparr>"
  have r: "renew_free c i s = Inr ?s"
    using i t False free(3) pm_wf_D(6,7)[OF wf]
    by (simp add: renew_free_def getFreeBlock_def blk_getBlockIndex_def um_has_map_of Let_def)
  have others: "blk' \<in> set rest \<Longrightarrow> blk_idx blk' \<noteq> ?b" for blk'
    using pm_wf_D(5)[OF wf] fr by (auto simp: image_iff)
  have "pm_wf c ?s"
    using wf free fr others block_move i
    by (auto simp: pm_wf_def um_put_distinct)
  moreover have "pm_data ?s = pm_data s"
    using free block_move(5)[of _ blk] block_fresh_data[OF free(2)] by (auto simp: fun_eq_iff pm_data_block)
  moreover have "page_next ?k = 0" using free(2) block_move(4) by (simp add: block_fresh_def)
  ultimately show ?thesis using free(3) by (auto simp: r grown_def)
qed

lemma usable_free_ok:
  assumes wf: "pm_wf c s" and i: "i < pc_pageCountToMaxPerf c" and pages: "0 < pc_pagesInBlock c"
  shows "run ftl_faults (\<lambda>(b, s'). pm_wf c s' \<and> grown s s'
     \<and> (\<exists>blk. map_of (pm_blocks s') b = Some blk \<and> page_next blk < pc_pagesInBlock c)) (usable_free c i s)"
proof -
  let ?b = "pm_lastFreeBlock s ! i"
  let ?first = "if ?b \<in> set (pm_erased s)
    then rbind (renew_free c i s) (\<lambda>s. Inr (s\<lparr>pm_erased := filter (\<lambda>x. x \<noteq> ?b) (pm_erased s)\<rparr>)) else Inr s"
  have first: "run ftl_faults (\<lambda>s'. pm_wf c s' \<and> grown s s') ?first"
    using renew_free_ok[OF wf i] wf
    by (auto simp: grown_refl elim!: run_mono) (auto simp: pm_wf_def grown_def pm_data_def)
  let ?P = "\<lambda>(b, s'). pm_wf c s' \<and> grown s s' \<and> (\<exists>blk. map_of (pm_blocks s') b = Some blk \<and> page_next blk < pc_pagesInBlock c)"
  define R where "R = (\<lambda>s1 :: 'a pmap. rbind (rnth (pm_lastFreeBlock s1) i) (\<lambda>b. case map_of (pm_blocks s1) b of None \<Rightarrow> Inl (Panic ''Corrupted'')
     | Some blk \<Rightarrow>
        rbind (blk_getNextWritePageIndex blk) (\<lambda>n.
        rbind (if n = pc_pagesInBlock c
               then rbind (renew_free c i s1) (\<lambda>s. Inr (s\<lparr>pm_bReclaimMore := True\<rparr>))
               else Inr s1) (\<lambda>s.
        rbind (rnth (pm_lastFreeBlock s) i) (\<lambda>b. Inr (b, s))))))"
  have second: "run ftl_faults ?P (R s1)"
    if s1: "pm_wf c s1" "grown s s1" for s1
  proof (cases "map_of (pm_blocks s1) (pm_lastFreeBlock s1 ! i)")
    case None
    then show ?thesis using pm_wf_D(7)[OF s1(1)] i by (simp add: ftl_faults_def R_def)
  next
    case (Some blk)
    note ok = pm_wf_D(3)[OF s1(1) Some]
    show ?thesis
    proof (cases "page_next blk = pc_pagesInBlock c")
      case True
      have "run ftl_faults (\<lambda>s'. i < length (pm_lastFreeBlock s') \<and> (pm_wf c s' \<and> grown s s'
        \<and> (\<exists>blk. map_of (pm_blocks s') (pm_lastFreeBlock s' ! i) = Some blk \<and> page_next blk < pc_pagesInBlock c))) (renew_free c i s1)"
        by (rule run_mono[OF renew_free_ok[OF s1(1) i]])
          (use pages i grown_trans[OF s1(2)] pm_wf_D(7)[OF s1(1)] in auto)
      then show ?thesis
        using Some pm_wf_D(7)[OF s1(1)] i True
        by (auto simp: R_def block_next[OF ok] elim!: run_mono) (auto simp: pm_wf_def grown_def pm_data_def)
    next
      case False
      then show ?thesis using Some s1 pm_wf_D(7)[OF s1(1)] i block_ok_D(7)[OF ok]
        by (auto simp: R_def block_next[OF ok])
    qed
  qed
  have "usable_free c i s = rbind ?first R"
    using pm_wf_D(7)[OF wf] i by (simp add: usable_free_def R_def)
  then show ?thesis using run_bindI[OF first, of ?P R] second by simp
qed

lemma getLastFreeBlock_ok:
  assumes wf: "pm_wf c s" and c: "conf_dims c" and io: "flag_ok io"
  shows "run ftl_faults (\<lambda>(b, s'). pm_wf c s' \<and> grown s s'
     \<and> (\<exists>blk. map_of (pm_blocks s') b = Some blk \<and> page_next blk < pc_pagesInBlock c)) (getLastFreeBlock c io s)"
proof -
  note old = pm_wf_D(9)[OF wf]
  obtain m where m: "bs_and_assign (pm_lastFreeBlockIOMap s) io = Inr m" "bs_wf m"
    using bs_and_ok[of "pm_lastFreeBlockIOMap s" io] old io by (auto simp: flag_ok_def)
  obtain j where j: "bs_or_assign (pm_lastFreeBlockIOMap s) io = Inr j" "flag_ok j"
    using bs_or_ok[of "pm_lastFreeBlockIOMap s" io] old io by (auto simp: flag_ok_def)
  have step: "run ftl_faults (\<lambda>(b, s'). pm_wf c s' \<and> grown s s'
     \<and> (\<exists>blk. map_of (pm_blocks s') b = Some blk \<and> page_next blk < pc_pagesInBlock c)) (usable_free c (pm_lastFreeBlockIndex s1) s1)"
    if "pm_wf c s1" "grown s s1" for s1
    using run_mono[OF usable_free_ok[OF that(1) pm_wf_D(8)[OF that(1)]]] grown_trans[OF that(2)] c
    by (fastforce simp: conf_dims_def)
  have i: "Suc (pm_lastFreeBlockIndex s) \<noteq> pc_pageCountToMaxPerf c \<Longrightarrow> Suc (pm_lastFreeBlockIndex s) < pc_pageCountToMaxPerf c"
    using pm_wf_D(8)[OF wf] by simp
  let ?i = "if Suc (pm_lastFreeBlockIndex s) = pc_pageCountToMaxPerf c then 0 else Suc (pm_lastFreeBlockIndex s)"
  have adv: "pm_wf c (s\<lparr>pm_lastFreeBlockIndex := ?i, pm_lastFreeBlockIOMap := io\<rparr>)"
    "grown s (s\<lparr>pm_lastFreeBlockIndex := ?i, pm_lastFreeBlockIOMap := io\<rparr>)"
    using wf io i c by (auto simp: pm_wf_def grown_def pm_data_def conf_dims_def)
  have stay: "pm_wf c (s\<lparr>pm_lastFreeBlockIOMap := j\<rparr>)" "grown s (s\<lparr>pm_lastFreeBlockIOMap := j\<rparr>)"
    using wf j by (auto simp: pm_wf_def grown_def pm_data_def)
  show ?thesis
    using step[OF adv] step[OF stay] m j by (simp add: getLastFreeBlock_def bs_any_ok Let_def)
qed

section \<open>Changing one page\<close>

lemma with_block_run:
  "map_of (pm_blocks s) b = Some blk \<Longrightarrow> f blk = Inr blk' \<Longrightarrow>
   with_block b f s = Inr (s\<lparr>pm_blocks := um_set b blk' (pm_blocks s)\<rparr>)"
  by (simp add: with_block_def)

lemma set_block_wf:
  "pm_wf c s \<Longrightarrow> block_ok c b blk' \<Longrightarrow> map_of (pm_blocks s) b = Some blk
    \<Longrightarrow> pm_wf c (s\<lparr>pm_blocks := um_set b blk' (pm_blocks s)\<rparr>)"
  by (auto simp: pm_wf_def)

lemma set_block_data:
  "map_of (pm_blocks s) b = Some blk \<Longrightarrow>
   pm_data (s\<lparr>pm_blocks := um_set b blk' (pm_blocks s)\<rparr>) = (\<lambda>(b', p). if b' = b then block_data blk' p else pm_data s (b', p))"
  by (auto simp: fun_eq_iff pm_data_block)

lemma pm_data_in: "map_of (pm_blocks s) b = Some blk \<Longrightarrow> pm_data s (b, p) = block_data blk p"
  by (simp add: pm_data_block)

lemma pm_data_lt:
  assumes "pm_wf c s" "pm_data s (b, p) = Some l"
  shows "\<exists>blk. map_of (pm_blocks s) b = Some blk \<and> block_ok c b blk \<and> p < pc_pagesInBlock c \<and> p < page_next blk
    \<and> b < pc_totalPhysicalBlocks c"
proof -
  obtain blk where b: "map_of (pm_blocks s) b = Some blk" using assms(2) by (auto simp: pm_data_block split: option.splits)
  note ok = pm_wf_D(3)[OF assms(1) b]
  have "p < pc_pagesInBlock c" "p < page_next blk" using assms(2) b block_valid_lt[OF ok] block_valid_next[OF ok]
    by (auto simp: pm_data_block block_data_def split: if_splits)
  with b ok block_ok_D(6)[OF ok] show ?thesis by blast
qed

text \<open>A page is invalidated, and a page is written behind the last one of its block.\<close>

lemma invalidate_page:
  assumes wf: "pm_wf c s" and b: "map_of (pm_blocks s) b = Some blk" and p: "p < pc_pagesInBlock c"
  shows "\<exists>s'. with_block b (\<lambda>blk. blk_invalidate blk p 0) s = Inr s' \<and> pm_wf c s' \<and> pm_data s' = (pm_data s)((b, p) := None)
     \<and> pm_table s' = pm_table s \<and> pm_log s' = pm_log s \<and> pm_erased s' = pm_erased s \<and> pm_cmt s' = pm_cmt s
     \<and> (\<forall>b' blk. map_of (pm_blocks s) b' = Some blk \<longrightarrow> (\<exists>blk'. map_of (pm_blocks s') b' = Some blk' \<and> page_next blk' = page_next blk))"
proof -
  from block_invalidate[OF pm_wf_D(3)[OF wf b] p] obtain blk' where
    w: "blk_invalidate blk p 0 = Inr blk'" "block_ok c b blk'" "page_next blk' = page_next blk" "block_data blk' = (block_data blk)(p := None)"
    by blast
  let ?s = "s\<lparr>pm_blocks := um_set b blk' (pm_blocks s)\<rparr>"
  have "pm_data ?s m = ((pm_data s)((b, p) := None)) m" for m
    unfolding set_block_data[OF b] w(4) by (cases m) (auto simp: pm_data_in[OF b])
  then have "pm_data ?s = (pm_data s)((b, p) := None)" by blast
  with with_block_run[OF b, of _ blk'] w set_block_wf[OF wf w(2) b] b show ?thesis by auto
qed

lemma write_page:
  assumes wf: "pm_wf c s" and b: "map_of (pm_blocks s) b = Some blk" and nx: "page_next blk < pc_pagesInBlock c"
  shows "\<exists>s'. with_block b (\<lambda>blk'. rbind (blk_write blk' (page_next blk) l 0 t) (\<lambda>(w, blk). Inr blk)) s = Inr s'
     \<and> pm_wf c s' \<and> pm_data s' = (pm_data s)((b, page_next blk) \<mapsto> l) \<and> pm_data s (b, page_next blk) = None
     \<and> pm_table s' = pm_table s \<and> pm_log s' = pm_log s \<and> pm_erased s' = pm_erased s \<and> pm_cmt s' = pm_cmt s
     \<and> (\<forall>b' blk. b' \<noteq> b \<longrightarrow> map_of (pm_blocks s') b' = map_of (pm_blocks s) b')
     \<and> map_of (pm_blocks s') b \<noteq> None"
proof -
  from block_write[OF pm_wf_D(3)[OF wf b] nx, of l t] obtain blk' where
    w: "blk_write blk (page_next blk) l 0 t = Inr (True, blk')" "block_ok c b blk'"
      "block_data blk' = (block_data blk)(page_next blk \<mapsto> l)" "block_data blk (page_next blk) = None"
    by blast
  let ?s = "s\<lparr>pm_blocks := um_set b blk' (pm_blocks s)\<rparr>"
  have "pm_data ?s m = ((pm_data s)((b, page_next blk) \<mapsto> l)) m" for m
    unfolding set_block_data[OF b] w(3) by (cases m) (auto simp: pm_data_in[OF b])
  then have "pm_data ?s = (pm_data s)((b, page_next blk) \<mapsto> l)" by blast
  with with_block_run[OF b, of _ blk'] w set_block_wf[OF wf w(2) b] b show ?thesis by (auto simp: pm_data_in[OF b])
qed

section \<open>The table and the pages\<close>

lemma mapped_D:
  assumes "mapped X s"
  shows "map_of (pm_table s) l = Some ms \<Longrightarrow> length ms = 1"
    "map_of (pm_table s) l = Some ms \<Longrightarrow> l \<notin> X \<Longrightarrow> ms = [ms ! 0] \<and> pm_data s (ms ! 0) = Some l"
    "pm_data s m = Some l \<Longrightarrow> l \<notin> X"
    "pm_data s m = Some l \<Longrightarrow> map_of (pm_table s) l = Some [m]"
proof -
  show "map_of (pm_table s) l = Some ms \<Longrightarrow> length ms = 1" using assms by (simp add: mapped_def)
  moreover have "map_of (pm_table s) l = Some ms \<Longrightarrow> l \<notin> X \<Longrightarrow> pm_data s (ms ! 0) = Some l"
    using assms by (simp add: mapped_def)
  moreover have "length ms = 1 \<Longrightarrow> ms = [ms ! 0]" by (cases ms) simp_all
  ultimately show "map_of (pm_table s) l = Some ms \<Longrightarrow> l \<notin> X \<Longrightarrow> ms = [ms ! 0] \<and> pm_data s (ms ! 0) = Some l" by blast
qed (use assms in \<open>auto simp: mapped_def\<close>)

lemma mapped_I:
  assumes "\<And>l ms. map_of (pm_table s) l = Some ms \<Longrightarrow> length ms = 1"
    and "\<And>l ms. map_of (pm_table s) l = Some ms \<Longrightarrow> l \<notin> X \<Longrightarrow> pm_data s (ms ! 0) = Some l"
    and "\<And>m l. pm_data s m = Some l \<Longrightarrow> l \<notin> X"
    and "\<And>m l. pm_data s m = Some l \<Longrightarrow> map_of (pm_table s) l = Some [m]"
  shows "mapped X s"
  using assms by (simp add: mapped_def)

lemma mapped_fun: "mapped X s \<Longrightarrow> pm_data s m = Some l \<Longrightarrow> pm_data s m' = Some l \<Longrightarrow> m = m'"
  using mapped_D(4)[of X s m l] mapped_D(4)[of X s m' l] by simp

lemma mapped_drop:
  assumes m: "mapped X s" "pm_data s m = Some l" and s': "pm_data s' = (pm_data s)(m := None)" "pm_table s' = pm_table s"
  shows "mapped (insert l X) s'"
proof (rule mapped_I)
  fix l' ms assume t: "map_of (pm_table s') l' = Some ms"
  then show "length ms = 1" using mapped_D(1)[OF m(1)] s'(2) by simp
  assume l': "l' \<notin> insert l X"
  with t mapped_D(2)[OF m(1)] s'(2) have "pm_data s (ms ! 0) = Some l'" by simp
  with l' m(2) show "pm_data s' (ms ! 0) = Some l'" unfolding s'(1) by auto
next
  fix m' l' assume d: "pm_data s' m' = Some l'"
  then have d': "m' \<noteq> m" "pm_data s m' = Some l'" unfolding s'(1) by (auto split: if_splits)
  with mapped_fun[OF m(1), of m l m'] m(2) have "l' \<noteq> l" by auto
  with mapped_D(3)[OF m(1) d'(2)] show "l' \<notin> insert l X" by simp
  from mapped_D(4)[OF m(1) d'(2)] show "map_of (pm_table s') l' = Some [m']" by (simp add: s'(2))
qed

lemma mapped_fill:
  assumes m: "mapped {l} s" "map_of (pm_table s) l \<noteq> None" "pm_data s m = None"
    and s': "pm_data s' = (pm_data s)(m \<mapsto> l)" "pm_table s' = um_set l [m] (pm_table s)"
  shows "mapped {} s'"
proof (rule mapped_I)
  fix l' ms assume t: "map_of (pm_table s') l' = Some ms"
  show "length ms = 1" using t mapped_D(1)[OF m(1), of l'] m(2) unfolding s'(2) by (auto split: if_splits)
  show "pm_data s' (ms ! 0) = Some l'"
  proof (cases "l' = l")
    case False
    then have "pm_data s (ms ! 0) = Some l'" using t mapped_D(2)[OF m(1), of l' ms] unfolding s'(2) by simp
    then show ?thesis using m(3) unfolding s'(1) by auto
  qed (use t m(2) in \<open>auto simp: s'\<close>)
next
  fix m' l' assume d: "pm_data s' m' = Some l'"
  show "map_of (pm_table s') l' = Some [m']"
  proof (cases "m' = m")
    case False
    then have "pm_data s m' = Some l'" using d unfolding s'(1) by simp
    with mapped_D(3,4)[OF m(1) this] show ?thesis unfolding s'(2) by simp
  qed (use d m(2) in \<open>simp add: s'\<close>)
qed simp

lemma mapped_new:
  assumes m: "mapped {} s" "map_of (pm_table s) l = None" "length ms = 1"
    and s': "pm_data s' = pm_data s" "pm_table s' = um_put place l ms (pm_table s)"
  shows "mapped {l} s'"
proof (rule mapped_I)
  fix l' ms' assume t: "map_of (pm_table s') l' = Some ms'"
  show "length ms' = 1" using t m(3) mapped_D(1)[OF m(1), of l'] unfolding s'(2) by (auto split: if_splits)
  show "pm_data s' (ms' ! 0) = Some l'" if "l' \<notin> {l}"
    using t that mapped_D(2)[OF m(1), of l' ms'] unfolding s' by simp
next
  fix m' l' assume d: "pm_data s' m' = Some l'"
  then have t: "map_of (pm_table s) l' = Some [m']" using mapped_D(4)[OF m(1)] by (simp add: s'(1))
  with m(2) show "l' \<notin> {l}" by auto
  with t show "map_of (pm_table s') l' = Some [m']" unfolding s'(2) by simp
qed

lemma pm_data_table [simp]: "pm_data (s\<lparr>pm_table := t\<rparr>) = pm_data s"
  by (simp add: pm_data_def)

definition flag_on :: "bitset \<Rightarrow> bool" where
  "flag_on io \<longleftrightarrow> flag_ok io \<and> 0 \<in> bs_elems io"

lemma flag_on_facts:
  assumes "flag_on io"
  shows "bs_test io 0 = Inr True" "bs_all io = Inr True" "flag_ok io" "bs_count io = Inr 1"
proof -
  have wf: "bs_wf io" "bs_dataSize io = 1" "0 \<in> bs_elems io" using assms by (auto simp: flag_on_def flag_ok_def)
  then have e: "bs_elems io = {..<1}" using bs.elems_size[OF wf(1)] by auto
  show "bs_test io 0 = Inr True" "bs_all io = Inr True" "flag_ok io" "bs_count io = Inr 1"
    using wf e bs_test_ok[of io 0] bs_all_ok[of io] bs.count_law[of io] by (simp_all add: flag_ok_def)
qed

lemma flag_count: "flag_ok io \<Longrightarrow> \<exists>n. bs_count io = Inr n \<and> (0 < n \<longleftrightarrow> flag_on io)"
  using bs.count_law[of io] bs.elems_size[of io] card_gt_0_iff[of "bs_elems io"] finite_subset[of "bs_elems io" "{..<1}"]
  by (auto simp: flag_on_def flag_ok_def)

lemma unit_flags_ok: "flag_ok io \<Longrightarrow> \<exists>io'. unit_flags c 0 io = Inr io' \<and> flag_on io'"
proof -
  assume io: "flag_ok io"
  obtain z where z: "bs_reset_all io = Inr z" "bs_wf z" "bs_dataSize z = 1"
    using bs_reset_all_ok[of io] io by (auto simp: flag_ok_def)
  obtain u where u: "bs_set z 0 True = Inr u" "flag_on u" using bs_set_ok[of z 0 True] z by (auto simp: flag_on_def flag_ok_def)
  obtain v where v: "bs_set_all io = Inr v" "flag_on v" using bs_set_all_ok[of io] io by (auto simp: flag_on_def flag_ok_def)
  show ?thesis using z u v by (simp add: unit_flags_def)
qed

lemma table_bytes_ok: "flag_ok io \<Longrightarrow> \<exists>n. table_bytes c io = Inr n"
  using flag_count by (fastforce simp: table_bytes_def)

section \<open>Calls of the flash and the DRAM\<close>

lemma pal_calls:
  "\<exists>t x. pal_read pl b p io tick s = (t, s\<lparr>pm_pal := x, pm_log := pm_log s @ [PalRead b p io]\<rparr>)"
  "\<exists>t x. pal_write pl b p io tick s = (t, s\<lparr>pm_pal := x, pm_log := pm_log s @ [PalWrite b p io]\<rparr>)"
  "\<exists>t x. pal_erase pl b tick s = (t, s\<lparr>pm_pal := x, pm_log := pm_log s @ [PalErase b]\<rparr>)"
  "\<exists>t x. pm_dram_read pl n tick s = (t, s\<lparr>pm_pal := x\<rparr>)"
  "\<exists>t x. pm_dram_write pl n tick s = (t, s\<lparr>pm_pal := x\<rparr>)"
  by (auto simp: pal_read_def pal_write_def pal_erase_def pm_dram_read_def pm_dram_write_def split: prod.splits)

text \<open>The fields that the invariant reads.\<close>

lemma pm_core:
  assumes "pm_blocks s' = pm_blocks s" "pm_table s' = pm_table s" "pm_freeBlocks s' = pm_freeBlocks s"
    "pm_nFreeBlocks s' = pm_nFreeBlocks s" "pm_lastFreeBlock s' = pm_lastFreeBlock s"
    "pm_lastFreeBlockIndex s' = pm_lastFreeBlockIndex s" "pm_lastFreeBlockIOMap s' = pm_lastFreeBlockIOMap s"
    "pm_cmt s' = pm_cmt s"
  shows "pm_wf c s' = pm_wf c s" "pm_data s' = pm_data s" "mapped X s' = mapped X s" "pm_inv c s' = pm_inv c s"
proof -
  show d: "pm_data s' = pm_data s" using assms(1) by (simp add: pm_data_def)
  show "pm_wf c s' = pm_wf c s" using assms by (simp add: pm_wf_def)
  moreover show "mapped X s' = mapped X s" for X using assms(2) d by (simp add: mapped_def)
  moreover have "cmt_ok c s' = cmt_ok c s" using assms(2,8) by (rule cmt_ok_core[rotated])
  ultimately show "pm_inv c s' = pm_inv c s" by (simp add: pm_inv_def)
qed

text \<open>What the loads and the stores of the cached table do.\<close>

lemma make_room_less:
  "\<exists>cm ev om. cmt_make_room c s = s\<lparr>pm_cmt := cm, pm_evictedCmt := ev, pm_optMap := om\<rparr>
     \<and> (\<forall>l e. map_of cm l = Some e \<longrightarrow> map_of (pm_cmt s) l = Some e)"
proof -
  have less: "map_of (fold um_erase ks xs) l = Some e \<Longrightarrow> map_of xs l = Some e" for ks xs l and e :: mapping_entry
  proof (induction ks arbitrary: xs)
    case (Cons k ks)
    then have "map_of (fold um_erase ks (um_erase k xs)) l = Some e" by simp
    from Cons.IH[OF this] have "map_of (um_erase k xs) l = Some e" .
    then show ?case by (simp split: if_splits)
  qed simp
  show ?thesis
  proof (cases "pc_optimalreplacementPolicy c")
    case True
    obtain removal key farthest count om where o: "optimal_scan (pm_iclCount s) ([], 0, 0, 0, pm_optMap s) (pm_cmt s)
        = (removal, key, farthest, count, om)" by (metis prod_cases5)
    show ?thesis
    proof (cases "length (pm_cmt s) \<ge> pc_cmtSize c")
      case room: True
      have "cmt_make_room c s = s\<lparr>pm_cmt := fold um_erase (removal @ [key]) (pm_cmt s),
          pm_evictedCmt := fold (\<lambda>k m. m(k \<mapsto> count)) (removal @ [key]) (pm_evictedCmt s), pm_optMap := om\<rparr>"
        using True room o by (simp add: cmt_make_room_def optimalRepalcementPolicy_def Let_def)
      then show ?thesis using less by blast
    next
      case False
      then have "cmt_make_room c s = s\<lparr>pm_cmt := pm_cmt s, pm_evictedCmt := pm_evictedCmt s, pm_optMap := pm_optMap s\<rparr>"
        using True by (simp add: cmt_make_room_def optimalRepalcementPolicy_def)
      then show ?thesis by blast
    qed
  next
    case False
    obtain k n where o: "oldest_entry uint64_max 0 0 (pm_cmt s) = (k, n)" by (cases "oldest_entry uint64_max 0 0 (pm_cmt s)")
    have "\<exists>cm ev. evictEntryFromCMT c s = s\<lparr>pm_cmt := cm, pm_evictedCmt := ev\<rparr> \<and> (cm = pm_cmt s \<or> cm = um_erase k (pm_cmt s))"
    proof (cases "length (pm_cmt s) \<ge> pc_cmtSize c \<and> k \<noteq> 0")
      case True
      define ev where "ev = (if n = 1 then (pm_evictedCmt s)(k \<mapsto> (case pm_evictedCmt s k of None \<Rightarrow> 0 | Some n \<Rightarrow> n) + 1)
        else pm_evictedCmt s)"
      have "evictEntryFromCMT c s = s\<lparr>pm_cmt := um_erase k (pm_cmt s), pm_evictedCmt := ev\<rparr>"
        using True by (simp add: evictEntryFromCMT_def o Let_def ev_def)
      then show ?thesis by blast
    next
      case False
      then have "evictEntryFromCMT c s = s\<lparr>pm_cmt := pm_cmt s, pm_evictedCmt := pm_evictedCmt s\<rparr>"
        by (auto simp: evictEntryFromCMT_def o Let_def)
      then show ?thesis by blast
    qed
    then obtain cm ev where e: "evictEntryFromCMT c s = s\<lparr>pm_cmt := cm, pm_evictedCmt := ev\<rparr>"
      "cm = pm_cmt s \<or> cm = um_erase k (pm_cmt s)" by blast
    have "cmt_make_room c s = s\<lparr>pm_cmt := cm, pm_evictedCmt := ev, pm_optMap := pm_optMap s\<rparr>"
      using False e(1) by (simp add: cmt_make_room_def)
    moreover have "\<forall>l e. map_of cm l = Some e \<longrightarrow> map_of (pm_cmt s) l = Some e" using e(2) by (auto split: if_splits)
    ultimately show ?thesis by blast
  qed
qed

definition cmt_put :: "nat \<Rightarrow> nat \<times> nat \<Rightarrow> 'p pmap \<Rightarrow> 'p pmap \<Rightarrow> bool" where
  "cmt_put l m s s' \<longleftrightarrow> (\<exists>cm ev om. s' = s\<lparr>pm_cmt := cm, pm_evictedCmt := ev, pm_optMap := om\<rparr>
     \<and> (\<forall>j e. map_of cm j = Some e \<longrightarrow> (if j = l then (me_block_id e, me_page_Id e) = m else map_of (pm_cmt s) j = Some e)))"

lemma cmt_update_put:
  assumes "\<And>e. (me_block_id (f e), me_page_Id (f e)) = m"
  shows "cmt_put l m s (cmt_update c l f (cmt_make_room c s))"
proof -
  obtain cm ev om where r: "cmt_make_room c s = s\<lparr>pm_cmt := cm, pm_evictedCmt := ev, pm_optMap := om\<rparr>"
    "\<forall>l e. map_of cm l = Some e \<longrightarrow> map_of (pm_cmt s) l = Some e" using make_room_less by blast
  show ?thesis unfolding cmt_put_def r(1) cmt_update_def
    by (intro exI[of _ "um_put (pc_place c) l (f (case map_of cm l of None \<Rightarrow> mapping_entry_new | Some e \<Rightarrow> e)) cm"] exI[of _ ev]
        exI[of _ om]) (use r(2) assms in \<open>simp split: if_split\<close>)
qed

lemma cmt_load_put:
  assumes "\<not> pc_useDeadOnArrivalPredictor c"
  shows "\<exists>s'. cmt_load c l m t False s = (False, s') \<and> cmt_put l m s s'"
proof -
  have "\<not> dead_on_arrival c l s" using assms by (simp add: dead_on_arrival_def split: option.split)
  then show ?thesis by (simp add: cmt_load_def Let_def cmt_update_put)
qed

lemma cmt_store_put:
  assumes "\<not> pc_useDeadOnArrivalPredictor c"
  shows "\<exists>h s'. cmt_store c l m t (False, hit) s = ((False, h), s') \<and> cmt_put l m s s'"
proof -
  have "\<not> dead_on_arrival c l s" using assms by (simp add: dead_on_arrival_def split: option.split)
  then show ?thesis by (intro exI[of _ False]) (simp add: cmt_store_def Let_def cmt_update_put)
qed

lemma cmt_put_inv:
  assumes "cmt_put l m s s'" "pm_wf c s" "mapped {} s"
    and "\<forall>j e ms. pc_enableCMT c \<longrightarrow> j \<noteq> l \<longrightarrow> map_of (pm_cmt s) j = Some e \<longrightarrow> map_of (pm_table s) j = Some ms
      \<longrightarrow> ms = [(me_block_id e, me_page_Id e)]"
    and "map_of (pm_table s) l = Some [m]"
  shows "pm_inv c s'" "pm_data s' = pm_data s" "pm_table s' = pm_table s" "pm_erased s' = pm_erased s" "pm_log s' = pm_log s"
    "pm_blocks s' = pm_blocks s"
proof -
  obtain cm ev om where s': "s' = s\<lparr>pm_cmt := cm, pm_evictedCmt := ev, pm_optMap := om\<rparr>"
    "\<forall>j e. map_of cm j = Some e \<longrightarrow> (if j = l then (me_block_id e, me_page_Id e) = m else map_of (pm_cmt s) j = Some e)"
    using assms(1) by (auto simp: cmt_put_def)
  show d: "pm_data s' = pm_data s" by (simp add: s'(1) pm_data_def)
  show "pm_table s' = pm_table s" "pm_erased s' = pm_erased s" "pm_log s' = pm_log s" "pm_blocks s' = pm_blocks s"
    by (simp_all add: s'(1))
  have "pm_wf c s'" using assms(2) by (simp add: s'(1) pm_wf_def)
  moreover have "mapped {} s'" using assms(3) d by (simp add: mapped_def s'(1))
  moreover have "cmt_ok c s'"
    unfolding cmt_ok_def s'(1)
  proof (intro impI allI)
    fix j e ms assume on: "pc_enableCMT c" and h: "map_of (pm_cmt (s\<lparr>pm_cmt := cm, pm_evictedCmt := ev, pm_optMap := om\<rparr>)) j = Some e"
      "map_of (pm_table (s\<lparr>pm_cmt := cm, pm_evictedCmt := ev, pm_optMap := om\<rparr>)) j = Some ms"
    then have j: "map_of cm j = Some e" "map_of (pm_table s) j = Some ms" by simp_all
    show "ms = [(me_block_id e, me_page_Id e)]"
    proof (cases "j = l")
      case True
      then show ?thesis using s'(2) j assms(5) by auto
    next
      case False
      then show ?thesis using s'(2) j assms(4) on by auto
    qed
  qed
  ultimately show "pm_inv c s'" by (simp add: pm_inv_def)
qed

section \<open>Writing a page\<close>

lemma conf_one_D:
  assumes "conf_one c"
  shows "pc_ioUnitInPage c = 1" "pc_bitsetSize c = 1" "pc_enableCMT c \<Longrightarrow> \<not> pc_useDeadOnArrivalPredictor c" "0 < pc_pageCountToMaxPerf c"
    "0 < pc_pagesInBlock c" "[0..<pc_bitsetSize c] = [0]"
  using assms by (auto simp: conf_one_def conf_dims_def)

lemma pm_wf_table:
  "pm_wf c s \<Longrightarrow> distinct (map fst t) \<Longrightarrow> pm_wf c (s\<lparr>pm_table := t\<rparr>)"
  by (simp add: pm_wf_def)

text \<open>The old page of the logical page \<^verbatim>\<open>l\<close> is not valid any more.\<close>

definition without :: "nat \<Rightarrow> (nat \<times> nat \<Rightarrow> nat option) \<Rightarrow> nat \<times> nat \<Rightarrow> nat option" where
  "without l d = (\<lambda>m. if d m = Some l then None else d m)"

lemma without_drop: "mapped X s \<Longrightarrow> pm_data s m = Some l \<Longrightarrow> (pm_data s)(m := None) = without l (pm_data s)"
  by (rule ext) (auto simp: without_def dest: mapped_fun[of X s m l])

lemma without_none: "(\<And>m. d m \<noteq> Some l) \<Longrightarrow> without l d = d"
  by (auto simp: without_def fun_eq_iff)

lemma invalidate_old_ok:
  assumes inv: "pm_inv c s" and c: "conf_one c" and io: "flag_on (fr_ioFlag req)" and cmt: "unhit c (fr_lpn req) s"
  shows "\<exists>s'. invalidate_old c req tick send s = Inr (Some (fr_lpn req), False, s') \<and> pm_wf c s' \<and> mapped {fr_lpn req} s'
     \<and> pm_data s' = without (fr_lpn req) (pm_data s) \<and> pm_log s' = pm_log s \<and> pm_erased s' = pm_erased s
     \<and> pm_cmt s' = pm_cmt s \<and> map_of (pm_table s') (fr_lpn req) \<noteq> None \<and> (\<forall>l. l \<noteq> fr_lpn req \<longrightarrow> map_of (pm_table s') l = map_of (pm_table s) l)
     \<and> (\<forall>m. pm_data s m \<noteq> None \<longrightarrow> (\<exists>blk. map_of (pm_blocks s') (fst m) = Some blk \<and> snd m < page_next blk))"
proof -
  let ?l = "fr_lpn req"
  have wf: "pm_wf c s" and m: "mapped {} s" using inv by (auto simp: pm_inv_def)
  note cD = conf_one_D[OF c] and on = flag_on_facts[OF io]
  have direct: "(if pc_enableCMT c then map_of (pm_cmt s) ?l else None) = None"
    "(if pc_useDeadOnArrivalPredictor c \<and> pc_enableCMT c then map_of (pm_shadow s) ?l else None) = None"
    using cmt cD(3) by (auto simp: unhit_def)
  have low: "\<exists>blk. map_of (pm_blocks s) (fst m) = Some blk \<and> snd m < page_next blk" if "pm_data s m \<noteq> None" for m
    using that pm_data_lt[OF wf, of "fst m" "snd m"] by auto
  show ?thesis
  proof (cases "map_of (pm_table s) ?l")
    case None
    let ?s = "s\<lparr>pm_table := um_put (pc_place c) ?l (replicate 1 (pc_totalPhysicalBlocks c, pc_pagesInBlock c)) (pm_table s)\<rparr>"
    have "pm_wf c ?s" using pm_wf_table[OF wf um_put_distinct[OF pm_wf_D(2)[OF wf]]] by simp
    moreover have "mapped {?l} ?s" by (rule mapped_new[OF m None]) simp_all
    moreover have "pm_data s x \<noteq> Some ?l" for x using None mapped_D(4)[OF m, of x ?l] by auto
    ultimately show ?thesis using None cD(1,2) low unfolding invalidate_old_def Let_def direct
      by (auto simp: without_none)
  next
    case (Some ms)
    obtain b p where ms: "ms = [(b, p)]" "pm_data s (b, p) = Some ?l"
      using mapped_D(2)[OF m Some] by (metis empty_iff surj_pair)
    obtain blk where b: "map_of (pm_blocks s) b = Some blk" "p < pc_pagesInBlock c" "b < pc_totalPhysicalBlocks c"
      using pm_data_lt[OF wf ms(2)] by auto
    obtain s' where s': "with_block b (\<lambda>blk. blk_invalidate blk p 0) s = Inr s'" "pm_wf c s'"
      "pm_data s' = (pm_data s)((b, p) := None)" "pm_table s' = pm_table s" "pm_log s' = pm_log s" "pm_erased s' = pm_erased s" "pm_cmt s' = pm_cmt s"
      "\<And>b' blk. map_of (pm_blocks s) b' = Some blk \<Longrightarrow> \<exists>blk'. map_of (pm_blocks s') b' = Some blk' \<and> page_next blk' = page_next blk"
      using invalidate_page[OF wf b(1,2)] by metis
    have "invalidate_old c req tick send s = Inr (Some ?l, False, s')"
      unfolding invalidate_old_def Let_def direct
      using Some cD(1,2) on b s'(1) by (simp add: invalidate_units_def invalidate_at_def um_has_map_of ms(1))
    moreover have "mapped {?l} s'" using mapped_drop[OF m ms(2) s'(3,4)] by simp
    moreover have "\<exists>blk. map_of (pm_blocks s') (fst x) = Some blk \<and> snd x < page_next blk" if "pm_data s x \<noteq> None" for x
      using low[OF that] s'(8) by metis
    ultimately show ?thesis using s'(2-7) Some without_drop[OF m ms(2)] by auto
  qed
qed

text \<open>The unit is written and the table entry set.\<close>

lemma write_unit_ok:
  assumes wf: "pm_wf c s" and m: "mapped {fr_lpn req} s" and t: "map_of (pm_table s) (fr_lpn req) \<noteq> None"
    and c: "conf_one c" and io: "flag_on (fr_ioFlag req)" and cmt: "cmt_ok c s" "unhit c (fr_lpn req) s"
    and b: "map_of (pm_blocks s) b = Some blk" "page_next blk < pc_pagesInBlock c"
  shows "\<exists>h f s'. write_unit c pl req tick send (Some (fr_lpn req)) b False 0 ((False, hit), fin, s) = Inr ((False, h), f, s')
     \<and> pm_inv c s'
     \<and> pm_data s (b, page_next blk) = None \<and> pm_data s' = (pm_data s)((b, page_next blk) \<mapsto> fr_lpn req)
     \<and> map_of (pm_table s') = (map_of (pm_table s))(fr_lpn req \<mapsto> [(b, page_next blk)])
     \<and> pm_erased s' = pm_erased s
     \<and> (\<exists>io. pm_log s' = pm_log s @ (if send then [PalWrite b (page_next blk) io] else []))"
proof -
  let ?l = "fr_lpn req" and ?p = "page_next blk"
  note cD = conf_one_D[OF c] and on = flag_on_facts[OF io]
  obtain ms where ms: "map_of (pm_table s) ?l = Some ms" "length ms = 1" using t mapped_D(1)[OF m] by auto
  then obtain old where old: "ms = [old]" by (auto simp: length_Suc_conv)
  obtain s1 where s1: "with_block b (\<lambda>blk'. rbind (blk_write blk' ?p ?l 0 tick) (\<lambda>(w, blk). Inr blk)) s = Inr s1"
    "pm_wf c s1" "pm_data s1 = (pm_data s)((b, ?p) \<mapsto> ?l)" "pm_data s (b, ?p) = None" "pm_table s1 = pm_table s"
    "pm_log s1 = pm_log s" "pm_erased s1 = pm_erased s" "pm_cmt s1 = pm_cmt s"
    using write_page[OF wf b, of ?l tick] that by metis
  obtain io' where io': "unit_flags c 0 (fr_ioFlag req) = Inr io'" using unit_flags_ok[OF on(3)] by auto
  let ?s2 = "s1\<lparr>pm_table := um_set ?l [(b, ?p)] (pm_table s)\<rparr>"
  have tb: "map_of (um_set ?l [(b, ?p)] (pm_table s)) = (map_of (pm_table s))(?l \<mapsto> [(b, ?p)])"
    using t by (auto simp: fun_eq_iff)
  have wf2: "pm_wf c ?s2" by (rule pm_wf_table[OF s1(2)]) (simp add: pm_wf_D(2)[OF wf])
  have m2: "mapped {} ?s2" by (rule mapped_fill[OF m t s1(4)]) (simp_all add: s1(3))
  have c2: "cmt_ok c ?s2" by (rule cmt_ok_set[OF cmt]) (simp_all add: s1(8))
  have inv: "pm_inv c ?s2" using wf2 m2 c2 by (simp add: pm_inv_def)
  have core: "pm_data ?s2 = (pm_data s)((b, ?p) \<mapsto> ?l)" "map_of (pm_table ?s2) = (map_of (pm_table s))(?l \<mapsto> [(b, ?p)])"
    "pm_erased ?s2 = pm_erased s" "pm_log ?s2 = pm_log s"
    using s1 tb by simp_all
  have "\<exists>h s3. (if pc_enableCMT c then cmt_store c ?l (b, ?p) tick (False, hit) ?s2 else ((False, hit), ?s2)) = ((False, h), s3)
     \<and> pm_inv c s3 \<and> pm_data s3 = pm_data ?s2 \<and> pm_table s3 = pm_table ?s2 \<and> pm_erased s3 = pm_erased ?s2 \<and> pm_log s3 = pm_log ?s2"
  proof (cases "pc_enableCMT c")
    case True
    obtain h s3 where st: "cmt_store c ?l (b, ?p) tick (False, hit) ?s2 = ((False, h), s3)" "cmt_put ?l (b, ?p) ?s2 s3"
      using cmt_store_put[OF cD(3)[OF True]] by blast
    have "map_of (pm_table ?s2) ?l = Some [(b, ?p)]" using tb by simp
    from cmt_put_inv[OF st(2) wf2 m2 _ this] c2 st(1) True show ?thesis by (auto simp: cmt_ok_def)
  qed (use inv in simp)
  then obtain h s3 where s3: "(if pc_enableCMT c then cmt_store c ?l (b, ?p) tick (False, hit) ?s2 else ((False, hit), ?s2)) = ((False, h), s3)"
    "pm_inv c s3" "pm_data s3 = pm_data ?s2" "pm_table s3 = pm_table ?s2" "pm_erased s3 = pm_erased ?s2" "pm_log s3 = pm_log ?s2" by blast
  obtain t3 x where w: "pal_write pl b ?p io' tick s3 = (t3, s3\<lparr>pm_pal := x, pm_log := pm_log s3 @ [PalWrite b ?p io']\<rparr>)"
    using pal_calls(2)[of pl b ?p io' tick s3] by auto
  let ?s4 = "s3\<lparr>pm_pal := x, pm_log := pm_log s3 @ [PalWrite b ?p io']\<rparr>"
  have "write_unit c pl req tick send (Some ?l) b False 0 ((False, hit), fin, s)
    = (if send then Inr ((False, h), max fin t3, ?s4) else Inr ((False, hit), max fin tick, ?s2))"
    using cD(1,2) on b io' ms s1(1,5) w s3(1)
    by (cases "pc_enableCMT c"; cases send) (simp_all add: write_unit_def block_next_at[OF pm_wf_D(3)[OF wf b(1)]] old Let_def)
  moreover have "pm_inv c ?s4" "pm_data ?s4 = pm_data s3"
    by (subst pm_core(4)[where s = s3], simp_all add: s3(2)) (simp add: pm_data_def)
  ultimately show ?thesis using inv core s3 s1(4) by (cases send) auto
qed

text \<open>The logical page \<^verbatim>\<open>l\<close> moves to a page that was not valid; all others stay where they are.\<close>

definition rewritten :: "nat \<Rightarrow> nat \<times> nat \<Rightarrow> 'p pmap \<Rightarrow> 'p pmap \<Rightarrow> bool" where
  "rewritten l m s s' \<longleftrightarrow> pm_data s m = None \<and> pm_data s' = (without l (pm_data s))(m \<mapsto> l)
     \<and> map_of (pm_table s') = (map_of (pm_table s))(l \<mapsto> [m]) \<and> set (pm_erased s') \<subseteq> set (pm_erased s)"

lemma without_None: "without l d m = None \<longleftrightarrow> d m = None \<or> d m = Some l"
  by (auto simp: without_def)

lemma write_pages_ok:
  assumes inv: "pm_inv c s" and c: "conf_one c" and io: "flag_on (fr_ioFlag req)" and cmt: "unhit c (fr_lpn req) s"
  shows "run ftl_faults (\<lambda>(t, s'). pm_inv c s' \<and> (\<exists>m io. rewritten (fr_lpn req) m s s'
       \<and> pm_log s' = pm_log s @ (if send then [PalWrite (fst m) (snd m) io] else [])))
    (write_pages c pl req tick send s)"
proof -
  let ?l = "fr_lpn req"
  have wf: "pm_wf c s" and m: "mapped {} s" using inv by (auto simp: pm_inv_def)
  note cD = conf_one_D[OF c] and on = flag_on_facts[OF io]
  obtain s1 where s1: "invalidate_old c req tick send s = Inr (Some ?l, False, s1)" "pm_wf c s1" "mapped {?l} s1"
    "pm_data s1 = without ?l (pm_data s)" "pm_log s1 = pm_log s" "pm_erased s1 = pm_erased s" "pm_cmt s1 = pm_cmt s"
    "map_of (pm_table s1) ?l \<noteq> None" "\<forall>l. l \<noteq> ?l \<longrightarrow> map_of (pm_table s1) l = map_of (pm_table s) l"
    "\<forall>m. pm_data s m \<noteq> None \<longrightarrow> (\<exists>blk. map_of (pm_blocks s1) (fst m) = Some blk \<and> snd m < page_next blk)"
    using invalidate_old_ok[OF inv c io cmt, of tick send] by (elim exE conjE) (rule that)
  obtain n where n: "table_bytes c (fr_ioFlag req) = Inr n" using table_bytes_ok[OF on(3)] by auto
  have tail: "run ftl_faults (\<lambda>(t, s'). pm_inv c s' \<and> (\<exists>m io. rewritten ?l m s s'
       \<and> pm_log s' = pm_log s @ (if send then [PalWrite (fst m) (snd m) io] else [])))
      (write_to_block c pl req tick send (Some ?l) False b s2)"
    if s2: "pm_wf c s2" "grown s1 s2" "map_of (pm_blocks s2) b = Some blk" "page_next blk < pc_pagesInBlock c" for s2 b blk
  proof -
    obtain t x where d: "(if send then let (tick, s) = pm_dram_read pl n tick s2 in pm_dram_write pl n tick s
        else (tick, s2)) = (t, s2\<lparr>pm_pal := x\<rparr>)"
    proof (cases send)
      case True
      obtain t1 x1 where 1: "pm_dram_read pl n tick s2 = (t1, s2\<lparr>pm_pal := x1\<rparr>)" using pal_calls(4)[of pl n tick s2] by blast
      obtain t2 x2 where "pm_dram_write pl n t1 (s2\<lparr>pm_pal := x1\<rparr>) = (t2, s2\<lparr>pm_pal := x1\<rparr>\<lparr>pm_pal := x2\<rparr>)" using pal_calls(5)[of pl n t1] by blast
      with 1 True show thesis by (intro that[of t2 x2]) simp
    next
      case False
      then show thesis by (intro that[of tick "pm_pal s2"]) simp
    qed
    let ?s = "s2\<lparr>pm_pal := x\<rparr>" and ?m = "(b, page_next blk)"
    have pre: "pm_wf c ?s" "mapped {?l} ?s" "map_of (pm_table ?s) ?l \<noteq> None" "map_of (pm_blocks ?s) b = Some blk"
      using s2 s1 grown_mapped[OF s2(2)] pm_core(1,3)[of ?s s2] by (auto simp: grown_def)
    have same: "pm_cmt ?s = pm_cmt s" "\<forall>j. j \<noteq> ?l \<longrightarrow> map_of (pm_table ?s) j = map_of (pm_table s) j"
      using s2(2) s1(7,9) by (simp_all add: grown_def)
    have cm: "cmt_ok c ?s" "unhit c ?l ?s"
      using inv cmt_ok_set[OF _ cmt same(2,1)] cmt same(1) by (auto simp: pm_inv_def unhit_def)
    obtain h f s' io' where w: "write_unit c pl req t send (Some ?l) b False 0 ((False, False), tick, ?s) = Inr ((False, h), f, s')"
      "pm_inv c s'" "pm_data ?s ?m = None" "pm_data s' = (pm_data ?s)(?m \<mapsto> ?l)"
      "map_of (pm_table s') = (map_of (pm_table ?s))(?l \<mapsto> [?m])" "pm_erased s' = pm_erased ?s"
      "pm_log s' = pm_log ?s @ (if send then [PalWrite b (page_next blk) io'] else [])"
      using write_unit_ok[OF pre(1-3) c io cm pre(4) s2(4), of pl t send False tick] by metis
    have data: "pm_data ?s = without ?l (pm_data s)" using s2(2) s1(4) pm_core(2)[of ?s s2] by (simp add: grown_def)
    have "pm_data s ?m = None"
    proof (rule ccontr)
      assume "pm_data s ?m \<noteq> None"
      then obtain blk1 where "map_of (pm_blocks s1) b = Some blk1" "page_next blk < page_next blk1" using s1(10) by auto
      with grown_blocks[OF s2(2)] s2(3) show False by fastforce
    qed
    moreover have "map_of (pm_table s') = (map_of (pm_table s))(?l \<mapsto> [?m])"
      using w(5) s1(9) s2(2) by (auto simp: grown_def fun_eq_iff)
    moreover have "set (pm_erased s') \<subseteq> set (pm_erased s)" using w(6) s1(6) s2(2) by (auto simp: grown_def)
    moreover have "pm_log s' = pm_log s @ (if send then [PalWrite b (page_next blk) io'] else [])"
      using w(7) s1(5) s2(2) by (auto simp: grown_def)
    ultimately have r: "rewritten ?l ?m s s'
        \<and> pm_log s' = pm_log s @ (if send then [PalWrite (fst ?m) (snd ?m) io'] else [])"
      using w(4) by (simp add: rewritten_def data)
    have t: "write_to_block c pl req tick send (Some ?l) False b s2 = Inr (if send then f + pc_latency c PM_WRITE_INTERNAL else t, s')"
      unfolding write_to_block_def n rbind_Inr Let_def d[unfolded Let_def] prod.case on(2) cD(6)
      using w(1) s2(3) by (simp add: um_has_map_of)
    show ?thesis unfolding t run_Inr prod.case by (rule conjI[OF w(2)], rule exI, rule exI, rule r)
  qed
  show ?thesis
    unfolding write_pages_def s1(1) rbind_Inr prod.case
    by (rule run_bindI[OF getLastFreeBlock_ok[OF s1(2) conf_one_dims[OF c] on(3)]], clarify, rule tail)
qed

end
