(* ===== verification/Ftl_Gc.thy ===== *)
theory Ftl_Gc
  imports Ftl_Invariant
begin

text \<open>
  The garbage collection keeps the invariant of the page mapping: the policies that weigh the blocks
  choose blocks that are full and different from each other, each valid page of a victim is moved
  before the victims are erased, and no logical page loses its mapping.
\<close>

section \<open>Victims\<close>

text \<open>The choice is made by weight, or one victim by the cached and valid pages.\<close>

definition conf_gc :: "pmconf \<Rightarrow> bool" where
  "conf_gc c \<longleftrightarrow> conf_one c \<and> pc_policy c \<in> {POLICY_GREEDY, POLICY_COST_BENEFIT, HOTBLOCK}
     \<and> (pc_pageAwareofCache c \<longrightarrow> pc_mode c = GC_MODE_0 \<and> pc_reclaimBlock c \<le> 1)"

definition full_entries :: "pmconf \<Rightarrow> 'p pmap \<Rightarrow> (nat \<times> block) list" where
  "full_entries c s = filter (\<lambda>(b, blk). page_next blk = pc_pagesInBlock c) (pm_blocks s)"

lemma full_blocks_ok:
  assumes wf: "pm_wf c s" and f: "\<And>b blk. block_ok c b blk \<Longrightarrow> f blk = Inr (g blk)"
  shows "full_blocks c f s = Inr (map (\<lambda>(b, blk). (b, g blk)) (full_entries c s))"
proof -
  have "rfold (\<lambda>(b, blk) ws. rbind (blk_getNextWritePageIndex blk) (\<lambda>n.
         if n \<noteq> pc_pagesInBlock c then Inr ws else rbind (f blk) (\<lambda>w. Inr (ws @ [(b, w)])))) xs acc
      = Inr (acc @ map (\<lambda>(b, blk). (b, g blk)) (filter (\<lambda>(b, blk). page_next blk = pc_pagesInBlock c) xs))"
    if "\<forall>(b, blk) \<in> set xs. block_ok c b blk" for xs acc
    using that
  proof (induction xs arbitrary: acc)
    case (Cons x xs)
    obtain b blk where x: "x = (b, blk)" by (cases x)
    with Cons.prems have "block_ok c b blk" by simp
    with Cons show ?case by (simp add: x block_next f)
  qed simp
  moreover have "\<forall>(b, blk) \<in> set (pm_blocks s). block_ok c b blk"
    using pm_wf_D(1,3)[OF wf] by auto
  ultimately show ?thesis by (simp add: full_blocks_def full_entries_def)
qed

text \<open>Blocks in use that are fully written, each once.\<close>

definition victims_ok :: "pmconf \<Rightarrow> 'p pmap \<Rightarrow> nat list \<Rightarrow> bool" where
  "victims_ok c s vs \<longleftrightarrow> distinct vs
     \<and> (\<forall>v \<in> set vs. \<exists>blk. map_of (pm_blocks s) v = Some blk \<and> page_next blk = pc_pagesInBlock c)"

lemma full_entries_D:
  assumes "pm_wf c s"
  shows "distinct (map fst (full_entries c s))"
    "(b, blk) \<in> set (full_entries c s) \<Longrightarrow> map_of (pm_blocks s) b = Some blk \<and> page_next blk = pc_pagesInBlock c"
  using pm_wf_D(1)[OF assms] by (auto simp: full_entries_def distinct_map_filter)

lemma victims_take:
  assumes "pm_wf c s" "distinct (map fst ws)" "fst ` set ws \<subseteq> fst ` set (full_entries c s)"
  shows "victims_ok c s (map fst (take n ws))"
  using assms full_entries_D(2)[OF assms(1)] distinct_take[of "map fst ws" n]
  by (fastforce simp: victims_ok_def take_map dest: in_set_takeD)

lemma select_weighted:
  assumes wf: "pm_wf c s" and f: "\<And>b blk. block_ok c b blk \<Longrightarrow> f blk = Inr (g blk)"
  shows "\<exists>ws. full_blocks c f s = Inr ws \<and> (\<forall>n. victims_ok c s (map fst (take n (sort_key k ws))))"
proof -
  let ?ws = "map (\<lambda>(b, blk). (b, g blk)) (full_entries c s)"
  have keys: "map fst ?ws = map fst (full_entries c s)" by (auto simp: split_beta)
  have sorted: "distinct (map fst (sort_key k xs)) = distinct (map fst xs)" for xs :: "(nat \<times> _) list"
    by (simp add: distinct_map)
  have d: "distinct (map fst (sort_key k ?ws))" unfolding sorted keys by (rule full_entries_D(1)[OF wf])
  have "fst ` set (sort_key k ?ws) \<subseteq> fst ` set (full_entries c s)" by force
  from victims_take[OF wf d this] full_blocks_ok[OF wf f] show ?thesis by auto
qed

lemma block_counts:
  assumes "block_ok c b blk"
  shows "blk_getValidPageCountRaw blk = Inr (card (blk_validSet blk))"
    "blk_getValidPageCount blk = Inr (card (pages_of (blk_validSet blk)))"
    "\<exists>n. blk_getCachedPageCount blk = Inr n"
proof -
  note ok = block_ok_D[OF assms]
  show "blk_getValidPageCountRaw blk = Inr (card (blk_validSet blk))"
    "blk_getValidPageCount blk = Inr (card (pages_of (blk_validSet blk)))"
    by (rule blk_valid_count_raw_ok[OF ok(2)], rule blk_valid_count_ok[OF ok(2)])
  obtain m where "blk_pCachedBits blk = Some m" "bs_wf m" using ok(2,5) by (auto simp: blk_wf_def ptr_wf_def)
  then show "\<exists>n. blk_getCachedPageCount blk = Inr n" by (auto simp: blk_getCachedPageCount_def bs.count_law)
qed

lemma calculateVictimWeight_ok:
  assumes wf: "pm_wf c s" and c: "conf_gc c"
  shows "\<exists>ws. calculateVictimWeight c tick s = Inr ws \<and> (\<forall>n. victims_ok c s (map fst (take n (sort_key snd ws))))"
proof -
  consider "pc_policy c = POLICY_GREEDY" | "pc_policy c = POLICY_COST_BENEFIT" | "pc_policy c = HOTBLOCK"
    using c by (auto simp: conf_gc_def)
  then show ?thesis
  proof cases
    case 1
    then show ?thesis using select_weighted[OF wf block_counts(1), where k = snd]
      by (simp add: calculateVictimWeight_def)
  next
    case 2
    have "rbind (blk_getValidPageCountRaw blk) (\<lambda>v. Inr (pc_costBenefit c v tick (blk_getLastAccessedTime blk)))
        = Inr (pc_costBenefit c (card (blk_validSet blk)) tick (blk_getLastAccessedTime blk))" if "block_ok c b blk" for b blk
      using block_counts(1)[OF that] by simp
    from select_weighted[OF wf this, where k = snd] 2 show ?thesis by (simp add: calculateVictimWeight_def)
  next
    case 3
    have "Inr (blk_getBlockAccessCount blk) = Inr (blk_getBlockAccessCount blk)" if "block_ok c b blk" for b blk by simp
    from select_weighted[OF wf this, where k = snd] 3 show ?thesis by (simp add: calculateVictimWeight_def)
  qed
qed

lemma cached_weights_ok:
  assumes "pm_wf c s"
  shows "\<exists>ws. calculateVictimCachedWeight c s = Inr ws \<and> map fst ws = map fst (full_entries c s)"
proof -
  define g where "g blk = (projr (blk_getCachedPageCount blk), card (pages_of (blk_validSet blk)))" for blk
  have f: "rbind (blk_getCachedPageCount blk) (\<lambda>n. rbind (blk_getValidPageCount blk) (\<lambda>v. Inr (n, v))) = Inr (g blk)"
    if "block_ok c b blk" for b blk
    using block_counts(2,3)[OF that] by (auto simp: g_def)
  have "map fst (map (\<lambda>(b, blk). (b, g blk)) (full_entries c s)) = map fst (full_entries c s)" by (auto simp: split_beta)
  then show ?thesis
    using full_blocks_ok[OF assms, of "\<lambda>b. rbind (blk_getCachedPageCount b) (\<lambda>n. rbind (blk_getValidPageCount b) (\<lambda>v. Inr (n, v)))" g] f
    unfolding calculateVictimCachedWeight_def by blast
qed

lemma findVictimBlock_in:
  assumes "cw \<noteq> []"
  shows "\<exists>b cw'. findVictimBlock cw = Inr (b, cw') \<and> b \<in> fst ` set cw"
proof -
  let ?cw = "sort_key (\<lambda>(b, n, v). (v, - int n)) cw"
  have "length ?cw = length cw" "set ?cw = set cw" by simp_all
  with assms nth_mem[of 0 ?cw] show ?thesis by (auto simp: findVictimBlock_def Let_def)
qed

lemma selectVictimBlock_ok:
  assumes wf: "pm_wf c s" and c: "conf_gc c"
  shows "\<exists>vs t. selectVictimBlock c tick s = Inr (vs, t, s\<lparr>pm_bReclaimMore := False\<rparr>) \<and> victims_ok c s vs"
proof -
  let ?s = "s\<lparr>pm_bReclaimMore := False\<rparr>"
  let ?n = "case pc_mode c of GC_MODE_0 \<Rightarrow> pc_reclaimBlock c | GC_MODE_1 \<Rightarrow> pc_reclaimCount c (pm_nFreeBlocks s)"
  have pol: "pc_policy c \<noteq> CACHED_GC" "pc_policy c \<noteq> POLICY_RANDOM_BLOCK" "pc_policy c \<noteq> POLICY_DCHOICE"
    using c by (auto simp: conf_gc_def)
  have wf': "pm_wf c ?s" using wf by (simp add: pm_wf_def)
  have v: "victims_ok c ?s vs = victims_ok c s vs" for vs by (simp add: victims_ok_def)
  show ?thesis
  proof (cases "pc_pageAwareofCache c")
    case False
    from calculateVictimWeight_ok[OF wf' c, of tick] obtain ws where
      "calculateVictimWeight c tick ?s = Inr ws" "\<forall>n. victims_ok c s (map fst (take n (sort_key snd ws)))" unfolding v by blast
    then show ?thesis using False pol by (simp add: selectVictimBlock_def Let_def)
  next
    case True
    then have n: "?n \<le> 1" using c by (simp add: conf_gc_def)
    obtain ws where ws: "calculateVictimCachedWeight c ?s = Inr ws" "map fst ws = map fst (full_entries c ?s)"
      using cached_weights_ok[OF wf'] by auto
    show ?thesis
    proof (cases "min ?n (length ws)")
      case 0
      then show ?thesis using True pol ws(1) by (simp add: selectVictimBlock_def Let_def victims_ok_def)
    next
      case (Suc k)
      then have one: "min ?n (length ws) = 1" "ws \<noteq> []" using n by auto
      obtain b cw where b: "findVictimBlock ws = Inr (b, cw)" "b \<in> fst ` set ws" using findVictimBlock_in[OF one(2)] by auto
      from b(2) have "b \<in> set (map fst ws)" by simp
      then have "b \<in> fst ` set (full_entries c ?s)" unfolding ws(2) by simp
      then have "victims_ok c s [b]" using full_entries_D(2)[OF wf'] by (auto simp: victims_ok_def)
      then show ?thesis using True pol ws(1) b(1) one(1) by (simp add: selectVictimBlock_def Let_def)
    qed
  qed
qed

section \<open>Moving the valid pages\<close>

lemma block_info:
  assumes ok: "block_ok c b blk" and p: "p < pc_pagesInBlock c" and io: "flag_ok io"
  shows "\<exists>io'. blk_getPageInfo blk p io = Inr (True, [blk_lpn blk (p, 0)], io') \<and> flag_on io'"
    "blk_isPageValid blk p = Inr ((p, 0) \<in> blk_validSet blk)"
proof -
  note D = block_ok_D[OF ok]
  have lp: "length (blk_pLPNs blk) = pc_pagesInBlock c" using D(2,4,5) by (simp add: blk_wf_def)
  obtain io' where io': "bs_set_all io = Inr io'" "flag_on io'"
    using bs_set_all_ok[of io] io by (auto simp: flag_ok_def flag_on_def)
  then have "bs_any io' = Inr True" by (auto simp: flag_on_def flag_ok_def bs_any_ok)
  with io' io p lp D(5) show "\<exists>io'. blk_getPageInfo blk p io = Inr (True, [blk_lpn blk (p, 0)], io') \<and> flag_on io'"
    by (simp add: blk_getPageInfo_def bs_size_def flag_ok_def blk_lpn_def)
  have "ptr_wf (pc_pagesInBlock c) (blk_pValidBits blk)" using D(2,4,5) by (simp add: blk_wf_def)
  from ptr_test_ok[OF this p] D(5) show "blk_isPageValid blk p = Inr ((p, 0) \<in> blk_validSet blk)"
    by (auto simp: blk_isPageValid_def blk_validSet_def)
qed

text \<open>The same logical pages are mapped, nothing has been sent to the flash, and the blocks \<^verbatim>\<open>V\<close> are
  full.\<close>

definition collecting :: "pmconf \<Rightarrow> nat set \<Rightarrow> nat list \<Rightarrow> 'p pmap \<Rightarrow> gc_work \<times> 'p pmap \<Rightarrow> bool" where
  "collecting c V E s0 = (\<lambda>(w, s). pm_inv c s \<and> flag_ok (gw_bit w) \<and> gw_erases w = E \<and> pm_log s = pm_log s0
     \<and> dom (map_of (pm_table s)) = dom (map_of (pm_table s0))
     \<and> (\<forall>v \<in> V. \<exists>blk. map_of (pm_blocks s) v = Some blk \<and> page_next blk = pc_pagesInBlock c))"

lemma collecting_D:
  assumes "collecting c V E s0 (w, s)"
  shows "pm_wf c s" "mapped {} s" "flag_ok (gw_bit w)" "pm_log s = pm_log s0"
    "dom (map_of (pm_table s)) = dom (map_of (pm_table s0))"
    "v \<in> V \<Longrightarrow> \<exists>blk. map_of (pm_blocks s) v = Some blk \<and> page_next blk = pc_pagesInBlock c" "gw_erases w = E"
    "cmt_ok c s"
  using assms by (auto simp: collecting_def pm_inv_def)

lemma cmt_ok_moved:
  assumes "cmt_ok c s" "pm_cmt s' = map (\<lambda>(k, e). (k, if k = l then e\<lparr>me_block_id := b, me_page_Id := p\<rparr> else e)) (pm_cmt s)"
    "pm_table s' = um_set l [(b, p)] (pm_table s)"
  shows "cmt_ok c s'"
proof -
  have eq: "map_of (map (\<lambda>(k, e). (k, if k = l then e\<lparr>me_block_id := b, me_page_Id := p\<rparr> else e)) xs) j
    = map_option (\<lambda>e. if j = l then e\<lparr>me_block_id := b, me_page_Id := p\<rparr> else e) (map_of xs j)" for xs j
    by (induction xs) auto
  show ?thesis using assms(1) by (auto simp: cmt_ok_def assms(2,3) eq split: if_splits)
qed

text \<open>A valid page of a full block moves to a block that is not full.\<close>

lemma move_unit_ok:
  assumes s: "collecting c V E s0 (w, s)" and c: "conf_one c" and bit: "flag_on (gw_bit w)"
    and v: "v \<in> V" and d: "pm_data s (v, p) = Some l" "gw_lpns w = [l]"
    and b: "map_of (pm_blocks s) b = Some blk" "page_next blk < pc_pagesInBlock c"
  shows "\<exists>w' s'. move_unit c pl True t v p b 0 (w, s) = Inr (w', s') \<and> collecting c V E s0 (w', s')
     \<and> pm_data s' = (pm_data s)((v, p) := None, (b, page_next blk) \<mapsto> l)"
proof -
  note D = collecting_D[OF s] and cD = conf_one_D[OF c] and on = flag_on_facts[OF bit]
  obtain vb where vb: "map_of (pm_blocks s) v = Some vb" "page_next vb = pc_pagesInBlock c" using D(6)[OF v] by auto
  have bv: "b \<notin> V" "b \<noteq> v" using D(6)[of b] b v by auto
  have p: "p < pc_pagesInBlock c" using pm_data_lt[OF D(1) d(1)] by auto
  have t: "map_of (pm_table s) l = Some [(v, p)]" by (rule mapped_D(4)[OF D(2) d(1)])
  obtain s1 where s1: "with_block v (\<lambda>blk. blk_invalidate blk p 0) s = Inr s1" "pm_wf c s1"
    "pm_data s1 = (pm_data s)((v, p) := None)" "pm_table s1 = pm_table s" "pm_log s1 = pm_log s" "pm_erased s1 = pm_erased s" "pm_cmt s1 = pm_cmt s"
    "\<forall>b' blk. map_of (pm_blocks s) b' = Some blk \<longrightarrow> (\<exists>blk'. map_of (pm_blocks s1) b' = Some blk' \<and> page_next blk' = page_next blk)"
    using invalidate_page[OF D(1) vb(1) p] by (elim exE conjE) (rule that)
  have m1: "mapped {l} s1" using mapped_drop[OF D(2) d(1) s1(3,4)] by simp
  obtain blk1 where blk1: "map_of (pm_blocks s1) b = Some blk1" "page_next blk1 = page_next blk" using s1(8) b(1) by blast
  obtain t2 x where dr: "pm_dram_read pl (8 * pc_ioUnitInPage c) (gw_tick w) s1 = (t2, s1\<lparr>pm_pal := x\<rparr>)"
    using pal_calls(4)[of pl _ "gw_tick w" s1] by blast
  define cm where "cm = map (\<lambda>(k, e). (k, if k = l then e\<lparr>me_block_id := b, me_page_Id := page_next blk\<rparr> else e)) (pm_cmt s1)"
  define s3 where "s3 = s1\<lparr>pm_pal := x, pm_table := um_set l [(b, page_next blk)] (pm_table s1), pm_cmt := cm\<rparr>"
  have wf3: "pm_wf c s3" using s1(2) by (simp add: s3_def pm_wf_def)
  have data3: "pm_data s3 = pm_data s1" by (simp add: s3_def pm_data_def)
  have b3: "map_of (pm_blocks s3) b = Some blk1" "page_next blk1 < pc_pagesInBlock c" using blk1 b(2) by (simp_all add: s3_def)
  obtain s4 where s4: "with_block b (\<lambda>blk'. rbind (blk_write blk' (page_next blk1) l 0 t) (\<lambda>(w, blk). Inr blk)) s3 = Inr s4"
    "pm_wf c s4" "pm_data s4 = (pm_data s3)((b, page_next blk1) \<mapsto> l)" "pm_data s3 (b, page_next blk1) = None"
    "pm_table s4 = pm_table s3" "pm_log s4 = pm_log s3" "pm_erased s4 = pm_erased s3" "pm_cmt s4 = pm_cmt s3"
    "\<forall>b' blk. b' \<noteq> b \<longrightarrow> map_of (pm_blocks s4) b' = map_of (pm_blocks s3) b'" "map_of (pm_blocks s4) b \<noteq> None"
    using write_page[OF wf3 b3, of l t] by (elim exE conjE) (rule that)
  obtain io where io: "unit_flags c 0 (gw_bit w) = Inr io" using unit_flags_ok[OF on(3)] by auto
  let ?w = "w\<lparr>gw_tick := t2, gw_writes := gw_writes w @ [(b, page_next blk1, io)]\<rparr>"
    and ?s = "s4\<lparr>pm_validPageCopies := pm_validPageCopies s4 + 1\<rparr>"
  have r: "move_unit c pl True t v p b 0 (w, s) = Inr (?w, ?s)"
    unfolding move_unit_def
    using on(1) s1(1) d(2) t dr blk1 s4(1) io pm_wf_D(3)[OF s1(2) blk1(1)]
    by (simp add: s1(4) block_next_at s3_def cm_def Let_def)
  have t1: "map_of (pm_table s1) l \<noteq> None" using t s1(4) by simp
  have m: "mapped {} s4"
    by (rule mapped_fill[OF m1 t1, of "(b, page_next blk1)"])
      (use s4(3,4,5) data3 blk1(2) in \<open>simp_all add: s3_def\<close>)
  have cmt: "cmt_ok c s4"
  proof (rule cmt_ok_moved[OF D(8)])
    show "pm_cmt s4 = map (\<lambda>(k, e). (k, if k = l then e\<lparr>me_block_id := b, me_page_Id := page_next blk\<rparr> else e)) (pm_cmt s)"
      by (simp add: s4(8) s3_def cm_def s1(7))
    show "pm_table s4 = um_set l [(b, page_next blk)] (pm_table s)" by (simp add: s4(5) s3_def s1(4))
  qed
  have inv: "pm_inv c ?s" by (subst pm_core(4)[where s = s4]) (simp_all add: pm_inv_def s4(2) m cmt)
  have "pm_log ?s = pm_log s0" using s4(6) s1(5) D(4) by (simp add: s3_def)
  moreover have "dom (map_of (pm_table ?s)) = dom (map_of (pm_table s0))"
    using s4(5) s1(4) t D(5) by (auto simp: s3_def dom_def)
  moreover have "\<exists>blk. map_of (pm_blocks ?s) u = Some blk \<and> page_next blk = pc_pagesInBlock c" if u: "u \<in> V" for u
  proof -
    obtain ub where ub: "map_of (pm_blocks s) u = Some ub" "page_next ub = pc_pagesInBlock c" using D(6)[OF u] by auto
    then obtain ub' where "map_of (pm_blocks s1) u = Some ub'" "page_next ub' = pc_pagesInBlock c" using s1(8) by metis
    moreover have "u \<noteq> b" using u bv by auto
    ultimately show ?thesis using s4(9) by (simp add: s3_def)
  qed
  ultimately have "collecting c V E s0 (?w, ?s)" using inv on(3) D(7) by (simp add: collecting_def)
  moreover have "pm_data ?s = (pm_data s)((v, p) := None, (b, page_next blk) \<mapsto> l)"
    using s4(3) data3 s1(3) blk1(2) pm_core(2)[of ?s s4] by simp
  ultimately show ?thesis using r by blast
qed

lemma all_units_ok: "flag_on (gw_bit w) \<Longrightarrow> \<exists>bit. all_units c w = Inr (w\<lparr>gw_bit := bit\<rparr>) \<and> flag_on bit"
  using bs_set_all_ok[of "gw_bit w"]
  by (auto simp: all_units_def flag_on_def flag_ok_def intro: exI[of _ "gw_bit w"])

text \<open>One page of a victim; the pages \<^verbatim>\<open>N\<close> of the blocks \<^verbatim>\<open>V\<close> hold nothing before and after.\<close>

lemma greedy_page_ok:
  assumes s: "collecting c V E s0 (w, s)" and c: "conf_one c" and v: "v \<in> V" and p: "p < pc_pagesInBlock c"
    and N: "\<forall>m \<in> N. fst m \<in> V \<and> pm_data s m = None"
  shows "run ftl_faults (\<lambda>(w', s'). collecting c V E s0 (w', s') \<and> (\<forall>m \<in> insert (v, p) N. pm_data s' m = None))
     (greedy_page c pl t v p (w, s))"
proof -
  note D = collecting_D[OF s]
  obtain vb where vb: "map_of (pm_blocks s) v = Some vb" using D(6)[OF v] by auto
  note ok = pm_wf_D(3)[OF D(1) vb]
  obtain io where io: "blk_getPageInfo vb p (gw_bit w) = Inr (True, [blk_lpn vb (p, 0)], io)" "flag_on io"
    using block_info(1)[OF ok p D(3)] by auto
  let ?w = "w\<lparr>gw_bit := io, gw_lpns := [blk_lpn vb (p, 0)]\<rparr>"
  have w: "collecting c V E s0 (w', s)" if "flag_on (gw_bit w')" "gw_erases w' = gw_erases w" for w'
    using s that by (simp add: collecting_def flag_on_def)
  have info: "page_info v p (w, s) = Inr (True, ?w, s)" using vb io(1) by (simp add: page_info_def)
  show ?thesis
  proof (cases "(p, 0) \<in> blk_validSet vb")
    case False
    then have "pm_data s (v, p) = None" by (simp add: pm_data_in[OF vb] block_data_def)
    with False N w[of ?w] io(2) show ?thesis by (simp add: greedy_page_def info vb block_info(2)[OF ok p D(3)])
  next
    case True
    then have d: "pm_data s (v, p) = Some (blk_lpn vb (p, 0))" by (simp add: pm_data_in[OF vb] block_data_def)
    obtain bit where bit: "all_units c ?w = Inr (?w\<lparr>gw_bit := bit\<rparr>)" "flag_on bit" using all_units_ok[of ?w c] io(2) by auto
    let ?w2 = "?w\<lparr>gw_bit := bit, gw_reads := gw_reads w @ [(v, p, bit)]\<rparr>"
    have g: "run ftl_faults (\<lambda>(b, s2). pm_wf c s2 \<and> grown s s2
       \<and> (\<exists>blk. map_of (pm_blocks s2) b = Some blk \<and> page_next blk < pc_pagesInBlock c)) (getLastFreeBlock c bit s)"
      by (rule getLastFreeBlock_ok[OF D(1) conf_one_dims[OF c] flag_on_facts(3)[OF bit(2)]])
    have step: "run ftl_faults (\<lambda>(w', s'). collecting c V E s0 (w', s') \<and> (\<forall>m \<in> insert (v, p) N. pm_data s' m = None))
      (rbind (move_page c pl True t v p b (?w2, s2)) (\<lambda>(w, s). Inr (w, s\<lparr>pm_validSuperPageCopies := pm_validSuperPageCopies s + 1\<rparr>)))"
      if s2: "pm_wf c s2" "grown s s2" "map_of (pm_blocks s2) b = Some blk" "page_next blk < pc_pagesInBlock c" for b s2 blk
    proof -
      have "cmt_ok c s2" using D(8) cmt_ok_core[of s2 s c] s2(2) by (simp add: grown_def)
      then have "pm_inv c s2" using s2(1) grown_mapped[OF s2(2)] D(2) by (simp add: pm_inv_def)
      then have c2: "collecting c V E s0 (?w2, s2)"
        using s2(2) D(3-7) bit(2) by (fastforce simp: collecting_def grown_def flag_on_def)
      have d2: "pm_data s2 = pm_data s" using s2(2) by (simp add: grown_def)
      have "b \<notin> V" using collecting_D(6)[OF c2, of b] s2(3,4) by auto
      obtain w' s' where m: "move_unit c pl True t v p b 0 (?w2, s2) = Inr (w', s')" "collecting c V E s0 (w', s')"
        "pm_data s' = (pm_data s2)((v, p) := None, (b, page_next blk) \<mapsto> blk_lpn vb (p, 0))"
        using move_unit_ok[OF c2 c, of v p "blk_lpn vb (p, 0)" b blk pl t] bit(2) v d d2 s2(3,4) by auto
      let ?s = "s'\<lparr>pm_validSuperPageCopies := pm_validSuperPageCopies s' + 1\<rparr>"
      have "collecting c V E s0 (w', ?s)" using m(2) pm_core(4)[of ?s s' c] by (simp add: collecting_def)
      moreover have "pm_data ?s x = None" if "x \<in> insert (v, p) N" for x
      proof -
        have "pm_data ?s = pm_data s'" by (rule pm_core(2)) simp_all
        moreover have "fst x \<in> V" using that N v by auto
        then have "x \<noteq> (b, page_next blk)" using \<open>b \<notin> V\<close> by auto
        ultimately show ?thesis using that N by (auto simp: m(3) d2)
      qed
      moreover have "move_page c pl True t v p b (?w2, s2) = Inr (w', s')"
        by (simp only: move_page_def conf_one_D(6)[OF c] rfold.simps m(1) rbind_Inr)
      ultimately show ?thesis by simp
    qed
    have eq: "greedy_page c pl t v p (w, s) = rbind (getLastFreeBlock c bit s) (\<lambda>(b, s2).
        rbind (move_page c pl True t v p b (?w2, s2)) (\<lambda>(w, s). Inr (w, s\<lparr>pm_validSuperPageCopies := pm_validSuperPageCopies s + 1\<rparr>)))"
      by (simp add: greedy_page_def info vb block_info(2)[OF ok p D(3)] True bit(1))
    show ?thesis unfolding eq
    proof (rule run_bindI[OF g], unfold split_paired_all prod.case, elim conjE exE)
      fix b s2 blk assume "pm_wf c s2" "grown s s2" "map_of (pm_blocks s2) b = Some blk" "page_next blk < pc_pagesInBlock c"
      from step[OF this] show "run ftl_faults (\<lambda>(w', s'). collecting c V E s0 (w', s') \<and> (\<forall>m \<in> insert (v, p) N. pm_data s' m = None))
        (rbind (move_page c pl True t v p b (?w2, s2)) (\<lambda>(w, s). Inr (w, s\<lparr>pm_validSuperPageCopies := pm_validSuperPageCopies s + 1\<rparr>)))" .
    qed
  qed
qed

lemma pm_data_high: "pm_wf c s \<Longrightarrow> \<not> p < pc_pagesInBlock c \<Longrightarrow> pm_data s (u, p) = None"
  using pm_data_lt[of c s u p] by (cases "pm_data s (u, p)") auto

text \<open>All pages of a victim; the blocks \<^verbatim>\<open>N\<close> have been emptied before.\<close>

lemma collect_block_ok:
  assumes s: "collecting c V E s0 (w, s)" and c: "conf_gc c" and v: "v \<in> V" and NV: "N \<subseteq> V"
    and N: "\<forall>u \<in> N. \<forall>p. pm_data s (u, p) = None"
  shows "run ftl_faults (\<lambda>(w', s'). collecting c V (E @ [v]) s0 (w', s') \<and> (\<forall>u \<in> insert v N. \<forall>p. pm_data s' (u, p) = None))
    (collect_block c pl t v (w, s))"
proof -
  have one: "conf_one c" and pol: "pc_policy c \<noteq> CACHED_GC" using c by (auto simp: conf_gc_def)
  let ?I = "\<lambda>ps (w', s'). collecting c V E s0 (w', s')
      \<and> (\<forall>m \<in> N \<times> UNIV \<union> {v} \<times> set ps. pm_data s' m = None)"
  have "run ftl_faults (?I [0..<pc_pagesInBlock c]) (rfold (greedy_page c pl t v) [0..<pc_pagesInBlock c] (w, s))"
  proof (rule run_rfold_index)
    fix ys p zs and x :: "gc_work \<times> 'a pmap"
    assume xs: "[0..<pc_pagesInBlock c] = ys @ p # zs" and x: "?I ys x"
    obtain w1 s1 where [simp]: "x = (w1, s1)" by (cases x)
    have "p \<in> set [0..<pc_pagesInBlock c]" unfolding xs by simp
    then have p: "p < pc_pagesInBlock c" by simp
    have s1: "collecting c V E s0 (w1, s1)" and N1: "\<forall>m \<in> N \<times> UNIV \<union> {v} \<times> set ys. fst m \<in> V \<and> pm_data s1 m = None"
      using x v NV by auto
    have *: "insert (v, p) (N \<times> UNIV \<union> {v} \<times> set ys) = N \<times> UNIV \<union> {v} \<times> set (ys @ [p])" by auto
    show "run ftl_faults (?I (ys @ [p])) (greedy_page c pl t v p x)"
      using greedy_page_ok[OF s1 one v p N1, of pl t] unfolding * by simp
  qed (use s N in auto)
  then have "run ftl_faults (?I [0..<pc_pagesInBlock c]) (rfold (if pc_policy c = CACHED_GC then cached_page c pl t v else greedy_page c pl t v)
      [0..<pc_pagesInBlock c] (w, s))" using pol by simp
  moreover have "collecting c V (E @ [v]) s0 (w'\<lparr>gw_erases := gw_erases w' @ [v]\<rparr>, s') \<and> (\<forall>u \<in> insert v N. \<forall>p. pm_data s' (u, p) = None)"
    if "?I [0..<pc_pagesInBlock c] (w', s')" for w' s'
  proof -
    from that have c': "collecting c V E s0 (w', s')" by simp
    have "pm_data s' (u, p) = None" if "u \<in> insert v N" for u p
      using that \<open>?I [0..<pc_pagesInBlock c] (w', s')\<close> pm_data_high[OF collecting_D(1)[OF c'], of p u]
      by (cases "p < pc_pagesInBlock c") auto
    with c' show ?thesis by (simp add: collecting_def)
  qed
  moreover have "um_has v (pm_blocks s)" using collecting_D(6)[OF s v] by (auto simp: um_has_map_of)
  ultimately show ?thesis
    unfolding collect_block_def by (auto simp: run_bind elim!: run_mono)
qed

lemma collect_all_ok:
  assumes s: "collecting c (set vs) [] s0 (w, s)" and c: "conf_gc c"
  shows "run ftl_faults (\<lambda>(w', s'). collecting c (set vs) vs s0 (w', s') \<and> (\<forall>u \<in> set vs. \<forall>p. pm_data s' (u, p) = None))
    (rfold (collect_block c pl t) vs (w, s))"
proof -
  let ?I = "\<lambda>us (w', s'). collecting c (set vs) us s0 (w', s') \<and> (\<forall>u \<in> set us. \<forall>p. pm_data s' (u, p) = None)"
  have "run ftl_faults (?I vs) (rfold (collect_block c pl t) vs (w, s))"
  proof (rule run_rfold_index[where I = ?I])
    fix us v zs and x :: "gc_work \<times> 'a pmap"
    assume vs: "vs = us @ v # zs" and x: "?I us x"
    obtain w1 s1 where [simp]: "x = (w1, s1)" by (cases x)
    have v: "v \<in> set vs" "set us \<subseteq> set vs" using vs by auto
    have x1: "collecting c (set vs) us s0 (w1, s1)" "\<forall>u \<in> set us. \<forall>p. pm_data s1 (u, p) = None" using x by auto
    show "run ftl_faults (?I (us @ [v])) (collect_block c pl t v x)"
      using collect_block_ok[OF x1(1) c v x1(2), of pl t] by (simp add: split_beta)
  qed (use s in auto)
  then show ?thesis .
qed

section \<open>Erasing the victims\<close>

lemma insert_free_split: "\<exists>as bs. xs = as @ bs \<and> insert_free b xs = as @ b # bs"
proof -
  let ?w = "takeWhile (\<lambda>x. blk_getEraseCount b < blk_getEraseCount x) (rev xs)"
  have "rev xs = ?w @ dropWhile (\<lambda>x. blk_getEraseCount b < blk_getEraseCount x) (rev xs)" by simp
  then have xs: "xs = rev (dropWhile (\<lambda>x. blk_getEraseCount b < blk_getEraseCount x) (rev xs)) @ rev ?w"
    by (metis rev_append rev_rev_ident)
  let ?d = "rev (dropWhile (\<lambda>x. blk_getEraseCount b < blk_getEraseCount x) (rev xs))"
  have "length xs = length ?d + length ?w" by (subst xs) simp
  then have "take (length xs - length ?w) xs = take (length ?d) (?d @ rev ?w)" using xs by simp
  then have "insert_free b xs = ?d @ b # rev ?w" by (simp add: insert_free_def Let_def)
  with xs show ?thesis by blast
qed

lemma mapped_erase:
  assumes m: "mapped {} s" and e: "\<And>p. pm_data s (b, p) = None"
    and s': "pm_blocks s' = um_erase b (pm_blocks s)" "pm_table s' = pm_table s"
  shows "pm_data s' = pm_data s" "mapped {} s'"
proof -
  have "pm_data s' x = pm_data s x" for x
    using e by (cases x) (auto simp: pm_data_block s'(1))
  then show "pm_data s' = pm_data s" by blast
  then show "mapped {} s'" using m s'(2) by (simp add: mapped_def)
qed

lemma eraseInternal_ok:
  assumes wf: "pm_wf c s" and m: "mapped {} s" and cmt: "cmt_ok c s" and b: "map_of (pm_blocks s) b = Some blk" and e: "\<And>p. pm_data s (b, p) = None"
  shows "run ftl_faults (\<lambda>(t, s'). pm_inv c s' \<and> pm_data s' = pm_data s \<and> pm_table s' = pm_table s
     \<and> pm_log s' = pm_log s @ [PalErase b] \<and> map_of (pm_blocks s') b = None \<and> (\<forall>b'. b' \<noteq> b \<longrightarrow> map_of (pm_blocks s') b' = map_of (pm_blocks s) b'))
    (eraseInternal c pl b tick s)"
proof -
  note ok = pm_wf_D(3)[OF wf b]
  obtain eb where eb: "blk_erase blk = Inr eb" "block_ok c b eb" "block_fresh eb" using block_erase[OF ok] by auto
  obtain t x where er: "pal_erase pl b tick s = (t, s\<lparr>pm_pal := x, pm_log := pm_log s @ [PalErase b]\<rparr>)"
    using pal_calls(3)[of pl b tick s] by blast
  let ?s = "s\<lparr>pm_pal := x, pm_log := pm_log s @ [PalErase b]\<rparr>"
  define k where "k = fst (blk_move (pc_garbage c) eb)"
  have post: "pm_inv c s' \<and> pm_data s' = pm_data s \<and> pm_table s' = pm_table s \<and> pm_log s' = pm_log s @ [PalErase b]
     \<and> (\<forall>b'. b' \<noteq> b \<longrightarrow> map_of (pm_blocks s') b' = map_of (pm_blocks s) b')"
    if s': "pm_blocks s' = um_erase b (pm_blocks s)" "pm_table s' = pm_table s" "pm_log s' = pm_log s @ [PalErase b]" "pm_wf c s'"
      "pm_cmt s' = pm_cmt s" for s' :: "'a pmap"
    using mapped_erase[OF m e s'(1,2)] s' cmt cmt_ok_core[OF s'(5,2), of c] by (auto simp: pm_inv_def)
  have erased: "distinct (map fst (um_erase b (pm_blocks s)))" by (rule um_erase_distinct[OF pm_wf_D(1)[OF wf]])
  show ?thesis
  proof (cases "blk_getEraseCount eb < pc_badBlockThreshold c")
    case False
    have "pm_wf c (?s\<lparr>pm_blocks := um_erase b (pm_blocks s)\<rparr>)"
      using wf erased by (auto simp: pm_wf_def)
    from post[OF _ _ _ this] False show ?thesis by (simp add: eraseInternal_def b eb(1) er)
  next
    case True
    show ?thesis
    proof (cases "pm_freeBlocks s = []")
      case True
      with \<open>blk_getEraseCount eb < pc_badBlockThreshold c\<close> show ?thesis
        by (simp add: eraseInternal_def b eb(1) er ftl_faults_def)
    next
      case False
      obtain as bs where fr: "pm_freeBlocks s = as @ bs" "insert_free k (pm_freeBlocks s) = as @ k # bs"
        using insert_free_split by blast
      let ?f = "?s\<lparr>pm_freeBlocks := as @ k # bs, pm_nFreeBlocks := pm_nFreeBlocks s + 1, pm_blocks := um_erase b (pm_blocks s)\<rparr>"
      have k: "block_ok c b k" "block_fresh k" "blk_idx k = b" using eb block_move block_ok_D(3)[OF eb(2)] by (auto simp: k_def)
      have "b \<notin> blk_idx ` set (pm_freeBlocks s)" using pm_wf_D(4)[OF wf] b by force
      then have d: "distinct (map blk_idx (as @ k # bs))" using pm_wf_D(5)[OF wf] by (auto simp: fr(1) k(3))
      have "block_ok c (blk_idx blk') blk' \<and> block_fresh blk' \<and> map_of (um_erase b (pm_blocks s)) (blk_idx blk') = None"
        if "blk' \<in> set (as @ k # bs)" for blk'
        using that pm_wf_D(4)[OF wf, of blk'] k by (auto simp: fr(1))
      then have "pm_wf c ?f" using wf erased d pm_wf_D(6)[OF wf] by (simp add: pm_wf_def fr(1))
      from post[OF _ _ _ this] \<open>blk_getEraseCount eb < pc_badBlockThreshold c\<close> False show ?thesis
        by (simp add: eraseInternal_def b eb(1) er fr(2) flip: k_def)
    qed
  qed
qed

lemma erase_victims_ok:
  assumes inv: "pm_inv c s" and vs: "distinct vs" "\<forall>v \<in> set vs. map_of (pm_blocks s) v \<noteq> None"
    and e: "\<forall>v \<in> set vs. \<forall>p. pm_data s (v, p) = None"
  shows "run ftl_faults (\<lambda>(t, s'). pm_inv c s' \<and> pm_data s' = pm_data s \<and> pm_table s' = pm_table s
      \<and> pm_log s' = pm_log s @ map PalErase vs \<and> (\<forall>v \<in> set vs. map_of (pm_blocks s') v = None)) (erase_victims c pl tick vs (f, s))"
proof -
  let ?I = "\<lambda>us (t, s'). pm_inv c s' \<and> pm_data s' = pm_data s \<and> pm_table s' = pm_table s
      \<and> pm_log s' = pm_log s @ map PalErase us \<and> (\<forall>v \<in> set us. map_of (pm_blocks s') v = None) \<and> (\<forall>v. v \<notin> set us \<longrightarrow> map_of (pm_blocks s') v = map_of (pm_blocks s) v)"
  have "run ftl_faults (?I vs) (erase_victims c pl tick vs (f, s))"
    unfolding erase_victims_def
  proof (rule run_rfold_index[where I = ?I])
    fix us v zs and x :: "nat \<times> 'a pmap"
    assume xs: "vs = us @ v # zs" and x: "?I us x"
    obtain f1 s1 where [simp]: "x = (f1, s1)" by (cases x)
    let ?s = "s1\<lparr>pm_erased := pm_erased s1 @ [v]\<rparr>"
    have v: "v \<in> set vs" "v \<notin> set us" using xs vs(1) by auto
    then obtain blk where b: "map_of (pm_blocks ?s) v = Some blk" using x vs(2) by fastforce
    have core: "pm_wf c ?s" "mapped {} ?s" "pm_data ?s = pm_data s1" "cmt_ok c ?s"
      using x pm_core(1,2,3)[of ?s s1] cmt_ok_core[of ?s s1 c] by (simp_all add: pm_inv_def)
    have "pm_data ?s (v, p) = None" for p using core(3) x e v(1) by simp
    from eraseInternal_ok[OF core(1,2,4) b this, of pl tick] x core(3) v(2)
    show "run ftl_faults (?I (us @ [v])) ((case x of (finishedAt, s) \<Rightarrow>
       rbind (eraseInternal c pl v tick (s\<lparr>pm_erased := pm_erased s @ [v]\<rparr>)) (\<lambda>(t, s). Inr (max finishedAt t, s))))"
      by (auto elim!: run_mono) metis
  qed (use inv in auto)
  then show ?thesis by (auto elim!: run_mono)
qed

section \<open>The collection\<close>

definition read_of :: "pal_request \<Rightarrow> pal_call" where
  "read_of = (\<lambda>(b, p, io). PalRead b p io)"

definition write_of :: "pal_request \<Rightarrow> pal_call" where
  "write_of = (\<lambda>(b, p, io). PalWrite b p io)"

lemma issue_ok:
  assumes op: "\<And>b p io tick s. \<exists>t x. op b p io tick s = (t, s\<lparr>pm_pal := x, pm_log := pm_log s @ [g (b, p, io)]\<rparr>)"
  shows "\<exists>t x. issue op tick reqs (f, s) = (t, s\<lparr>pm_pal := x, pm_log := pm_log s @ map g reqs\<rparr>)"
proof (induction reqs arbitrary: f s)
  case Nil
  show ?case by (auto simp: issue_def intro: exI[of _ "pm_pal s"])
next
  case (Cons r reqs)
  obtain b p io where r: "r = (b, p, io)" by (cases r)
  obtain t1 x1 where 1: "op b p io tick s = (t1, s\<lparr>pm_pal := x1, pm_log := pm_log s @ [g r]\<rparr>)" using op r by blast
  from Cons.IH[of "max f t1" "s\<lparr>pm_pal := x1, pm_log := pm_log s @ [g r]\<rparr>"] show ?case
    by (simp add: issue_def r 1[unfolded r])
qed

lemma issue_reads: "\<exists>t x. issue (pal_read pl) tick reqs (f, s) = (t, s\<lparr>pm_pal := x, pm_log := pm_log s @ map read_of reqs\<rparr>)"
  by (rule issue_ok) (use pal_calls(1) in \<open>auto simp: read_of_def\<close>)

lemma issue_writes: "\<exists>t x. issue (pal_write pl) tick reqs (f, s) = (t, s\<lparr>pm_pal := x, pm_log := pm_log s @ map write_of reqs\<rparr>)"
  by (rule issue_ok) (use pal_calls(2) in \<open>auto simp: write_of_def\<close>)

text \<open>No logical page is lost; the flash first reads, then writes, then erases.\<close>

definition collected :: "'p pmap \<Rightarrow> 'p pmap \<Rightarrow> bool" where
  "collected s s' \<longleftrightarrow> dom (map_of (pm_table s')) = dom (map_of (pm_table s))
     \<and> (\<exists>rs ws vs. pm_log s' = pm_log s @ map read_of rs @ map write_of ws @ map PalErase vs)"

lemma doGarbageCollection_ok:
  assumes inv: "pm_inv c s" and c: "conf_gc c" and vs: "victims_ok c s vs"
  shows "run ftl_faults (\<lambda>(t, s', d'). pm_inv c s' \<and> d' = d \<and> collected s s'
     \<and> (pm_iclCount s \<le> pc_SimlationIORequests c \<longrightarrow> (\<forall>v \<in> set vs. map_of (pm_blocks s') v = None)))
    (doGarbageCollection cb c pl vs tick (s, d))"
proof (cases "pm_iclCount s > pc_SimlationIORequests c \<or> vs = []")
  case True
  have "collected s s" by (auto simp: collected_def intro!: exI[of _ "[]"])
  with True inv show ?thesis by (auto simp: doGarbageCollection_def)
next
  case False
  let ?Q = "\<lambda>(t, s', d'). pm_inv c s' \<and> d' = d \<and> collected s s'
     \<and> (pm_iclCount s \<le> pc_SimlationIORequests c \<longrightarrow> (\<forall>v \<in> set vs. map_of (pm_blocks s') v = None))"
  have one: "conf_one c" and pol: "pc_policy c \<noteq> CACHED_GC" using c by (auto simp: conf_gc_def)
  let ?w = "\<lparr>gw_bit = bs_new (pc_ioUnitInPage c), gw_lpns = [], gw_reads = [], gw_writes = [], gw_erases = [],
                gw_lpa = [], gw_lpnListForCache = [], gw_CachedValidLPN = [], gw_tick = tick\<rparr>"
  have start: "collecting c (set vs) [] s (?w, s)"
    using inv vs conf_one_D(1)[OF one] by (auto simp: collecting_def victims_ok_def flag_ok_def)
  have finish: "run ftl_faults ?Q
     (rbind (let (readFinishedAt, s) = issue (pal_read pl) (gw_tick w) (gw_reads w) (tick, s1);
                       (writeFinishedAt, s) = issue (pal_write pl) readFinishedAt (gw_writes w) (tick, s)
                   in rbind (erase_victims c pl readFinishedAt (gw_erases w) (tick, s)) (\<lambda>(eraseFinishedAt, s).
                      Inr (writeFinishedAt, eraseFinishedAt, s, d)))
         (\<lambda>(writeFinishedAt, eraseFinishedAt, s, d).
            Inr (max writeFinishedAt eraseFinishedAt + pc_latency c PM_DO_GARBAGE_COLLECTION, s, d)))"
    if s1: "collecting c (set vs) vs s (w, s1)" "\<forall>u \<in> set vs. \<forall>p. pm_data s1 (u, p) = None" for w s1
  proof -
    note D = collecting_D[OF s1(1)]
    obtain t2 x2 where r: "issue (pal_read pl) (gw_tick w) (gw_reads w) (tick, s1)
        = (t2, s1\<lparr>pm_pal := x2, pm_log := pm_log s1 @ map read_of (gw_reads w)\<rparr>)" using issue_reads[of pl "gw_tick w" "gw_reads w" tick s1] by blast
    let ?s2 = "s1\<lparr>pm_pal := x2, pm_log := pm_log s1 @ map read_of (gw_reads w)\<rparr>"
    obtain t3 x3 where wr: "issue (pal_write pl) t2 (gw_writes w) (tick, ?s2)
        = (t3, ?s2\<lparr>pm_pal := x3, pm_log := pm_log ?s2 @ map write_of (gw_writes w)\<rparr>)" using issue_writes[of pl t2 "gw_writes w" tick ?s2] by blast
    let ?s3 = "?s2\<lparr>pm_pal := x3, pm_log := pm_log ?s2 @ map write_of (gw_writes w)\<rparr>"
    have "pm_inv c ?s3" using pm_core(4)[of ?s3 s1 c] D(1,2,8) by (simp add: pm_inv_def)
    moreover have "pm_data ?s3 = pm_data s1" by (rule pm_core(2)) simp_all
    moreover have "distinct vs" using vs by (simp add: victims_ok_def)
    moreover have "\<forall>v \<in> set vs. map_of (pm_blocks ?s3) v \<noteq> None" using D(6) by fastforce
    ultimately have e: "run ftl_faults (\<lambda>(t, s'). pm_inv c s' \<and> pm_data s' = pm_data ?s3 \<and> pm_table s' = pm_table ?s3
      \<and> pm_log s' = pm_log ?s3 @ map PalErase vs \<and> (\<forall>v \<in> set vs. map_of (pm_blocks s') v = None)) (erase_victims c pl t2 vs (tick, ?s3))"
      using erase_victims_ok[of c ?s3 vs pl t2 tick] s1(2) by simp
    have col: "collected s s'" if "pm_table s' = pm_table ?s3" "pm_log s' = pm_log ?s3 @ map PalErase vs" for s'
      using that D(4,5) by (auto simp: collected_def)
    show ?thesis unfolding r wr Let_def prod.case D(7)
      using e col by (auto elim!: run_mono)
  qed
  have eq: "doGarbageCollection cb c pl vs tick (s, d) = rbind (rfold (collect_block c pl tick) vs (?w, s)) (\<lambda>(w, s1).
     rbind (let (readFinishedAt, s) = issue (pal_read pl) (gw_tick w) (gw_reads w) (tick, s1);
                       (writeFinishedAt, s) = issue (pal_write pl) readFinishedAt (gw_writes w) (tick, s)
                   in rbind (erase_victims c pl readFinishedAt (gw_erases w) (tick, s)) (\<lambda>(eraseFinishedAt, s).
                      Inr (writeFinishedAt, eraseFinishedAt, s, d)))
         (\<lambda>(writeFinishedAt, eraseFinishedAt, s, d).
            Inr (max writeFinishedAt eraseFinishedAt + pc_latency c PM_DO_GARBAGE_COLLECTION, s, d)))"
    using False pol by (simp add: doGarbageCollection_def Let_def)
  show ?thesis unfolding eq
  proof (rule run_bindI[OF collect_all_ok[OF start c]], unfold split_paired_all prod.case, elim conjE)
    fix w s1 assume "collecting c (set vs) vs s (w, s1)" "\<forall>u \<in> set vs. \<forall>p. pm_data s1 (u, p) = None"
    from finish[OF this] show "run ftl_faults ?Q
     (rbind (let (readFinishedAt, s) = issue (pal_read pl) (gw_tick w) (gw_reads w) (tick, s1);
                       (writeFinishedAt, s) = issue (pal_write pl) readFinishedAt (gw_writes w) (tick, s)
                   in rbind (erase_victims c pl readFinishedAt (gw_erases w) (tick, s)) (\<lambda>(eraseFinishedAt, s).
                      Inr (writeFinishedAt, eraseFinishedAt, s, d)))
         (\<lambda>(writeFinishedAt, eraseFinishedAt, s, d).
            Inr (max writeFinishedAt eraseFinishedAt + pc_latency c PM_DO_GARBAGE_COLLECTION, s, d)))" .
  qed
qed

end
