(* ===== verification/Ftl_Ops.thy ===== *)
theory Ftl_Ops
  imports Ftl_Gc
begin

text \<open>
  The operations of the translation layer keep the invariant of the mapping, and what each of them does
  to the mapping and to the flash.
\<close>

section \<open>Writing\<close>

lemma collected_refl: "collected s s"
  by (auto simp: collected_def intro!: exI[of _ "[]"])

text \<open>A write: the page moves, then there may be a collection.\<close>

definition ftl_written :: "nat \<Rightarrow> bool \<Rightarrow> 'p pmap \<Rightarrow> 'p pmap \<Rightarrow> bool" where
  "ftl_written l send s s' \<longleftrightarrow> (\<exists>m io s1. rewritten l m s s1
     \<and> pm_log s1 = pm_log s @ (if send then [PalWrite (fst m) (snd m) io] else []) \<and> collected s1 s')"

lemma ftl_written_dom: "ftl_written l send s s' \<Longrightarrow> dom (map_of (pm_table s')) = insert l (dom (map_of (pm_table s)))"
  unfolding ftl_written_def rewritten_def collected_def by (elim exE conjE) simp

lemma writeInternal_ok:
  assumes inv: "pm_inv c s" and c: "conf_gc c" and io: "flag_on (fr_ioFlag req)" and cmt: "unhit c (fr_lpn req) s"
  shows "run (if send then ftl_faults else insert (Panic ''ftl: GC triggered while in initialization'') ftl_faults)
    (\<lambda>(t, s', d'). pm_inv c s' \<and> d' = d \<and> ftl_written (fr_lpn req) send s s')
    (writeInternal cb c pl req tick send (s, d))"
proof -
  let ?l = "fr_lpn req" and ?F = "if send then ftl_faults else insert (Panic ''ftl: GC triggered while in initialization'') ftl_faults"
  have one: "conf_one c" using c by (simp add: conf_gc_def)
  have F: "ftl_faults \<subseteq> ?F" by auto
  have w: "run ?F (\<lambda>(t, s'). pm_inv c s' \<and> (\<exists>m io. rewritten ?l m s s'
       \<and> pm_log s' = pm_log s @ (if send then [PalWrite (fst m) (snd m) io] else []))) (write_pages c pl req tick send s)"
    by (rule run_faults[OF write_pages_ok[OF inv one io cmt] F])
  show ?thesis unfolding writeInternal_def prod.case
  proof (rule run_bindI[OF w], unfold split_paired_all prod.case, elim conjE exE)
    fix t s1 m io assume s1: "pm_inv c s1" "rewritten ?l m s s1"
      "pm_log s1 = pm_log s @ (if send then [PalWrite (fst m) (snd m) io] else [])"
    have wf: "pm_wf c s1" using s1(1) by (simp add: pm_inv_def)
    have written: "ftl_written ?l send s s'" if "collected s1 s'" for s' using s1 that unfolding ftl_written_def by blast
    show "run ?F (\<lambda>(t, s', d'). pm_inv c s' \<and> d' = d \<and> ftl_written ?l send s s')
     (if pc_belowThreshold c (pm_nFreeBlocks s1)
      then if \<not> send then Inl (Panic ''ftl: GC triggered while in initialization'')
          else rbind (selectVictimBlock c t s1) (\<lambda>(list, beginAt, s).
               rbind (doGarbageCollection cb c pl list beginAt (s, d)) (\<lambda>(beginAt, s, d).
                 Inr (t, s\<lparr>pm_gcCount := pm_gcCount s + 1,
                              pm_reclaimedBlocks := pm_reclaimedBlocks s + length list\<rparr>, d)))
      else Inr (t, s1, d))"
    proof (cases "pc_belowThreshold c (pm_nFreeBlocks s1) \<and> send")
      case False
      then show ?thesis using s1(1) written[OF collected_refl] by auto
    next
      case True
      obtain vs t2 where sel: "selectVictimBlock c t s1 = Inr (vs, t2, s1\<lparr>pm_bReclaimMore := False\<rparr>)" "victims_ok c s1 vs"
        using selectVictimBlock_ok[OF wf c] by blast
      let ?s = "s1\<lparr>pm_bReclaimMore := False\<rparr>"
      have s: "pm_inv c ?s" using s1(1) pm_core(4)[of ?s s1 c] by simp
      have v: "victims_ok c ?s vs" using sel(2) by (simp add: victims_ok_def)
      have "pm_inv c (s'\<lparr>pm_gcCount := i, pm_reclaimedBlocks := j\<rparr>) \<and> ftl_written ?l send s (s'\<lparr>pm_gcCount := i, pm_reclaimedBlocks := j\<rparr>)"
        if "pm_inv c s'" "collected ?s s'" for s' i j
        using that pm_core(4)[of "s'\<lparr>pm_gcCount := i, pm_reclaimedBlocks := j\<rparr>" s' c]
          written[of "s'\<lparr>pm_gcCount := i, pm_reclaimedBlocks := j\<rparr>"] by (simp add: collected_def)
      then show ?thesis
        using doGarbageCollection_ok[OF s c v, of d cb pl t2] True sel(1) by (auto elim!: run_mono)
    qed
  qed
qed

section \<open>Reading\<close>

text \<open>A read sends the flash the page that the logical page is mapped to; if its block is on the list of
  erased blocks, nothing.\<close>

definition ftl_has_read :: "nat \<Rightarrow> 'p pmap \<Rightarrow> 'p pmap \<Rightarrow> bool" where
  "ftl_has_read l s s' \<longleftrightarrow> pm_table s' = pm_table s \<and> pm_data s' = pm_data s \<and> pm_erased s' = pm_erased s
     \<and> (case map_of (pm_table s) l of None \<Rightarrow> pm_log s' = pm_log s
        | Some ms \<Rightarrow> if fst (ms ! 0) \<in> set (pm_erased s)
            then pm_log s' = pm_log s \<and> pm_inconsistent s' = pm_inconsistent s + 1
            else \<exists>io. pm_log s' = pm_log s @ [PalRead (fst (ms ! 0)) (snd (ms ! 0)) io])"

text \<open>One unit, for a page that is mapped to \<^verbatim>\<open>(b, p)\<close>; \<^verbatim>\<open>load\<close> may change the cached table.\<close>

lemma read_unit_ok:
  assumes inv: "pm_inv c s" and c: "conf_one c" and io: "flag_on (fr_ioFlag req)"
    and d: "pm_data s (b, p) = Some l" and m: "mapping 0 = Inr (b, p)"
    and load: "\<exists>x' s'. load (b, p) u x s = (x', s') \<and> pm_inv c s' \<and> pm_data s' = pm_data s \<and> pm_table s' = pm_table s
      \<and> pm_erased s' = pm_erased s \<and> pm_log s' = pm_log s \<and> pm_blocks s' = pm_blocks s \<and> pm_inconsistent s' = pm_inconsistent s"
  shows "\<exists>x' u' f' s'. read_unit c pl req tick mapping load 0 (False, x, u, f, s) = Inr (b \<in> set (pm_erased s), x', u', f', s')
     \<and> pm_inv c s' \<and> pm_data s' = pm_data s \<and> pm_table s' = pm_table s \<and> pm_erased s' = pm_erased s
     \<and> (if b \<in> set (pm_erased s) then pm_log s' = pm_log s \<and> pm_inconsistent s' = pm_inconsistent s + 1
        else \<exists>io. pm_log s' = pm_log s @ [PalRead b p io])"
proof -
  note on = flag_on_facts[OF io]
  obtain x' s1 where s1: "load (b, p) u x s = (x', s1)" "pm_inv c s1" "pm_data s1 = pm_data s" "pm_table s1 = pm_table s"
    "pm_erased s1 = pm_erased s" "pm_log s1 = pm_log s" "pm_blocks s1 = pm_blocks s" "pm_inconsistent s1 = pm_inconsistent s"
    using load by blast
  have wf: "pm_wf c s1" and mp: "mapped {} s1" and cm: "cmt_ok c s1" using s1(2) by (auto simp: pm_inv_def)
  obtain blk where b: "map_of (pm_blocks s1) b = Some blk" "block_ok c b blk" "p < pc_pagesInBlock c" "b < pc_totalPhysicalBlocks c"
    using pm_data_lt[OF wf, of b p l] d s1(3) by auto
  obtain io' where io': "unit_flags c 0 (fr_ioFlag req) = Inr io'" using unit_flags_ok[OF on(3)] by auto
  show ?thesis
  proof (cases "b \<in> set (pm_erased s)")
    case True
    let ?s = "s1\<lparr>pm_inconsistent := pm_inconsistent s1 + 1\<rparr>"
    have "read_unit c pl req tick mapping load 0 (False, x, u, f, s) = Inr (True, x', u, f, ?s)"
      using on(1) m b io' s1(1,5) True by (simp add: read_unit_def)
    moreover have "pm_inv c ?s" "pm_data ?s = pm_data s1" using s1(2) pm_core(2,4)[of ?s s1] by simp_all
    ultimately show ?thesis using True s1 by simp
  next
    case False
    obtain blk' where r: "blk_read blk p 0 tick = Inr ((p, 0) \<in> blk_validSet blk, blk')" "block_ok c b blk'" "block_data blk' = block_data blk"
      using block_read[OF b(2,3)] by blast
    let ?s2 = "s1\<lparr>pm_blocks := um_set b blk' (pm_blocks s1)\<rparr>"
    obtain t3 x3 where pr: "pal_read pl b p io' tick ?s2 = (t3, ?s2\<lparr>pm_pal := x3, pm_log := pm_log s1 @ [PalRead b p io']\<rparr>)"
      using pal_calls(1)[of pl b p io' tick ?s2] by auto
    let ?s = "?s2\<lparr>pm_pal := x3, pm_log := pm_log s1 @ [PalRead b p io']\<rparr>"
    have "read_unit c pl req tick mapping load 0 (False, x, u, f, s) = Inr (False, x', t3, max f t3, ?s)"
      using on(1) m b io' s1(1,5) False r(1) pr by (simp add: read_unit_def Let_def)
    moreover have dd: "pm_data ?s y = pm_data s1 y" for y
      by (cases y) (simp add: pm_data_block b(1) r(3))
    moreover have "pm_wf c ?s" using wf r(2) by (auto simp: pm_wf_def)
    moreover have "mapped {} ?s" using mp dd by (simp add: mapped_def)
    moreover have "cmt_ok c ?s" using cm by (simp add: cmt_ok_def)
    ultimately show ?thesis using False s1 by (auto simp: pm_inv_def fun_eq_iff)
  qed
qed

lemma readInternal_ok:
  assumes inv: "pm_inv c s" and c: "conf_one c" and io: "flag_on (fr_ioFlag req)"
    and stale: "map_of (pm_table s) (fr_lpn req) = None \<Longrightarrow> unhit c (fr_lpn req) s"
  shows "\<exists>t s'. readInternal c pl req tick s = Inr (t, s') \<and> pm_inv c s' \<and> ftl_has_read (fr_lpn req) s s'"
proof -
  let ?l = "fr_lpn req"
  have wf: "pm_wf c s" and m: "mapped {} s" and cm: "cmt_ok c s" using inv by (auto simp: pm_inv_def)
  note cD = conf_one_D[OF c] and on = flag_on_facts[OF io]
  obtain n where n: "table_bytes c (fr_ioFlag req) = Inr n" using table_bytes_ok[OF on(3)] by auto
  have shadow: "(if pc_useDeadOnArrivalPredictor c \<and> pc_enableCMT c then map_of (pm_shadow s) ?l else None) = None"
    using cD(3) by auto
  show ?thesis
  proof (cases "map_of (pm_table s) ?l")
    case None
    then have "\<not> (pc_enableCMT c \<and> map_of (pm_cmt s) ?l \<noteq> None)" using stale by (simp add: unhit_def)
    then have "readInternal c pl req tick s = Inr (tick, s)"
      unfolding readInternal_def Let_def n rbind_Inr shadow using None by (cases "pc_enableCMT c") simp_all
    then show ?thesis using inv None by (simp add: ftl_has_read_def)
  next
    case (Some ms)
    obtain b p where ms: "ms = [(b, p)]" "pm_data s (b, p) = Some ?l"
      using mapped_D(2)[OF m Some] by (metis empty_iff surj_pair)
    obtain t x where dr: "pm_dram_read pl n tick s = (t, s\<lparr>pm_pal := x\<rparr>)" using pal_calls(4)[of pl n tick s] by blast
    let ?s1 = "s\<lparr>pm_pal := x\<rparr>"
    have s1: "pm_inv c ?s1" "pm_data ?s1 = pm_data s" using inv pm_core(2,4)[of ?s1 s] by simp_all
    have has: "ftl_has_read ?l s s'" if "pm_data s' = pm_data s" "pm_table s' = pm_table s" "pm_erased s' = pm_erased s"
      "if b \<in> set (pm_erased s) then pm_log s' = pm_log s \<and> pm_inconsistent s' = pm_inconsistent s + 1
        else \<exists>io. pm_log s' = pm_log s @ [PalRead b p io]" for s'
      using that Some by (simp add: ftl_has_read_def ms(1))
    show ?thesis
    proof (cases "pc_enableCMT c \<and> map_of (pm_cmt s) ?l \<noteq> None")
      case True
      then obtain e where e: "map_of (pm_cmt s) ?l = Some e" by auto
      have bp: "me_block_id e = b" "me_page_Id e = p" using cmt_ok_D[OF cm _ e Some] True ms(1) by auto
      let ?e = "e\<lparr>me_lastAccessedTime := t, me_cmtEntryAccessCount := me_cmtEntryAccessCount e + 1, me_iclEntry := pm_iclCount ?s1\<rparr>"
      let ?s2 = "?s1\<lparr>pm_cmt := um_set ?l ?e (pm_cmt ?s1)\<rparr>"
      have "pm_wf c ?s2" "mapped {} ?s2" using s1 by (auto simp: pm_inv_def pm_wf_def mapped_def pm_data_def)
      moreover have "cmt_ok c ?s2" using cm e by (auto simp: cmt_ok_def split: if_splits)
      ultimately have s2: "pm_inv c ?s2" "pm_data ?s2 (b, p) = Some ?l" "pm_data ?s2 = pm_data s"
        using ms(2) by (auto simp: pm_inv_def pm_data_def)
      obtain x' u' f' s' where r: "read_unit c pl req t (\<lambda>idx. Inr (me_block_id ?e, me_page_Id ?e)) no_load 0
          (False, (), pc_garbage c, tick, ?s2) = Inr (b \<in> set (pm_erased ?s2), x', u', f', s')"
        "pm_inv c s'" "pm_data s' = pm_data ?s2" "pm_table s' = pm_table ?s2" "pm_erased s' = pm_erased ?s2"
        "if b \<in> set (pm_erased ?s2) then pm_log s' = pm_log ?s2 \<and> pm_inconsistent s' = pm_inconsistent ?s2 + 1
         else \<exists>io. pm_log s' = pm_log ?s2 @ [PalRead b p io]"
        using read_unit_ok[OF s2(1) c io s2(2), where mapping = "\<lambda>idx. Inr (me_block_id ?e, me_page_Id ?e)" and load = no_load
            and u = "pc_garbage c" and x = "()" and f = tick and pl = pl and tick = t] bp s2(1) by (simp add: no_load_def) blast
      have "readInternal c pl req tick s = Inr (t, s')"
        using True e n dr r(1) cD(2) by (simp add: readInternal_def read_entry_def)
      moreover have "ftl_has_read ?l s s'" by (rule has) (use r(3-6) s2(3) in \<open>auto split: if_splits\<close>)
      ultimately show ?thesis using r(2) by blast
    next
      case False
      let ?load = "\<lambda>m beginAt dead s. if pc_enableCMT c then cmt_load c ?l m beginAt dead s else (dead, s)"
      have load: "\<exists>x' s'. ?load (b, p) (pc_garbage c) False ?s1 = (x', s') \<and> pm_inv c s' \<and> pm_data s' = pm_data ?s1 \<and> pm_table s' = pm_table ?s1
        \<and> pm_erased s' = pm_erased ?s1 \<and> pm_log s' = pm_log ?s1 \<and> pm_blocks s' = pm_blocks ?s1 \<and> pm_inconsistent s' = pm_inconsistent ?s1"
      proof (cases "pc_enableCMT c")
        case True
        obtain s2 where l: "cmt_load c ?l (b, p) (pc_garbage c) False ?s1 = (False, s2)" "cmt_put ?l (b, p) ?s1 s2"
          using cmt_load_put[OF cD(3)[OF True]] by blast
        have "pm_wf c ?s1" "mapped {} ?s1" "cmt_ok c ?s1" "map_of (pm_table ?s1) ?l = Some [(b, p)]"
          using s1(1) Some ms(1) by (simp_all add: pm_inv_def)
        moreover have "pm_inconsistent s2 = pm_inconsistent ?s1" using l(2) by (auto simp: cmt_put_def)
        ultimately show ?thesis using cmt_put_inv[OF l(2)] l(1) True by (auto simp: cmt_ok_def)
      next
        case False
        with s1 show ?thesis by (intro exI[of _ False] exI[of _ ?s1]) simp
      qed
      have d1: "pm_data ?s1 (b, p) = Some ?l" using ms(2) s1(2) by simp
      have m: "rnth ms 0 = Inr (b, p)" by (simp add: ms(1))
      obtain x' u' f' s' where r: "read_unit c pl req t (rnth ms) ?load 0
          (False, False, pc_garbage c, tick, ?s1) = Inr (b \<in> set (pm_erased ?s1), x', u', f', s')"
        "pm_inv c s'" "pm_data s' = pm_data ?s1" "pm_table s' = pm_table ?s1" "pm_erased s' = pm_erased ?s1"
        "if b \<in> set (pm_erased ?s1) then pm_log s' = pm_log ?s1 \<and> pm_inconsistent s' = pm_inconsistent ?s1 + 1
         else \<exists>io. pm_log s' = pm_log ?s1 @ [PalRead b p io]"
        using read_unit_ok[where mapping = "rnth ms" and load = ?load and u = "pc_garbage c" and x = False and f = tick
            and pl = pl and tick = t, OF s1(1) c io d1 m load] by blast
      have "readInternal c pl req tick s = Inr (if b \<in> set (pm_erased ?s1) then t else f' + pc_latency c PM_READ_INTERNAL, s')"
        unfolding readInternal_def Let_def n rbind_Inr shadow
        using False Some dr r(1) cD(2) by (cases "pc_enableCMT c") auto
      moreover have "ftl_has_read ?l s s'" by (rule has) (use r(3-6) s1(2) in \<open>auto split: if_splits\<close>)
      ultimately show ?thesis using r(2) by blast
    qed
  qed
qed

section \<open>Trimming, and pages that leave the cache\<close>

lemma mapped_unmap:
  assumes m: "mapped {} s" and d: "pm_data s x = Some l"
    and s': "pm_data s' = (pm_data s)(x := None)" "pm_table s' = um_erase l (pm_table s)"
  shows "mapped {} s'"
proof (rule mapped_I)
  fix l' ms assume t: "map_of (pm_table s') l' = Some ms"
  then have t': "map_of (pm_table s) l' = Some ms" "l' \<noteq> l" by (auto simp: s'(2) split: if_splits)
  then show "length ms = 1" using mapped_D(1)[OF m] by blast
  show "pm_data s' (ms ! 0) = Some l'" using mapped_D(2)[OF m t'(1)] t'(2) d by (auto simp: s'(1))
next
  fix y l' assume y: "pm_data s' y = Some l'"
  then have "pm_data s y = Some l'" "y \<noteq> x" by (auto simp: s'(1) split: if_splits)
  moreover from this have "l' \<noteq> l" using mapped_fun[OF m d, of y] by auto
  ultimately show "map_of (pm_table s') l' = Some [y]" using mapped_D(4)[OF m] by (simp add: s'(2))
qed simp

lemma trimInternal_ok:
  assumes inv: "pm_inv c s" and c: "conf_one c" and io: "flag_ok (fr_ioFlag req)"
  shows "\<exists>t s'. trimInternal c pl req tick s = Inr (t, s') \<and> pm_inv c s'
    \<and> map_of (pm_table s') = (map_of (pm_table s))(fr_lpn req := None) \<and> pm_data s' = without (fr_lpn req) (pm_data s)
    \<and> pm_log s' = pm_log s"
proof -
  let ?l = "fr_lpn req"
  have wf: "pm_wf c s" and m: "mapped {} s" using inv by (auto simp: pm_inv_def)
  note cD = conf_one_D[OF c]
  obtain n where n: "table_bytes c (fr_ioFlag req) = Inr n" using table_bytes_ok[OF io] by auto
  show ?thesis
  proof (cases "map_of (pm_table s) ?l")
    case None
    then have "pm_data s x \<noteq> Some ?l" for x using mapped_D(4)[OF m, of x ?l] by auto
    with None inv show ?thesis by (auto simp: trimInternal_def without_none)
  next
    case (Some ms)
    obtain b p where ms: "ms = [(b, p)]" "pm_data s (b, p) = Some ?l"
      using mapped_D(2)[OF m Some] by (metis empty_iff surj_pair)
    obtain blk where b: "map_of (pm_blocks s) b = Some blk" "p < pc_pagesInBlock c" using pm_data_lt[OF wf ms(2)] by auto
    obtain t x where dr: "pm_dram_read pl n tick s = (t, s\<lparr>pm_pal := x\<rparr>)" using pal_calls(4)[of pl n tick s] by blast
    let ?s1 = "s\<lparr>pm_pal := x\<rparr>"
    have wf1: "pm_wf c ?s1" "map_of (pm_blocks ?s1) b = Some blk" using wf pm_core(1)[of ?s1 s] b(1) by simp_all
    obtain s2 where s2: "with_block b (\<lambda>blk. blk_invalidate blk p 0) ?s1 = Inr s2" "pm_wf c s2"
      "pm_data s2 = (pm_data ?s1)((b, p) := None)" "pm_table s2 = pm_table ?s1" "pm_log s2 = pm_log ?s1" "pm_cmt s2 = pm_cmt ?s1"
      using invalidate_page[OF wf1 b(2)] that by metis
    have d1: "pm_data ?s1 = pm_data s" by (rule pm_core(2)) simp_all
    let ?s = "s2\<lparr>pm_table := um_erase ?l (pm_table s2)\<rparr>"
    have "trimInternal c pl req tick s = Inr (t + pc_latency c PM_TRIM_INTERNAL, ?s)"
      using Some n dr cD s2(1) b(1) by (simp add: trimInternal_def unmap_unit_def um_has_map_of ms(1) Let_def)
    moreover have "mapped {} ?s" by (rule mapped_unmap[OF m ms(2)]) (simp_all add: s2(3,4) d1)
    moreover have "pm_wf c ?s" by (rule pm_wf_table[OF s2(2)]) (simp add: s2(4) um_erase_distinct pm_wf_D(2)[OF wf])
    moreover have "map_of (pm_table ?s) = (map_of (pm_table s))(?l := None)" by (auto simp: s2(4) fun_eq_iff)
    moreover have "cmt_ok c ?s" using inv s2(4,6) by (auto simp: pm_inv_def cmt_ok_def split: if_splits)
    ultimately show ?thesis using s2(3,5) without_drop[OF m ms(2)] by (simp add: pm_inv_def d1)
  qed
qed

lemma undoCached_ok:
  assumes inv: "pm_inv c s" and c: "conf_one c"
  shows "\<exists>s'. undoCached c l s = Inr s' \<and> pm_inv c s' \<and> pm_table s' = pm_table s \<and> pm_log s' = pm_log s"
proof (cases "map_of (pm_table s) l")
  case None
  with inv show ?thesis by (simp add: undoCached_def)
next
  case (Some ms)
  have wf: "pm_wf c s" and m: "mapped {} s" using inv by (auto simp: pm_inv_def)
  obtain b p where ms: "ms = [(b, p)]" "pm_data s (b, p) = Some l"
    using mapped_D(2)[OF m Some] by (metis empty_iff surj_pair)
  obtain blk where b: "map_of (pm_blocks s) b = Some blk" "block_ok c b blk" "p < pc_pagesInBlock c"
    using pm_data_lt[OF wf ms(2)] by auto
  obtain blk' where r: "blk_deCache blk p = Inr blk'" "block_ok c b blk'" "block_data blk' = block_data blk"
    using block_decache[OF b(2,3)] by blast
  let ?s = "s\<lparr>pm_blocks := um_set b blk' (pm_blocks s)\<rparr>"
  have "undoCached c l s = Inr (if b < pc_totalPhysicalBlocks c then ?s else s)"
    using Some b r(1) conf_one_D(6)[OF c] with_block_run[OF b(1), of "\<lambda>blk. blk_deCache blk p" blk']
    by (simp add: undoCached_def um_has_map_of ms(1))
  moreover have "pm_wf c ?s" by (rule set_block_wf[OF wf r(2) b(1)])
  moreover have d: "pm_data ?s y = pm_data s y" for y by (cases y) (simp add: pm_data_block b(1) r(3))
  moreover have "mapped {} ?s" using m d by (simp add: mapped_def)
  moreover have "cmt_ok c ?s" using inv by (simp add: pm_inv_def cmt_ok_def)
  ultimately show ?thesis using inv by (simp add: pm_inv_def)
qed

section \<open>The operations of FTL\<close>

definition ftl_req_ok :: "ftl_request \<Rightarrow> bool" where
  "ftl_req_ok req \<longleftrightarrow> flag_ok (fr_ioFlag req)"

lemma note_use_core: "pm_inv c (note_use c l s) = pm_inv c s" "pm_data (note_use c l s) = pm_data s"
  "pm_table (note_use c l s) = pm_table s" "pm_log (note_use c l s) = pm_log s" "pm_erased (note_use c l s) = pm_erased s"
  "pm_inconsistent (note_use c l s) = pm_inconsistent s" "pm_cmt (note_use c l s) = pm_cmt s"
proof -
  have f: "pm_blocks (note_use c l s) = pm_blocks s" "pm_table (note_use c l s) = pm_table s" "pm_freeBlocks (note_use c l s) = pm_freeBlocks s"
    "pm_nFreeBlocks (note_use c l s) = pm_nFreeBlocks s" "pm_lastFreeBlock (note_use c l s) = pm_lastFreeBlock s"
    "pm_lastFreeBlockIndex (note_use c l s) = pm_lastFreeBlockIndex s" "pm_lastFreeBlockIOMap (note_use c l s) = pm_lastFreeBlockIOMap s"
    "pm_cmt (note_use c l s) = pm_cmt s"
    by (auto simp: note_use_def addLbaToOptMap_def Let_def split: option.splits)
  show "pm_inv c (note_use c l s) = pm_inv c s" "pm_data (note_use c l s) = pm_data s" by (rule pm_core[OF f])+
  show "pm_table (note_use c l s) = pm_table s" "pm_log (note_use c l s) = pm_log s" "pm_erased (note_use c l s) = pm_erased s"
    "pm_inconsistent (note_use c l s) = pm_inconsistent s" "pm_cmt (note_use c l s) = pm_cmt s"
    by (auto simp: note_use_def addLbaToOptMap_def Let_def split: option.splits)
qed

lemma ftl_write_ok:
  assumes inv: "pm_inv c s" and c: "conf_gc c" and io: "flag_on (fr_ioFlag req)" and cmt: "unhit c (fr_lpn req) s"
  shows "run ftl_faults (\<lambda>(t, s', d'). pm_inv c s' \<and> d' = d \<and> ftl_written (fr_lpn req) True s s')
    (ftl_write c pl cb req tick (s, d))"
proof -
  let ?s = "note_use c (fr_lpn req) s"
  have inv': "pm_inv c ?s" using inv note_use_core(1) by metis
  have cmt': "unhit c (fr_lpn req) ?s" using cmt by (simp add: unhit_def note_use_core)
  have w: "ftl_written l True ?s s' = ftl_written l True s s'" for l s'
    by (simp add: ftl_written_def rewritten_def note_use_core)
  show ?thesis
    using writeInternal_ok[OF inv' c io cmt', of True d cb pl tick] flag_on_facts(4)[OF io]
    by (auto simp: ftl_write_def pm_write_def w elim!: run_mono)
qed

lemma ftl_read_ok:
  assumes inv: "pm_inv c s" and c: "conf_one c" and io: "flag_on (fr_ioFlag req)"
    and stale: "map_of (pm_table s) (fr_lpn req) = None \<Longrightarrow> unhit c (fr_lpn req) s"
  shows "\<exists>t s'. ftl_read c pl req tick s = Inr (t, s') \<and> pm_inv c s' \<and> ftl_has_read (fr_lpn req) s s'"
proof -
  let ?s = "note_use c (fr_lpn req) s"
  have inv': "pm_inv c ?s" using inv note_use_core(1) by metis
  have r: "ftl_has_read l ?s s' = ftl_has_read l s s'" for l s'
    by (simp only: ftl_has_read_def note_use_core)
  have stale': "map_of (pm_table ?s) (fr_lpn req) = None \<Longrightarrow> unhit c (fr_lpn req) ?s"
    using stale by (simp add: unhit_def note_use_core)
  from readInternal_ok[OF inv' c io stale', of pl tick] flag_on_facts(4)[OF io] show ?thesis
    by (auto simp: ftl_read_def pm_read_def r)
qed

lemma ftl_trim_ok:
  assumes inv: "pm_inv c s" and c: "conf_one c" and io: "flag_ok (fr_ioFlag req)"
  shows "\<exists>t s'. ftl_trim c pl req tick s = Inr (t, s') \<and> pm_inv c s'
    \<and> map_of (pm_table s') = (map_of (pm_table s))(fr_lpn req := None) \<and> pm_data s' = without (fr_lpn req) (pm_data s)
    \<and> pm_log s' = pm_log s"
  using trimInternal_ok[OF assms, of pl tick] by (auto simp: ftl_trim_def pm_trim_def)

section \<open>Construction and fill\<close>

lemma free_list_ok:
  assumes c: "conf_one c"
  shows "\<exists>free. rfold (\<lambda>i free. rbind (blk_new i (pc_pagesInBlock c) (pc_ioUnitInPage c)) (\<lambda>b.
               Inr (free @ [fst (blk_move (pc_garbage c) b)]))) [0..<n] [] = Inr free
     \<and> map blk_idx free = [0..<n] \<and> (n \<le> pc_totalPhysicalBlocks c \<longrightarrow> (\<forall>blk \<in> set free. block_ok c (blk_idx blk) blk \<and> block_fresh blk))"
proof (induction n)
  case (Suc n)
  then obtain free where free: "rfold (\<lambda>i free. rbind (blk_new i (pc_pagesInBlock c) (pc_ioUnitInPage c)) (\<lambda>b.
               Inr (free @ [fst (blk_move (pc_garbage c) b)]))) [0..<n] [] = Inr free" "map blk_idx free = [0..<n]"
    "n \<le> pc_totalPhysicalBlocks c \<longrightarrow> (\<forall>blk \<in> set free. block_ok c (blk_idx blk) blk \<and> block_fresh blk)" by auto
  obtain b where b: "blk_new n (pc_pagesInBlock c) 1 = Inr b" "blk_inv b" "blk_idx b = n" "blk_pageCount b = pc_pagesInBlock c"
    "blk_ioUnitInPage b = 1" "blk_validSet b = {}" "page_next b = 0"
    using blk_new_ok[of "pc_pagesInBlock c" 1 n] conf_one_D(5)[OF c] by (auto simp: page_next_abs)
  let ?k = "fst (blk_move (pc_garbage c) b)"
  have "Suc n \<le> pc_totalPhysicalBlocks c \<Longrightarrow> block_ok c n ?k" "block_fresh ?k" "blk_idx ?k = n"
    unfolding block_move using b by (simp_all add: block_ok_def block_fresh_def)
  with free b(1) conf_one_D(1)[OF c] show ?case by (auto simp: rfold_append)
qed simp

lemma PageMapping_new_ok:
  assumes c: "conf_one c"
  shows "run ftl_faults (\<lambda>s. pm_inv c s \<and> pm_table s = [] \<and> pm_log s = []) (PageMapping_new c p)"
proof -
  obtain free where free: "rfold (\<lambda>i free. rbind (blk_new i (pc_pagesInBlock c) (pc_ioUnitInPage c)) (\<lambda>b.
               Inr (free @ [fst (blk_move (pc_garbage c) b)]))) [0..<pc_totalPhysicalBlocks c] [] = Inr free"
    "map blk_idx free = [0..<pc_totalPhysicalBlocks c]" "\<forall>blk \<in> set free. block_ok c (blk_idx blk) blk \<and> block_fresh blk"
    using free_list_ok[OF c, of "pc_totalPhysicalBlocks c"] by auto
  have len: "length free = pc_totalPhysicalBlocks c" using arg_cong[OF free(2), of length] by simp
  have "run ftl_faults (\<lambda>s. pm_inv c s \<and> pm_table s = [] \<and> pm_log s = []) (rfold (renew_free c) [0..<pc_pageCountToMaxPerf c] s0)"
    if "pm_inv c s0 \<and> pm_table s0 = [] \<and> pm_log s0 = []" for s0 :: "'a pmap"
  proof (rule run_rfold[where I = "\<lambda>s. pm_inv c s \<and> pm_table s = [] \<and> pm_log s = []", OF that])
    fix i and s :: "'a pmap" assume i: "i \<in> set [0..<pc_pageCountToMaxPerf c]" and s: "pm_inv c s \<and> pm_table s = [] \<and> pm_log s = []"
    then have "pm_wf c s" "i < pc_pageCountToMaxPerf c" by (auto simp: pm_inv_def)
    then have "run ftl_faults (\<lambda>s'. pm_wf c s' \<and> grown s s' \<and> pm_erased s' = pm_erased s
     \<and> (\<exists>b blk. pm_lastFreeBlock s' = (pm_lastFreeBlock s)[i := b] \<and> map_of (pm_blocks s') b = Some blk \<and> page_next blk = 0))
      (renew_free c i s)" by (rule renew_free_ok)
    then show "run ftl_faults (\<lambda>s. pm_inv c s \<and> pm_table s = [] \<and> pm_log s = []) (renew_free c i s)"
    proof (rule run_mono)
      fix s' :: "'a pmap"
      assume "pm_wf c s' \<and> grown s s' \<and> pm_erased s' = pm_erased s
       \<and> (\<exists>b blk. pm_lastFreeBlock s' = (pm_lastFreeBlock s)[i := b] \<and> map_of (pm_blocks s') b = Some blk \<and> page_next blk = 0)"
      then have "pm_wf c s'" "grown s s'" by blast+
      moreover from this have "cmt_ok c s' = cmt_ok c s" by (intro cmt_ok_core) (simp_all add: grown_def)
      ultimately show "pm_inv c s' \<and> pm_table s' = [] \<and> pm_log s' = []"
        using s grown_mapped[of s s'] by (simp add: pm_inv_def) (simp add: grown_def)
    qed
  qed
  moreover have "pm_inv c \<lparr>pm_table = [], pm_blocks = [], pm_freeBlocks = free, pm_nFreeBlocks = pc_totalPhysicalBlocks c,
        pm_lastFreeBlock = replicate (pc_pageCountToMaxPerf c) 0, pm_lastFreeBlockIOMap = bs_new (pc_ioUnitInPage c),
        pm_lastFreeBlockIndex = 0, pm_bReclaimMore = False, pm_currentIndex = 0, pm_currentPageInBlock = 0,
        pm_cmt = [], pm_shadow = [], pm_evictedCmt = (\<lambda>_. None), pm_erased = [], pm_movePagesToCache = [],
        pm_putPagesInCache = False, pm_iclCount = 0, pm_optMap = (\<lambda>_. None), pm_reuseMap = (\<lambda>_. None),
        pm_evictionFrequency = (\<lambda>_. None), pm_lastUse = (\<lambda>_. None), pm_clusters = (\<lambda>_. 0), pm_selections = 0,
        pm_gcCount = 0, pm_reclaimedBlocks = 0, pm_validSuperPageCopies = 0, pm_validPageCopies = 0,
        pm_inconsistent = 0, pm_pal = p, pm_log = []\<rparr>"
    using free len conf_one_D[OF c]
    by (auto simp: pm_inv_def pm_wf_def mapped_def pm_data_def flag_ok_def cmt_ok_def split: prod.splits)
  ultimately show ?thesis by (simp add: PageMapping_new_def free(1))
qed

lemma initialize_ok:
  assumes inv: "pm_inv c s" and c: "conf_gc c" and off: "\<not> pc_enableCMT c"
  shows "run (insert (Panic ''ftl: GC triggered while in initialization'') ftl_faults)
    (\<lambda>(s', d'). pm_inv c s' \<and> d' = d \<and> dom (map_of (pm_table s')) = dom (map_of (pm_table s)) \<union> set pages)
    (initialize cb c pl pages (s, d))"
proof -
  let ?F = "insert (Panic ''ftl: GC triggered while in initialization'') ftl_faults"
  have one: "conf_one c" using c by (simp add: conf_gc_def)
  obtain io where io: "bs_set_all (bs_new (pc_ioUnitInPage c)) = Inr io" "flag_on io"
    using bs_set_all_ok[of "bs_new 1"] conf_one_D(1)[OF one] by (auto simp: flag_on_def flag_ok_def)
  let ?I = "\<lambda>ls (s', d'). pm_inv c s' \<and> d' = d \<and> dom (map_of (pm_table s')) = dom (map_of (pm_table s)) \<union> set ls"
  have fill: "run ?F (?I pages) (rfold (\<lambda>lpn sd. rbind (writeInternal cb c pl \<lparr>fr_lpn = lpn, fr_ioFlag = io\<rparr> 0 False sd) (\<lambda>(tick, sd). Inr sd)) pages (s, d))"
  proof (rule run_rfold_index[where I = ?I])
    fix ls l zs and sd :: "'a pmap \<times> 'b" assume sd: "?I ls sd"
    obtain s1 where s1: "sd = (s1, d)" "pm_inv c s1" "dom (map_of (pm_table s1)) = dom (map_of (pm_table s)) \<union> set ls"
      using sd by (cases sd) auto
    have "flag_on (fr_ioFlag \<lparr>fr_lpn = l, fr_ioFlag = io\<rparr>)" using io(2) by simp
    from writeInternal_ok[OF s1(2) c this, unfolded unhit_def, of False d cb pl 0]
    show "run ?F (?I (ls @ [l])) (rbind (writeInternal cb c pl \<lparr>fr_lpn = l, fr_ioFlag = io\<rparr> 0 False sd) (\<lambda>(tick, sd). Inr sd))"
      using s1(3) off by (auto simp: s1(1) dest!: ftl_written_dom elim!: run_mono)
  qed (use inv in auto)
  have "\<exists>t. calculateTotalPages s' = Inr t" if "pm_inv c s'" for s' :: "'a pmap"
  proof -
    have ok: "block_ok c b blk" if "(b, blk) \<in> set (pm_blocks s')" for b blk
      using that pm_wf_D(1,3)[of c s'] \<open>pm_inv c s'\<close> by (auto simp: pm_inv_def)
    have "\<exists>t. rfold (\<lambda>(b, blk) (valid, invalid). rbind (blk_getValidPageCount blk) (\<lambda>v.
         rbind (blk_getDirtyPageCount blk) (\<lambda>i. Inr (valid + v, invalid + i)))) (pm_blocks s') (0, 0) = Inr t \<and> True"
      by (rule rfold_ok) (auto dest!: ok block_ok_D(2) simp: blk_valid_count_ok blk_dirty_count_ok)
    then show ?thesis by (simp add: calculateTotalPages_def)
  qed
  then show ?thesis
    unfolding initialize_def io(1) rbind_Inr
    by (intro run_bindI[OF fill]) fastforce
qed

end
