(* ===== verification/Ftl_Props.thy ===== *)
theory Ftl_Props
  imports Ftl_Ops "HOL-Library.Code_Target_Nat"
begin

text \<open>
  The properties of the flash translation layer, and their instances at a flash of four blocks of two
  pages (\<^verbatim>\<open>small_conf\<close>) whose calls take no time.
\<close>

section \<open>Sequences of operations\<close>

datatype ftl_op = FtlRead ftl_request nat | FtlWrite ftl_request nat | FtlTrim ftl_request nat | FtlDecache nat

fun ftl_step ::
  "pmconf \<Rightarrow> 'p pal \<Rightarrow> (nat \<Rightarrow> nat \<Rightarrow> 'd \<Rightarrow> (nat \<times> 'd) res) \<Rightarrow> ftl_op \<Rightarrow> 'p pmap \<times> 'd \<Rightarrow> ('p pmap \<times> 'd) res"
where
  "ftl_step c pl cb (FtlRead req t) (s, d) = rbind (ftl_read c pl req t s) (\<lambda>(t, s). Inr (s, d))"
| "ftl_step c pl cb (FtlWrite req t) (s, d) = rbind (ftl_write c pl cb req t (s, d)) (\<lambda>(t, sd). Inr sd)"
| "ftl_step c pl cb (FtlTrim req t) (s, d) = rbind (ftl_trim c pl req t s) (\<lambda>(t, s). Inr (s, d))"
| "ftl_step c pl cb (FtlDecache l) (s, d) = rbind (DecachePage c l s) (\<lambda>s. Inr (s, d))"

text \<open>From a new mapping on.\<close>

definition ftl_session ::
  "pmconf \<Rightarrow> 'p pal \<Rightarrow> (nat \<Rightarrow> nat \<Rightarrow> 'd \<Rightarrow> (nat \<times> 'd) res) \<Rightarrow> ftl_op list \<Rightarrow> 'p \<times> 'd \<Rightarrow> ('p pmap \<times> 'd) res"
where
  "ftl_session c pl cb ops = (\<lambda>(p, d). rbind (PageMapping_new c p) (\<lambda>s. rfold (ftl_step c pl cb) ops (s, d)))"

fun ftl_op_ok :: "ftl_op \<Rightarrow> bool" where
  "ftl_op_ok (FtlRead req t) = flag_ok (fr_ioFlag req)"
| "ftl_op_ok (FtlWrite req t) = flag_ok (fr_ioFlag req)"
| "ftl_op_ok (FtlTrim req t) = flag_ok (fr_ioFlag req)"
| "ftl_op_ok (FtlDecache l) = True"

text \<open>The logical pages that have been written and not been trimmed since.\<close>

fun live_after :: "ftl_op \<Rightarrow> nat set \<Rightarrow> nat set" where
  "live_after (FtlRead req t) L = L"
| "live_after (FtlWrite req t) L = (if flag_on (fr_ioFlag req) then insert (fr_lpn req) L else L)"
| "live_after (FtlTrim req t) L = L - {fr_lpn req}"
| "live_after (FtlDecache l) L = L"

text \<open>
  With the cached mapping table on, a write of a page whose entry is cached goes past the table
  (\<^verbatim>\<open>cached_write_misses_table\<close> of \<^verbatim>\<open>Ftl_Victims\<close>), and a trim leaves the cached entry where it is. An
  operation agrees with the cached table when it is not such a write, nor a read of a page that has a
  cached entry left but no mapping.
\<close>

fun cmt_agrees :: "pmconf \<Rightarrow> ftl_op \<Rightarrow> 'p pmap \<Rightarrow> bool" where
  "cmt_agrees c (FtlRead req t) s = (bs_count (fr_ioFlag req) = Inr 0
     \<or> map_of (pm_table s) (fr_lpn req) \<noteq> None \<or> map_of (pm_cmt s) (fr_lpn req) = None)"
| "cmt_agrees c (FtlWrite req t) s = (bs_count (fr_ioFlag req) = Inr 0 \<or> map_of (pm_cmt s) (fr_lpn req) = None)"
| "cmt_agrees c (FtlTrim req t) s = True"
| "cmt_agrees c (FtlDecache l) s = True"

fun steps_agree ::
  "pmconf \<Rightarrow> 'p pal \<Rightarrow> (nat \<Rightarrow> nat \<Rightarrow> 'd \<Rightarrow> (nat \<times> 'd) res) \<Rightarrow> ftl_op list \<Rightarrow> 'p pmap \<times> 'd \<Rightarrow> bool"
where
  "steps_agree c pl cb [] sd \<longleftrightarrow> True"
| "steps_agree c pl cb (op # ops) sd \<longleftrightarrow> cmt_agrees c op (fst sd)
     \<and> (case ftl_step c pl cb op sd of Inl e \<Rightarrow> True | Inr sd \<Rightarrow> steps_agree c pl cb ops sd)"

definition session_agrees ::
  "pmconf \<Rightarrow> 'p pal \<Rightarrow> (nat \<Rightarrow> nat \<Rightarrow> 'd \<Rightarrow> (nat \<times> 'd) res) \<Rightarrow> ftl_op list \<Rightarrow> 'p \<times> 'd \<Rightarrow> bool"
where
  "session_agrees c pl cb ops = (\<lambda>(p, d).
     case PageMapping_new c p of Inl e \<Rightarrow> True | Inr s \<Rightarrow> steps_agree c pl cb ops (s, d))"

lemma empty_request:
  assumes "flag_ok io" "\<not> flag_on io"
  shows "bs_count io = Inr 0"
  using flag_count[OF assms(1)] assms(2) by auto

lemma ftl_step_ok:
  assumes inv: "pm_inv c s" and c: "conf_gc c" and op: "ftl_op_ok op" and L: "dom (map_of (pm_table s)) = L"
    and agrees: "pc_enableCMT c \<longrightarrow> cmt_agrees c op s"
  shows "run ftl_faults (\<lambda>(s', d'). pm_inv c s' \<and> d' = d \<and> dom (map_of (pm_table s')) = live_after op L)
    (ftl_step c pl cb op (s, d))"
proof -
  have one: "conf_one c" using c by (simp add: conf_gc_def)
  show ?thesis
  proof (cases op)
    case (FtlRead req t)
    show ?thesis
    proof (cases "flag_on (fr_ioFlag req)")
      case True
      have "map_of (pm_table s) (fr_lpn req) = None \<Longrightarrow> unhit c (fr_lpn req) s"
        using agrees flag_on_facts(4)[OF True] by (simp add: FtlRead unhit_def)
      with ftl_read_ok[OF inv one True, of pl t] L show ?thesis by (auto simp: FtlRead ftl_has_read_def)
    next
      case False
      with empty_request[of "fr_ioFlag req"] op L inv show ?thesis by (simp add: FtlRead ftl_read_def pm_read_def)
    qed
  next
    case (FtlWrite req t)
    show ?thesis
    proof (cases "flag_on (fr_ioFlag req)")
      case True
      have "unhit c (fr_lpn req) s" using agrees flag_on_facts(4)[OF True] by (simp add: FtlWrite unhit_def)
      with True show ?thesis using ftl_write_ok[OF inv c True, of d pl cb t] L
        by (auto simp: FtlWrite dest!: ftl_written_dom elim!: run_mono)
    next
      case False
      with empty_request[of "fr_ioFlag req"] op L inv show ?thesis by (simp add: FtlWrite ftl_write_def pm_write_def)
    qed
  next
    case (FtlTrim req t)
    with ftl_trim_ok[OF inv one, of req pl t] op L show ?thesis by (auto simp: FtlTrim)
  next
    case (FtlDecache l)
    with undoCached_ok[OF inv one, of l] L show ?thesis by (auto simp: FtlDecache DecachePage_def)
  qed
qed

definition live :: "ftl_op list \<Rightarrow> nat set" where
  "live ops = fold live_after ops {}"

lemma ftl_session_ok:
  assumes c: "conf_gc c" and ops: "list_all ftl_op_ok ops" and agrees: "pc_enableCMT c \<longrightarrow> session_agrees c pl cb ops (p, d)"
  shows "run ftl_faults (\<lambda>(s, d'). pm_inv c s \<and> d' = d \<and> dom (map_of (pm_table s)) = live ops) (ftl_session c pl cb ops (p, d))"
proof -
  have one: "conf_one c" using c by (simp add: conf_gc_def)
  let ?I = "\<lambda>ops (s, d'). pm_inv c s \<and> d' = d \<and> dom (map_of (pm_table s)) = live ops"
  have "run ftl_faults (?I ops) (rfold (ftl_step c pl cb) ops (s0, d))"
    if s0: "pm_inv c s0" "pm_table s0 = []" and new: "pc_enableCMT c \<longrightarrow> steps_agree c pl cb ops (s0, d)" for s0
  proof -
    let ?J = "\<lambda>ys sd. ?I ys sd \<and> (pc_enableCMT c \<longrightarrow> steps_agree c pl cb (drop (length ys) ops) sd)"
    have "run ftl_faults (?J ops) (rfold (ftl_step c pl cb) ops (s0, d))"
    proof (rule run_rfold_index[where I = ?J])
      fix ys op zs and sd :: "'a pmap \<times> 'b" assume xs: "ops = ys @ op # zs" and sd: "?J ys sd"
      obtain s where s: "sd = (s, d)" "pm_inv c s" "dom (map_of (pm_table s)) = live ys"
        "pc_enableCMT c \<longrightarrow> steps_agree c pl cb (op # zs) (s, d)"
        using sd xs by (cases sd) auto
      have "ftl_op_ok op" "pc_enableCMT c \<longrightarrow> cmt_agrees c op s" using ops xs s(4) by simp_all
      from ftl_step_ok[OF s(2) c this(1) s(3) this(2), of d pl cb] s(4)
      show "run ftl_faults (?J (ys @ [op])) (ftl_step c pl cb op sd)"
        by (cases "ftl_step c pl cb op sd") (auto simp: s(1) live_def xs)
    qed (use s0 new in \<open>simp add: live_def\<close>)
    then show ?thesis by (rule run_mono) simp
  qed
  with PageMapping_new_ok[OF one, of p] agrees show ?thesis
    by (cases "PageMapping_new c p") (auto simp: ftl_session_def session_agrees_def)
qed

section \<open>An instance\<close>

definition instant_pal :: "unit pal" where
  "instant_pal = \<lparr>pl_read = (\<lambda>b p io t x. (t, x)), pl_write = (\<lambda>b p io t x. (t, x)), pl_erase = (\<lambda>b t x. (t, x)),
     pl_dram_read = (\<lambda>n t x. (t, x)), pl_dram_write = (\<lambda>n t x. (t, x)), pl_setScheduling = (\<lambda>b x. x)\<rparr>"

definition small_conf :: pmconf where
  "small_conf = \<lparr>pc_totalPhysicalBlocks = 4, pc_totalLogicalBlocks = 2, pc_pagesInBlock = 2, pc_ioUnitInPage = 1,
    pc_pageCountToMaxPerf = 1, pc_bRandomTweak = True, pc_bitsetSize = 1, pc_mode = GC_MODE_0, pc_policy = POLICY_GREEDY,
    pc_dChoiceParam = 3, pc_reclaimBlock = 1, pc_reclaimCount = (\<lambda>n. 1), pc_belowThreshold = (\<lambda>n. n < 2),
    pc_badBlockThreshold = 10, pc_costBenefit = (\<lambda>v t l. v), pc_draws = (\<lambda>n. []), pc_place = (\<lambda>k ks. 0),
    pc_enableCMT = False, pc_cmtSize = 8, pc_shadowSize = 0, pc_predictorThreshold = 2,
    pc_useDeadOnArrivalPredictor = False, pc_optimalreplacementPolicy = False, pc_pageAwareofCache = True,
    pc_blockToBlockMovement = True, pc_SimlationIORequests = 50, pc_garbage = 0, pc_latency = (\<lambda>f. 0)\<rparr>"

definition no_callback :: "nat \<Rightarrow> nat \<Rightarrow> unit \<Rightarrow> (nat \<times> unit) res" where
  "no_callback l t d = Inr (t, d)"

definition unit_flag :: bitset where
  "unit_flag = \<lparr>bs_data = [1], bs_dataSize = 1, bs_allocSize = 1\<rparr>"

definition write_of_page :: "nat \<Rightarrow> ftl_op" where
  "write_of_page l = FtlWrite \<lparr>fr_lpn = l, fr_ioFlag = unit_flag\<rparr> 0"

lemma small_conf_gc: "conf_gc small_conf"
  by (simp add: conf_gc_def conf_one_def conf_dims_def small_conf_def)

lemma unit_flag_on: "flag_on unit_flag"
  by (simp add: flag_on_def flag_ok_def unit_flag_def bs_wf_def bs_elems_def bs_bit_def DIVCEIL_def bit_1_iff)

text \<open>
  The same flash with a cached mapping table of one entry, in which five writes of the pages 1 and 2
  always miss, and start a collection.
\<close>

definition cached_conf :: pmconf where
  "cached_conf = small_conf\<lparr>pc_enableCMT := True, pc_cmtSize := 1\<rparr>"

definition five_writes :: "ftl_op list" where
  "five_writes = map write_of_page [1, 2, 1, 2, 1]"

lemma cached_conf_gc: "conf_gc cached_conf"
  by (simp add: cached_conf_def conf_gc_def conf_one_def conf_dims_def small_conf_def)

lemma five_writes_ok: "list_all ftl_op_ok five_writes"
  using flag_on_facts(3)[OF unit_flag_on] by (simp add: five_writes_def write_of_page_def)

lemma five_writes_agree: "session_agrees cached_conf instant_pal no_callback five_writes ((), ())"
  by code_simp

lemma five_writes_run:
  "\<exists>s. ftl_session cached_conf instant_pal no_callback five_writes ((), ()) = Inr (s, ())
     \<and> pm_table s = [(2, [(1, 1)]), (1, [(2, 0)])] \<and> map fst (pm_cmt s) = [1] \<and> pm_erased s = [0] \<and> pm_gcCount s = 1"
proof -
  have "(case ftl_session cached_conf instant_pal no_callback five_writes ((), ()) of Inl e \<Rightarrow> False
    | Inr (s, d) \<Rightarrow> pm_table s = [(2, [(1, 1)]), (1, [(2, 0)])] \<and> map fst (pm_cmt s) = [1] \<and> pm_erased s = [0]
        \<and> pm_gcCount s = 1)"
    by code_simp
  then show ?thesis by (auto split: sum.splits)
qed


section \<open>The mapping\<close>






text \<open>C26: Under the conditions of C24, in every state that is reached a read succeeds and changes
  no mapping. For a mapped page, whether or not the cached mapping table has its entry, it sends the
  flash exactly one read, of the valid page that holds the logical page, unless the block of that page
  is on the list of erased blocks: then nothing is read and the request is counted as inconsistent. For
  a page that is not mapped, and of which the cached table holds no entry that a trim left behind, it
  sends nothing.\<close>

theorem read_reads_mapped_page:
  assumes "conf_gc c" "list_all ftl_op_ok ops" "ftl_session c pl cb ops (p, d) = Inr (s, d')" "flag_on (fr_ioFlag req)"
    and "pc_enableCMT c \<longrightarrow> session_agrees c pl cb ops (p, d) \<and> cmt_agrees c (FtlRead req tick) s"
  shows "\<exists>t s2. ftl_read c pl req tick s = Inr (t, s2) \<and> pm_table s2 = pm_table s \<and> pm_data s2 = pm_data s
     \<and> (case map_of (pm_table s) (fr_lpn req) of
          None \<Rightarrow> fr_lpn req \<notin> live ops \<and> pm_log s2 = pm_log s
        | Some ms \<Rightarrow> fr_lpn req \<in> live ops \<and> pm_data s (hd ms) = Some (fr_lpn req)
            \<and> (if fst (hd ms) \<in> set (pm_erased s)
               then pm_log s2 = pm_log s \<and> pm_inconsistent s2 = pm_inconsistent s + 1
               else \<exists>io. pm_log s2 = pm_log s @ [PalRead (fst (hd ms)) (snd (hd ms)) io]))"
proof -
  have inv: "pm_inv c s" and L: "dom (map_of (pm_table s)) = live ops"
    using ftl_session_ok[OF assms(1,2), of pl cb p d] assms(3,5) by simp_all
  have one: "conf_one c" using assms(1) by (simp add: conf_gc_def)
  obtain t s2 where r: "ftl_read c pl req tick s = Inr (t, s2)" "ftl_has_read (fr_lpn req) s s2"
    using ftl_read_ok[OF inv one assms(4), of pl tick] assms(5) flag_on_facts(4)[OF assms(4)] by (auto simp: unhit_def)
  show ?thesis
  proof (cases "map_of (pm_table s) (fr_lpn req)")
    case None
    with r L show ?thesis by (auto simp: ftl_has_read_def)
  next
    case (Some ms)
    then have "ms = [ms ! 0]" "pm_data s (ms ! 0) = Some (fr_lpn req)"
      using mapped_D(2)[of "{}" s _ ms] inv by (auto simp: pm_inv_def)
    moreover from this(1) have "hd ms = ms ! 0" by (metis list.sel(1))
    ultimately show ?thesis using r Some L by (auto simp: ftl_has_read_def)
  qed
qed

theorem read_reads_mapped_page_witness:
  "\<exists>s t s2 io t3 s3 io'. ftl_session cached_conf instant_pal no_callback five_writes ((), ()) = Inr (s, ())
     \<and> ftl_read cached_conf instant_pal \<lparr>fr_lpn = 1, fr_ioFlag = unit_flag\<rparr> 3 s = Inr (t, s2)
     \<and> pm_log s2 = pm_log s @ [PalRead 2 0 io]
     \<and> ftl_read cached_conf instant_pal \<lparr>fr_lpn = 2, fr_ioFlag = unit_flag\<rparr> 3 s = Inr (t3, s3)
     \<and> pm_log s3 = pm_log s @ [PalRead 1 1 io']"
proof -
  obtain s where s: "ftl_session cached_conf instant_pal no_callback five_writes ((), ()) = Inr (s, ())"
    "pm_table s = [(2, [(1, 1)]), (1, [(2, 0)])]" "pm_erased s = [0]"
    using five_writes_run by blast
  have "\<exists>t s2 io. ftl_read cached_conf instant_pal \<lparr>fr_lpn = l, fr_ioFlag = unit_flag\<rparr> 3 s = Inr (t, s2)
     \<and> pm_log s2 = pm_log s @ [PalRead b p io]" if l: "map_of (pm_table s) l = Some [(b, p)]" and b: "b \<notin> {0}" for l b p
    using read_reads_mapped_page[OF cached_conf_gc five_writes_ok s(1), of "\<lparr>fr_lpn = l, fr_ioFlag = unit_flag\<rparr>" 3]
      unit_flag_on five_writes_agree l b s(3) by auto
  from this[of 1 2 0] this[of 2 1 1] s show ?thesis by simp
qed

end
