(* ===== verification/Ftl_Victims.thy ===== *)
theory Ftl_Victims
  imports Ftl_Props
begin

text \<open>
  What the collection chooses, and three behaviours of the page mapping that lose pages or blocks: a
  write that hits the cached mapping table, a block that is given up, and the format.
\<close>

section \<open>The choice of the victims\<close>



text \<open>The vector stays sorted, and every choice after the first is the same.\<close>

definition by_weight :: "(nat \<times> nat \<times> nat) list \<Rightarrow> (nat \<times> nat \<times> nat) list" where
  "by_weight cw = sort_key (\<lambda>(b, n, v). (v, - int n)) cw"

lemma by_weight_set [simp]: "set (by_weight cw) = set cw"
  by (simp add: by_weight_def)

lemma by_weight_empty [simp]: "by_weight cw = [] \<longleftrightarrow> cw = []"
  using by_weight_set[of cw] by (metis empty_set set_empty)







definition two_victims :: pmconf where
  "two_victims = small_conf\<lparr>pc_reclaimBlock := 2\<rparr>"

definition four_writes :: "ftl_op list" where
  "four_writes = map write_of_page [0, 1, 0, 1]"


lemma four_writes_select:
  "(case ftl_session small_conf instant_pal no_callback four_writes ((), ()) of Inl e \<Rightarrow> False
    | Inr (s, d) \<Rightarrow> (case selectVictimBlock two_victims 5 s of Inl e \<Rightarrow> False | Inr (vs, t, s) \<Rightarrow> vs = [0, 0]))"
  by code_simp

definition stopped :: "'a res \<Rightarrow> fault option" where
  "stopped r = (case r of Inl e \<Rightarrow> Some e | Inr x \<Rightarrow> None)"

text \<open>A collection of such a list does not come back: the block is erased twice.\<close>

lemma repeated_victim_stops:
  "stopped (ftl_session two_victims instant_pal no_callback (map write_of_page [0, 1, 0, 1, 0]) ((), ())) = Some (Panic ''No such block'')"
  by code_simp


section \<open>A write that hits the cached table\<close>

text \<open>What the table holds of the pages other than \<^verbatim>\<open>k\<close> is kept.\<close>

definition table_but :: "nat \<Rightarrow> 'p pmap \<Rightarrow> 'p pmap \<Rightarrow> bool" where
  "table_but k s s' \<longleftrightarrow> (\<forall>j. j \<noteq> k \<longrightarrow> map_of (pm_table s') j = map_of (pm_table s) j)"

lemma table_with_block: "run UNIV (\<lambda>s'. pm_table s' = pm_table s) (with_block b f s)"
  by (auto simp: with_block_def run_partial split: option.splits)

lemma table_invalidate_units: "run UNIV (\<lambda>s'. pm_table s' = pm_table s) (invalidate_units c req mapping s)"
  unfolding invalidate_units_def
proof (rule run_rfold)
  fix idx and s' :: "'a pmap" assume s': "pm_table s' = pm_table s"
  have "run UNIV (\<lambda>s'. pm_table s' = pm_table s) (invalidate_at c m idx s')" for m
    using s' table_with_block[of s' "fst m"] by (auto simp: invalidate_at_def elim!: run_mono)
  with s' show "run UNIV (\<lambda>s'. pm_table s' = pm_table s)
      (rbind (bs_test (fr_ioFlag req) idx) (\<lambda>on. if on \<or> \<not> pc_bRandomTweak c
         then rbind (mapping idx) (\<lambda>m. invalidate_at c m idx s') else Inr s'))"
    by (simp add: run_partial)
qed simp

lemma table_renew_free: "run UNIV (\<lambda>s'. pm_table s' = pm_table s) (renew_free c i s)"
  by (simp add: renew_free_def getFreeBlock_def run_partial Let_def split_beta)

lemma table_getLastFreeBlock: "run UNIV (\<lambda>(b, s'). pm_table s' = pm_table s) (getLastFreeBlock c io s)"
proof -
  have renew: "renew_free c i s1 = Inr s2 \<Longrightarrow> pm_table s2 = pm_table s1" for i and s1 s2 :: "'a pmap"
    using table_renew_free[of s1 c i] by (simp add: run_partial)
  have "run UNIV (\<lambda>(b, s'). pm_table s' = pm_table s1) (usable_free c i s1)" for i and s1 :: "'a pmap"
    by (auto simp: usable_free_def run_partial dest!: renew split: option.splits if_splits)
  then show ?thesis
    by (auto simp: getLastFreeBlock_def run_partial Let_def split: if_splits)
qed

lemma table_cmt_store: "pm_table (snd (cmt_store c lpn m t fl s)) = pm_table s"
  by (auto simp: cmt_store_def shadow_put_def EvictFromShadowCache_def cmt_make_room_def optimalRepalcementPolicy_def
      evictEntryFromCMT_def cmt_update_def Let_def split: prod.splits)

lemma table_write_unit:
  "run UNIV (\<lambda>(fl, t, s'). table_but k s s') (write_unit c pl req tick send (Some k) b rbw idx (fl, t, s))"
proof -
  have block: "with_block b f s = Inr s' \<Longrightarrow> pm_table s' = pm_table s" for f s'
    using table_with_block[of s b f] by (simp add: run_partial)
  show ?thesis
    by (auto simp: write_unit_def pal_read_def pal_write_def run_partial table_but_def split_beta Let_def table_cmt_store
        dest!: block split: if_splits)
qed

lemma table_but_trans: "table_but k s s' \<Longrightarrow> table_but k s' s2 \<Longrightarrow> table_but k s s2"
  by (simp add: table_but_def)

lemma table_write_to_block: "run UNIV (\<lambda>(t, s'). table_but k s s') (write_to_block c pl req tick send (Some k) hit b s)"
proof -
  have loop: "run UNIV (\<lambda>(fl, t, s'). table_but k s1 s')
      (rfold (write_unit c pl req tk send (Some k) b rbw) xs (fl, t, s1))" for tk rbw xs fl t and s1 :: "'a pmap"
  proof (rule run_rfold)
    fix idx and z :: "(bool \<times> bool) \<times> nat \<times> 'a pmap"
    assume z: "case z of (fl, t, s') \<Rightarrow> table_but k s1 s'"
    obtain f u s2 where s2: "z = (f, u, s2)" by (cases z)
    have "table_but k s1 s2" using z by (simp add: s2)
    with table_write_unit[of k s2 c pl req tk send b rbw idx f u]
    show "run UNIV (\<lambda>(fl, t, s'). table_but k s1 s') (write_unit c pl req tk send (Some k) b rbw idx z)"
      unfolding s2 by (auto elim!: run_mono intro: table_but_trans)
  qed (simp add: table_but_def)
  have dram: "pm_table (snd (pm_dram_read pl n t s1)) = pm_table s1" "pm_table (snd (pm_dram_write pl n t s1)) = pm_table s1"
    for n t and s1 :: "'a pmap"
    by (simp_all add: pm_dram_read_def pm_dram_write_def split_beta)
  have tb: "table_but k s1 s2 = table_but k s s2" if "pm_table s1 = pm_table s" for s1 s2 :: "'a pmap"
    using that by (simp add: table_but_def)
  have body: "run UNIV (\<lambda>(t, s'). table_but k s s')
      (rbind (bs_all (fr_ioFlag req)) (\<lambda>full.
        rbind (rfold (write_unit c pl req tk send (Some k) b (\<not> pc_bRandomTweak c \<and> \<not> full)) xs (fl, t, s1))
          (\<lambda>(fl, finishedAt, s).  Inr (f finishedAt, s))))"
    if "pm_table s1 = pm_table s" for tk xs fl t f and s1 :: "'a pmap"
    using loop[of s1 tk] by (simp add: run_partial split_beta tb[OF that])
  show ?thesis
    using body[of s tick] body[of "snd (pm_dram_write pl n u (snd (pm_dram_read pl n tick s)))" for n u]
    by (simp add: write_to_block_def run_partial split_beta Let_def dram)
qed

text \<open>And with one I/O unit per page, the first place of the entry of \<^verbatim>\<open>k\<close> becomes the page that the flash
  is told to program.\<close>

definition entry_moved :: "nat \<Rightarrow> bool \<Rightarrow> 'p pmap \<Rightarrow> 'p pmap \<Rightarrow> bool" where
  "entry_moved k send s s' \<longleftrightarrow> (\<exists>ms b p. map_of (pm_table s) k = Some ms \<and> map_of (pm_table s') k = Some (ms[0 := (b, p)])
     \<and> (send \<longrightarrow> (\<exists>io. last (pm_log s') = PalWrite b p io)))"

lemma entry_moved_unit:
  assumes "bs_test (fr_ioFlag req) 0 = Inr True"
  shows "run UNIV (\<lambda>(fl, t, s'). entry_moved k send s s') (write_unit c pl req tick send (Some k) b rbw 0 (fl, t, s))"
proof -
  have block: "with_block b f s = Inr s' \<Longrightarrow> pm_table s' = pm_table s" for f s'
    using table_with_block[of s b f] by (simp add: run_partial)
  show ?thesis
    using assms
    by (auto simp: write_unit_def pal_read_def pal_write_def run_partial entry_moved_def split_beta Let_def table_cmt_store
        dest!: block split: if_splits) blast+
qed

lemma entry_moved_block:
  assumes "bs_test (fr_ioFlag req) 0 = Inr True" "pc_bitsetSize c = 1"
  shows "run UNIV (\<lambda>(t, s'). entry_moved k send s s') (write_to_block c pl req tick send (Some k) hit b s)"
proof -
  have e: "entry_moved k send s1 s2 = entry_moved k send s s2" if "pm_table s1 = pm_table s" for s1 s2 :: "'a pmap"
    using that by (simp add: entry_moved_def)
  have dram: "pm_table (snd (pm_dram_read pl n t s1)) = pm_table s1" "pm_table (snd (pm_dram_write pl n t s1)) = pm_table s1"
    for n t and s1 :: "'a pmap"
    by (simp_all add: pm_dram_read_def pm_dram_write_def split_beta)
  have body: "run UNIV (\<lambda>(t, s'). entry_moved k send s s')
      (rbind (bs_all (fr_ioFlag req)) (\<lambda>full.
        rbind (rfold (write_unit c pl req tk send (Some k) b (\<not> pc_bRandomTweak c \<and> \<not> full)) [0] (fl, t, s1))
          (\<lambda>(fl, finishedAt, s).  Inr (f finishedAt, s))))"
    if "pm_table s1 = pm_table s" for tk fl t f and s1 :: "'a pmap"
    using entry_moved_unit[OF assms(1), of k send s1 c pl tk b _ fl t] by (simp add: run_partial split_beta e[OF that])
  have one: "[0..<pc_bitsetSize c] = [0]" by (simp add: assms(2))
  show ?thesis
    using body[of s tick] body[of "snd (pm_dram_write pl n u (snd (pm_dram_read pl n tick s)))" for n u]
    unfolding write_to_block_def one by (cases send) (simp_all add: run_partial split_beta Let_def dram)
qed

text \<open>C28: A write of a page whose entry is in the cached mapping table (the cached table is on unless it is
  configured off) gives the new place, which the flash is told to program, to the entry of the page that
  comes first in the mapping table, here with one I/O unit per page: every other entry of the mapping
  table, the one of the written page included, stays as it was.\<close>

theorem cached_write_misses_table:
  assumes "pc_enableCMT c" "map_of (pm_cmt s) (fr_lpn req) \<noteq> None" "table_begin s = Some k" "k \<noteq> fr_lpn req"
    "write_pages c pl req tick sendToPAL s = Inr (t, s')" "pc_bitsetSize c = 1" "bs_test (fr_ioFlag req) 0 = Inr True"
  shows "map_of (pm_table s') (fr_lpn req) = map_of (pm_table s) (fr_lpn req)
     \<and> (\<forall>l. l \<noteq> k \<longrightarrow> map_of (pm_table s') l = map_of (pm_table s) l)
     \<and> (\<exists>ms b p. map_of (pm_table s) k = Some ms \<and> map_of (pm_table s') k = Some (ms[0 := (b, p)])
          \<and> (sendToPAL \<longrightarrow> (\<exists>io. last (pm_log s') = PalWrite b p io)))"
proof -
  obtain e where e: "map_of (pm_cmt s) (fr_lpn req) = Some e" using assms(2) by auto
  have old: "run UNIV (\<lambda>(key, hit, s1). key = Some k \<and> pm_table s1 = pm_table s) (invalidate_old c req tick sendToPAL s)"
    using e assms(1,3)
    by (auto simp: invalidate_old_def Let_def table_begin_def
        intro!: run_mono[OF table_invalidate_units])
  have "run UNIV (\<lambda>(t, s'). table_but k s s' \<and> entry_moved k sendToPAL s s') (write_pages c pl req tick sendToPAL s)"
    unfolding write_pages_def
  proof (rule run_bindI[OF old], unfold split_paired_all prod.case, elim conjE)
    fix key hit and s1 :: "'a pmap" assume key: "key = Some k" and s1: "pm_table s1 = pm_table s"
    show "run UNIV (\<lambda>(t, s'). table_but k s s' \<and> entry_moved k sendToPAL s s') (rbind (getLastFreeBlock c (fr_ioFlag req) s1)
       (\<lambda>(b, s). write_to_block c pl req tick sendToPAL key hit b s))"
    proof (rule run_bindI[OF table_getLastFreeBlock], unfold split_paired_all prod.case)
      fix b and s2 :: "'a pmap" assume "pm_table s2 = pm_table s1"
      with s1 table_write_to_block[of k s2 c pl req tick sendToPAL hit b]
        entry_moved_block[OF assms(7,6), of k sendToPAL s2 pl tick hit b]
      show "run UNIV (\<lambda>(t, s'). table_but k s s' \<and> entry_moved k sendToPAL s s') (write_to_block c pl req tick sendToPAL key hit b s2)"
        unfolding key run_partial by (auto simp: table_but_def entry_moved_def)
    qed
  qed
  with assms(4,5) show ?thesis by (simp add: table_but_def entry_moved_def)
qed

definition cmt_conf :: pmconf where
  "cmt_conf = small_conf\<lparr>pc_enableCMT := True\<rparr>"

lemma cmt_run:
  "(case ftl_session cmt_conf instant_pal no_callback (map write_of_page [0, 1]) ((), ()) of Inl e \<Rightarrow> False
    | Inr (s, d) \<Rightarrow> map_of (pm_cmt s) 0 \<noteq> None \<and> table_begin s = Some 1 \<and> map_of (pm_table s) 0 = Some [(0, 0)]
       \<and> (case write_pages cmt_conf instant_pal \<lparr>fr_lpn = 0, fr_ioFlag = unit_flag\<rparr> 3 True s of Inl e \<Rightarrow> False
          | Inr (t, s') \<Rightarrow> pm_log s' = pm_log s @ [PalWrite 1 0 unit_flag] \<and> map_of (pm_table s') 1 = Some [(1, 0)]))"
  by code_simp

theorem cached_write_misses_table_witness:
  "\<exists>s t s'. ftl_session cmt_conf instant_pal no_callback (map write_of_page [0, 1]) ((), ()) = Inr (s, ())
     \<and> write_pages cmt_conf instant_pal \<lparr>fr_lpn = 0, fr_ioFlag = unit_flag\<rparr> 3 True s = Inr (t, s')
     \<and> pm_log s' = pm_log s @ [PalWrite 1 0 unit_flag]
     \<and> map_of (pm_table s') 0 = Some [(0, 0)] \<and> map_of (pm_table s') 1 = Some [(1, 0)]"
proof -
  obtain s where s: "ftl_session cmt_conf instant_pal no_callback (map write_of_page [0, 1]) ((), ()) = Inr (s, ())"
    "map_of (pm_cmt s) 0 \<noteq> None" "table_begin s = Some 1" "map_of (pm_table s) 0 = Some [(0, 0)]"
    "case write_pages cmt_conf instant_pal \<lparr>fr_lpn = 0, fr_ioFlag = unit_flag\<rparr> 3 True s of Inl e \<Rightarrow> False
          | Inr (t, s') \<Rightarrow> pm_log s' = pm_log s @ [PalWrite 1 0 unit_flag] \<and> map_of (pm_table s') 1 = Some [(1, 0)]"
    using cmt_run by (auto split: sum.splits)
  then obtain t s' where w: "write_pages cmt_conf instant_pal \<lparr>fr_lpn = 0, fr_ioFlag = unit_flag\<rparr> 3 True s = Inr (t, s')"
    "pm_log s' = pm_log s @ [PalWrite 1 0 unit_flag]" "map_of (pm_table s') 1 = Some [(1, 0)]"
    by (auto split: sum.splits)
  have "pc_enableCMT cmt_conf" "pc_bitsetSize cmt_conf = 1" by (simp_all add: cmt_conf_def small_conf_def)
  from cached_write_misses_table[OF this(1) _ s(3) _ w(1) this(2)] s(2) flag_on_facts(1)[OF unit_flag_on] have "map_of (pm_table s') 0 = map_of (pm_table s) 0" by simp
  with s(1,4) w show ?thesis by simp
qed

section \<open>Blocks and pages that are lost\<close>

text \<open>A block that is recycled while it is the one to write to is replaced when the next page is
  written, half full or not, and is neither written nor collected any more: two logical pages, written in
  turn, use up four blocks.\<close>

lemma free_blocks_run_out:
  "stopped (ftl_session small_conf instant_pal no_callback (map write_of_page [0, 1, 0, 1, 0, 1, 0, 1, 0, 1, 0, 1, 0, 1]) ((), ()))
     = Some (Panic ''No free block left'')"
  by code_simp

definition striped_conf :: pmconf where
  "striped_conf = small_conf\<lparr>pc_pagesInBlock := 3, pc_pageCountToMaxPerf := 2, pc_totalPhysicalBlocks := 6\<rparr>"

text \<open>A format erases blocks that hold pages outside its range, and may have moved such a page into one
  of them: with three pages written in turn to two blocks of three pages each, a format of the first two
  moves the third from block 0 to block 1 and back to block 0, and erases both; the table still maps the
  page to block 0, and neither block is in use.\<close>

lemma format_loses_page:
  "(case ftl_session striped_conf instant_pal no_callback (map write_of_page [0, 1, 2]) ((), ()) of Inl e \<Rightarrow> False
    | Inr (s, d) \<Rightarrow> (case ftl_format striped_conf instant_pal no_callback 0 2 5 (s, d) of Inl e \<Rightarrow> False
    | Inr (t, s', d) \<Rightarrow> map_of (pm_table s) 2 = Some [(0, 1)] \<and> map_of (pm_table s') 2 = Some [(0, 2)]
        \<and> drop (length (pm_log s)) (pm_log s')
          = [PalRead 0 1 unit_flag, PalRead 1 1 unit_flag, PalWrite 1 1 unit_flag, PalWrite 0 2 unit_flag, PalErase 0, PalErase 1]
        \<and> pm_blocks s' = []))"
  by code_simp

end
