(* ===== verification/Pal_Slots.thy ===== *)
theory Pal_Slots
  imports Prelude "HOL-Library.Multiset"
begin

text \<open>
  The free time of a channel or a die (\<^verbatim>\<open>PAL2\<close>, pal/old/PAL2.cc). A \<^verbatim>\<open>std::map\<close> from the lengths that
  the constructor chooses, the classes, to maps from the first to the last tick of a free slot; a slot
  is in the largest class that is not longer than itself. Everything from the start point on is free as
  well. The maps are lists in ascending order of the keys. Ticks are natural numbers: the sums do not
  wrap around.

  The meaning of such a structure is the set of the ticks that are free (\<^verbatim>\<open>free_ticks\<close>). The search
  returns a place that is free, and an insertion takes its ticks, and at most loses others.
\<close>

section \<open>The structure\<close>

type_synonym slots = "(nat \<times> nat) list"
type_synonym slot_map = "(nat \<times> slots) list"

definition slots_of :: "slot_map \<Rightarrow> slots" where
  "slots_of m = concat (map snd m)"

text \<open>\<^verbatim>\<open>insert\<close> of \<^verbatim>\<open>std::map\<close> keeps an entry that is there.\<close>

fun slot_insert :: "nat \<Rightarrow> nat \<Rightarrow> slots \<Rightarrow> slots" where
  "slot_insert s e [] = [(s, e)]"
| "slot_insert s e ((s', e') # xs) =
     (if s < s' then (s, e) # (s', e') # xs
      else if s = s' then (s', e') # xs
      else (s', e') # slot_insert s e xs)"

text \<open>The classes from the one before \<^verbatim>\<open>upper_bound(tickLen)\<close> on, or all of them.\<close>

fun from_class :: "nat \<Rightarrow> slot_map \<Rightarrow> slot_map" where
  "from_class n (x # (k, sl) # m) = (if k \<le> n then from_class n ((k, sl) # m) else x # (k, sl) # m)"
| "from_class n m = m"

text \<open>The slot into which a slot of the length \<^verbatim>\<open>n\<close> goes: the class before \<^verbatim>\<open>upper_bound(tickLen)\<close>; none if
  all are longer.\<close>

fun AddFreeSlot :: "nat \<Rightarrow> nat \<Rightarrow> slot_map \<Rightarrow> slot_map" where
  "AddFreeSlot tickLen tickFrom ((k, sl) # (k', sl') # m) =
     (if tickLen < k then (k, sl) # (k', sl') # m
      else if k' \<le> tickLen then (k, sl) # AddFreeSlot tickLen tickFrom ((k', sl') # m)
      else (k, slot_insert tickFrom (tickFrom + tickLen - 1) sl) # (k', sl') # m)"
| "AddFreeSlot tickLen tickFrom [(k, sl)] =
     [(k, if tickLen < k then sl else slot_insert tickFrom (tickFrom + tickLen - 1) sl)]"
| "AddFreeSlot tickLen tickFrom [] = []"

section \<open>Searching\<close>

text \<open>In one class: the slot before \<^verbatim>\<open>upper_bound(tickFrom)\<close>, if it is long enough from \<^verbatim>\<open>tickFrom\<close> on, and
  the first later one that is long enough.\<close>

definition fit_now :: "nat \<Rightarrow> nat \<Rightarrow> slots \<Rightarrow> nat option" where
  "fit_now tickLen tickFrom sl =
     (case rev (takeWhile (\<lambda>(s, e). s \<le> tickFrom) sl) of [] \<Rightarrow> None
      | (s, e) # xs \<Rightarrow> if e \<ge> tickLen + tickFrom - 1 then Some s else None)"

definition fit_later :: "nat \<Rightarrow> nat \<Rightarrow> slots \<Rightarrow> nat option" where
  "fit_later tickLen tickFrom sl =
     map_option fst (find (\<lambda>(s, e). e \<ge> tickLen + s - 1) (dropWhile (\<lambda>(s, e). s \<le> tickFrom) sl))"

text \<open>The loop over the classes; it carries \<^verbatim>\<open>minTick\<close>. The result is the start of the slot and
  \<^verbatim>\<open>conflicts\<close>, or none.\<close>

fun find_classes :: "nat \<Rightarrow> nat \<Rightarrow> nat option \<Rightarrow> slot_map \<Rightarrow> (nat \<times> bool) option" where
  "find_classes tickLen tickFrom minTick [] = map_option (\<lambda>s. (s, True)) minTick"
| "find_classes tickLen tickFrom minTick ((k, sl) # m) =
     (case fit_now tickLen tickFrom sl of Some s \<Rightarrow> Some (s, False)
      | None \<Rightarrow> find_classes tickLen tickFrom
          (case fit_later tickLen tickFrom sl of None \<Rightarrow> minTick
           | Some s \<Rightarrow> (case minTick of None \<Rightarrow> Some s | Some t \<Rightarrow> if t > s then Some s else Some t)) m)"

text \<open>Stepping back from the end of an empty map is undefined. The two branches of the source differ in
  the number of classes they visit; with one class the second does what the first does.\<close>

definition FindFreeTime :: "slot_map \<Rightarrow> nat \<Rightarrow> nat \<Rightarrow> (nat \<times> bool) option res" where
  "FindFreeTime m tickLen tickFrom =
     (if m = [] then Inl BeforeBegin else Inr (find_classes tickLen tickFrom None (from_class tickLen m)))"

section \<open>Inserting\<close>

text \<open>The first class that has a slot at \<^verbatim>\<open>startTick\<close>; the slot is taken out.\<close>

fun take_slot :: "nat \<Rightarrow> slot_map \<Rightarrow> (nat \<times> slot_map) option" where
  "take_slot startTick [] = None"
| "take_slot startTick ((k, sl) # m) =
     (case map_of sl startTick of Some e \<Rightarrow> Some (e, (k, filter (\<lambda>(s, e). s \<noteq> startTick) sl) # m)
      | None \<Rightarrow> map_option (\<lambda>(e, m). (e, (k, sl) # m)) (take_slot startTick m))"

definition before_class :: "nat \<Rightarrow> slot_map \<Rightarrow> slot_map" where
  "before_class n m = take (length m - length (from_class n m)) m"

definition rassert :: "bool \<Rightarrow> unit res" where
  "rassert b = (if b then Inr () else Inl (Panic ''Assertion failed''))"

definition InsertFreeSlot :: "nat \<Rightarrow> nat \<Rightarrow> nat \<Rightarrow> bool \<Rightarrow> slot_map \<times> nat \<Rightarrow> (slot_map \<times> nat) res" where
  "InsertFreeSlot tickLen tickFrom startTick split = (\<lambda>(m, startPoint).
     if startTick = startPoint
     then if tickFrom = startTick
          then Inr (if split then AddFreeSlot tickLen startPoint m else m, startPoint + tickLen)
          else rbind (rassert (tickFrom > startTick)) (\<lambda>_.
               let m = (if split then AddFreeSlot tickLen tickFrom m else m)
               in Inr (AddFreeSlot (tickFrom - startTick) startTick m, tickFrom + tickLen))
     else case take_slot startTick (from_class tickLen m) of None \<Rightarrow> Inr (m, startPoint)
       | Some (tmpEndTick, m') \<Rightarrow>
          let m = before_class tickLen m @ m' in
          if startTick < tickFrom
          then let m = AddFreeSlot (tickFrom - startTick) startTick m;
                   m = (if split then AddFreeSlot tickLen tickFrom m else m) in
               rbind (rassert (tmpEndTick - tickFrom + 1 \<ge> tickLen)) (\<lambda>_.
                 Inr (if tmpEndTick > tickLen + tickFrom - 1
                      then AddFreeSlot (tmpEndTick - (tickFrom + tickLen - 1)) (tickFrom + tickLen) m else m, startPoint))
          else rbind (rassert (startTick = tickFrom)) (\<lambda>_.
               rbind (rassert (tmpEndTick - tickFrom + 1 \<ge> tickLen)) (\<lambda>_.
               let m = (if split then AddFreeSlot tickLen startTick m else m)
               in Inr (if tmpEndTick > tickLen + tickFrom - 1
                       then AddFreeSlot (tmpEndTick - (tickFrom + tickLen - 1)) (startTick + tickLen) m else m, startPoint))))"

definition FlushAFreeSlot :: "nat \<Rightarrow> slot_map \<Rightarrow> slot_map" where
  "FlushAFreeSlot currentTick m = map (\<lambda>(k, sl). (k, dropWhile (\<lambda>(s, e). e < currentTick) sl)) m"

section \<open>What the structure means\<close>

definition slots_sorted :: "slot_map \<Rightarrow> bool" where
  "slots_sorted m \<longleftrightarrow> (\<forall>(k, sl) \<in> set m. sorted_wrt (<) (map fst sl))"

definition slots_apart :: "(nat \<times> nat) set \<Rightarrow> bool" where
  "slots_apart S \<longleftrightarrow> (\<forall>s e s' e'. (s, e) \<in> S \<longrightarrow> (s', e') \<in> S \<longrightarrow> s < s' \<longrightarrow> e < s')"

definition timeline_ok :: "slot_map \<Rightarrow> nat \<Rightarrow> bool" where
  "timeline_ok m sp \<longleftrightarrow> m \<noteq> [] \<and> sorted_wrt (<) (map fst m) \<and> slots_sorted m
     \<and> distinct (map fst (slots_of m)) \<and> slots_apart (set (slots_of m))
     \<and> (\<forall>(s, e) \<in> set (slots_of m). s \<le> e \<and> e < sp)"

definition free_ticks :: "slot_map \<Rightarrow> nat \<Rightarrow> nat set" where
  "free_ticks m sp = {t. sp \<le> t \<or> (\<exists>(s, e) \<in> set (slots_of m). s \<le> t \<and> t \<le> e)}"

lemma timeline_ok_D:
  assumes "timeline_ok m sp"
  shows "m \<noteq> []" "sorted_wrt (<) (map fst m)" "slots_sorted m" "distinct (map fst (slots_of m))"
    "slots_apart (set (slots_of m))" "(s, e) \<in> set (slots_of m) \<Longrightarrow> s \<le> e \<and> e < sp"
  using assms by (auto simp: timeline_ok_def)

lemma slots_of_simps [simp]: "slots_of [] = []" "slots_of ((k, sl) # m) = sl @ slots_of m" "slots_of (m @ m') = slots_of m @ slots_of m'"
  by (simp_all add: slots_of_def)

lemma slots_sorted_simps [simp]:
  "slots_sorted []" "slots_sorted ((k, sl) # m) \<longleftrightarrow> sorted_wrt (<) (map fst sl) \<and> slots_sorted m"
  "slots_sorted (m @ m') \<longleftrightarrow> slots_sorted m \<and> slots_sorted m'"
  by (auto simp: slots_sorted_def)

lemma slots_apart_D: "slots_apart S \<Longrightarrow> (s, e) \<in> S \<Longrightarrow> (s', e') \<in> S \<Longrightarrow> s < s' \<Longrightarrow> e < s'"
  unfolding slots_apart_def by blast

lemma slots_apart_subset: "slots_apart S \<Longrightarrow> S' \<subseteq> S \<Longrightarrow> slots_apart S'"
  by (simp add: slots_apart_def) (meson subsetD)

text \<open>Two slots that have a tick in common are the same.\<close>

lemma slots_apart_unique:
  assumes "slots_apart S" "(s, e) \<in> S" "(s', e') \<in> S" "s \<le> t" "t \<le> e" "s' \<le> t" "t \<le> e'"
  shows "s' = s"
proof -
  have "s < s' \<longrightarrow> e < s'" "s' < s \<longrightarrow> e' < s"
    using slots_apart_D[OF assms(1-3)] slots_apart_D[OF assms(1,3,2)] by simp_all
  with assms(4-7) show ?thesis by linarith
qed

subsection \<open>Classes\<close>

lemma from_class_suffix: "before_class n m @ from_class n m = m"
proof -
  have "\<exists>m'. m = m' @ from_class n m"
  proof (induction n m rule: from_class.induct)
    case (1 n x k sl m)
    show ?case
    proof (cases "k \<le> n")
      case True
      from 1[OF this] obtain m' where "(k, sl) # m = m' @ from_class n ((k, sl) # m)" ..
      with True show ?thesis by (auto intro: exI[of _ "x # m'"])
    qed simp
  qed simp_all
  then obtain m' where m': "m = m' @ from_class n m" ..
  then have "length m = length m' + length (from_class n m)" by (metis length_append)
  with m' have "before_class n m = m'" unfolding before_class_def by (metis add_diff_cancel_right' append_eq_conv_conj)
  with m' show ?thesis by simp
qed

lemma from_class_subset: "set (slots_of (from_class n m)) \<subseteq> set (slots_of m)"
  using arg_cong[where f = "\<lambda>m. set (slots_of m)", OF from_class_suffix[of n m]] by auto

lemma from_class_sorted: "slots_sorted m \<Longrightarrow> slots_sorted (from_class n m)"
  using arg_cong[where f = slots_sorted, OF from_class_suffix[of n m]] by auto

lemma from_class_empty [simp]: "from_class n m = [] \<longleftrightarrow> m = []"
  by (induction n m rule: from_class.induct) simp_all

text \<open>Shorter slots are looked for in more classes.\<close>

lemma from_class_mono:
  "sorted_wrt (<) (map fst m) \<Longrightarrow> n \<le> n' \<Longrightarrow> set (slots_of (from_class n' m)) \<subseteq> set (slots_of (from_class n m))"
proof (induction n m rule: from_class.induct)
  case (1 n x k sl m)
  show ?case
  proof (cases "k \<le> n")
    case True
    with 1 show ?thesis by auto
  next
    case False
    then have "from_class n (x # (k, sl) # m) = x # (k, sl) # m" by simp
    with from_class_subset[of n' "x # (k, sl) # m"] show ?thesis by simp
  qed
qed simp_all

subsection \<open>Adding and taking out\<close>

text \<open>The same classes with the slot \<^verbatim>\<open>x\<close> more, or without it, when it is shorter than all classes.\<close>

definition slot_added :: "nat \<times> nat \<Rightarrow> slot_map \<Rightarrow> slot_map \<Rightarrow> bool" where
  "slot_added x m m' \<longleftrightarrow> map fst m' = map fst m \<and> slots_sorted m'
     \<and> (mset (slots_of m') = mset (slots_of m) \<or> mset (slots_of m') = add_mset x (mset (slots_of m)))"

lemma slot_insert_ok:
  assumes "sorted_wrt (<) (map fst sl)" "s \<notin> fst ` set sl"
  shows "mset (slot_insert s e sl) = add_mset (s, e) (mset sl)" "sorted_wrt (<) (map fst (slot_insert s e sl))"
proof -
  show mset: "mset (slot_insert s e sl) = add_mset (s, e) (mset sl)"
    using assms by (induction s e sl rule: slot_insert.induct) auto
  have set: "fst ` set (slot_insert s e xs) \<subseteq> insert s (fst ` set xs)" for s e xs
    by (induction s e xs rule: slot_insert.induct) auto
  show "sorted_wrt (<) (map fst (slot_insert s e sl))"
    using assms
  proof (induction s e sl rule: slot_insert.induct)
    case (2 s e s' e' xs)
    have lt: "\<forall>y \<in> fst ` set xs. s' < y" "s < s' \<or> s' < s" using 2(2,3) by auto
    have "\<forall>y \<in> fst ` set (slot_insert s e xs). s' < y" if "\<not> s < s'"
      using set[of s e xs] lt that by blast
    with 2 lt show ?case by auto
  qed simp
qed

lemma AddFreeSlot_added:
  assumes "slots_sorted m" "f \<notin> fst ` set (slots_of m)"
  shows "slot_added (f, f + n - 1) m (AddFreeSlot n f m)"
  using assms
proof (induction n f m rule: AddFreeSlot.induct)
  case (1 n f k sl k' sl' m)
  note ins = slot_insert_ok[of sl f "f + n - 1"]
  show ?case
  proof (cases "k \<le> n \<and> k' \<le> n")
    case True
    then have eq: "AddFreeSlot n f ((k, sl) # (k', sl') # m) = (k, sl) # AddFreeSlot n f ((k', sl') # m)" by simp
    have "slot_added (f, f + n - 1) ((k', sl') # m) (AddFreeSlot n f ((k', sl') # m))" using 1 True by auto
    with 1(2) show ?thesis unfolding eq by (auto simp: slot_added_def)
  next
    case False
    with 1(2,3) ins show ?thesis by (auto simp: slot_added_def)
  qed
next
  case (2 n f k sl)
  with slot_insert_ok[of sl f "f + n - 1"] show ?case by (auto simp: slot_added_def)
qed (simp add: slot_added_def)

lemma take_slot_ok:
  assumes "slots_sorted m" "take_slot s m = Some (e, m')"
  shows "map fst m' = map fst m" "slots_sorted m'" "mset (slots_of m) = add_mset (s, e) (mset (slots_of m'))"
proof -
  have "map fst m' = map fst m \<and> slots_sorted m' \<and> mset (slots_of m) = add_mset (s, e) (mset (slots_of m'))"
    using assms
  proof (induction s m arbitrary: m' rule: take_slot.induct)
    case (2 s k sl m)
    show ?case
    proof (cases "map_of sl s")
      case None
      then obtain m2 where "take_slot s m = Some (e, m2)" "m' = (k, sl) # m2" using 2(3) by auto
      with 2 None show ?thesis by auto
    next
      case (Some e')
      then have m': "e' = e" "m' = (k, filter (\<lambda>(s', e). s' \<noteq> s) sl) # m" using 2(3) by auto
      have "mset sl = add_mset (s, e) (mset (filter (\<lambda>(s', e). s' \<noteq> s) sl))"
        if "sorted_wrt (<) (map fst sl)" "map_of sl s = Some e" for sl :: slots
        using that
      proof (induction sl)
        case (Cons x sl)
        obtain s' e' where x: "x = (s', e')" by (cases x)
        show ?case
        proof (cases "s' = s")
          case True
          have "\<forall>y \<in> set sl. (case y of (s', e) \<Rightarrow> s' \<noteq> s)" using Cons.prems(1) True x by auto
          then have "filter (\<lambda>(s', e). s' \<noteq> s) sl = sl" by simp
          with Cons.prems(2) True x show ?thesis by simp
        next
          case False
          with Cons x show ?thesis by auto
        qed
      qed simp
      moreover have "sorted_wrt (<) (map fst (filter P sl))" if "sorted_wrt (<) (map fst sl)" for P and sl :: slots
        using that by (simp add: sorted_wrt_map sorted_wrt_filter)
      ultimately show ?thesis using 2(2) Some by (simp add: m')
    qed
  qed simp
  then show "map fst m' = map fst m" "slots_sorted m'" "mset (slots_of m) = add_mset (s, e) (mset (slots_of m'))" by simp_all
qed

lemma take_slot_some:
  assumes "s \<in> fst ` set (slots_of m)"
  shows "\<exists>e m'. take_slot s m = Some (e, m')"
  using assms
proof (induction s m rule: take_slot.induct)
  case (2 s k sl m)
  show ?case
  proof (cases "map_of sl s")
    case None
    then have "s \<notin> fst ` set sl" by (simp add: map_of_eq_None_iff)
    with 2(2) have "s \<in> fst ` set (slots_of m)" by auto
    from 2(1)[OF None this] None show ?thesis by auto
  qed simp
qed simp

subsection \<open>The search\<close>

lemma fit_now_Some:
  assumes "fit_now n t sl = Some s"
  shows "s \<le> t" "\<exists>e. (s, e) \<in> set sl \<and> n + t - 1 \<le> e"
proof -
  obtain e xs where r: "rev (takeWhile (\<lambda>(s, e). s \<le> t) sl) = (s, e) # xs" "n + t - 1 \<le> e"
    using assms by (auto simp: fit_now_def split: list.splits if_splits)
  then have "(s, e) \<in> set (takeWhile (\<lambda>(s, e). s \<le> t) sl)" by (metis list.set_intros(1) set_rev)
  with r(2) show "s \<le> t" "\<exists>e. (s, e) \<in> set sl \<and> n + t - 1 \<le> e"
    by (auto dest: set_takeWhileD)
qed

text \<open>In a sorted class the search sees the slot that holds the tick.\<close>

lemma fit_now_complete:
  assumes "sorted_wrt (<) (map fst sl)" "slots_apart (set sl)" "(s, e) \<in> set sl" "s \<le> t" "n + t - 1 \<le> e" "0 < n"
  shows "fit_now n t sl = Some s"
proof -
  let ?xs = "takeWhile (\<lambda>(s, e). s \<le> t) sl"
  obtain as bs where sl: "sl = as @ (s, e) # bs" using assms(3) by (meson split_list)
  have as: "\<forall>x \<in> set as. fst x \<le> t" using assms(1,4) by (auto simp: sl sorted_wrt_append)
  have bs: "\<not> fst x \<le> t" if "x \<in> set bs" for x
  proof -
    have "s < fst x" using assms(1) that by (auto simp: sl sorted_wrt_append)
    moreover have "x \<in> set sl" using that by (simp add: sl)
    ultimately have "e < fst x" using slots_apart_D[OF assms(2,3), of "fst x" "snd x"] by simp
    with assms(5,6) show ?thesis by linarith
  qed
  have "takeWhile (\<lambda>(s, e). s \<le> t) bs = []" using bs by (cases bs) (auto simp: split_beta)
  then have "?xs = as @ [(s, e)]"
    unfolding sl using as assms(4) by (subst takeWhile_append2) (auto simp: split_beta)
  then show ?thesis using assms(5) by (simp add: fit_now_def)
qed

lemma fit_later_Some:
  assumes "sorted_wrt (<) (map fst sl)" "fit_later n t sl = Some s"
  shows "t < s" "\<exists>e. (s, e) \<in> set sl \<and> n + s - 1 \<le> e"
proof -
  let ?xs = "dropWhile (\<lambda>(s, e). s \<le> t) sl"
  obtain e where f: "find (\<lambda>(s, e). n + s - 1 \<le> e) ?xs = Some (s, e)"
    using assms(2) by (auto simp: fit_later_def)
  then have in_xs: "(s, e) \<in> set ?xs" "n + s - 1 \<le> e" by (auto simp: find_Some_iff) (metis nth_mem)
  have "t < fst x" if "x \<in> set ?xs" for x
  proof (cases ?xs)
    case Nil
    with that show ?thesis by (simp only: list.set empty_iff)
  next
    case (Cons y ys)
    then have "t < fst y" using hd_dropWhile[of "\<lambda>(s, e). s \<le> t" sl] by (auto simp: split_beta)
    moreover have "sorted_wrt (<) (map fst ?xs)"
      using assms(1) by (metis dropWhile_eq_drop drop_map sorted_wrt_drop)
    ultimately show ?thesis using that Cons by auto
  qed
  from this[OF in_xs(1)] show "t < s" by simp
  from in_xs show "\<exists>e. (s, e) \<in> set sl \<and> n + s - 1 \<le> e" by (auto dest: set_dropWhileD)
qed

lemma find_classes_sound:
  assumes "slots_sorted m" "find_classes n t b m = Some (s, c)"
  shows "if c then b = Some s \<or> t < s \<and> (\<exists>e. (s, e) \<in> set (slots_of m) \<and> n + s - 1 \<le> e)
    else s \<le> t \<and> (\<exists>e. (s, e) \<in> set (slots_of m) \<and> n + t - 1 \<le> e)"
  using assms
proof (induction n t b m rule: find_classes.induct)
  case (2 n t b k sl m)
  show ?case
  proof (cases "fit_now n t sl")
    case (Some s')
    with 2(3) fit_now_Some[OF Some] show ?thesis by auto
  next
    case None
    let ?b = "case fit_later n t sl of None \<Rightarrow> b | Some s \<Rightarrow> (case b of None \<Rightarrow> Some s | Some t \<Rightarrow> if t > s then Some s else Some t)"
    have "find_classes n t ?b m = Some (s, c)" using 2(3) None by simp
    from 2(1)[OF None _ this] 2(2) have ih: "if c then ?b = Some s \<or> t < s \<and> (\<exists>e. (s, e) \<in> set (slots_of m) \<and> n + s - 1 \<le> e)
      else s \<le> t \<and> (\<exists>e. (s, e) \<in> set (slots_of m) \<and> n + t - 1 \<le> e)" by simp
    have "?b = Some s \<Longrightarrow> b = Some s \<or> fit_later n t sl = Some s" by (auto split: option.splits if_splits)
    with ih fit_later_Some[of sl n t s] 2(2) show ?thesis by (cases c) auto
  qed
qed auto

lemma find_classes_complete:
  assumes "slots_sorted m" "slots_apart (set (slots_of m))" "(s, e) \<in> set (slots_of m)" "s \<le> t" "n + t - 1 \<le> e" "0 < n"
  shows "find_classes n t b m = Some (s, False)"
  using assms
proof (induction n t b m rule: find_classes.induct)
  case (2 n t b k sl m)
  have sub: "slots_apart (set sl)" "slots_apart (set (slots_of m))"
    by (rule slots_apart_subset[OF 2(3)], simp)+
  show ?case
  proof (cases "fit_now n t sl")
    case (Some s')
    obtain e' where e': "(s', e') \<in> set sl" "n + t - 1 \<le> e'" "s' \<le> t" using fit_now_Some[OF Some] by auto
    have "s' = s"
      by (rule slots_apart_unique[OF 2(3) 2(4), of s' e' t]) (use e' 2(5-7) in auto)
    with Some show ?thesis by simp
  next
    case None
    then have "(s, e) \<notin> set sl" using fit_now_complete[of sl s e t n] 2(2,5-7) sub(1) by auto
    with 2 None sub(2) show ?thesis by simp
  qed
qed simp

text \<open>The search as the scheduler uses it: the tick to start at is moved to the slot that is found, or
  to the start point.\<close>

definition seek :: "slot_map \<times> nat \<Rightarrow> nat \<Rightarrow> nat \<Rightarrow> (nat \<times> nat) res" where
  "seek ms tickLen tickFrom = rbind (FindFreeTime (fst ms) tickLen tickFrom) (\<lambda>r.
     Inr (case r of None \<Rightarrow> (max tickFrom (snd ms), snd ms)
          | Some (startTick, conflicts) \<Rightarrow> (if conflicts then startTick else tickFrom, startTick)))"

text \<open>The ticks \<^verbatim>\<open>t, \<dots>, t + n - 1\<close> are in the slot that starts at \<^verbatim>\<open>s\<close>, or behind the start point.\<close>

definition fits :: "slot_map \<Rightarrow> nat \<Rightarrow> nat \<Rightarrow> nat \<Rightarrow> nat \<Rightarrow> bool" where
  "fits m sp n t s \<longleftrightarrow> s \<le> t \<and> (s = sp \<or> (\<exists>e. (s, e) \<in> set (slots_of (from_class n m)) \<and> n + t - 1 \<le> e))"

lemma fits_free: "fits m sp n t s \<Longrightarrow> {t..<t + n} \<subseteq> free_ticks m sp"
  using from_class_subset[of n m] by (fastforce simp: fits_def free_ticks_def)

lemma seek_ok:
  assumes ok: "timeline_ok m sp"
  obtains t' s where "seek (m, sp) n t = Inr (t', s)" "fits m sp n t' s" "t \<le> t'" "t' \<le> max t sp" "t' = t \<or> t' = s"
proof -
  note D = timeline_ok_D[OF ok]
  let ?r = "find_classes n t None (from_class n m)"
  have r: "seek (m, sp) n t = Inr (case ?r of None \<Rightarrow> (max t sp, sp) | Some (s, c) \<Rightarrow> (if c then s else t, s))"
    using D(1) by (simp add: seek_def FindFreeTime_def split: option.split)
  show ?thesis
  proof (cases ?r)
    case None
    show ?thesis by (rule that[of "max t sp" sp]) (use r None in \<open>auto simp: fits_def max_def\<close>)
  next
    case (Some x)
    obtain s c where x: "x = (s, c)" by (cases x)
    note sound = find_classes_sound[OF from_class_sorted[OF D(3)] Some[unfolded x]]
    show ?thesis
    proof (cases c)
      case True
      with sound obtain e where e: "t < s" "(s, e) \<in> set (slots_of (from_class n m))" "n + s - 1 \<le> e" by auto
      then have "s < sp" using D(6)[of s e] from_class_subset[of n m] by auto
      show ?thesis by (rule that[of s s]) (use r Some x True e \<open>s < sp\<close> in \<open>auto simp: fits_def\<close>)
    next
      case False
      with sound show ?thesis by (intro that[of t s]) (use r Some x False in \<open>auto simp: fits_def\<close>)
    qed
  qed
qed

text \<open>A place that fits is found at once.\<close>

lemma seek_fits:
  assumes ok: "timeline_ok m sp" and f: "fits m sp n t s" "0 < n"
  shows "seek (m, sp) n t = Inr (t, s)"
proof -
  note D = timeline_ok_D[OF ok]
  show ?thesis
  proof (cases "s = sp")
    case True
    have "find_classes n t None (from_class n m) = None"
    proof (rule ccontr)
      assume "\<not> ?thesis"
      then obtain s' c where "find_classes n t None (from_class n m) = Some (s', c)" by auto
      from find_classes_sound[OF from_class_sorted[OF D(3)] this] obtain e where
        "(s', e) \<in> set (slots_of m)" "t < s' \<or> t \<le> e"
        using from_class_subset[of n m] f(2) by (fastforce split: if_splits)
      with D(6)[of s' e] f(1) True show False by (auto simp: fits_def)
    qed
    with True f(1) D(1) show ?thesis by (simp add: seek_def FindFreeTime_def fits_def)
  next
    case False
    then obtain e where e: "(s, e) \<in> set (slots_of (from_class n m))" "n + t - 1 \<le> e" "s \<le> t"
      using f(1) by (auto simp: fits_def)
    have "slots_apart (set (slots_of (from_class n m)))"
      using D(5) from_class_subset[of n m] unfolding slots_apart_def by blast
    from find_classes_complete[OF from_class_sorted[OF D(3)] this e(1,3,2) f(2)] D(1) show ?thesis
      by (simp add: seek_def FindFreeTime_def)
  qed
qed

text \<open>A tick is in one place only.\<close>

lemma fits_unique:
  assumes ok: "timeline_ok m sp" and "fits m sp n t s" "fits m sp n' t s'" "0 < n" "0 < n'"
  shows "s' = s"
proof -
  note D = timeline_ok_D[OF ok]
  have in_m: "s'' = sp \<or> (\<exists>e. (s'', e) \<in> set (slots_of m) \<and> t \<le> e \<and> e < sp)" "s'' \<le> t" if "fits m sp k t s''" "0 < k" for k s''
    using that D(6) from_class_subset[of k m] by (fastforce simp: fits_def)+
  from in_m[OF assms(2,4)] in_m[OF assms(3,5)] show ?thesis
    using slots_apart_unique[OF D(5)] by (metis le_less_trans not_less)
qed

subsection \<open>The insertion\<close>

text \<open>No slot has a tick in \<^verbatim>\<open>{lo..<hi}\<close>.\<close>

definition away :: "slot_map \<Rightarrow> nat \<Rightarrow> nat \<Rightarrow> bool" where
  "away m lo hi \<longleftrightarrow> (\<forall>s e. (s, e) \<in> set (slots_of m) \<longrightarrow> e < lo \<or> hi \<le> s)"

lemma away_D: "away m lo hi \<Longrightarrow> (s, e) \<in> set (slots_of m) \<Longrightarrow> e < lo \<or> hi \<le> s"
  by (simp add: away_def)

lemma away_mono: "away m lo hi \<Longrightarrow> lo \<le> lo' \<Longrightarrow> hi' \<le> hi \<Longrightarrow> away m lo' hi'"
  unfolding away_def by (meson le_trans less_le_trans)

lemma timeline_less:
  assumes "timeline_ok m sp" "sp \<le> sp'"
  shows "timeline_ok m sp'"
  using assms unfolding timeline_ok_def by fastforce

text \<open>A slot is added between the others.\<close>

lemma add_slot_ok:
  assumes ok: "timeline_ok m sp" and k: "0 < k" "f + k \<le> sp" and aw: "away m f (f + k)"
  shows "timeline_ok (AddFreeSlot k f m) sp"
    "set (slots_of (AddFreeSlot k f m)) \<subseteq> insert (f, f + k - 1) (set (slots_of m))"
    "away m lo hi \<Longrightarrow> f + k \<le> lo \<or> hi \<le> f \<Longrightarrow> away (AddFreeSlot k f m) lo hi"
proof -
  note D = timeline_ok_D[OF ok]
  let ?m = "AddFreeSlot k f m"
  have f: "f \<notin> fst ` set (slots_of m)"
  proof
    assume "f \<in> fst ` set (slots_of m)"
    then obtain e where "(f, e) \<in> set (slots_of m)" by force
    with away_D[OF aw this] D(6)[OF this] k(1) show False by linarith
  qed
  have added: "slot_added (f, f + k - 1) m ?m" by (rule AddFreeSlot_added[OF D(3) f])
  then have m: "mset (slots_of ?m) = mset (slots_of m) \<or> mset (slots_of ?m) = add_mset (f, f + k - 1) (mset (slots_of m))"
    by (simp add: slot_added_def)
  then show sub: "set (slots_of ?m) \<subseteq> insert (f, f + k - 1) (set (slots_of m))"
    by (metis insert_subset set_mset_add_mset_insert set_mset_mset subset_insertI subset_refl)
  have distinct: "distinct (map fst (slots_of ?m))"
    using m
  proof
    assume "mset (slots_of ?m) = mset (slots_of m)"
    then have "mset (map fst (slots_of ?m)) = mset (map fst (slots_of m))" by simp
    with D(4) show ?thesis by (metis mset_eq_imp_distinct_iff)
  next
    assume "mset (slots_of ?m) = add_mset (f, f + k - 1) (mset (slots_of m))"
    then have "mset (map fst (slots_of ?m)) = mset (map fst ((f, f + k - 1) # slots_of m))" by simp
    moreover have "distinct (map fst ((f, f + k - 1) # slots_of m))" using D(4) f by simp
    ultimately show ?thesis by (metis mset_eq_imp_distinct_iff)
  qed
  have old: "e < s'" if "(s, e) \<in> set (slots_of m)" "(s', e') \<in> set (slots_of m)" "s < s'" for s e s' e'
    by (rule slots_apart_D[OF D(5) that])
  have apart: "slots_apart (set (slots_of ?m))"
    unfolding slots_apart_def
  proof (intro allI impI)
    fix s e s' e' assume a: "(s, e) \<in> set (slots_of ?m)" "(s', e') \<in> set (slots_of ?m)" "s < s'"
    have c: "(s, e) = (f, f + k - 1) \<or> (s, e) \<in> set (slots_of m)" "(s', e') = (f, f + k - 1) \<or> (s', e') \<in> set (slots_of m)"
      using a sub by blast+
    then consider "(s, e) \<in> set (slots_of m)" "(s', e') \<in> set (slots_of m)" | "s = f" "e = f + k - 1" "(s', e') \<in> set (slots_of m)"
      | "s' = f" "(s, e) \<in> set (slots_of m)" using a(3) by auto
    then show "e < s'"
    proof cases
      case 1
      then show ?thesis using old a(3) by blast
    next
      case 2
      with away_D[OF aw 2(3)] D(6)[OF 2(3)] a(3) k(1) show ?thesis by linarith
    next
      case 3
      with away_D[OF aw 3(2)] D(6)[OF 3(2)] a(3) k(1) show ?thesis by linarith
    qed
  qed
  have "s \<le> e \<and> e < sp" if "(s, e) \<in> set (slots_of ?m)" for s e
    using that sub D(6)[of s e] k by auto
  moreover have "?m \<noteq> []" "map fst ?m = map fst m" "slots_sorted ?m"
    using added D(1) by (auto simp: slot_added_def dest: arg_cong[where f = length])
  ultimately show "timeline_ok ?m sp" using D(2) distinct apart by (auto simp: timeline_ok_def)
  show "away m lo hi \<Longrightarrow> f + k \<le> lo \<or> hi \<le> f \<Longrightarrow> away ?m lo hi"
    using sub k(1) unfolding away_def by fastforce
qed

lemma take_slot_timeline:
  assumes ok: "timeline_ok m sp" and s: "(s, e) \<in> set (slots_of (from_class n m))"
  obtains m' where "take_slot s (from_class n m) = Some (e, m')" "timeline_ok (before_class n m @ m') sp"
    "set (slots_of (before_class n m @ m')) \<subseteq> set (slots_of m)" "away (before_class n m @ m') s (e + 1)"
proof -
  note D = timeline_ok_D[OF ok]
  let ?f = "from_class n m"
  have "s \<in> fst ` set (slots_of ?f)" using s by force
  then obtain e' m' where t: "take_slot s ?f = Some (e', m')" using take_slot_some[of s ?f] by blast
  note T = take_slot_ok[OF from_class_sorted[OF D(3)] t]
  let ?m = "before_class n m @ m'"
  have m: "mset (slots_of m) = add_mset (s, e') (mset (slots_of ?m))"
    using T(3) arg_cong[where f = "\<lambda>m. mset (slots_of m)", OF from_class_suffix[of n m]] by simp
  then have sub: "set (slots_of ?m) \<subseteq> set (slots_of m)" "(s, e') \<in> set (slots_of m)"
    by (metis set_mset_add_mset_insert set_mset_mset subset_insertI) (metis m set_mset_mset union_single_eq_member)
  have "mset (map fst (slots_of m)) = mset (map fst ((s, e') # slots_of ?m))" using m by simp
  with D(4) have dist: "distinct (map fst ((s, e') # slots_of ?m))" by (metis mset_eq_imp_distinct_iff)
  have e: "e' = e"
    using D(4) sub(2) s from_class_subset[of n m] by (meson eq_key_imp_eq_value subsetD)
  have keys: "map fst ?m = map fst m" using T(1) arg_cong[where f = "map fst", OF from_class_suffix[of n m]] by simp
  have ok': "timeline_ok ?m sp"
    unfolding timeline_ok_def
  proof (intro conjI)
    show "?m \<noteq> []" using keys D(1) by (metis map_is_Nil_conv)
    show "sorted_wrt (<) (map fst ?m)" unfolding keys by (rule D(2))
    show "slots_sorted ?m" using T(2) D(3) arg_cong[where f = slots_sorted, OF from_class_suffix[of n m]] by simp
    show "distinct (map fst (slots_of ?m))" using dist by simp
    show "slots_apart (set (slots_of ?m))" by (rule slots_apart_subset[OF D(5) sub(1)])
    show "\<forall>(s, e) \<in> set (slots_of ?m). s \<le> e \<and> e < sp" using D(6) sub(1) by blast
  qed
  have "away ?m s (e + 1)"
    unfolding away_def
  proof (intro allI impI)
    fix s' e2 assume a: "(s', e2) \<in> set (slots_of ?m)"
    then have in_m: "(s', e2) \<in> set (slots_of m)" "(s, e) \<in> set (slots_of m)" using sub e by auto
    have "s' \<noteq> s" using dist a by force
    then consider "s' < s" | "s < s'" by linarith
    then show "e2 < s \<or> e + 1 \<le> s'"
      using slots_apart_D[OF D(5) in_m] slots_apart_D[OF D(5) in_m(2,1)] by cases auto
  qed
  with t ok' sub(1) show ?thesis by (intro that[of m']) (simp_all add: e)
qed

text \<open>The ticks that are inserted are free before, and not afterwards unless the slot is only split.\<close>

definition booked :: "slot_map \<Rightarrow> nat \<Rightarrow> slot_map \<Rightarrow> nat \<Rightarrow> nat set \<Rightarrow> bool" where
  "booked m sp m' sp' X \<longleftrightarrow> timeline_ok m' sp' \<and> sp \<le> sp' \<and> X \<subseteq> free_ticks m sp \<and> free_ticks m' sp' \<subseteq> free_ticks m sp - X"

lemma free_ticks_I: "sp \<le> t \<Longrightarrow> t \<in> free_ticks m sp" "(s, e) \<in> set (slots_of m) \<Longrightarrow> s \<le> t \<Longrightarrow> t \<le> e \<Longrightarrow> t \<in> free_ticks m sp"
  by (auto simp: free_ticks_def)

text \<open>Free ticks of a structure whose slots are among the old ones outside \<^verbatim>\<open>{lo..<hi}\<close> and among \<^verbatim>\<open>F\<close>.\<close>

lemma free_ticks_sub:
  assumes ok: "timeline_ok m sp" "sp \<le> sp'" and sub: "set (slots_of m') \<subseteq> F \<union> set (slots_of M)"
    and M: "set (slots_of M) \<subseteq> set (slots_of m)" "away M lo hi"
    and F: "\<And>s e x. (s, e) \<in> F \<Longrightarrow> s \<le> x \<Longrightarrow> x \<le> e \<Longrightarrow> x \<in> free_ticks m sp \<and> x \<notin> X" "X \<subseteq> {lo..<hi}" "\<And>x. x \<in> X \<Longrightarrow> x < sp'"
  shows "free_ticks m' sp' \<subseteq> free_ticks m sp - X"
proof
  fix x assume "x \<in> free_ticks m' sp'"
  then consider "sp' \<le> x" | s e where "(s, e) \<in> set (slots_of m')" "s \<le> x" "x \<le> e" by (auto simp: free_ticks_def)
  then show "x \<in> free_ticks m sp - X"
  proof cases
    case 1
    with ok(2) F(3)[of x] free_ticks_I(1)[of sp x m] show ?thesis by auto
  next
    case 2
    show ?thesis
    proof (cases "(s, e) \<in> F")
      case True
      with F(1) 2 show ?thesis by blast
    next
      case False
      then have "(s, e) \<in> set (slots_of M)" using 2(1) sub by blast
      with away_D[OF M(2) this] F(2) 2 M(1) free_ticks_I(2)[of s e m x sp] show ?thesis by force
    qed
  qed
qed

lemma insert_behind:
  assumes ok: "timeline_ok m sp" and t: "sp \<le> t" "0 < n"
  shows "\<exists>m' sp'. InsertFreeSlot n t sp split (m, sp) = Inr (m', sp')
    \<and> booked m sp m' sp' (if split then {} else {t..<t + n})"
proof -
  let ?X = "if split then {} else {t..<t + n}"
  let ?sp = "t + n" and ?m1 = "if split then AddFreeSlot n t m else m"
  note D = timeline_ok_D[OF ok]
  have ok': "timeline_ok m ?sp" by (rule timeline_less[OF ok]) (use t in simp)
  have aw: "away m lo hi" if "sp \<le> lo" for lo hi using D(6) that unfolding away_def by fastforce
  have m1: "timeline_ok ?m1 ?sp" "set (slots_of ?m1) \<subseteq> (if split then {(t, t + n - 1)} else {}) \<union> set (slots_of m)" "away ?m1 sp t"
    using add_slot_ok[OF ok' t(2), of t] aw[of t "t + n"] aw[of sp t] ok' t(1) by auto
  define m2 where "m2 = (if t = sp then ?m1 else AddFreeSlot (t - sp) sp ?m1)"
  let ?F = "(if sp < t then {(sp, t - 1)} else {}) \<union> (if split then {(t, t + n - 1)} else {})"
  have "timeline_ok m2 ?sp \<and> set (slots_of m2) \<subseteq> (if sp < t then {(sp, t - 1)} else {}) \<union> set (slots_of ?m1)"
  proof (cases "t = sp")
    case False
    with add_slot_ok(1,2)[OF m1(1), of "t - sp" sp] m1(3) t(1) show ?thesis by (simp add: m2_def)
  qed (use m1(1) in \<open>simp add: m2_def\<close>)
  with m1(2) have m2: "timeline_ok m2 ?sp" "set (slots_of m2) \<subseteq> ?F \<union> set (slots_of m)" by blast+
  have r: "InsertFreeSlot n t sp split (m, sp) = Inr (m2, ?sp)"
    using t(1) by (simp add: InsertFreeSlot_def m2_def rassert_def)
  have "free_ticks m2 ?sp \<subseteq> free_ticks m sp - ?X"
    by (rule free_ticks_sub[OF ok _ m2(2) subset_refl aw[of t "t + n"]])
      (use t in \<open>auto simp: free_ticks_def split: if_splits\<close>)
  moreover have "?X \<subseteq> free_ticks m sp" using t(1) by (auto simp: free_ticks_def)
  ultimately have "booked m sp m2 ?sp ?X" using m2(1) t(1) by (simp add: booked_def)
  with r show ?thesis by blast
qed

lemma insert_slot:
  assumes ok: "timeline_ok m sp" and s: "(s, e) \<in> set (slots_of (from_class n m))" "s \<le> t" "t + n \<le> e + 1" "0 < n"
  shows "\<exists>m'. InsertFreeSlot n t s split (m, sp) = Inr (m', sp)
    \<and> booked m sp m' sp (if split then {} else {t..<t + n})"
proof -
  let ?X = "if split then {} else {t..<t + n}"
  obtain m1 where m1: "take_slot s (from_class n m) = Some (e, m1)" "timeline_ok (before_class n m @ m1) sp"
    "set (slots_of (before_class n m @ m1)) \<subseteq> set (slots_of m)" "away (before_class n m @ m1) s (e + 1)"
    by (rule take_slot_timeline[OF ok s(1)])
  let ?M = "before_class n m @ m1"
  have in_m: "(s, e) \<in> set (slots_of m)" using s(1) from_class_subset[of n m] by blast
  note e = timeline_ok_D(6)[OF ok in_m]
  have aw: "away ?M lo hi" if "s \<le> lo" "hi \<le> e + 1" for lo hi using m1(4) that unfolding away_def by fastforce
  define m2 where "m2 = (if s < t then AddFreeSlot (t - s) s ?M else ?M)"
  have m2: "timeline_ok m2 sp" "set (slots_of m2) \<subseteq> {(s, t - 1)} \<union> set (slots_of ?M)"
    "s < t \<or> m2 = ?M" "\<And>hi. hi \<le> e + 1 \<Longrightarrow> away m2 t hi"
    using add_slot_ok[OF m1(2), of "t - s" s] aw m1(2) s(2,3) e by (auto simp: m2_def)
  define m3 where "m3 = (if split then AddFreeSlot n t m2 else m2)"
  have m3: "timeline_ok m3 sp" "set (slots_of m3) \<subseteq> (if split then {(t, t + n - 1)} else {}) \<union> set (slots_of m2)"
    "away m3 (t + n) (e + 1)"
    using add_slot_ok[OF m2(1), of n t] m2(1) m2(4)[of "t + n"] away_mono[OF m2(4)[of "e + 1"], of "t + n" "e + 1"] s(3,4) e
    by (simp_all add: m3_def)
  define m4 where "m4 = (if e > n + t - 1 then AddFreeSlot (e - (t + n - 1)) (t + n) m3 else m3)"
  have m4: "timeline_ok m4 sp" "set (slots_of m4) \<subseteq> {(t + n, e)} \<union> set (slots_of m3)"
    using add_slot_ok[OF m3(1), of "e - (t + n - 1)" "t + n"] m3 s(3,4) e by (auto simp: m4_def)
  have ne: "s \<noteq> sp" using e by simp
  have r: "InsertFreeSlot n t s split (m, sp) = Inr (m4, sp)"
    using m1(1) ne s(2,3)
    by (cases "s = t") (simp_all add: InsertFreeSlot_def rassert_def Let_def m4_def m3_def m2_def)
  let ?F = "(if s < t then {(s, t - 1)} else {}) \<union> (if split then {(t, t + n - 1)} else {}) \<union> {(t + n, e)}"
  have sub: "set (slots_of m4) \<subseteq> ?F \<union> set (slots_of ?M)" using m4(2) m3(2) m2(2,3) by auto
  have "free_ticks m4 sp \<subseteq> free_ticks m sp - ?X"
    by (rule free_ticks_sub[OF ok _ sub m1(3) aw[of t "t + n"]])
      (use s(2-4) e free_ticks_I(2)[OF in_m] in \<open>auto split: if_splits\<close>)
  moreover have "?X \<subseteq> free_ticks m sp" using free_ticks_I(2)[OF in_m] s(2,3) by auto
  ultimately have "booked m sp m4 sp ?X" using m4(1) by (simp add: booked_def)
  with r show ?thesis by blast
qed

text \<open>The two together: a place that the search has found can be taken, as a whole or in part.\<close>

lemma InsertFreeSlot_ok:
  assumes ok: "timeline_ok m sp" and f: "fits m sp n0 t0 s" "t0 \<le> t" "t + n \<le> t0 + n0" "0 < n"
  obtains m' sp' where "InsertFreeSlot n t s split (m, sp) = Inr (m', sp')"
    "booked m sp m' sp' (if split then {} else {t..<t + n})"
proof (cases "s = sp")
  case True
  with insert_behind[OF ok, of t n split] f that show ?thesis by (auto simp: fits_def)
next
  case False
  then obtain e where e: "(s, e) \<in> set (slots_of (from_class n0 m))" "n0 + t0 - 1 \<le> e" "s \<le> t0"
    using f(1) by (auto simp: fits_def)
  have "n \<le> n0" using f(2,3) by linarith
  then have "(s, e) \<in> set (slots_of (from_class n m))"
    using e(1) from_class_mono[OF timeline_ok_D(2)[OF ok]] by blast
  with insert_slot[OF ok this, of t split] e f(2-4) that show ?thesis by fastforce
qed

text \<open>The flush drops slots that lie before the tick, and only those.\<close>

lemma FlushAFreeSlot_ok:
  assumes ok: "timeline_ok m sp"
  shows "timeline_ok (FlushAFreeSlot now m) sp" "free_ticks (FlushAFreeSlot now m) sp \<subseteq> free_ticks m sp"
    "now \<le> t \<Longrightarrow> t \<in> free_ticks (FlushAFreeSlot now m) sp \<longleftrightarrow> t \<in> free_ticks m sp"
proof -
  let ?d = "dropWhile (\<lambda>(s, e). e < now)"
  have slots: "slots_of (FlushAFreeSlot now m) = concat (map ?d (map snd m))"
    by (simp add: slots_of_def FlushAFreeSlot_def comp_def split_beta)
  have sub: "set (slots_of (FlushAFreeSlot now m)) \<subseteq> set (slots_of m)"
    unfolding slots by (auto simp: slots_of_def dest!: set_dropWhileD) 
  have sorted: "sorted_wrt (<) (map fst (?d sl))" if "sorted_wrt (<) (map fst sl)" for sl :: slots
    using that by (metis dropWhile_eq_drop drop_map sorted_wrt_drop)
  have dist: "distinct (map fst (concat (map ?d sls)))" if "distinct (map fst (concat sls))" for sls :: "slots list"
    using that
  proof (induction sls)
    case (Cons sl sls)
    have "distinct (map fst (?d sl))" using Cons.prems by (metis concat.simps(2) distinct_append distinct_drop drop_map dropWhile_eq_drop map_append)
    moreover have "fst ` set (?d sl) \<subseteq> fst ` set sl" "fst ` set (concat (map ?d sls)) \<subseteq> fst ` set (concat sls)"
      by (auto dest!: set_dropWhileD intro: rev_image_eqI)
    ultimately show ?case using Cons by (auto 0 4)
  qed simp
  note D = timeline_ok_D[OF ok]
  show "timeline_ok (FlushAFreeSlot now m) sp"
    unfolding timeline_ok_def
  proof (intro conjI)
    show "FlushAFreeSlot now m \<noteq> []" using D(1) by (simp add: FlushAFreeSlot_def)
    have "map fst (FlushAFreeSlot now m) = map fst m" by (simp add: FlushAFreeSlot_def comp_def split_beta)
    with D(2) show "sorted_wrt (<) (map fst (FlushAFreeSlot now m))" by simp
    show "slots_sorted (FlushAFreeSlot now m)" using D(3) sorted by (auto simp: slots_sorted_def FlushAFreeSlot_def)
    show "distinct (map fst (slots_of (FlushAFreeSlot now m)))" unfolding slots by (rule dist) (use D(4) in \<open>simp add: slots_of_def\<close>)
    show "slots_apart (set (slots_of (FlushAFreeSlot now m)))" by (rule slots_apart_subset[OF D(5) sub])
    show "\<forall>(s, e) \<in> set (slots_of (FlushAFreeSlot now m)). s \<le> e \<and> e < sp" using D(6) sub by blast
  qed
  show "free_ticks (FlushAFreeSlot now m) sp \<subseteq> free_ticks m sp" using sub unfolding free_ticks_def by blast
  have keep: "x \<in> set (?d sl)" if "x \<in> set sl" "\<not> snd x < now" for x and sl :: slots
    using that by (induction sl) auto
  show "t \<in> free_ticks (FlushAFreeSlot now m) sp \<longleftrightarrow> t \<in> free_ticks m sp" if "now \<le> t"
  proof -
    have "(s, e) \<in> set (slots_of (FlushAFreeSlot now m))" if se: "(s, e) \<in> set (slots_of m)" "t \<le> e" for s e
    proof -
      obtain k sl where "(k, sl) \<in> set m" "(s, e) \<in> set sl" using se(1) by (force simp: slots_of_def)
      moreover from this(2) have "(s, e) \<in> set (?d sl)" by (rule keep) (use \<open>now \<le> t\<close> se(2) in simp)
      ultimately show ?thesis unfolding slots by force
    qed
    with sub show ?thesis unfolding free_ticks_def by blast
  qed
qed

end
