(* ===== verification/Pal_Timeline.thy ===== *)
theory Pal_Timeline
  imports Pal_Slots
begin

text \<open>
  The scheduler of the flash (\<^verbatim>\<open>PAL2\<close>, pal/old/PAL2.cc): an operation takes its channel for the command
  (\<^verbatim>\<open>DMA0\<close>), its die for the whole time, and its channel again for the data (\<^verbatim>\<open>DMA1\<close>). The two nested
  loops that look for a place are partial functions: not returning is \<^verbatim>\<open>None\<close>. The state keeps what
  the calls of \<^verbatim>\<open>AddLatency\<close> are told (\<^verbatim>\<open>p2_log\<close>); the other statistics, among them the kinds of
  conflicts, are left out.
\<close>

section \<open>Operations, addresses and latencies\<close>

datatype pal_oper = OPER_READ | OPER_WRITE | OPER_ERASE
datatype pal_busy = BUSY_DMA0WAIT | BUSY_DMA0 | BUSY_MEM | BUSY_DMA1WAIT | BUSY_DMA1 | BUSY_END
datatype nand_type = NAND_SLC | NAND_MLC | NAND_TLC
datatype page_type = PAGE_LSB | PAGE_CSB | PAGE_MSB

record cpdpbp =
  ad_Channel :: nat
  ad_Package :: nat
  ad_Die :: nat
  ad_Plane :: nat
  ad_Block :: nat
  ad_Page :: nat

record page_timing =
  pt_read :: nat
  pt_write :: nat

record dma_timing =
  dt_read :: nat
  dt_write :: nat
  dt_erase :: nat

record nand_timing =
  nt_lsb :: page_timing
  nt_csb :: page_timing
  nt_msb :: page_timing
  nt_dma0 :: dma_timing
  nt_dma1 :: dma_timing
  nt_erase :: nat

definition dma_latency :: "dma_timing \<Rightarrow> pal_oper \<Rightarrow> nat" where
  "dma_latency t op = (case op of OPER_READ \<Rightarrow> dt_read t | OPER_WRITE \<Rightarrow> dt_write t | OPER_ERASE \<Rightarrow> dt_erase t)"

definition page_latency :: "page_timing \<Rightarrow> pal_oper \<Rightarrow> nat" where
  "page_latency t op = (if op = OPER_READ then pt_read t else pt_write t)"

definition LatencySLC_GetLatency :: "nand_timing \<Rightarrow> nat \<Rightarrow> pal_oper \<Rightarrow> pal_busy \<Rightarrow> nat" where
  "LatencySLC_GetLatency timing page op busy =
     (case busy of BUSY_DMA0 \<Rightarrow> dma_latency (nt_dma0 timing) op | BUSY_DMA1 \<Rightarrow> dma_latency (nt_dma1 timing) op
      | BUSY_MEM \<Rightarrow> (case op of OPER_READ \<Rightarrow> pt_read (nt_lsb timing) | OPER_WRITE \<Rightarrow> pt_write (nt_lsb timing) | OPER_ERASE \<Rightarrow> nt_erase timing)
      | _ \<Rightarrow> 10)"

definition LatencyMLC_GetPageType :: "nat \<Rightarrow> page_type" where
  "LatencyMLC_GetPageType page = (if page mod 2 = 0 then PAGE_LSB else PAGE_CSB)"

definition LatencyMLC_GetLatency :: "nand_timing \<Rightarrow> nat \<Rightarrow> pal_oper \<Rightarrow> pal_busy \<Rightarrow> nat" where
  "LatencyMLC_GetLatency timing page op busy =
     (case busy of BUSY_DMA0 \<Rightarrow> dma_latency (nt_dma0 timing) op | BUSY_DMA1 \<Rightarrow> dma_latency (nt_dma1 timing) op
      | BUSY_MEM \<Rightarrow> if op = OPER_ERASE then nt_erase timing
          else page_latency (if LatencyMLC_GetPageType page = PAGE_LSB then nt_lsb timing else nt_msb timing) op
      | _ \<Rightarrow> 10)"

definition LatencyTLC_GetPageType :: "nat \<Rightarrow> page_type" where
  "LatencyTLC_GetPageType page =
     (if page \<le> 5 then PAGE_LSB else if page \<le> 7 then PAGE_CSB
      else let n = (page - 8) div 2 mod 3 in if n = 0 then PAGE_LSB else if n = 1 then PAGE_CSB else PAGE_MSB)"

definition LatencyTLC_GetLatency :: "nand_timing \<Rightarrow> nat \<Rightarrow> pal_oper \<Rightarrow> pal_busy \<Rightarrow> nat" where
  "LatencyTLC_GetLatency timing page op busy =
     (case busy of BUSY_DMA0 \<Rightarrow> dma_latency (nt_dma0 timing) op | BUSY_DMA1 \<Rightarrow> dma_latency (nt_dma1 timing) op
      | BUSY_MEM \<Rightarrow> if op = OPER_ERASE then nt_erase timing
          else page_latency (case LatencyTLC_GetPageType page of PAGE_LSB \<Rightarrow> nt_lsb timing | PAGE_CSB \<Rightarrow> nt_csb timing
                             | PAGE_MSB \<Rightarrow> nt_msb timing) op
      | _ \<Rightarrow> 10)"

definition GetLatency :: "nand_type \<Rightarrow> nand_timing \<Rightarrow> nat \<Rightarrow> pal_oper \<Rightarrow> pal_busy \<Rightarrow> nat" where
  "GetLatency ty = (case ty of NAND_SLC \<Rightarrow> LatencySLC_GetLatency | NAND_MLC \<Rightarrow> LatencyMLC_GetLatency | NAND_TLC \<Rightarrow> LatencyTLC_GetLatency)"

section \<open>State\<close>

record pal_param =
  pp_channel :: nat
  pp_package :: nat
  pp_die :: nat
  pp_plane :: nat
  pp_block :: nat
  pp_page :: nat
  pp_pageSize :: nat
  pp_superBlock :: nat
  pp_superPageSize :: nat
  pp_pageInSuperPage :: nat

text \<open>What a call of \<^verbatim>\<open>AddLatency\<close> is told: the three time slots, with the first and the last tick.\<close>

record booking =
  bk_channel :: nat
  bk_die :: nat
  bk_arrived :: nat
  bk_DMA0 :: "nat \<times> nat"
  bk_MEM :: "nat \<times> nat"
  bk_DMA1 :: "nat \<times> nat"

record pal2 =
  p2_ChFreeSlots :: "slot_map list"
  p2_ChStartPoint :: "nat list"
  p2_DieFreeSlots :: "slot_map list"
  p2_DieStartPoint :: "nat list"
  p2_MergedTimeSlots :: slots
  p2_OpTimeStamp :: "pal_oper \<Rightarrow> slots"
  p2_OpBusyTime :: "pal_oper \<Rightarrow> nat"
  p2_ExactBusyTime :: nat
  p2_log :: "booking list"

definition CPDPBPtoDieIdx :: "pal_param \<Rightarrow> cpdpbp \<Rightarrow> nat" where
  "CPDPBPtoDieIdx p a = ad_Die a + ad_Package a * pp_die p + ad_Channel a * pp_die p * pp_package p"

definition new_slots :: "nat list \<Rightarrow> slot_map" where
  "new_slots ks = map (\<lambda>k. (k, [])) (sort (remdups ks))"

definition channel_classes :: "nat \<Rightarrow> nat \<Rightarrow> nat list" where
  "channel_classes SPDIV PGDIV =
     [100000 div SPDIV, 100000 div SPDIV + 100000 div SPDIV, 185000000 div (PGDIV * SPDIV),
      185000000 div (PGDIV * SPDIV) + 100000 div SPDIV, 1500000 div SPDIV]"

definition die_classes :: "nand_type \<Rightarrow> nat \<Rightarrow> nat list" where
  "die_classes ty SPDIV = map (\<lambda>n. n + 100000 div SPDIV)
     (case ty of NAND_SLC \<Rightarrow> [25000000, 300000000, 2000000000]
      | NAND_MLC \<Rightarrow> [40000000, 90000000, 500000000, 1300000000, 3500000000]
      | NAND_TLC \<Rightarrow> [58000000, 78000000, 107000000, 558000000, 2201000000, 5001000000, 2274000000])"

definition PAL2_new :: "nand_type \<Rightarrow> nat \<Rightarrow> pal_param \<Rightarrow> pal2 res" where
  "PAL2_new ty dmaSpeed p =
     (let SPDIV = dmaSpeed div 50 in
      if pp_pageSize p = 0 then Inl DivByZero
      else let PGDIV = 16384 div pp_pageSize p in
      if SPDIV = 0 \<or> PGDIV = 0 then Inl (Panic ''SPDIV or PGDIV is 0'')
      else let totalDie = pp_channel p * pp_package p * pp_die p in
        Inr \<lparr>p2_ChFreeSlots = replicate (pp_channel p) (new_slots (channel_classes SPDIV PGDIV)),
             p2_ChStartPoint = replicate (pp_channel p) 0,
             p2_DieFreeSlots = replicate totalDie (new_slots (die_classes ty SPDIV)),
             p2_DieStartPoint = replicate totalDie 0,
             p2_MergedTimeSlots = [], p2_OpTimeStamp = (\<lambda>op. []), p2_OpBusyTime = (\<lambda>op. 0), p2_ExactBusyTime = 0, p2_log = []\<rparr>)"

section \<open>Looking for a place\<close>

text \<open>\<^verbatim>\<open>LOOP1\<close>: a place for the command on the channel and for the operation on the die. The result is the
  tick and the starts of the two slots.\<close>

partial_function (option) command_place ::
  "slot_map \<times> nat \<Rightarrow> slot_map \<times> nat \<Rightarrow> nat \<Rightarrow> nat \<Rightarrow> nat \<Rightarrow> (nat \<times> nat \<times> nat) res option"
where
  "command_place ch die latDMA0 latMEM DMA0tickFrom =
     (case seek ch latDMA0 DMA0tickFrom of Inl e \<Rightarrow> Some (Inl e)
      | Inr (DMA0tickFrom, tickDMA0) \<Rightarrow>
     (case seek die (latDMA0 + latMEM) DMA0tickFrom of Inl e \<Rightarrow> Some (Inl e)
      | Inr (MEMtickFrom, tickMEM) \<Rightarrow>
          if tickMEM = tickDMA0 then Some (Inr (DMA0tickFrom, tickDMA0, tickMEM))
          else (case seek ch latDMA0 MEMtickFrom of Inl e \<Rightarrow> Some (Inl e)
            | Inr (_, tickDMA0_vrfy) \<Rightarrow>
                if tickDMA0_vrfy = tickDMA0 then Some (Inr (MEMtickFrom, tickDMA0, tickMEM))
                else command_place ch die latDMA0 latMEM MEMtickFrom)))"

text \<open>\<^verbatim>\<open>LOOP0\<close>: a place for the data as well. The result has also the tick at which it begins and the time
  that the die is taken.\<close>

partial_function (option) data_place ::
  "slot_map \<times> nat \<Rightarrow> slot_map \<times> nat \<Rightarrow> nat \<Rightarrow> nat \<Rightarrow> nat \<Rightarrow> nat \<Rightarrow> nat \<Rightarrow> (nat \<times> nat \<times> nat \<times> nat \<times> nat) res option"
where
  "data_place ch die latDMA0 latMEM latDMA1 latANTI DMA0tickFrom =
     (case command_place ch die latDMA0 latMEM DMA0tickFrom of None \<Rightarrow> None
      | Some (Inl e) \<Rightarrow> Some (Inl e)
      | Some (Inr (DMA0tickFrom, tickDMA0, tickMEM)) \<Rightarrow>
     (case seek ch (latDMA1 + latANTI) (DMA0tickFrom + (latDMA0 + latMEM)) of Inl e \<Rightarrow> Some (Inl e)
      | Inr (DMA1tickFrom, tickDMA1) \<Rightarrow>
     (let totalLat = DMA1tickFrom + latDMA1 + latANTI - DMA0tickFrom in
     (case seek die totalLat DMA0tickFrom of Inl e \<Rightarrow> Some (Inl e)
      | Inr (_, tickMEM_vrfy) \<Rightarrow>
          if tickMEM_vrfy = tickMEM then Some (Inr (DMA0tickFrom, tickDMA0, tickMEM, DMA1tickFrom, totalLat))
          else data_place ch die latDMA0 latMEM latDMA1 latANTI tickMEM_vrfy))))"

section \<open>The time that dies are busy\<close>

text \<open>\<^verbatim>\<open>spos\<close> and \<^verbatim>\<open>epos\<close>, with whether the tick is inside: the first slot that has the tick inside, or that
  is the last or followed by one that starts later.\<close>

fun slot_pos :: "nat \<Rightarrow> nat \<Rightarrow> slots \<Rightarrow> nat \<times> bool" where
  "slot_pos i x ((a, b) # (a', b') # xs) =
     (if a \<le> x \<and> x \<le> b then (i, True) else if x < a' then (i, False) else slot_pos (i + 1) x ((a', b') # xs))"
| "slot_pos i x [(a, b)] = (i, a \<le> x \<and> x \<le> b)"
| "slot_pos i x [] = (i, False)"

text \<open>\<^verbatim>\<open>MergedTimeSlots\<close> is given the slot from \<^verbatim>\<open>s\<close> to \<^verbatim>\<open>e\<close>. On the right of \<^verbatim>\<open>spos\<close> a slot is inserted
  behind it, and \<^verbatim>\<open>spos\<close> is then the slot before the new one; inside \<^verbatim>\<open>spos\<close> a slot is inserted at the front.
  Then \<^verbatim>\<open>spos\<close> is given its end, and the slots behind it are removed up to \<^verbatim>\<open>epos\<close>, which runs out of the
  list when \<^verbatim>\<open>epos\<close> comes before.\<close>

definition merge_slot :: "nat \<Rightarrow> nat \<Rightarrow> slots \<Rightarrow> slots res" where
  "merge_slot s e xs =
     (if xs = [] then Inr [(s, e)]
      else let (spos, sin) = slot_pos 0 s xs; (epos, ein) = slot_pos 0 e xs in
        if spos = epos \<and> sin \<and> ein then Inr xs
        else let (xs, spos, epos) =
               (if \<not> sin
                then (take (spos + 1) xs @ (s, e) # drop (spos + 1) xs, spos,
                      if spos = epos then spos + 1 else if spos < epos then epos + 1 else epos)
                else ((s, s + 998) # xs, 0, epos + 1));
               endTick = (if ein then snd (xs ! epos) else e);
               xs = xs[spos := (fst (xs ! spos), endTick)]
             in if epos \<le> spos then Inl OutOfBounds else Inr (take (spos + 1) xs @ drop (epos + 1) xs))"

definition slot_time :: "nat \<times> nat \<Rightarrow> nat" where
  "slot_time = (\<lambda>(s, e). nat ((int e - int s + 1) mod 2 ^ 64))"

definition FlushATimeSlotBusyTime :: "nat \<Rightarrow> slots \<Rightarrow> nat \<Rightarrow> slots \<times> nat" where
  "FlushATimeSlotBusyTime currentTick xs TimeSum =
     (dropWhile (\<lambda>(s, e). e < currentTick) xs,
      TimeSum + sum_list (map slot_time (takeWhile (\<lambda>(s, e). e < currentTick) xs)))"

text \<open>The busy time of each kind of operation. At the end the time between \<^verbatim>\<open>start_tick\<close> and \<^verbatim>\<open>end_tick\<close>
  is added, which are both \<^verbatim>\<open>-1\<close> when there was no operation.\<close>

fun stamp_time :: "(nat \<times> nat) option \<Rightarrow> slots \<Rightarrow> nat" where
  "stamp_time None [] = 1"
| "stamp_time (Some x) [] = slot_time x"
| "stamp_time None (x # xs) = stamp_time (Some x) xs"
| "stamp_time (Some (a, b)) ((s, e) # xs) =
     (if s < b then stamp_time (Some (a, max b e)) xs else slot_time (a, b) + stamp_time (Some (s, e)) xs)"

definition FlushOpTimeStamp :: "pal2 \<Rightarrow> pal2" where
  "FlushOpTimeStamp st = st\<lparr>p2_OpBusyTime := (\<lambda>op. p2_OpBusyTime st op + stamp_time None (p2_OpTimeStamp st op)),
     p2_OpTimeStamp := (\<lambda>op. [])\<rparr>"

definition stamp :: "nat \<Rightarrow> nat \<Rightarrow> slots \<Rightarrow> slots" where
  "stamp s e xs =
     (case map_of xs s of None \<Rightarrow> slot_insert s e xs
      | Some e' \<Rightarrow> if e' < e then map (\<lambda>(s', e'). (s', if s' = s then e else e')) xs else xs)"

section \<open>Scheduling\<close>

definition returned :: "'a res option \<Rightarrow> 'a res" where
  "returned r = (case r of None \<Rightarrow> Inl Diverges | Some x \<Rightarrow> x)"

definition time_slot :: "nat \<Rightarrow> nat \<Rightarrow> nat \<times> nat" where
  "time_slot startTick duration = (startTick, startTick + duration - 1)"

text \<open>Step 5: the three insertions, and the slot for the command that may follow, which is only split
  off. The result has the ticks of \<^verbatim>\<open>DMA0\<close> and \<^verbatim>\<open>DMA1\<close>.\<close>

definition assign ::
  "slot_map \<times> nat \<Rightarrow> slot_map \<times> nat \<Rightarrow> nat \<Rightarrow> nat \<Rightarrow> nat \<Rightarrow> nat \<times> nat \<times> nat \<times> nat \<times> nat
    \<Rightarrow> ((slot_map \<times> nat) \<times> (slot_map \<times> nat) \<times> nat \<times> nat) res"
where
  "assign ch die latDMA0 latDMA1 latANTI = (\<lambda>(DMA0tickFrom, tickDMA0, tickMEM, DMA1tickFrom, totalLat).
     rbind (InsertFreeSlot latDMA0 DMA0tickFrom tickDMA0 False ch) (\<lambda>ch.
     rbind (seek ch (latDMA1 + latANTI) DMA1tickFrom) (\<lambda>(DMA1tickFrom, tickDMA1).
     rbind (InsertFreeSlot latDMA1 (if DMA1tickFrom > tickDMA1 then DMA1tickFrom + latANTI else tickDMA1 + latANTI)
              tickDMA1 False ch) (\<lambda>ch.
     rbind (InsertFreeSlot totalLat DMA0tickFrom tickMEM False die) (\<lambda>die.
     let tsDMA0 = (if DMA0tickFrom < tickDMA0 then tickDMA0 else DMA0tickFrom);
         tsDMA1 = (if DMA1tickFrom < tickDMA1 then tickDMA1 + latANTI else DMA1tickFrom + latANTI);
         tmpTick = (if DMA0tickFrom > tickDMA0 then DMA0tickFrom + latDMA0 else tickDMA0 + latDMA0) in
     rbind (seek ch (latANTI * 2) tmpTick) (\<lambda>(DMA0tickFrom, tickDMA0).
     rbind (if DMA0tickFrom = tmpTick then InsertFreeSlot (latANTI * 2) DMA0tickFrom tickDMA0 True ch else Inr ch) (\<lambda>ch.
       Inr (ch, die, tsDMA0, tsDMA1))))))))"

definition TimelineScheduling ::
  "(nat \<Rightarrow> pal_oper \<Rightarrow> pal_busy \<Rightarrow> nat) \<Rightarrow> pal_param \<Rightarrow> pal_oper \<Rightarrow> nat \<Rightarrow> cpdpbp \<Rightarrow> pal2 \<Rightarrow> (nat \<times> pal2) res"
where
  "TimelineScheduling lat p op arrived a st =
     (let reqCh = ad_Channel a; reqDieIdx = CPDPBPtoDieIdx p a;
          latDMA0 = lat (ad_Page a) op BUSY_DMA0; latMEM = lat (ad_Page a) op BUSY_MEM;
          latDMA1 = lat (ad_Page a) op BUSY_DMA1; latANTI = lat (ad_Page a) OPER_READ BUSY_DMA0 in
      rbind (rnth (p2_ChFreeSlots st) reqCh) (\<lambda>chm. rbind (rnth (p2_ChStartPoint st) reqCh) (\<lambda>chs.
      rbind (rnth (p2_DieFreeSlots st) reqDieIdx) (\<lambda>diem. rbind (rnth (p2_DieStartPoint st) reqDieIdx) (\<lambda>dies.
      rbind (returned (data_place (chm, chs) (diem, dies) latDMA0 latMEM latDMA1 latANTI arrived))
        (\<lambda>(DMA0tickFrom, tickDMA0, tickMEM, DMA1tickFrom, totalLat).
      rbind (assign (chm, chs) (diem, dies) latDMA0 latDMA1 latANTI (DMA0tickFrom, tickDMA0, tickMEM, DMA1tickFrom, totalLat))
        (\<lambda>((chm, chs), (diem, dies), s0, s1).
      let tsDMA0 = time_slot s0 latDMA0; tsDMA1 = time_slot s1 latDMA1;
          tsMEM = time_slot (if DMA0tickFrom < tickMEM then tickMEM else DMA0tickFrom) totalLat in
      rbind (merge_slot (fst tsMEM) (snd tsMEM) (p2_MergedTimeSlots st)) (\<lambda>merged.
        let st = st\<lparr>p2_ChFreeSlots := (p2_ChFreeSlots st)[reqCh := chm], p2_ChStartPoint := (p2_ChStartPoint st)[reqCh := chs],
                    p2_DieFreeSlots := (p2_DieFreeSlots st)[reqDieIdx := diem], p2_DieStartPoint := (p2_DieStartPoint st)[reqDieIdx := dies],
                    p2_MergedTimeSlots := merged,
                    p2_OpTimeStamp := (p2_OpTimeStamp st)(op := stamp (fst tsDMA0) (snd tsDMA1) (p2_OpTimeStamp st op))\<rparr>;
            st = FlushOpTimeStamp st
        in Inr (snd tsDMA1, st\<lparr>p2_log := p2_log st @ [\<lparr>bk_channel = reqCh, bk_die = reqDieIdx, bk_arrived = arrived,
             bk_DMA0 = tsDMA0, bk_MEM = tsMEM, bk_DMA1 = tsDMA1\<rparr>]\<rparr>)))))))))"

definition FlushTimeSlots :: "nat \<Rightarrow> pal2 \<Rightarrow> pal2" where
  "FlushTimeSlots currentTick st =
     (let (xs, total) = FlushATimeSlotBusyTime currentTick (p2_MergedTimeSlots st) (p2_ExactBusyTime st)
      in st\<lparr>p2_MergedTimeSlots := xs, p2_ExactBusyTime := total\<rparr>)"

definition FlushFreeSlots :: "nat \<Rightarrow> pal2 \<Rightarrow> pal2" where
  "FlushFreeSlots currentTick st =
     FlushTimeSlots currentTick (st\<lparr>p2_ChFreeSlots := map (FlushAFreeSlot currentTick) (p2_ChFreeSlots st),
       p2_DieFreeSlots := map (FlushAFreeSlot currentTick) (p2_DieFreeSlots st)\<rparr>)"

end
