(* ===== verification/Pal_Schedule.thy ===== *)
theory Pal_Schedule
  imports Pal_Timeline
begin

text \<open>
  The loops of the scheduler end: the tick they start from grows with every turn and does not pass the
  later of the two start points. What they find is free on the channel and on the die, and is not free
  any more after the insertions.
\<close>

section \<open>The loops end\<close>

lemma command_place_ok:
  assumes cm: "timeline_ok cm cs" and dm: "timeline_ok dm ds" and l0: "0 < l0"
  shows "\<exists>D t0 tm. command_place (cm, cs) (dm, ds) l0 lm from = Some (Inr (D, t0, tm))
    \<and> from \<le> D \<and> D \<le> max from (max cs ds) \<and> fits cm cs l0 D t0 \<and> fits dm ds (l0 + lm) D tm"
proof (induction "max cs ds - from" arbitrary: "from" rule: less_induct)
  case less
  obtain D t0 where D: "seek (cm, cs) l0 from = Inr (D, t0)" "fits cm cs l0 D t0" "from \<le> D" "D \<le> max from cs" "D = from \<or> D = t0"
    by (rule seek_ok[OF cm])
  obtain M tm where M: "seek (dm, ds) (l0 + lm) D = Inr (M, tm)" "fits dm ds (l0 + lm) M tm" "D \<le> M" "M \<le> max D ds" "M = D \<or> M = tm"
    by (rule seek_ok[OF dm])
  obtain V v where V: "seek (cm, cs) l0 M = Inr (V, v)" "fits cm cs l0 V v" "M \<le> V" "V = M \<or> V = v"
    by (rule seek_ok[OF cm])
  have t0: "t0 \<le> D" using D(2) by (simp add: fits_def)
  consider "tm = t0" | "tm \<noteq> t0" "v = t0" | "tm \<noteq> t0" "v \<noteq> t0" by blast
  then show ?case
  proof cases
    case 1
    with M(3,5) t0 have "M = D" by auto
    with 1 D M show ?thesis by (subst command_place.simps) (auto simp: max_def split: if_splits)
  next
    case 2
    with V(3,4) t0 M(3) have "V = M" by auto
    with 2 D M V show ?thesis by (subst command_place.simps) (auto simp: max_def split: if_splits)
  next
    case 3
    have "M \<noteq> from"
    proof
      assume "M = from"
      with D(3) M(3) have "M = D" by simp
      with seek_fits[OF cm D(2) l0] V(1) 3(2) show False by simp
    qed
    with D(3,4) M(3,4) have M': "from < M" "M \<le> max cs ds" by (auto simp: max_def split: if_splits)
    have "max cs ds - M < max cs ds - from" by (rule diff_less_mono2) (use M' in simp_all)
    from less[OF this] M' obtain D' t0' tm' where
      "command_place (cm, cs) (dm, ds) l0 lm M = Some (Inr (D', t0', tm'))" "M \<le> D'" "D' \<le> max M (max cs ds)"
      "fits cm cs l0 D' t0'" "fits dm ds (l0 + lm) D' tm'" by auto
    with 3 D M V M' show ?thesis by (subst command_place.simps) auto
  qed
qed

lemma data_place_ok:
  assumes cm: "timeline_ok cm cs" and dm: "timeline_ok dm ds" and l: "0 < l0" "0 < l1"
  shows "\<exists>D t0 tm d1 lt. data_place (cm, cs) (dm, ds) l0 lm l1 la from = Some (Inr (D, t0, tm, d1, lt))
    \<and> from \<le> D \<and> fits cm cs l0 D t0 \<and> fits dm ds lt D tm \<and> D + (l0 + lm) \<le> d1 \<and> lt = d1 + l1 + la - D"
proof (induction "max cs ds - from" arbitrary: "from" rule: less_induct)
  case less
  obtain D t0 tm where D: "command_place (cm, cs) (dm, ds) l0 lm from = Some (Inr (D, t0, tm))" "from \<le> D"
    "D \<le> max from (max cs ds)" "fits cm cs l0 D t0" "fits dm ds (l0 + lm) D tm"
    using command_place_ok[OF cm dm l(1)] by blast
  obtain d1 t1 where d1: "seek (cm, cs) (l1 + la) (D + (l0 + lm)) = Inr (d1, t1)" "D + (l0 + lm) \<le> d1"
    by (rule seek_ok[OF cm])
  let ?lt = "d1 + l1 + la - D"
  obtain V v where V: "seek (dm, ds) ?lt D = Inr (V, v)" "fits dm ds ?lt V v" "D \<le> V" "V \<le> max D ds" "V = D \<or> V = v"
    by (rule seek_ok[OF dm])
  have eq: "data_place (cm, cs) (dm, ds) l0 lm l1 la from
     = (if v = tm then Some (Inr (D, t0, tm, d1, ?lt)) else data_place (cm, cs) (dm, ds) l0 lm l1 la v)"
    by (subst data_place.simps) (simp add: D(1) d1(1) V(1) Let_def)
  have tm: "tm \<le> D" using D(5) by (simp add: fits_def)
  show ?case
  proof (cases "v = tm")
    case True
    with V(3,5) tm have "V = D" by auto
    with True V(2) D d1(2) eq show ?thesis by auto
  next
    case False
    have "V \<noteq> D"
    proof
      assume "V = D"
      moreover have "0 < ?lt" using l(2) d1(2) by simp
      ultimately have "v = tm" using fits_unique[OF dm D(5), of ?lt v] V(2) l(1) by simp
      with False show False by simp
    qed
    with V(3-5) have v: "V = v" "D < v" "v \<le> ds" by (auto simp: max_def split: if_splits)
    have "max cs ds - v < max cs ds - from" by (rule diff_less_mono2) (use v D(2) in \<open>auto simp: max_def\<close>)
    from less[OF this] False eq v(2) D(2) show ?thesis by auto
  qed
qed

section \<open>The insertions\<close>

lemma booked_D:
  assumes "booked m sp m' sp' X"
  shows "timeline_ok m' sp'" "X \<subseteq> free_ticks m sp" "free_ticks m' sp' \<subseteq> free_ticks m sp" "X \<inter> free_ticks m' sp' = {}"
  using assms by (auto simp: booked_def)

lemma assign_ok:
  assumes cm: "timeline_ok cm cs" and dm: "timeline_ok dm ds" and l: "0 < l0" "0 < l1" "0 < la"
    and p: "fits cm cs l0 D t0" "fits dm ds lt D tm" "D + l0 \<le> d1" "0 < lt"
  shows "\<exists>cm' cs' dm' ds' s1. assign (cm, cs) (dm, ds) l0 l1 la (D, t0, tm, d1, lt) = Inr ((cm', cs'), (dm', ds'), D, s1)
    \<and> d1 + la \<le> s1 \<and> timeline_ok cm' cs' \<and> timeline_ok dm' ds'
    \<and> {D..<D + l0} \<union> {s1..<s1 + l1} \<subseteq> free_ticks cm cs \<and> free_ticks cm' cs' \<subseteq> free_ticks cm cs - ({D..<D + l0} \<union> {s1..<s1 + l1})
    \<and> {D..<D + lt} \<subseteq> free_ticks dm ds \<and> free_ticks dm' ds' \<subseteq> free_ticks dm ds - {D..<D + lt}"
proof -
  obtain cm1 cs1 where c1: "InsertFreeSlot l0 D t0 False (cm, cs) = Inr (cm1, cs1)" "booked cm cs cm1 cs1 {D..<D + l0}"
    using InsertFreeSlot_ok[OF cm p(1) order_refl order_refl l(1), of False] by auto
  note B1 = booked_D[OF c1(2)]
  obtain d1' t1 where s: "seek (cm1, cs1) (l1 + la) d1 = Inr (d1', t1)" "fits cm1 cs1 (l1 + la) d1' t1" "d1 \<le> d1'"
    by (rule seek_ok[OF B1(1)])
  have t1: "t1 \<le> d1'" using s(2) by (simp add: fits_def)
  obtain cm2 cs2 where c2: "InsertFreeSlot l1 (d1' + la) t1 False (cm1, cs1) = Inr (cm2, cs2)"
    "booked cm1 cs1 cm2 cs2 {d1' + la..<d1' + la + l1}"
    using InsertFreeSlot_ok[OF B1(1) s(2) _ _ l(2), of "d1' + la" False] by auto
  note B2 = booked_D[OF c2(2)]
  obtain dm1 ds1 where d: "InsertFreeSlot lt D tm False (dm, ds) = Inr (dm1, ds1)" "booked dm ds dm1 ds1 {D..<D + lt}"
    using InsertFreeSlot_ok[OF dm p(2) order_refl order_refl p(4), of False] by auto
  note Bd = booked_D[OF d(2)]
  obtain x y where x: "seek (cm2, cs2) (la * 2) (D + l0) = Inr (x, y)" "fits cm2 cs2 (la * 2) x y"
    by (rule seek_ok[OF B2(1)])
  have "0 < la * 2" using l(3) by simp
  then obtain cm3 cs3 where c3: "InsertFreeSlot (la * 2) x y True (cm2, cs2) = Inr (cm3, cs3)" "booked cm2 cs2 cm3 cs3 {}"
    using InsertFreeSlot_ok[OF B2(1) x(2) order_refl order_refl, of True] by auto
  note B3 = booked_D[OF c3(2)]
  have t0: "t0 \<le> D" using p(1) by (simp add: fits_def)
  then have tmp: "(if D > t0 then D + l0 else t0 + l0) = D + l0" "(if D < t0 then t0 else D) = D" by auto
  have "(if d1' > t1 then d1' + la else t1 + la) = d1' + la" "(if d1' < t1 then t1 + la else d1' + la) = d1' + la"
    using t1 by auto
  then have r: "assign (cm, cs) (dm, ds) l0 l1 la (D, t0, tm, d1, lt)
    = Inr (if x = D + l0 then (cm3, cs3) else (cm2, cs2), (dm1, ds1), D, d1' + la)"
    unfolding assign_def using c1(1) s(1) c2(1) d(1) x(1) c3(1) by (cases "x = D + l0") (simp_all add: tmp Let_def)
  have "timeline_ok cm' cs' \<and> free_ticks cm' cs' \<subseteq> free_ticks cm cs - ({D..<D + l0} \<union> {d1' + la..<d1' + la + l1})"
    if "(cm', cs') = (if x = D + l0 then (cm3, cs3) else (cm2, cs2))" for cm' cs'
    using that B1 B2 B3 by (auto split: if_splits)
  with r s(3) Bd B1(2,3) B2(2) show ?thesis
    by (cases "x = D + l0") (simp_all, blast+)
qed

section \<open>The busy time does not stop the scheduler\<close>

definition merged_ok :: "slots \<Rightarrow> bool" where
  "merged_ok xs \<longleftrightarrow> sorted_wrt (\<lambda>(a, b) (a', b'). a < a' \<and> b < a') xs"

lemma slot_pos_less: "xs \<noteq> [] \<Longrightarrow> fst (slot_pos i x xs) < i + length xs"
  by (induction i x xs rule: slot_pos.induct) auto

lemma slot_pos_ge: "i \<le> fst (slot_pos i x xs)"
  by (induction i x xs rule: slot_pos.induct) (auto split: prod.splits)

lemma slot_pos_mono: "merged_ok xs \<Longrightarrow> s \<le> e \<Longrightarrow> fst (slot_pos i s xs) \<le> fst (slot_pos i e xs)"
proof (induction i s xs rule: slot_pos.induct)
  case (1 i s a b a' b' xs)
  have "i + 1 \<le> fst (slot_pos (i + 1) e ((a', b') # xs))" by (rule slot_pos_ge)
  with 1 show ?case by (auto simp: merged_ok_def)
qed auto

text \<open>What follows \<^verbatim>\<open>epos\<close> starts after the tick.\<close>

lemma slot_pos_after: "merged_ok xs \<Longrightarrow> fst (slot_pos i x xs) < i + j \<Longrightarrow> j < length xs \<Longrightarrow> x < fst (xs ! j)"
proof (induction i x xs arbitrary: j rule: slot_pos.induct)
  case (1 i x a b a' b' xs)
  show ?case
  proof (cases "(a \<le> x \<and> x \<le> b) \<or> x < a'")
    case True
    have j: "0 < j" using 1(3) True by (cases j) (auto split: if_splits)
    have "x < a'" using True 1(2) by (auto simp: merged_ok_def)
    moreover have "a' \<le> fst (((a, b) # (a', b') # xs) ! j)"
    proof (cases "j = 1")
      case False
      then obtain k where k: "j = Suc (Suc k)" "k < length xs" using j 1(4) by (cases j; cases "j - 1") auto
      then have "xs ! k \<in> set xs" by simp
      with 1(2) have "a' < fst (xs ! k)" unfolding merged_ok_def by (fastforce simp: split_beta)
      with k(1) show ?thesis by simp
    qed simp
    ultimately show ?thesis by simp
  next
    case False
    then have sp: "slot_pos i x ((a, b) # (a', b') # xs) = slot_pos (i + 1) x ((a', b') # xs)" by auto
    have "0 < j" using 1(3) slot_pos_ge[of "i + 1" x "(a', b') # xs"] unfolding sp by auto
    then obtain k where k: "j = Suc k" by (cases j) auto
    have "x < fst (((a', b') # xs) ! k)"
      by (rule 1(1)) (use False 1(2-4) k in \<open>auto simp: merged_ok_def sp\<close>)
    then show ?thesis by (simp add: k)
  qed
qed auto

text \<open>What the merge does, as long as the tick \<^verbatim>\<open>s\<close> is not after \<^verbatim>\<open>e\<close>.\<close>

lemma merge_slot_eq:
  assumes "merged_ok xs" "s \<le> e" "xs \<noteq> []"
    and s: "slot_pos 0 s xs = (i, sin)" and e: "slot_pos 0 e xs = (j, ein)"
  shows "merge_slot s e xs = Inr (if i = j \<and> sin \<and> ein then xs
    else (if sin then [(s, if ein then snd (xs ! j) else e)]
          else take i xs @ [(fst (xs ! i), if ein \<and> i < j then snd (xs ! j) else e)]) @ drop (j + 1) xs)"
proof -
  have ij: "i \<le> j" "j < length xs"
    using slot_pos_mono[OF assms(1,2), of 0] slot_pos_less[OF assms(3), of 0 e] s e by simp_all
  show ?thesis
  proof (cases sin)
    case True
    with s e assms(3) ij show ?thesis by (auto simp: merge_slot_def)
  next
    case False
    let ?L = "take (Suc i) xs @ (s, e) # drop (Suc i) xs"
    have L: "length ?L = Suc (length xs)" "?L ! i = xs ! i" "?L ! (Suc j) = (if i = j then (s, e) else xs ! j)"
      using ij by (auto simp: nth_append min_def nth_Cons')
    have tk: "take (Suc i) (?L[i := z]) = take i xs @ [z]" for z
      using ij by (simp add: take_update_swap take_Suc_conv_app_nth list_update_append)
    have dr: "drop (Suc (Suc j)) (?L[i := z]) = drop (Suc j) xs" for z
      using ij by (auto simp: drop_update_cancel min_def Suc_diff_le)
    have m: "merge_slot s e xs = (let xs' = ?L[i := (fst (?L ! i), if ein then snd (?L ! Suc j) else e)]
        in Inr (take (Suc i) xs' @ drop (Suc (Suc j)) xs'))"
      using s e assms(3) ij False by (cases "i = j") (simp_all add: merge_slot_def Let_def del: take_append drop_append)
    show ?thesis unfolding m Let_def tk dr L(2,3) using ij False by auto
  qed
qed

lemma merge_slot_ok:
  assumes ok: "merged_ok xs" and se: "s \<le> e"
  shows "\<exists>ys. merge_slot s e xs = Inr ys \<and> merged_ok ys"
proof (cases "xs = []")
  case True
  then show ?thesis by (simp add: merge_slot_def merged_ok_def)
next
  case False
  obtain i sin j ein where p: "slot_pos 0 s xs = (i, sin)" "slot_pos 0 e xs = (j, ein)" by (metis surj_pair)
  have ij: "i \<le> j" "j < length xs"
    using slot_pos_mono[OF ok se, of 0] slot_pos_less[OF False, of 0 e] p by simp_all
  let ?rest = "drop (j + 1) xs" and ?R = "\<lambda>(a :: nat, b :: nat) (a' :: nat, b' :: nat). a < a' \<and> b < a'"
  have srt: "sorted_wrt ?R xs" using ok by (simp add: merged_ok_def)
  then have lt: "?R (xs ! k) (xs ! l)" if "k < l" "l < length xs" for k l
    using that by (simp add: sorted_wrt_iff_nth_less)
  have rest: "e < fst y" "j < length xs \<longrightarrow> ?R (xs ! j) y" "?R (xs ! i) y" if y: "y \<in> set ?rest" for y
  proof -
    obtain k where k: "y = xs ! k" "j < k" "k < length xs"
    proof -
      obtain l where "l < length ?rest" "y = ?rest ! l" using y by (auto simp: in_set_conv_nth)
      then show ?thesis by (intro that[of "j + 1 + l"]) simp_all
    qed
    show "e < fst y" using slot_pos_after[OF ok, of 0 e k] p k by simp
    show "j < length xs \<longrightarrow> ?R (xs ! j) y" using lt[of j k] k by simp
    show "?R (xs ! i) y" using lt[of i k] k ij by simp
  qed
  define E where "E = (if ein \<and> (sin \<or> i < j) then snd (xs ! j) else e)"
  have E: "E < fst y" if "y \<in> set ?rest" for y
    using rest[OF that] ij by (auto simp: E_def split_beta)
  have tail: "sorted_wrt ?R ?rest" using srt by (rule sorted_wrt_drop)
  have a: "sorted_wrt ?R ((s, E) # ?rest)" using tail E rest(1) se by (fastforce simp: split_beta)
  have b: "sorted_wrt ?R (take i xs @ (fst (xs ! i), E) # ?rest)"
  proof -
    have "\<forall>x \<in> set (take i xs). \<forall>y \<in> set ((fst (xs ! i), E) # ?rest). ?R x y"
    proof (intro ballI)
      fix x y assume x: "x \<in> set (take i xs)" and y: "y \<in> set ((fst (xs ! i), E) # ?rest)"
      obtain k where k: "x = xs ! k" "k < i" using x ij by (auto simp: in_set_conv_nth)
      have "?R x (xs ! i)" using lt[of k i] k ij by simp
      with y rest(3)[of y] show "?R x y" by (auto simp: split_beta)
    qed
    moreover have "sorted_wrt ?R (take i xs)" using srt by (rule sorted_wrt_take)
    moreover have "sorted_wrt ?R ((fst (xs ! i), E) # ?rest)" using tail E rest(3) by (fastforce simp: split_beta)
    ultimately show ?thesis unfolding sorted_wrt_append by blast
  qed
  have "merge_slot s e xs = Inr (if i = j \<and> sin \<and> ein then xs else if sin then (s, E) # ?rest else take i xs @ (fst (xs ! i), E) # ?rest)"
    by (subst merge_slot_eq[OF ok se False p]) (auto simp: E_def)
  with a b ok show ?thesis by (auto simp: merged_ok_def)
qed

section \<open>One operation\<close>

definition slot_ticks :: "nat \<times> nat \<Rightarrow> nat set" where
  "slot_ticks = (\<lambda>(s, e). {s..e})"

definition channel_ticks :: "booking \<Rightarrow> nat set" where
  "channel_ticks b = slot_ticks (bk_DMA0 b) \<union> slot_ticks (bk_DMA1 b)"

definition lat_ok :: "(nat \<Rightarrow> pal_oper \<Rightarrow> pal_busy \<Rightarrow> nat) \<Rightarrow> bool" where
  "lat_ok lat \<longleftrightarrow> (\<forall>page op. 0 < lat page op BUSY_DMA0 \<and> 0 < lat page op BUSY_DMA1)"

definition address_ok :: "pal_param \<Rightarrow> cpdpbp \<Rightarrow> bool" where
  "address_ok p a \<longleftrightarrow> ad_Channel a < pp_channel p \<and> ad_Package a < pp_package p \<and> ad_Die a < pp_die p"

definition total_die :: "pal_param \<Rightarrow> nat" where
  "total_die p = pp_channel p * pp_package p * pp_die p"

definition pal2_ok :: "pal_param \<Rightarrow> pal2 \<Rightarrow> bool" where
  "pal2_ok p st \<longleftrightarrow> length (p2_ChFreeSlots st) = pp_channel p \<and> length (p2_ChStartPoint st) = pp_channel p
     \<and> length (p2_DieFreeSlots st) = total_die p \<and> length (p2_DieStartPoint st) = total_die p
     \<and> (\<forall>i < pp_channel p. timeline_ok (p2_ChFreeSlots st ! i) (p2_ChStartPoint st ! i))
     \<and> (\<forall>i < total_die p. timeline_ok (p2_DieFreeSlots st ! i) (p2_DieStartPoint st ! i))
     \<and> merged_ok (p2_MergedTimeSlots st)"

definition channel_free :: "pal2 \<Rightarrow> nat \<Rightarrow> nat set" where
  "channel_free st i = free_ticks (p2_ChFreeSlots st ! i) (p2_ChStartPoint st ! i)"

definition die_free :: "pal2 \<Rightarrow> nat \<Rightarrow> nat set" where
  "die_free st i = free_ticks (p2_DieFreeSlots st ! i) (p2_DieStartPoint st ! i)"

text \<open>Two operations that share a channel or a die do not have a tick of it in common.\<close>

definition apart :: "booking \<Rightarrow> booking \<Rightarrow> bool" where
  "apart b b' \<longleftrightarrow> (bk_channel b = bk_channel b' \<longrightarrow> channel_ticks b \<inter> channel_ticks b' = {})
     \<and> (bk_die b = bk_die b' \<longrightarrow> slot_ticks (bk_MEM b) \<inter> slot_ticks (bk_MEM b') = {})"

definition pal2_inv :: "pal_param \<Rightarrow> pal2 \<Rightarrow> bool" where
  "pal2_inv p st \<longleftrightarrow> pal2_ok p st \<and> sorted_wrt apart (p2_log st)
     \<and> (\<forall>b \<in> set (p2_log st). bk_channel b < pp_channel p \<and> bk_die b < total_die p
          \<and> channel_ticks b \<inter> channel_free st (bk_channel b) = {} \<and> slot_ticks (bk_MEM b) \<inter> die_free st (bk_die b) = {})"

text \<open>The times of one operation: it starts when the command is sent, not before it has arrived; the die is
  taken from then until the end of the data transfer begins, at least.\<close>

definition times_ok :: "(nat \<Rightarrow> pal_oper \<Rightarrow> pal_busy \<Rightarrow> nat) \<Rightarrow> pal_oper \<Rightarrow> nat \<Rightarrow> cpdpbp \<Rightarrow> booking \<Rightarrow> bool" where
  "times_ok lat op arrived a b \<longleftrightarrow>
     (\<exists>s0 s1. arrived \<le> s0 \<and> bk_DMA0 b = time_slot s0 (lat (ad_Page a) op BUSY_DMA0) \<and> fst (bk_MEM b) = s0
        \<and> s0 + lat (ad_Page a) op BUSY_DMA0 + lat (ad_Page a) op BUSY_MEM + lat (ad_Page a) OPER_READ BUSY_DMA0 \<le> s1
        \<and> bk_DMA1 b = time_slot s1 (lat (ad_Page a) op BUSY_DMA1))"

lemma die_index_less:
  assumes "address_ok p a"
  shows "CPDPBPtoDieIdx p a < total_die p"
proof -
  let ?c = "pp_channel p" and ?w = "pp_package p" and ?d = "pp_die p"
  have a: "ad_Channel a < ?c" "ad_Package a < ?w" "ad_Die a < ?d" using assms by (simp_all add: address_ok_def)
  have "ad_Die a + ad_Package a * ?d < Suc (ad_Package a) * ?d" using a(3) by simp
  also have "\<dots> \<le> ?w * ?d" using a(2) by (intro mult_le_mono1) simp
  finally have "ad_Die a + ad_Package a * ?d < ?w * ?d" .
  moreover have "CPDPBPtoDieIdx p a = ad_Die a + ad_Package a * ?d + ad_Channel a * (?w * ?d)"
    by (simp add: CPDPBPtoDieIdx_def ac_simps)
  ultimately have "CPDPBPtoDieIdx p a < Suc (ad_Channel a) * (?w * ?d)" by simp
  also have "\<dots> \<le> ?c * (?w * ?d)" using a(1) by (intro mult_le_mono1) simp
  finally show ?thesis by (simp add: total_die_def mult.assoc)
qed

lemma slot_ticks_time: "0 < n \<Longrightarrow> slot_ticks (time_slot s n) = {s..<s + n}"
  by (auto simp: slot_ticks_def time_slot_def)

lemma TimelineScheduling_ok:
  assumes inv: "pal2_inv p st" and lat: "lat_ok lat" and a: "address_ok p a"
  shows "\<exists>t st' b. TimelineScheduling lat p op arrived a st = Inr (t, st') \<and> pal2_inv p st'
    \<and> p2_log st' = p2_log st @ [b] \<and> times_ok lat op arrived a b \<and> t = snd (bk_DMA1 b)
    \<and> bk_channel b = ad_Channel a \<and> bk_die b = CPDPBPtoDieIdx p a"
proof -
  let ?c = "ad_Channel a" and ?d = "CPDPBPtoDieIdx p a"
  let ?l0 = "lat (ad_Page a) op BUSY_DMA0" and ?lm = "lat (ad_Page a) op BUSY_MEM"
    and ?l1 = "lat (ad_Page a) op BUSY_DMA1" and ?la = "lat (ad_Page a) OPER_READ BUSY_DMA0"
  let ?cm = "p2_ChFreeSlots st ! ?c" and ?cs = "p2_ChStartPoint st ! ?c"
    and ?dm = "p2_DieFreeSlots st ! ?d" and ?ds = "p2_DieStartPoint st ! ?d"
  have ok: "pal2_ok p st" using inv by (simp add: pal2_inv_def)
  have c: "?c < pp_channel p" using a by (simp add: address_ok_def)
  note d = die_index_less[OF a]
  have len: "?c < length (p2_ChFreeSlots st)" "?c < length (p2_ChStartPoint st)" "?d < length (p2_DieFreeSlots st)"
    "?d < length (p2_DieStartPoint st)" using ok c d by (simp_all add: pal2_ok_def)
  have tl: "timeline_ok ?cm ?cs" "timeline_ok ?dm ?ds" using ok c d by (simp_all add: pal2_ok_def)
  have l: "0 < ?l0" "0 < ?l1" "0 < ?la" using lat by (simp_all add: lat_ok_def)
  obtain D t0 tm d1 n where P: "data_place (?cm, ?cs) (?dm, ?ds) ?l0 ?lm ?l1 ?la arrived = Some (Inr (D, t0, tm, d1, n))"
    "arrived \<le> D" "fits ?cm ?cs ?l0 D t0" "fits ?dm ?ds n D tm" "D + (?l0 + ?lm) \<le> d1" "n = d1 + ?l1 + ?la - D"
    using data_place_ok[OF tl l(1,2)] by blast
  have n: "0 < n" "D + ?l0 \<le> d1" using P(5,6) l by simp_all
  obtain cm' cs' dm' ds' s1 where A: "assign (?cm, ?cs) (?dm, ?ds) ?l0 ?l1 ?la (D, t0, tm, d1, n) = Inr ((cm', cs'), (dm', ds'), D, s1)"
    "d1 + ?la \<le> s1" "timeline_ok cm' cs'" "timeline_ok dm' ds'"
    "{D..<D + ?l0} \<union> {s1..<s1 + ?l1} \<subseteq> free_ticks ?cm ?cs" "free_ticks cm' cs' \<subseteq> free_ticks ?cm ?cs - ({D..<D + ?l0} \<union> {s1..<s1 + ?l1})"
    "{D..<D + n} \<subseteq> free_ticks ?dm ?ds" "free_ticks dm' ds' \<subseteq> free_ticks ?dm ?ds - {D..<D + n}"
    using assign_ok[OF tl l P(3,4) n(2,1)] by blast
  have tm: "(if D < tm then tm else D) = D" using P(4) by (auto simp: fits_def)
  obtain ys where ys: "merge_slot D (D + n - 1) (p2_MergedTimeSlots st) = Inr ys" "merged_ok ys"
  proof -
    have "merged_ok (p2_MergedTimeSlots st)" "D \<le> D + n - 1" using ok n(1) by (simp_all add: pal2_ok_def)
    from merge_slot_ok[OF this] that show ?thesis by blast
  qed
  define b where "b = \<lparr>bk_channel = ?c, bk_die = ?d, bk_arrived = arrived, bk_DMA0 = time_slot D ?l0,
    bk_MEM = time_slot D n, bk_DMA1 = time_slot s1 ?l1\<rparr>"
  define st1 where "st1 = FlushOpTimeStamp (st\<lparr>p2_ChFreeSlots := (p2_ChFreeSlots st)[?c := cm'], p2_ChStartPoint := (p2_ChStartPoint st)[?c := cs'],
     p2_DieFreeSlots := (p2_DieFreeSlots st)[?d := dm'], p2_DieStartPoint := (p2_DieStartPoint st)[?d := ds'], p2_MergedTimeSlots := ys,
     p2_OpTimeStamp := (p2_OpTimeStamp st)(op := stamp D (s1 + ?l1 - 1) (p2_OpTimeStamp st op))\<rparr>)"
  define st2 where "st2 = st1\<lparr>p2_log := p2_log st @ [b]\<rparr>"
  have "p2_log st1 = p2_log st" by (simp add: st1_def FlushOpTimeStamp_def)
  then have r: "TimelineScheduling lat p op arrived a st = Inr (snd (bk_DMA1 b), st2)"
    using len P(1) A(1) ys(1)
    by (simp add: TimelineScheduling_def returned_def tm b_def st1_def st2_def time_slot_def Let_def)
  have f: "p2_ChFreeSlots st2 = (p2_ChFreeSlots st)[?c := cm']" "p2_ChStartPoint st2 = (p2_ChStartPoint st)[?c := cs']"
    "p2_DieFreeSlots st2 = (p2_DieFreeSlots st)[?d := dm']" "p2_DieStartPoint st2 = (p2_DieStartPoint st)[?d := ds']"
    "p2_MergedTimeSlots st2 = ys" "p2_log st2 = p2_log st @ [b]"
    by (simp_all add: st2_def st1_def FlushOpTimeStamp_def)
  have ok2: "pal2_ok p st2" using ok A(3,4) ys(2) len by (auto simp: pal2_ok_def f nth_list_update)
  have bt: "channel_ticks b = {D..<D + ?l0} \<union> {s1..<s1 + ?l1}" "slot_ticks (bk_MEM b) = {D..<D + n}"
    using l n(1) by (simp_all add: channel_ticks_def b_def slot_ticks_time)
  have cf: "channel_free st2 i \<subseteq> channel_free st i" "die_free st2 i \<subseteq> die_free st i" for i
    using A(6,8) len by (auto simp: channel_free_def die_free_def f nth_list_update)
  have new: "channel_ticks b \<subseteq> channel_free st ?c" "slot_ticks (bk_MEM b) \<subseteq> die_free st ?d"
    "channel_ticks b \<inter> channel_free st2 ?c = {}" "slot_ticks (bk_MEM b) \<inter> die_free st2 ?d = {}"
    using A(5-8) len unfolding bt by (auto simp: channel_free_def die_free_def f)
  have bk: "bk_channel b = ?c" "bk_die b = ?d" by (simp_all add: b_def)
  have old: "bk_channel b' < pp_channel p \<and> bk_die b' < total_die p
      \<and> channel_ticks b' \<inter> channel_free st (bk_channel b') = {} \<and> slot_ticks (bk_MEM b') \<inter> die_free st (bk_die b') = {}"
    if "b' \<in> set (p2_log st)" for b' using inv that by (simp add: pal2_inv_def)
  have ap: "apart b' b" if "b' \<in> set (p2_log st)" for b'
  proof -
    have "bk_channel b' = ?c \<longrightarrow> channel_ticks b' \<inter> channel_ticks b = {}" using old[OF that] new(1) by force
    moreover have "bk_die b' = ?d \<longrightarrow> slot_ticks (bk_MEM b') \<inter> slot_ticks (bk_MEM b) = {}" using old[OF that] new(2) by force
    ultimately show ?thesis by (simp add: apart_def bk)
  qed
  have "sorted_wrt apart (p2_log st2)" using inv ap by (simp add: f pal2_inv_def sorted_wrt_append)
  moreover have "bk_channel b' < pp_channel p \<and> bk_die b' < total_die p
      \<and> channel_ticks b' \<inter> channel_free st2 (bk_channel b') = {} \<and> slot_ticks (bk_MEM b') \<inter> die_free st2 (bk_die b') = {}"
    if "b' \<in> set (p2_log st2)" for b'
  proof (cases "b' = b")
    case True
    with new(3,4) c d show ?thesis by (simp add: bk)
  next
    case False
    then have "b' \<in> set (p2_log st)" using that by (simp add: f)
    from old[OF this] cf show ?thesis by blast
  qed
  ultimately have inv2: "pal2_inv p st2" using ok2 unfolding pal2_inv_def by blast
  have "times_ok lat op arrived a b"
    unfolding times_ok_def
    by (rule exI[of _ D], rule exI[of _ s1]) (use P(2,5) A(2) in \<open>simp add: b_def time_slot_def\<close>)
  with r inv2 f(6) bk show ?thesis by blast
qed

section \<open>Sequences of operations\<close>

lemma FlushFreeSlots_inv:
  assumes "pal2_inv p st"
  shows "pal2_inv p (FlushFreeSlots now st)" "p2_log (FlushFreeSlots now st) = p2_log st"
proof -
  let ?st = "FlushFreeSlots now st"
  have f: "p2_ChFreeSlots ?st = map (FlushAFreeSlot now) (p2_ChFreeSlots st)" "p2_ChStartPoint ?st = p2_ChStartPoint st"
    "p2_DieFreeSlots ?st = map (FlushAFreeSlot now) (p2_DieFreeSlots st)" "p2_DieStartPoint ?st = p2_DieStartPoint st"
    "p2_MergedTimeSlots ?st = dropWhile (\<lambda>(s, e). e < now) (p2_MergedTimeSlots st)" "p2_log ?st = p2_log st"
    by (simp_all add: FlushFreeSlots_def FlushTimeSlots_def FlushATimeSlotBusyTime_def)
  show "p2_log ?st = p2_log st" by (rule f(6))
  have ok: "pal2_ok p st" using assms by (simp add: pal2_inv_def)
  have "merged_ok (dropWhile P xs)" if "merged_ok xs" for P and xs :: slots
    using that by (simp add: merged_ok_def dropWhile_eq_drop sorted_wrt_drop)
  then have "pal2_ok p ?st" using ok by (auto simp: pal2_ok_def f FlushAFreeSlot_ok(1))
  moreover have "channel_free ?st i \<subseteq> channel_free st i" if "i < pp_channel p" for i
    using FlushAFreeSlot_ok(2) ok that by (auto simp: channel_free_def f pal2_ok_def)
  moreover have "die_free ?st i \<subseteq> die_free st i" if "i < total_die p" for i
    using FlushAFreeSlot_ok(2) ok that by (auto simp: die_free_def f pal2_ok_def)
  ultimately show "pal2_inv p ?st" using assms unfolding pal2_inv_def f(6) by blast
qed

lemma PAL2_new_inv:
  assumes "PAL2_new ty speed p = Inr st"
  shows "pal2_inv p st \<and> p2_log st = []"
proof -
  have fresh: "timeline_ok (new_slots ks) 0" if "ks \<noteq> []" for ks
  proof -
    have "slots_of (new_slots ks) = []" by (auto simp: slots_of_def new_slots_def)
    moreover have "sorted_wrt (<) (map fst (new_slots ks))"
      by (simp add: new_slots_def comp_def strict_sorted_iff)
    moreover have "slots_sorted (new_slots ks)" by (auto simp: slots_sorted_def new_slots_def)
    moreover have "new_slots ks \<noteq> []" using that by (simp add: new_slots_def) (metis empty_set remdups_eq_nil_iff set_empty set_sort)
    ultimately show ?thesis by (simp add: timeline_ok_def slots_apart_def)
  qed
  have "channel_classes n m \<noteq> []" "die_classes ty n \<noteq> []" for n m
    by (simp_all add: channel_classes_def die_classes_def split: nand_type.splits)
  with assms fresh show ?thesis
    by (auto simp: PAL2_new_def Let_def pal2_inv_def pal2_ok_def total_die_def merged_ok_def split: if_splits)
qed

text \<open>The operation that the scheduler has booked for a page.\<close>

definition serves :: "(nat \<Rightarrow> pal_oper \<Rightarrow> pal_busy \<Rightarrow> nat) \<Rightarrow> pal_param \<Rightarrow> pal_oper \<times> nat \<times> cpdpbp \<Rightarrow> booking \<Rightarrow> bool" where
  "serves lat p = (\<lambda>(op, arrived, a) b. bk_channel b = ad_Channel a \<and> bk_die b = CPDPBPtoDieIdx p a \<and> times_ok lat op arrived a b)"

lemma FlushTimeSlots_inv:
  assumes "pal2_inv p st"
  shows "pal2_inv p (FlushTimeSlots now st)" "p2_log (FlushTimeSlots now st) = p2_log st"
proof -
  let ?st = "FlushTimeSlots now st"
  have f: "p2_ChFreeSlots ?st = p2_ChFreeSlots st" "p2_ChStartPoint ?st = p2_ChStartPoint st"
    "p2_DieFreeSlots ?st = p2_DieFreeSlots st" "p2_DieStartPoint ?st = p2_DieStartPoint st"
    "p2_MergedTimeSlots ?st = dropWhile (\<lambda>(s, e). e < now) (p2_MergedTimeSlots st)" "p2_log ?st = p2_log st"
    by (simp_all add: FlushTimeSlots_def FlushATimeSlotBusyTime_def)
  show "p2_log ?st = p2_log st" by (rule f(6))
  have "merged_ok (dropWhile (\<lambda>(s, e). e < now) (p2_MergedTimeSlots st))"
    using assms by (simp add: pal2_inv_def pal2_ok_def merged_ok_def dropWhile_eq_drop sorted_wrt_drop)
  then show "pal2_inv p ?st"
    using assms by (simp add: pal2_inv_def pal2_ok_def channel_free_def die_free_def f)
qed

text \<open>The latencies of a kind of flash are positive where its timing is.\<close>

definition timing_ok :: "nand_timing \<Rightarrow> bool" where
  "timing_ok t \<longleftrightarrow> (\<forall>op. 0 < dma_latency (nt_dma0 t) op \<and> 0 < dma_latency (nt_dma1 t) op)"

lemma GetLatency_ok: "timing_ok t \<Longrightarrow> lat_ok (GetLatency ty t)"
  by (cases ty) (simp_all add: timing_ok_def lat_ok_def GetLatency_def LatencySLC_GetLatency_def LatencyMLC_GetLatency_def
      LatencyTLC_GetLatency_def)

end
