(* ===== verification/Pal_Address.thy ===== *)
theory Pal_Address
  imports Pal_Schedule Bitsets
begin

text \<open>
  The addresses of the flash (pal/config.cc, pal/pal.cc, pal/pal_old.cc): how the configuration orders the
  channels, the packages, the dies and the planes, which of them are part of a superblock, and how the
  number of a superblock with the flags of its units becomes a list of pages of the chips. The calls of
  the flash translation layer submit one operation for each of these pages.
\<close>

unbundle bit_operations_syntax

section \<open>Configuration\<close>

abbreviation INDEX_CHANNEL :: "8 word" where "INDEX_CHANNEL \<equiv> 1"
abbreviation INDEX_PACKAGE :: "8 word" where "INDEX_PACKAGE \<equiv> 2"
abbreviation INDEX_DIE :: "8 word" where "INDEX_DIE \<equiv> 4"
abbreviation INDEX_PLANE :: "8 word" where "INDEX_PLANE \<equiv> 8"

record pal_config =
  pf_channel :: nat
  pf_package :: nat
  pf_die :: nat
  pf_plane :: nat
  pf_block :: nat
  pf_page :: nat
  pf_pageSize :: nat
  pf_useMultiPlaneOperation :: bool
  pf_dmaSpeed :: nat
  pf_dmaWidth :: nat
  pf_nandType :: nand_type
  pf_superblock :: "8 word"
  pf_PageAllocation :: "8 word list"
  pf_raw_superblock :: string
  pf_raw_pageAllocation :: string
  pf_bRandomTweak :: bool

definition letter_index :: "char \<Rightarrow> 8 word option" where
  "letter_index c =
     (if c = CHR ''C'' \<or> c = CHR ''c'' then Some INDEX_CHANNEL
      else if c = CHR ''W'' \<or> c = CHR ''w'' then Some INDEX_PACKAGE
      else if c = CHR ''D'' \<or> c = CHR ''d'' then Some INDEX_DIE
      else if c = CHR ''P'' \<or> c = CHR ''p'' then Some INDEX_PLANE else None)"

text \<open>The loop over the letters: \<^verbatim>\<open>PageAllocation\<close>, \<^verbatim>\<open>i\<close>, \<^verbatim>\<open>check\<close> and \<^verbatim>\<open>fail\<close>; it stops after four indices.\<close>

fun parse_allocation :: "string \<Rightarrow> 8 word list \<times> nat \<times> 8 word \<times> bool \<Rightarrow> 8 word list \<times> nat \<times> 8 word \<times> bool" where
  "parse_allocation [] st = st"
| "parse_allocation (c # cs) (pa, i, check, fail) =
     (case letter_index c of None \<Rightarrow> if i = 4 then (pa, i, check, fail) else parse_allocation cs (pa, i, check, fail)
      | Some x \<Rightarrow>
          let st = (pa[i := x], i + 1, check OR x, fail \<or> check AND x \<noteq> 0)
          in if i + 1 = 4 then st else parse_allocation cs st)"

text \<open>The index of the plane is moved to the front.\<close>

definition plane_first :: "8 word list \<Rightarrow> 8 word list" where
  "plane_first pa = (case find (\<lambda>i. pa ! i = INDEX_PLANE) [0..<4] of None \<Rightarrow> pa
     | Some i \<Rightarrow> (fold (\<lambda>j pa. pa[j := pa ! (j - 1)]) (rev [1..<i + 1]) pa)[0 := INDEX_PLANE])"

definition parse_superblock :: "string \<Rightarrow> 8 word \<Rightarrow> 8 word" where
  "parse_superblock s sb =
     (if length s > 0 then fold (\<lambda>c sb. case letter_index c of None \<Rightarrow> sb | Some x \<Rightarrow> sb OR x) s 0 else sb)"

text \<open>\<^verbatim>\<open>Config::update\<close> without the transfer times, which are computed in floating point.\<close>

definition Config_update :: "pal_config \<Rightarrow> pal_config res" where
  "Config_update c =
     (if pf_dmaWidth c mod 8 \<noteq> 0 then Inl (Panic ''dmaWidth should be multiple of 8.'')
      else let (pa, i, check, fail) = parse_allocation (pf_raw_pageAllocation c) (pf_PageAllocation c, 0, 0, False);
               fail = (fail \<or> check \<noteq> INDEX_CHANNEL OR INDEX_PACKAGE OR INDEX_DIE OR INDEX_PLANE);
               pa = (if pf_useMultiPlaneOperation c then plane_first pa else pa) in
      if fail then Inl (Panic ''Invalid page allocation string'')
      else let sb = parse_superblock (pf_raw_superblock c) (pf_superblock c);
               sb = (if pf_useMultiPlaneOperation c then sb OR INDEX_PLANE else sb)
        in Inr (c\<lparr>pf_PageAllocation := pa, pf_superblock := sb\<rparr>))"

definition getPageAllocationConfig :: "pal_config \<Rightarrow> 32 word" where
  "getPageAllocationConfig c =
     (let pa = pf_PageAllocation c
      in ucast (pa ! 0) OR push_bit 8 (ucast (pa ! 1)) OR push_bit 16 (ucast (pa ! 2)) OR push_bit 24 (ucast (pa ! 3)))"

text \<open>The constructor of \<^verbatim>\<open>PAL\<close>.\<close>

definition PAL_param :: "pal_config \<Rightarrow> pal_param res" where
  "PAL_param c =
     (let sb = pf_superblock c; multi = pf_useMultiPlaneOperation c;
          inner = (\<lambda>b n (size, blocks :: nat). if b then (size * n, blocks) else (size, blocks * n));
          (size, blocks) = inner (sb AND INDEX_CHANNEL \<noteq> 0) (pf_channel c) (pf_pageSize c, pf_block c);
          (size, blocks) = inner (sb AND INDEX_PACKAGE \<noteq> 0) (pf_package c) (size, blocks);
          (size, blocks) = inner (sb AND INDEX_DIE \<noteq> 0) (pf_die c) (size, blocks);
          (size, blocks) = inner (multi \<or> sb AND INDEX_PLANE \<noteq> 0) (pf_plane c) (size, blocks)
      in if pf_pageSize c = 0 then Inl DivByZero
         else if multi \<and> pf_plane c = 0 then Inl DivByZero
         else Inr \<lparr>pp_channel = pf_channel c, pp_package = pf_package c, pp_die = pf_die c, pp_plane = pf_plane c,
           pp_block = pf_block c, pp_page = pf_page c, pp_pageSize = pf_pageSize c, pp_superBlock = blocks,
           pp_superPageSize = size,
           pp_pageInSuperPage = (if multi then size div pf_pageSize c div pf_plane c else size div pf_pageSize c)\<rparr>)"

section \<open>From superblocks to chips\<close>

datatype ad_field = FChannel | FPackage | FDie | FPlane

fun set_field :: "ad_field \<Rightarrow> nat \<Rightarrow> cpdpbp \<Rightarrow> cpdpbp" where
  "set_field FChannel n a = a\<lparr>ad_Channel := n\<rparr>"
| "set_field FPackage n a = a\<lparr>ad_Package := n\<rparr>"
| "set_field FDie n a = a\<lparr>ad_Die := n\<rparr>"
| "set_field FPlane n a = a\<lparr>ad_Plane := n\<rparr>"

record pal_request =
  pr_blockIndex :: nat
  pr_pageIndex :: nat
  pr_ioFlag :: bitset

text \<open>One index of the order: a part of the superblock is remembered with its size, \<^verbatim>\<open>value\<close> and \<^verbatim>\<open>ptr\<close>;
  otherwise the address is given a digit of the number of the block.\<close>

definition take_digit ::
  "bool \<Rightarrow> nat \<Rightarrow> ad_field \<Rightarrow> cpdpbp \<times> nat \<times> (nat \<times> ad_field) list \<Rightarrow> (cpdpbp \<times> nat \<times> (nat \<times> ad_field) list) res"
where
  "take_digit inside n f = (\<lambda>(addr, tmp, vp).
     if inside then Inr (addr, tmp, vp @ [(n, f)])
     else if n = 0 then Inl DivByZero
     else Inr (set_field f (tmp mod n) addr, tmp div n, vp))"

definition take_index ::
  "pal_config \<Rightarrow> pal_param \<Rightarrow> 8 word \<Rightarrow> cpdpbp \<times> nat \<times> (nat \<times> ad_field) list \<Rightarrow> (cpdpbp \<times> nat \<times> (nat \<times> ad_field) list) res"
where
  "take_index c p idx st =
     (let sb = pf_superblock c in
      if idx = INDEX_CHANNEL then take_digit (sb AND INDEX_CHANNEL \<noteq> 0) (pp_channel p) FChannel st
      else if idx = INDEX_PACKAGE then take_digit (sb AND INDEX_PACKAGE \<noteq> 0) (pp_package p) FPackage st
      else if idx = INDEX_DIE then take_digit (sb AND INDEX_DIE \<noteq> 0) (pp_die p) FDie st
      else if idx = INDEX_PLANE \<and> \<not> pf_useMultiPlaneOperation c
      then take_digit (sb AND INDEX_PLANE \<noteq> 0) (pp_plane p) FPlane st
      else Inr st)"

text \<open>The nested loops, the outermost first: \<^verbatim>\<open>tmp\<close> counts the flags, and an address is pushed for each flag
  that is set, with the fields that the loops run over.\<close>

fun unit_loop ::
  "bitset \<Rightarrow> cpdpbp \<Rightarrow> (ad_field \<times> nat) list \<Rightarrow> (nat \<times> ad_field) list \<Rightarrow> nat \<times> cpdpbp list \<Rightarrow> (nat \<times> cpdpbp list) res"
where
  "unit_loop io addr ls [] (tmp, list) =
     rbind (bs_test io tmp) (\<lambda>b. Inr (tmp + 1, if b then list @ [fold (\<lambda>(f, l). set_field f l) ls addr] else list))"
| "unit_loop io addr ls ((n, f) # vp) st = rfold (\<lambda>l. unit_loop io addr ((f, l) # ls) vp) [0..<n] st"

text \<open>The address is not initialised but for the plane: \<^verbatim>\<open>garbage\<close> is what it holds.\<close>

definition convertCPDPBP :: "cpdpbp \<Rightarrow> pal_config \<Rightarrow> pal_param \<Rightarrow> pal_request \<Rightarrow> cpdpbp list res" where
  "convertCPDPBP garbage c p req =
     (let pageAllocation = getPageAllocationConfig c in
      if pf_bRandomTweak c \<and> bs_size (pr_ioFlag req) \<noteq> pp_pageInSuperPage p then Inl (Panic ''Invalid size of I/O flag'')
      else rbind (if \<not> pf_bRandomTweak c \<and> bs_size (pr_ioFlag req) \<noteq> pp_pageInSuperPage p
                  then bs_set_all (bs_new (pp_pageInSuperPage p)) else Inr (pr_ioFlag req)) (\<lambda>io.
        rbind (rfold (\<lambda>i. take_index c p (ucast (drop_bit (i * 8) pageAllocation AND 0xFF))) [0..<4]
                 (garbage\<lparr>ad_Plane := 0\<rparr>, pr_blockIndex req, [])) (\<lambda>(addr, tmp, vp).
        let addr = addr\<lparr>ad_Block := tmp, ad_Page := pr_pageIndex req\<rparr> in
        rbind (unit_loop io addr [] (rev vp) (0, [])) (\<lambda>(tmp, list).
          if tmp \<noteq> pp_pageInSuperPage p then Inl (Panic ''I/O flag size != # pages in super page'') else Inr list))))"

section \<open>The calls of the flash translation layer\<close>

definition PALOLD_io ::
  "cpdpbp \<Rightarrow> pal_config \<Rightarrow> pal_param \<Rightarrow> nand_timing \<Rightarrow> pal_oper \<Rightarrow> pal_request \<Rightarrow> nat \<Rightarrow> pal2 \<Rightarrow> (nat \<times> pal2) res"
where
  "PALOLD_io garbage c p timing op req tick st =
     rbind (convertCPDPBP garbage c p req) (\<lambda>list.
       rfold (\<lambda>addr (finishedAt, st).
         rbind (TimelineScheduling (GetLatency (pf_nandType c) timing) p op tick addr st) (\<lambda>(t, st). Inr (max finishedAt t, st)))
         list (tick, st))"

abbreviation "FLUSH_PERIOD \<equiv> 100000000000 :: nat"
abbreviation "FLUSH_RANGE \<equiv> 10000000000 :: nat"

text \<open>The event that flushes the free slots: it schedules itself again at the second result.\<close>

definition PALOLD_flush :: "nat \<Rightarrow> pal2 \<Rightarrow> pal2 \<times> nat" where
  "PALOLD_flush tick st =
     (let before = nat ((int tick - int FLUSH_RANGE) mod 2 ^ 64)
      in (FlushTimeSlots before (FlushFreeSlots before st), tick + FLUSH_PERIOD))"

end
