(* ===== verification/Pal_Units.thy ===== *)
theory Pal_Units
  imports Pal_Address
begin

text \<open>
  Superblocks and units: every page of the flash is one unit of one page of one superblock. The digits of
  the number of the superblock and of the unit are the fields of the address, in the order of the page
  allocation.
\<close>

section \<open>Digits\<close>

fun field_of :: "ad_field \<Rightarrow> cpdpbp \<Rightarrow> nat" where
  "field_of FChannel = ad_Channel"
| "field_of FPackage = ad_Package"
| "field_of FDie = ad_Die"
| "field_of FPlane = ad_Plane"

fun index_of :: "ad_field \<Rightarrow> 8 word" where
  "index_of FChannel = INDEX_CHANNEL"
| "index_of FPackage = INDEX_PACKAGE"
| "index_of FDie = INDEX_DIE"
| "index_of FPlane = INDEX_PLANE"

fun set_digits :: "(nat \<times> ad_field) list \<Rightarrow> nat \<Rightarrow> cpdpbp \<Rightarrow> cpdpbp" where
  "set_digits [] t a = a"
| "set_digits ((n, f) # xs) t a = set_digits xs (t div n) (set_field f (t mod n) a)"

fun digits :: "(nat \<times> ad_field) list \<Rightarrow> cpdpbp \<Rightarrow> nat" where
  "digits [] a = 0"
| "digits ((n, f) # xs) a = field_of f a + n * digits xs a"

definition dsize :: "(nat \<times> ad_field) list \<Rightarrow> nat" where
  "dsize xs = prod_list (map fst xs)"

definition digits_ok :: "(nat \<times> ad_field) list \<Rightarrow> cpdpbp \<Rightarrow> bool" where
  "digits_ok xs a \<longleftrightarrow> (\<forall>(n, f) \<in> set xs. field_of f a < n)"

lemma dsize_simps [simp]: "dsize [] = 1" "dsize ((n, f) # xs) = n * dsize xs" "dsize (xs @ ys) = dsize xs * dsize ys"
  by (simp_all add: dsize_def)

lemma dsize_rev [simp]: "dsize (rev xs) = dsize xs"
  by (induction xs) auto

lemma field_set_field [simp]: "field_of g (set_field f n a) = (if g = f then n else field_of g a)"
  by (cases f; cases g) simp_all

lemma set_field_more [simp]: "ad_Block (set_field f n a) = ad_Block a" "ad_Page (set_field f n a) = ad_Page a"
  by (cases f; simp)+

lemma set_field_commute: "f \<noteq> g \<Longrightarrow> set_field f n (set_field g m a) = set_field g m (set_field f n a)"
  by (cases f; cases g) simp_all

lemma address_eqI:
  fixes a b :: cpdpbp
  assumes "\<And>f. field_of f a = field_of f b" "ad_Block a = ad_Block b" "ad_Page a = ad_Page b"
  shows "a = b"
  using assms(1)[of FChannel] assms(1)[of FPackage] assms(1)[of FDie] assms(1)[of FPlane] assms(2,3) by simp

lemma set_digits_more [simp]: "ad_Block (set_digits xs t a) = ad_Block a" "ad_Page (set_digits xs t a) = ad_Page a"
  by (induction xs t a rule: set_digits.induct) simp_all

lemma set_digits_other: "f \<notin> snd ` set xs \<Longrightarrow> field_of f (set_digits xs t a) = field_of f a"
  by (induction xs t a rule: set_digits.induct) auto

lemma digits_cong: "(\<And>f. f \<in> snd ` set xs \<Longrightarrow> field_of f a = field_of f b) \<Longrightarrow> digits xs a = digits xs b"
  by (induction xs a rule: digits.induct) auto

lemma set_digits_ok: "\<forall>(n, f) \<in> set xs. 0 < n \<Longrightarrow> distinct (map snd xs) \<Longrightarrow> digits_ok xs (set_digits xs t a)"
  by (induction xs t a rule: set_digits.induct) (auto simp: digits_ok_def set_digits_other)

text \<open>The two directions of the conversion.\<close>

lemma digits_set_digits: "distinct (map snd xs) \<Longrightarrow> digits xs (set_digits xs t a) = t mod dsize xs"
proof (induction xs t a rule: set_digits.induct)
  case (2 n f xs t a)
  then have "digits xs (set_digits xs (t div n) (set_field f (t mod n) a)) = t div n mod dsize xs" by simp
  with 2(2) show ?case by (simp add: set_digits_other mod_mult2_eq)
qed simp

lemma set_digits_digits:
  assumes "digits_ok xs a" "distinct (map snd xs)" "f \<in> snd ` set xs"
  shows "field_of f (set_digits xs (digits xs a + dsize xs * k) b) = field_of f a"
  using assms
proof (induction xs arbitrary: b)
  case (Cons x xs)
  obtain n g where x: "x = (n, g)" by (cases x)
  have g: "field_of g a < n" "digits_ok xs a" using Cons.prems(1) by (auto simp: digits_ok_def x)
  have "digits (x # xs) a + dsize (x # xs) * k = field_of g a + n * (digits xs a + dsize xs * k)"
    by (simp add: x algebra_simps)
  with g(1) have e: "(digits (x # xs) a + dsize (x # xs) * k) mod n = field_of g a"
    "(digits (x # xs) a + dsize (x # xs) * k) div n = digits xs a + dsize xs * k" by simp_all
  show ?case
  proof (cases "f = g")
    case True
    with Cons.prems(2) show ?thesis unfolding x set_digits.simps e[unfolded x] by (simp add: set_digits_other)
  next
    case False
    with Cons g(2) show ?thesis unfolding x set_digits.simps e[unfolded x] by (simp add: x)
  qed
qed simp

lemma digits_less: "digits_ok xs a \<Longrightarrow> digits xs a < dsize xs"
proof (induction xs a rule: digits.induct)
  case (2 n f xs a)
  then have "field_of f a < n" "digits xs a < dsize xs" by (auto simp: digits_ok_def)
  then have "field_of f a + n * digits xs a < n * Suc (digits xs a)" "n * Suc (digits xs a) \<le> n * dsize xs"
    by (simp, intro mult_le_mono2) simp
  then show ?case unfolding digits.simps dsize_simps by (rule less_le_trans)
qed simp

section \<open>The nested loops\<close>

lemma set_digits_append: "set_digits (xs @ ys) t a = set_digits ys (t div dsize xs) (set_digits xs t a)"
  by (induction xs t a rule: set_digits.induct) (simp_all add: div_mult2_eq)

lemma set_digits_mod: "set_digits xs (v * dsize xs + u) a = set_digits xs u a"
proof (induction xs arbitrary: u a)
  case (Cons x xs)
  obtain n f where x: "x = (n, f)" by (cases x)
  have "v * (n * dsize xs) + u = n * (v * dsize xs) + u" by simp
  then have "(v * (n * dsize xs) + u) mod n = u mod n" by (metis mod_mult_self4)
  moreover have "0 < n \<Longrightarrow> (v * (n * dsize xs) + u) div n = v * dsize xs + u div n"
    using div_mult_self2[of n u "v * dsize xs"] by (simp add: ac_simps)
  ultimately show ?case using Cons by (cases "n = 0") (simp_all add: x)
qed simp

lemma set_field_digits: "f \<notin> snd ` set xs \<Longrightarrow> set_field f n (set_digits xs t a) = set_digits xs t (set_field f n a)"
  by (induction xs t a rule: set_digits.induct) (auto simp: set_field_commute)

abbreviation set_fields :: "(ad_field \<times> nat) list \<Rightarrow> cpdpbp \<Rightarrow> cpdpbp" where
  "set_fields ls \<equiv> fold (\<lambda>(f, l). set_field f l) ls"

text \<open>The loops push the addresses of the units whose flag is set, in the order of the units.\<close>

lemma unit_loop_ok:
  assumes "\<And>u. T \<le> u \<Longrightarrow> u < T + dsize xs \<Longrightarrow> bs_test io u = Inr (F u)" "distinct (map snd xs)"
  shows "unit_loop io addr ls (rev xs) (T, list)
    = Inr (T + dsize xs, list @ map (\<lambda>u. set_fields ls (set_digits xs u addr)) (filter (\<lambda>u. F (T + u)) [0..<dsize xs]))"
  using assms
proof (induction xs arbitrary: ls T list rule: rev_induct)
  case (snoc x xs)
  obtain n f where x: "x = (n, f)" by (cases x)
  let ?P = "dsize xs"
  have fx: "f \<notin> snd ` set xs" using snoc.prems(2) by (simp add: x)
  let ?g = "\<lambda>u. set_fields ls (set_digits (xs @ [x]) u addr)"
  let ?out = "\<lambda>m. (T + m * ?P, list @ map ?g (filter (\<lambda>u. F (T + u)) [0..<m * ?P]))"
  have "rfold (\<lambda>l. unit_loop io addr ((f, l) # ls) (rev xs)) [0..<m] (T, list) = Inr (?out m)" if "m \<le> n" for m
    using that
  proof (induction m)
    case (Suc m)
    have upt: "[0..<Suc m * ?P] = [0..<m * ?P] @ map ((+) (m * ?P)) [0..<?P]"
      using upt_add_eq_append[of 0 "m * ?P" ?P] map_add_upt[of "m * ?P" ?P] by (simp add: add.commute[of _ "m * ?P"] add.commute[of ?P])
    have "(m + 1) * ?P \<le> n * ?P" using Suc.prems by (intro mult_le_mono1) simp
    then have "m * ?P + ?P \<le> ?P * n" by (simp add: mult.commute[of ?P n])
    then have test: "bs_test io u = Inr (F u)" if "T + m * ?P \<le> u" "u < T + m * ?P + ?P" for u
      by (intro snoc.prems(1)) (use that in \<open>simp_all add: x\<close>)
    have g: "?g (m * ?P + u) = set_fields ((f, m) # ls) (set_digits xs u addr)" if "u < ?P" for u
    proof -
      have "(m * ?P + u) div ?P = m" using that by simp
      with Suc.prems show ?thesis by (simp add: set_digits_append x set_digits_mod)
    qed
    have "unit_loop io addr ((f, m) # ls) (rev xs) (?out m)
      = Inr (T + m * ?P + ?P, snd (?out m) @ map (\<lambda>u. set_fields ((f, m) # ls) (set_digits xs u addr))
          (filter (\<lambda>u. F (T + m * ?P + u)) [0..<?P]))"
      unfolding snd_conv by (rule snoc.IH) (use test snoc.prems(2) in auto)
    also have "map (\<lambda>u. set_fields ((f, m) # ls) (set_digits xs u addr)) (filter (\<lambda>u. F (T + m * ?P + u)) [0..<?P])
      = map ?g (filter (\<lambda>u. F (T + u)) (map ((+) (m * ?P)) [0..<?P]))"
      using g by (auto simp: filter_map comp_def add.assoc intro!: map_cong)
    finally have "unit_loop io addr ((f, m) # ls) (rev xs) (?out m) = Inr (?out (Suc m))"
      unfolding upt by (simp add: ac_simps)
    with Suc show ?case by (simp add: rfold_append)
  qed simp
  from this[of n] show ?case by (simp add: x mult.commute)
qed simp

section \<open>Configurations\<close>

text \<open>What \<^verbatim>\<open>Config::update\<close> leaves, with at least one of everything.\<close>

definition fields :: "pal_config \<Rightarrow> ad_field list" where
  "fields c = map (\<lambda>k. if k = INDEX_CHANNEL then FChannel else if k = INDEX_PACKAGE then FPackage
     else if k = INDEX_DIE then FDie else FPlane) (pf_PageAllocation c)"

definition allocation_ok :: "8 word list \<Rightarrow> bool" where
  "allocation_ok pa \<longleftrightarrow> length pa = 4 \<and> set pa = {INDEX_CHANNEL, INDEX_PACKAGE, INDEX_DIE, INDEX_PLANE}"

definition pal_config_ok :: "pal_config \<Rightarrow> bool" where
  "pal_config_ok c \<longleftrightarrow> allocation_ok (pf_PageAllocation c)
     \<and> 0 < pf_channel c \<and> 0 < pf_package c \<and> 0 < pf_die c \<and> 0 < pf_plane c \<and> 0 < pf_block c \<and> 0 < pf_page c \<and> 0 < pf_pageSize c"

definition inner :: "pal_config \<Rightarrow> ad_field \<Rightarrow> bool" where
  "inner c f \<longleftrightarrow> pf_superblock c AND index_of f \<noteq> 0"

text \<open>The planes are not told apart when operations go to all of them.\<close>

definition used :: "pal_config \<Rightarrow> ad_field \<Rightarrow> bool" where
  "used c f \<longleftrightarrow> \<not> (pf_useMultiPlaneOperation c \<and> f = FPlane)"

fun field_size :: "pal_param \<Rightarrow> ad_field \<Rightarrow> nat" where
  "field_size p FChannel = pp_channel p"
| "field_size p FPackage = pp_package p"
| "field_size p FDie = pp_die p"
| "field_size p FPlane = pp_plane p"

definition inside :: "pal_config \<Rightarrow> pal_param \<Rightarrow> (nat \<times> ad_field) list" where
  "inside c p = map (\<lambda>f. (field_size p f, f)) (filter (\<lambda>f. used c f \<and> inner c f) (fields c))"

definition outside :: "pal_config \<Rightarrow> pal_param \<Rightarrow> (nat \<times> ad_field) list" where
  "outside c p = map (\<lambda>f. (field_size p f, f)) (filter (\<lambda>f. used c f \<and> \<not> inner c f) (fields c))"

lemma allocation_distinct: "allocation_ok pa \<Longrightarrow> distinct pa"
  by (rule card_distinct) (simp add: allocation_ok_def)

lemma fields_ok:
  assumes "allocation_ok (pf_PageAllocation c)"
  shows "distinct (fields c)" "set (fields c) = UNIV"
proof -
  let ?g = "\<lambda>k :: 8 word. if k = INDEX_CHANNEL then FChannel else if k = INDEX_PACKAGE then FPackage
     else if k = INDEX_DIE then FDie else FPlane"
  have s: "set (pf_PageAllocation c) = {1, 2, 4, 8}" using assms by (simp add: allocation_ok_def)
  have "inj_on ?g (set (pf_PageAllocation c))" unfolding s by (auto simp: inj_on_def)
  with allocation_distinct[OF assms] show "distinct (fields c)" by (simp add: fields_def distinct_map)
  have "f \<in> set (fields c)" for f unfolding fields_def set_map s by (cases f) auto
  then show "set (fields c) = UNIV" by blast
qed

text \<open>The bytes of the 32-bit word are the indices again.\<close>

lemma allocation_byte:
  assumes "length (pf_PageAllocation c) = 4" "i < 4"
  shows "ucast (drop_bit (i * 8) (getPageAllocationConfig c) AND 0xFF) = pf_PageAllocation c ! i"
proof -
  obtain a b d e where pa: "pf_PageAllocation c = [a, b, d, e]"
    using assms(1) by (auto simp: eval_nat_numeral length_Suc_conv)
  have ff: "(0xFF :: 32 word) = mask 8" by (simp add: mask_eq_exp_minus_1)
  have "i = 0 \<or> i = 1 \<or> i = 2 \<or> i = 3" using assms(2) by auto
  then show ?thesis
    by (elim disjE; simp; intro bit_word_eqI)
      (auto simp: getPageAllocationConfig_def pa ff bit_simps Let_def dest: bit_imp_le_length)
qed

lemma take_indices:
  assumes "set ks \<subseteq> {1, 2, 4, 8}" "\<And>f. 0 < field_size p f"
  defines "fs \<equiv> map (\<lambda>k. if k = INDEX_CHANNEL then FChannel else if k = INDEX_PACKAGE then FPackage
     else if k = INDEX_DIE then FDie else FPlane) ks"
  shows "rfold (take_index c p) ks (addr, tmp, vp)
    = (let outs = map (\<lambda>f. (field_size p f, f)) (filter (\<lambda>f. used c f \<and> \<not> inner c f) fs)
       in Inr (set_digits outs tmp addr, tmp div dsize outs, vp @ map (\<lambda>f. (field_size p f, f)) (filter (\<lambda>f. used c f \<and> inner c f) fs)))"
  using assms(1) unfolding fs_def
proof (induction ks arbitrary: addr tmp vp)
  case (Cons k ks)
  have pos: "0 < pp_channel p" "0 < pp_package p" "0 < pp_die p" "0 < pp_plane p"
    using assms(2)[of FChannel] assms(2)[of FPackage] assms(2)[of FDie] assms(2)[of FPlane] by simp_all
  have "k = 1 \<or> k = 2 \<or> k = 4 \<or> k = 8" using Cons.prems by auto
  then show ?case
    using Cons.IH Cons.prems pos
    by (elim disjE) (simp_all add: take_index_def take_digit_def used_def inner_def Let_def div_mult2_eq)
qed simp

section \<open>Sizes\<close>

lemma UNIV_ad_field: "UNIV = {FChannel, FPackage, FDie, FPlane}"
proof -
  have "f \<in> {FChannel, FPackage, FDie, FPlane}" for f by (cases f) simp_all
  then show ?thesis by blast
qed

lemma finite_ad_field: "finite (UNIV :: ad_field set)"
  by (simp add: UNIV_ad_field)

lemma fields_product:
  assumes "allocation_ok (pf_PageAllocation c)"
  shows "dsize (map (\<lambda>f. (field_size p f, f)) (filter P (fields c)))
    = (if P FChannel then pp_channel p else 1) * (if P FPackage then pp_package p else 1)
      * (if P FDie then pp_die p else 1) * (if P FPlane then pp_plane p else 1)"
proof -
  let ?xs = "filter P (fields c)"
  have "dsize (map (\<lambda>f. (field_size p f, f)) ?xs) = prod_list (map (field_size p) ?xs)"
    by (simp add: dsize_def comp_def)
  also have "\<dots> = (\<Prod>f \<in> {f. P f}. field_size p f)"
    using prod.distinct_set_conv_list[of ?xs "field_size p"] fields_ok[OF assms] by simp
  also have "\<dots> = (\<Prod>f \<in> UNIV. if P f then field_size p f else 1)"
    using prod.If_cases[of UNIV P "field_size p" "\<lambda>_. 1"] by (simp add: finite_ad_field)
  also have "\<dots> = (if P FChannel then pp_channel p else 1) * (if P FPackage then pp_package p else 1)
      * (if P FDie then pp_die p else 1) * (if P FPlane then pp_plane p else 1)"
    by (simp add: UNIV_ad_field)
  finally show ?thesis .
qed

lemma PAL_param_ok:
  assumes c: "pal_config_ok c" and p: "PAL_param c = Inr p"
  shows "0 < field_size p f" "pp_superBlock p = dsize (outside c p) * pp_block p" "pp_pageInSuperPage p = dsize (inside c p)"
    "pp_block p = pf_block c" "0 < pp_block p"
proof -
  have ok: "allocation_ok (pf_PageAllocation c)" "0 < pf_pageSize c" "0 < pf_plane c"
    using c by (simp_all add: pal_config_ok_def)
  have q: "pp_channel p = pf_channel c" "pp_package p = pf_package c" "pp_die p = pf_die c" "pp_plane p = pf_plane c"
    "pp_block p = pf_block c"
    using p by (auto simp: PAL_param_def Let_def split: if_splits)
  show "0 < field_size p f" using c by (cases f) (simp_all add: q pal_config_ok_def)
  show "pp_block p = pf_block c" by (rule q(5))
  show "0 < pp_block p" using c by (simp add: q pal_config_ok_def)
  define b where "b f = (pf_superblock c AND index_of f \<noteq> 0)" for f
  define m where "m = pf_useMultiPlaneOperation c"
  have b: "inner c f = b f" "used c f = (\<not> (m \<and> f = FPlane))" for f by (simp_all add: inner_def b_def used_def m_def)
  have sb: "(pf_superblock c AND 1 \<noteq> 0) = b FChannel" "(pf_superblock c AND 2 \<noteq> 0) = b FPackage"
    "(pf_superblock c AND 4 \<noteq> 0) = b FDie" "(pf_superblock c AND 8 \<noteq> 0) = b FPlane" by (simp_all add: b_def)
  note e = p[unfolded PAL_param_def sb m_def[symmetric] Let_def]
  have "pp_superBlock p = dsize (outside c p) * pp_block p \<and> pp_pageInSuperPage p = dsize (inside c p)"
    unfolding inside_def outside_def fields_product[OF ok(1)] b using e ok(2,3)
    by (cases "b FChannel"; cases "b FPackage"; cases "b FDie"; cases "b FPlane"; cases m) (auto simp: ac_simps)
  then show "pp_superBlock p = dsize (outside c p) * pp_block p" "pp_pageInSuperPage p = dsize (inside c p)" by simp_all
qed

section \<open>The pages of a request\<close>

definition page_address :: "cpdpbp \<Rightarrow> pal_config \<Rightarrow> pal_param \<Rightarrow> nat \<Rightarrow> nat \<Rightarrow> nat \<Rightarrow> cpdpbp" where
  "page_address g c p b pg u = set_digits (inside c p) u
     ((set_digits (outside c p) b (g\<lparr>ad_Plane := 0\<rparr>))\<lparr>ad_Block := b div dsize (outside c p), ad_Page := pg\<rparr>)"

definition request_units :: "pal_config \<Rightarrow> pal_param \<Rightarrow> pal_request \<Rightarrow> nat set" where
  "request_units c p req = (if pf_bRandomTweak c \<or> bs_size (pr_ioFlag req) = pp_pageInSuperPage p
     then bs_elems (pr_ioFlag req) else {..<pp_pageInSuperPage p})"

definition request_ok :: "pal_config \<Rightarrow> pal_param \<Rightarrow> pal_request \<Rightarrow> bool" where
  "request_ok c p req \<longleftrightarrow> bs_wf (pr_ioFlag req) \<and> (pf_bRandomTweak c \<longrightarrow> bs_size (pr_ioFlag req) = pp_pageInSuperPage p)"

definition address_in :: "pal_config \<Rightarrow> pal_param \<Rightarrow> cpdpbp \<Rightarrow> bool" where
  "address_in c p a \<longleftrightarrow> (\<forall>f. used c f \<longrightarrow> field_of f a < field_size p f) \<and> (\<not> used c FPlane \<longrightarrow> ad_Plane a = 0) \<and> ad_Block a < pp_block p"

definition block_of :: "pal_config \<Rightarrow> pal_param \<Rightarrow> cpdpbp \<Rightarrow> nat" where
  "block_of c p a = digits (outside c p) a + dsize (outside c p) * ad_Block a"

lemma sides:
  assumes "allocation_ok (pf_PageAllocation c)"
  shows "distinct (map snd (inside c p))" "distinct (map snd (outside c p))"
    "snd ` set (inside c p) = {f. used c f \<and> inner c f}" "snd ` set (outside c p) = {f. used c f \<and> \<not> inner c f}"
    "(n, f) \<in> set (inside c p) \<union> set (outside c p) \<longleftrightarrow> n = field_size p f \<and> used c f \<and> ((n, f) \<in> set (inside c p) \<longleftrightarrow> inner c f)"
  using fields_ok[OF assms] by (auto simp: inside_def outside_def comp_def image_iff)

lemma inside_pos:
  assumes "pal_config_ok c" "PAL_param c = Inr p"
  shows "0 < dsize (inside c p)" "0 < dsize (outside c p)" "\<forall>(n, f) \<in> set (inside c p). 0 < n" "\<forall>(n, f) \<in> set (outside c p). 0 < n"
proof -
  have pos: "0 < field_size p f" for f by (rule PAL_param_ok(1)[OF assms])
  then show i: "\<forall>(n, f) \<in> set (inside c p). 0 < n" "\<forall>(n, f) \<in> set (outside c p). 0 < n" by (auto simp: inside_def outside_def)
  have "\<forall>(n, f) \<in> set xs. 0 < n \<Longrightarrow> 0 < dsize xs" for xs by (induction xs) auto
  with i show "0 < dsize (inside c p)" "0 < dsize (outside c p)" by simp_all
qed

lemma set_digits_Block [simp]: "set_digits xs t (a\<lparr>ad_Block := n\<rparr>) = (set_digits xs t a)\<lparr>ad_Block := n\<rparr>"
  and set_digits_Page [simp]: "set_digits xs t (a\<lparr>ad_Page := n\<rparr>) = (set_digits xs t a)\<lparr>ad_Page := n\<rparr>"
proof -
  have "set_field f k (a\<lparr>ad_Block := n\<rparr>) = (set_field f k a)\<lparr>ad_Block := n\<rparr>" "set_field f k (a\<lparr>ad_Page := n\<rparr>) = (set_field f k a)\<lparr>ad_Page := n\<rparr>" for f k a
    by (cases f; simp)+
  then show "set_digits xs t (a\<lparr>ad_Block := n\<rparr>) = (set_digits xs t a)\<lparr>ad_Block := n\<rparr>"
    "set_digits xs t (a\<lparr>ad_Page := n\<rparr>) = (set_digits xs t a)\<lparr>ad_Page := n\<rparr>"
    by (induction xs t a rule: set_digits.induct) simp_all
qed

lemma rfold_map: "rfold h (map k xs) s = rfold (\<lambda>i. h (k i)) xs s"
  by (induction xs arbitrary: s) (simp_all cong: rbind_cong)

lemma convertCPDPBP_ok:
  assumes c: "pal_config_ok c" and p: "PAL_param c = Inr p" and req: "request_ok c p req"
  shows "convertCPDPBP g c p req = Inr (map (page_address g c p (pr_blockIndex req) (pr_pageIndex req))
    (filter (\<lambda>u. u \<in> request_units c p req) [0..<pp_pageInSuperPage p]))"
proof -
  let ?n = "pp_pageInSuperPage p"
  have al: "allocation_ok (pf_PageAllocation c)" using c by (simp add: pal_config_ok_def)
  note pp = PAL_param_ok[OF c p]
  have n: "0 < ?n" unfolding pp(3) by (rule inside_pos(1)[OF c p])
  obtain io where io: "(if \<not> pf_bRandomTweak c \<and> bs_size (pr_ioFlag req) \<noteq> ?n then bs_set_all (bs_new ?n) else Inr (pr_ioFlag req)) = Inr io"
    "bs_wf io" "bs_dataSize io = ?n" "bs_elems io = request_units c p req"
    using bs_set_all_ok[of "bs_new ?n"] n req
    by (cases "\<not> pf_bRandomTweak c \<and> bs_size (pr_ioFlag req) \<noteq> ?n") (auto simp: request_ok_def request_units_def bs_size_def)
  have len: "length (pf_PageAllocation c) = 4" using al by (simp add: allocation_ok_def)
  have "map (\<lambda>i. ucast (drop_bit (i * 8) (getPageAllocationConfig c) AND 0xFF)) [0..<4] = pf_PageAllocation c"
    by (rule nth_equalityI) (use len allocation_byte in \<open>simp_all add: allocation_byte\<close>)
  then have ix: "rfold (\<lambda>i. take_index c p (ucast (drop_bit (i * 8) (getPageAllocationConfig c) AND 0xFF))) [0..<4] st
    = rfold (take_index c p) (pf_PageAllocation c) st" for st
    using rfold_map[of "take_index c p"] by metis
  have "set (pf_PageAllocation c) \<subseteq> {1, 2, 4, 8}" using al by (simp add: allocation_ok_def)
  from take_indices[OF this, of p c] pp(1)
  have tk: "rfold (take_index c p) (pf_PageAllocation c) (addr, tmp, [])
    = Inr (set_digits (outside c p) tmp addr, tmp div dsize (outside c p), inside c p)" for addr tmp
    by (simp add: Let_def inside_def outside_def fields_def)
  have "unit_loop io a [] (rev (inside c p)) (0, []) = Inr (0 + dsize (inside c p),
      [] @ map (\<lambda>u. set_fields [] (set_digits (inside c p) u a)) (filter (\<lambda>u. 0 + u \<in> bs_elems io) [0..<dsize (inside c p)]))" for a
    by (rule unit_loop_ok[where F = "\<lambda>u. u \<in> bs_elems io"]) (use io pp(3) sides(1)[OF al] in \<open>simp_all add: bs_test_ok\<close>)
  with io req show ?thesis
    by (simp add: convertCPDPBP_def Let_def ix tk request_ok_def pp(3) page_address_def comp_def)
qed

text \<open>The two directions.\<close>

lemma page_address_field: "field_of f (page_address g c p b pg u)
  = field_of f (set_digits (inside c p) u (set_digits (outside c p) b (g\<lparr>ad_Plane := 0\<rparr>)))"
  by (cases f) (simp_all add: page_address_def)

lemma page_address_in:
  assumes c: "pal_config_ok c" and p: "PAL_param c = Inr p" and u: "u < pp_pageInSuperPage p" and b: "b < pp_superBlock p"
  shows "address_in c p (page_address g c p b pg u)" "block_of c p (page_address g c p b pg u) = b"
    "digits (inside c p) (page_address g c p b pg u) = u" "ad_Page (page_address g c p b pg u) = pg"
proof -
  let ?a = "page_address g c p b pg u" and ?out = "set_digits (outside c p) b (g\<lparr>ad_Plane := 0\<rparr>)"
  have al: "allocation_ok (pf_PageAllocation c)" using c by (simp add: pal_config_ok_def)
  note S = sides[OF al, where p = p] and P = inside_pos[OF c p] and pp = PAL_param_ok[OF c p]
  show "ad_Page ?a = pg" by (simp add: page_address_def)
  show "digits (inside c p) ?a = u"
    using u unfolding page_address_def by (subst digits_set_digits[OF S(1)]) (simp add: pp(3))
  have other: "field_of f ?a = field_of f ?out" if "\<not> (used c f \<and> inner c f)" for f
    using that S(3) by (simp add: page_address_field set_digits_other)
  have "digits (outside c p) ?a = digits (outside c p) ?out"
    by (rule digits_cong, rule other) (use S(4) in auto)
  then have d: "digits (outside c p) ?a = b mod dsize (outside c p)" by (simp add: digits_set_digits[OF S(2)])
  have "ad_Block ?a = b div dsize (outside c p)" by (simp add: page_address_def)
  with d show "block_of c p ?a = b" by (simp add: block_of_def)
  have blk: "ad_Block ?a < pp_block p"
    using b unfolding pp(2) by (simp add: page_address_def less_mult_imp_div_less mult.commute)
  have fld: "field_of f ?a < field_size p f" if "used c f" for f
  proof (cases "inner c f")
    case True
    with that S(3) obtain n where n: "(n, f) \<in> set (inside c p)" by force
    then have "n = field_size p f" using S(5)[of n f] by blast
    moreover have "digits_ok (inside c p) ?a" unfolding page_address_def by (rule set_digits_ok[OF P(3) S(1)])
    ultimately show ?thesis using n by (auto simp: digits_ok_def)
  next
    case False
    with that S(4) obtain n where n: "(n, f) \<in> set (outside c p)" by force
    then have "n = field_size p f" using S(5)[of n f] by blast
    moreover have "digits_ok (outside c p) ?out" by (rule set_digits_ok[OF P(4) S(2)])
    ultimately show ?thesis using n other[of f] False by (auto simp: digits_ok_def)
  qed
  have "field_of FPlane ?a = 0" if "\<not> used c FPlane"
    using that other[of FPlane] set_digits_other[of FPlane "outside c p" b "g\<lparr>ad_Plane := 0\<rparr>"] S(4) by simp
  then have "ad_Plane ?a = 0" if "\<not> used c FPlane" using that by simp
  with blk fld show "address_in c p ?a" by (simp add: address_in_def)
qed

lemma address_page:
  assumes c: "pal_config_ok c" and p: "PAL_param c = Inr p" and a: "address_in c p a"
  shows "page_address g c p (block_of c p a) (ad_Page a) (digits (inside c p) a) = a" "block_of c p a < pp_superBlock p"
    "digits (inside c p) a < pp_pageInSuperPage p"
proof -
  have al: "allocation_ok (pf_PageAllocation c)" using c by (simp add: pal_config_ok_def)
  note S = sides[OF al, where p = p] and P = inside_pos[OF c p] and pp = PAL_param_ok[OF c p]
  have "digits_ok xs a" if "set xs \<subseteq> set (inside c p) \<union> set (outside c p)" for xs
    unfolding digits_ok_def
  proof (intro ballI, unfold split_paired_all prod.case)
    fix n f assume "(n, f) \<in> set xs"
    then have "(n, f) \<in> set (inside c p) \<union> set (outside c p)" using that by blast
    then have "n = field_size p f \<and> used c f" using S(5)[of n f] by blast
    with a show "field_of f a < n" by (simp add: address_in_def)
  qed
  then have ok: "digits_ok (inside c p) a" "digits_ok (outside c p) a" by simp_all
  show "digits (inside c p) a < pp_pageInSuperPage p" unfolding pp(3) by (rule digits_less[OF ok(1)])
  have d: "digits (outside c p) a < dsize (outside c p)" by (rule digits_less[OF ok(2)])
  have "block_of c p a < dsize (outside c p) * Suc (ad_Block a)" using d by (simp add: block_of_def)
  also have "\<dots> \<le> pp_superBlock p" unfolding pp(2) using a by (intro mult_le_mono2) (simp add: address_in_def)
  finally show "block_of c p a < pp_superBlock p" .
  show "page_address g c p (block_of c p a) (ad_Page a) (digits (inside c p) a) = a"
  proof (rule address_eqI)
    show "ad_Block (page_address g c p (block_of c p a) (ad_Page a) (digits (inside c p) a)) = ad_Block a"
      using d by (simp add: page_address_def block_of_def)
    show "ad_Page (page_address g c p (block_of c p a) (ad_Page a) (digits (inside c p) a)) = ad_Page a"
      by (simp add: page_address_def)
    fix f
    let ?out = "set_digits (outside c p) (block_of c p a) (g\<lparr>ad_Plane := 0\<rparr>)"
    let ?a = "page_address g c p (block_of c p a) (ad_Page a) (digits (inside c p) a)"
    have other: "field_of f ?a = field_of f ?out" if "\<not> (used c f \<and> inner c f)"
      using that S(3) by (simp add: page_address_field set_digits_other)
    consider "used c f" "inner c f" | "used c f" "\<not> inner c f" | "\<not> used c f" by blast
    then show "field_of f ?a = field_of f a"
    proof cases
      case 1
      with S(3) have "f \<in> snd ` set (inside c p)" by simp
      from set_digits_digits[OF ok(1) S(1) this, of 0] show ?thesis by (simp add: page_address_field)
    next
      case 2
      with S(4) have "f \<in> snd ` set (outside c p)" by simp
      from set_digits_digits[OF ok(2) S(2) this, of "ad_Block a"] other 2 show ?thesis by (simp add: block_of_def)
    next
      case 3
      then have f: "f = FPlane" by (simp add: used_def)
      with 3 S(4) set_digits_other[of FPlane "outside c p"] other a show ?thesis by (simp add: address_in_def)
    qed
  qed
qed

end
