(* ===== verification/Pal_Requests.thy ===== *)
theory Pal_Requests
  imports Pal_Units
begin

text \<open>
  The flash as the layer above sees it: any sequence of requests and flushes from the constructor on is
  served, each request by one operation for each of its units.
\<close>

section \<open>One request\<close>

definition finished_at :: "booking list \<Rightarrow> nat \<Rightarrow> nat" where
  "finished_at bs tick = fold (\<lambda>b t. max t (snd (bk_DMA1 b))) bs tick"

definition request_pages :: "cpdpbp \<Rightarrow> pal_config \<Rightarrow> pal_param \<Rightarrow> pal_request \<Rightarrow> cpdpbp list" where
  "request_pages g c p req = map (page_address g c p (pr_blockIndex req) (pr_pageIndex req))
     (filter (\<lambda>u. u \<in> request_units c p req) [0..<pp_pageInSuperPage p])"

lemma address_in_ok: "address_in c p a \<Longrightarrow> address_ok p a"
  unfolding address_in_def address_ok_def used_def
  by (metis ad_field.distinct(5,9,11) field_of.simps(1-3) field_size.simps(1-3))

lemma request_pages_ok:
  assumes "pal_config_ok c" "PAL_param c = Inr p" "pr_blockIndex req < pp_superBlock p" "a \<in> set (request_pages g c p req)"
  shows "address_in c p a" "address_ok p a" "ad_Page a = pr_pageIndex req" "block_of c p a = pr_blockIndex req"
    "digits (inside c p) a \<in> request_units c p req"
  using assms(4) page_address_in[OF assms(1,2) _ assms(3)] by (auto simp: request_pages_def intro: address_in_ok)

lemma submit_all_ok:
  assumes "pal2_inv p st" "lat_ok lat" "\<forall>a \<in> set as. address_ok p a"
  shows "\<exists>st' bs. rfold (\<lambda>addr (finishedAt, st). rbind (TimelineScheduling lat p op tick addr st) (\<lambda>(t, st). Inr (max finishedAt t, st)))
      as (t0, st) = Inr (finished_at bs t0, st') \<and> pal2_inv p st' \<and> p2_log st' = p2_log st @ bs
    \<and> list_all2 (serves lat p) (map (\<lambda>a. (op, tick, a)) as) bs"
  using assms(1,3)
proof (induction as arbitrary: st t0)
  case (Cons a as)
  have "address_ok p a" using Cons.prems(2) by simp
  from TimelineScheduling_ok[OF Cons.prems(1) assms(2) this, of op tick] obtain t st1 b where
    b: "TimelineScheduling lat p op tick a st = Inr (t, st1)" "pal2_inv p st1" "p2_log st1 = p2_log st @ [b]"
      "times_ok lat op tick a b" "t = snd (bk_DMA1 b)" "bk_channel b = ad_Channel a" "bk_die b = CPDPBPtoDieIdx p a" by blast
  have "\<forall>a \<in> set as. address_ok p a" using Cons.prems(2) by simp
  from Cons.IH[OF b(2) this, of "max t0 t"] obtain st' bs where
    r: "rfold (\<lambda>addr (finishedAt, st). rbind (TimelineScheduling lat p op tick addr st) (\<lambda>(t, st). Inr (max finishedAt t, st)))
      as (max t0 t, st1) = Inr (finished_at bs (max t0 t), st')" "pal2_inv p st'" "p2_log st' = p2_log st1 @ bs"
      "list_all2 (serves lat p) (map (\<lambda>a. (op, tick, a)) as) bs" by blast
  have "list_all2 (serves lat p) (map (\<lambda>a. (op, tick, a)) (a # as)) (b # bs)" using r(4) b(4,6,7) by (simp add: serves_def)
  moreover have "finished_at (b # bs) t0 = finished_at bs (max t0 t)" by (simp add: finished_at_def b(5))
  ultimately show ?case using b(1,3) r(1-3) by (intro exI[of _ st'] exI[of _ "b # bs"]) simp
qed (simp add: finished_at_def)

lemma PALOLD_io_ok:
  assumes st: "pal2_inv p st" and t: "timing_ok timing" and c: "pal_config_ok c" "PAL_param c = Inr p"
    and req: "request_ok c p req" "pr_blockIndex req < pp_superBlock p"
  shows "\<exists>st' bs. PALOLD_io g c p timing op req tick st = Inr (finished_at bs tick, st') \<and> pal2_inv p st'
    \<and> p2_log st' = p2_log st @ bs
    \<and> list_all2 (serves (GetLatency (pf_nandType c) timing) p) (map (\<lambda>a. (op, tick, a)) (request_pages g c p req)) bs"
proof -
  have "\<forall>a \<in> set (request_pages g c p req). address_ok p a" using request_pages_ok(2)[OF c req(2)] by blast
  from submit_all_ok[OF st GetLatency_ok[OF t] this] show ?thesis
    by (simp add: PALOLD_io_def convertCPDPBP_ok[OF c req(1)] request_pages_def)
qed

section \<open>Sequences\<close>

definition PALOLD_new :: "pal_config \<Rightarrow> (pal_param \<times> pal2) res" where
  "PALOLD_new c = rbind (PAL_param c) (\<lambda>p. rbind (PAL2_new (pf_nandType c) (pf_dmaSpeed c) p) (\<lambda>st. Inr (p, st)))"

datatype pal_event = PalRequest pal_oper pal_request nat | PalFlush nat

fun pal_event_step ::
  "cpdpbp \<Rightarrow> pal_config \<Rightarrow> pal_param \<Rightarrow> nand_timing \<Rightarrow> pal_event \<Rightarrow> pal2 \<Rightarrow> pal2 res"
where
  "pal_event_step g c p timing (PalRequest op req tick) st = rbind (PALOLD_io g c p timing op req tick st) (\<lambda>(t, st). Inr st)"
| "pal_event_step g c p timing (PalFlush tick) st = Inr (fst (PALOLD_flush tick st))"

fun pal_event_ok :: "pal_config \<Rightarrow> pal_param \<Rightarrow> pal_event \<Rightarrow> bool" where
  "pal_event_ok c p (PalRequest op req tick) \<longleftrightarrow> request_ok c p req \<and> pr_blockIndex req < pp_superBlock p"
| "pal_event_ok c p (PalFlush tick) = True"

fun event_pages :: "cpdpbp \<Rightarrow> pal_config \<Rightarrow> pal_param \<Rightarrow> pal_event \<Rightarrow> (pal_oper \<times> nat \<times> cpdpbp) list" where
  "event_pages g c p (PalRequest op req tick) = map (\<lambda>a. (op, tick, a)) (request_pages g c p req)"
| "event_pages g c p (PalFlush tick) = []"

definition pal_session ::
  "cpdpbp \<Rightarrow> pal_config \<Rightarrow> nand_timing \<Rightarrow> pal_event list \<Rightarrow> pal2 res"
where
  "pal_session g c timing es = rbind (PALOLD_new c) (\<lambda>(p, st). rfold (pal_event_step g c p timing) es st)"

lemma PALOLD_new_inv:
  assumes "PALOLD_new c = Inr (p, st)"
  shows "PAL_param c = Inr p" "pal2_inv p st" "p2_log st = []"
  using assms PAL2_new_inv by (auto simp: PALOLD_new_def)

lemma PALOLD_flush_inv:
  assumes "pal2_inv p st"
  shows "pal2_inv p (fst (PALOLD_flush tick st))" "p2_log (fst (PALOLD_flush tick st)) = p2_log st"
  using FlushFreeSlots_inv[OF assms] FlushTimeSlots_inv[OF FlushFreeSlots_inv(1)[OF assms]]
  by (simp_all add: PALOLD_flush_def Let_def)

lemma pal_events_ok:
  assumes "pal2_inv p st" "timing_ok timing" "pal_config_ok c" "PAL_param c = Inr p" "\<forall>e \<in> set es. pal_event_ok c p e"
  shows "\<exists>st' bs. rfold (pal_event_step g c p timing) es st = Inr st' \<and> pal2_inv p st' \<and> p2_log st' = p2_log st @ bs
    \<and> list_all2 (serves (GetLatency (pf_nandType c) timing) p) (concat (map (event_pages g c p) es)) bs"
  using assms(1,5)
proof (induction es arbitrary: st)
  case (Cons e es)
  have es: "\<forall>e \<in> set es. pal_event_ok c p e" using Cons.prems(2) by simp
  show ?case
  proof (cases e)
    case (PalRequest op req tick)
    have req: "request_ok c p req" "pr_blockIndex req < pp_superBlock p" using Cons.prems(2) PalRequest by simp_all
    obtain st1 bs1 where s: "PALOLD_io g c p timing op req tick st = Inr (finished_at bs1 tick, st1)" "pal2_inv p st1"
      "p2_log st1 = p2_log st @ bs1"
      "list_all2 (serves (GetLatency (pf_nandType c) timing) p) (event_pages g c p e) bs1"
      using PALOLD_io_ok[OF Cons.prems(1) assms(2-4) req, of g op tick] PalRequest by auto
    obtain st' bs2 where r: "rfold (pal_event_step g c p timing) es st1 = Inr st'" "pal2_inv p st'" "p2_log st' = p2_log st1 @ bs2"
      "list_all2 (serves (GetLatency (pf_nandType c) timing) p) (concat (map (event_pages g c p) es)) bs2"
      using Cons.IH[OF s(2) es] by blast
    have "list_all2 (serves (GetLatency (pf_nandType c) timing) p) (concat (map (event_pages g c p) (e # es))) (bs1 @ bs2)"
      using s(4) r(4) by (simp add: list_all2_appendI)
    with s r PalRequest show ?thesis by (intro exI[of _ st'] exI[of _ "bs1 @ bs2"]) simp
  next
    case (PalFlush tick)
    note F = PALOLD_flush_inv[OF Cons.prems(1), of tick]
    from Cons.IH[OF F(1) es] F(2) PalFlush show ?thesis by simp
  qed
qed simp

end
