(* ===== verification/Pal_Props.thy ===== *)
theory Pal_Props
  imports Pal_Requests "HOL-Library.Code_Target_Nat"
begin

text \<open>
  The properties of the flash, with their instances at a flash of two channels with two dies each
  (\<^verbatim>\<open>small_flash\<close>).
\<close>

section \<open>The order of the page allocation\<close>

definition letters :: "string \<Rightarrow> 8 word list" where
  "letters s = List.map_filter letter_index s"

definition indices :: "8 word set" where
  "indices = {INDEX_CHANNEL, INDEX_PACKAGE, INDEX_DIE, INDEX_PLANE}"

lemma letter_index_range: "letter_index c = Some k \<Longrightarrow> k \<in> indices"
  by (auto simp: letter_index_def indices_def split: if_splits)

definition check_of :: "8 word list \<Rightarrow> 8 word" where
  "check_of ks = fold (\<lambda>k c. c OR k) ks 0"

lemma check_of_eq:
  assumes "set ks \<subseteq> indices"
  shows "check_of ks = (if 1 \<in> set ks then 1 else 0) OR (if 2 \<in> set ks then 2 else 0)
    OR (if 4 \<in> set ks then 4 else 0) OR (if 8 \<in> set ks then 8 else 0)"
  using assms
proof (induction ks rule: rev_induct)
  case (snoc k ks)
  have "k = 1 \<or> k = 2 \<or> k = 4 \<or> k = 8" using snoc.prems by (auto simp: indices_def)
  moreover have e: "check_of (ks @ [k]) = check_of ks OR k" by (simp add: check_of_def)
  ultimately show ?case using snoc unfolding e by (elim disjE) (auto simp: indices_def)
qed (simp add: check_of_def)

lemma check_of_mem:
  assumes "set ks \<subseteq> indices" "k \<in> indices"
  shows "check_of ks AND k \<noteq> 0 \<longleftrightarrow> k \<in> set ks"
proof -
  have "k = 1 \<or> k = 2 \<or> k = 4 \<or> k = 8" using assms(2) by (auto simp: indices_def)
  then show ?thesis
    unfolding check_of_eq[OF assms(1)] by (elim disjE) (auto split: if_splits)
qed

lemma check_of_all:
  assumes "set ks \<subseteq> indices"
  shows "check_of ks = 1 OR 2 OR 4 OR 8 \<longleftrightarrow> set ks = indices"
proof -
  have "set ks = indices \<longleftrightarrow> 1 \<in> set ks \<and> 2 \<in> set ks \<and> 4 \<in> set ks \<and> 8 \<in> set ks"
    using assms by (auto simp: indices_def)
  then show ?thesis unfolding check_of_eq[OF assms] by (auto split: if_splits)
qed

lemma parse_allocation_ok:
  assumes "length ks < 4" "length ks + length rest = 4" "set ks \<subseteq> indices"
  shows "parse_allocation s (ks @ rest, length ks, check_of ks, \<not> distinct ks)
    = (let ks' = take 4 (ks @ letters s)
       in (ks' @ drop (length ks' - length ks) rest, length ks', check_of ks', \<not> distinct ks'))"
  using assms
proof (induction s arbitrary: ks rest)
  case Nil
  then show ?case by (simp add: letters_def)
next
  case (Cons c cs)
  show ?case
  proof (cases "letter_index c")
    case None
    with Cons show ?thesis by (simp add: letters_def)
  next
    case (Some k)
    obtain r rest' where rest: "rest = r # rest'" using Cons.prems(1,2) by (cases rest) auto
    let ?ks = "ks @ [k]"
    have k: "k \<in> indices" by (rule letter_index_range[OF Some])
    have st: "((ks @ rest)[length ks := k], length ks + 1, check_of ks OR k, \<not> distinct ks \<or> check_of ks AND k \<noteq> 0)
      = (?ks @ rest', length ?ks, check_of ?ks, \<not> distinct ?ks)"
      using check_of_mem[OF Cons.prems(3) k] by (auto simp: rest check_of_def)
    have letters: "letters (c # cs) = k # letters cs" using Some by (simp add: letters_def)
    have step: "parse_allocation (c # cs) (ks @ rest, length ks, check_of ks, \<not> distinct ks)
      = (let st = (?ks @ rest', length ?ks, check_of ?ks, \<not> distinct ?ks) in if length ?ks = 4 then st else parse_allocation cs st)"
      unfolding parse_allocation.simps Some option.case st Let_def by simp
    show ?thesis
    proof (cases "length ?ks = 4")
      case True
      with Cons.prems(2) show ?thesis unfolding step letters by (simp add: rest Let_def)
    next
      case False
      have "parse_allocation cs (?ks @ rest', length ?ks, check_of ?ks, \<not> distinct ?ks)
        = (let ks' = take 4 (?ks @ letters cs)
           in (ks' @ drop (length ks' - length ?ks) rest', length ks', check_of ks', \<not> distinct ks'))"
        by (rule Cons.IH) (use Cons.prems False k in \<open>simp_all add: rest\<close>)
      moreover have "length ?ks \<le> length (take 4 (?ks @ letters cs))" using Cons.prems(1) by simp
      then have "drop (length (take 4 (?ks @ letters cs)) - length ks) rest = drop (length (take 4 (?ks @ letters cs)) - length ?ks) rest'"
        by (simp add: rest drop_Cons' del: length_take)
      ultimately show ?thesis using False unfolding step letters by (simp add: Let_def del: take_append length_take)
    qed
  qed
qed

lemma plane_first_ok:
  assumes "allocation_ok pa"
  shows "plane_first pa = INDEX_PLANE # filter (\<lambda>k. k \<noteq> INDEX_PLANE) pa" "allocation_ok (plane_first pa)"
proof -
  obtain a b c d where pa: "pa = [a, b, c, d]"
    using assms by (auto simp: allocation_ok_def eval_nat_numeral length_Suc_conv)
  have dist: "distinct pa" by (rule allocation_distinct[OF assms])
  have "8 \<in> set pa" using assms by (simp add: allocation_ok_def)
  with dist have "a = 8 \<and> b \<noteq> 8 \<and> c \<noteq> 8 \<and> d \<noteq> 8 \<or> a \<noteq> 8 \<and> b = 8 \<and> c \<noteq> 8 \<and> d \<noteq> 8
    \<or> a \<noteq> 8 \<and> b \<noteq> 8 \<and> c = 8 \<and> d \<noteq> 8 \<or> a \<noteq> 8 \<and> b \<noteq> 8 \<and> c \<noteq> 8 \<and> d = 8"
    by (auto simp: pa)
  then show e: "plane_first pa = INDEX_PLANE # filter (\<lambda>k. k \<noteq> INDEX_PLANE) pa"
    by (elim disjE) (simp_all add: plane_first_def pa eval_nat_numeral)
  have "length (filter (\<lambda>k. k = INDEX_PLANE) pa) = 1"
    using \<open>8 \<in> set pa\<close> dist by (auto simp: pa)
  with sum_length_filter_compl[of "\<lambda>k. k = INDEX_PLANE" pa] assms show "allocation_ok (plane_first pa)"
    unfolding e by (auto simp: allocation_ok_def)
qed

lemma Config_update_ok:
  assumes "pf_dmaWidth c mod 8 = 0" "length (pf_PageAllocation c) = 4"
  defines "ks \<equiv> take 4 (letters (pf_raw_pageAllocation c))"
  shows "Config_update c = (if set ks = indices
    then Inr (c\<lparr>pf_PageAllocation := if pf_useMultiPlaneOperation c then plane_first ks else ks,
      pf_superblock := let sb = parse_superblock (pf_raw_superblock c) (pf_superblock c)
        in if pf_useMultiPlaneOperation c then sb OR INDEX_PLANE else sb\<rparr>)
    else Inl (Panic ''Invalid page allocation string''))"
proof -
  have range: "set ks \<subseteq> indices"
    using letter_index_range by (auto simp: ks_def letters_def List.map_filter_def dest!: in_set_takeD)
  have len: "length ks \<le> 4" by (simp add: ks_def)
  have "parse_allocation (pf_raw_pageAllocation c) (pf_PageAllocation c, 0, 0, False)
    = (ks @ drop (length ks) (pf_PageAllocation c), length ks, check_of ks, \<not> distinct ks)"
    using parse_allocation_ok[of "[]" "pf_PageAllocation c" "pf_raw_pageAllocation c"] assms(2)
    by (simp add: check_of_def ks_def Let_def)
  moreover have "set ks = indices \<longleftrightarrow> \<not> (\<not> distinct ks \<or> check_of ks \<noteq> 1 OR 2 OR 4 OR 8)"
  proof -
    have "distinct ks" if "set ks = indices"
    proof (rule card_distinct)
      have "card (set ks) = 4" unfolding that by (simp add: indices_def)
      with card_length[of ks] len show "card (set ks) = length ks" by simp
    qed
    with check_of_all[OF range] show ?thesis by blast
  qed
  moreover have "drop (length ks) (pf_PageAllocation c) = []" if "set ks = indices"
  proof -
    have "card (set ks) = 4" unfolding that by (simp add: indices_def)
    with card_length[of ks] len assms(2) show ?thesis by simp
  qed
  ultimately show ?thesis using assms(1) by (simp add: Config_update_def Let_def)
qed

text \<open>C31: With a bus of whole bytes the configuration is accepted exactly if the first four letters for the
  channel, the way, the die and the plane, whatever stands between them, name each of the four. The order
  that it leaves has each of the four indices once, in the order of the string; with multi-plane operations
  the plane is moved to the front.\<close>

theorem page_order_accepted:
  assumes "pf_dmaWidth c mod 8 = 0" "length (pf_PageAllocation c) = 4"
  shows "(case Config_update c of
      Inl e \<Rightarrow> e = Panic ''Invalid page allocation string'' \<and> set (take 4 (letters (pf_raw_pageAllocation c))) \<noteq> indices
    | Inr c' \<Rightarrow> set (take 4 (letters (pf_raw_pageAllocation c))) = indices \<and> allocation_ok (pf_PageAllocation c')
        \<and> pf_PageAllocation c' = (let ks = take 4 (letters (pf_raw_pageAllocation c))
            in if pf_useMultiPlaneOperation c then INDEX_PLANE # filter (\<lambda>k. k \<noteq> INDEX_PLANE) ks else ks))"
proof -
  let ?ks = "take 4 (letters (pf_raw_pageAllocation c))"
  have ok: "allocation_ok ?ks" if "set ?ks = indices"
  proof -
    have "card (set ?ks) = 4" unfolding that by (simp add: indices_def)
    with card_length[of ?ks] that show ?thesis by (simp add: allocation_ok_def indices_def)
  qed
  show ?thesis
    unfolding Config_update_ok[OF assms] using ok plane_first_ok[OF ok] by (simp add: Let_def)
qed

definition small_flash :: pal_config where
  "small_flash = \<lparr>pf_channel = 2, pf_package = 1, pf_die = 2, pf_plane = 2, pf_block = 4, pf_page = 2, pf_pageSize = 4096,
    pf_useMultiPlaneOperation = True, pf_dmaSpeed = 400, pf_dmaWidth = 8, pf_nandType = NAND_MLC, pf_superblock = 0,
    pf_PageAllocation = [0, 0, 0, 0], pf_raw_superblock = ''C'', pf_raw_pageAllocation = ''C-D w,P'', pf_bRandomTweak = True\<rparr>"

theorem page_order_accepted_witness:
  "\<exists>c. Config_update small_flash = Inr c \<and> pf_PageAllocation c = [INDEX_PLANE, INDEX_CHANNEL, INDEX_DIE, INDEX_PACKAGE]
     \<and> allocation_ok (pf_PageAllocation c)"
proof -
  have "letters ''C-D w,P'' = [1, 4, 2, 8]" by (simp add: letters_def letter_index_def)
  with page_order_accepted[of small_flash] show ?thesis
    by (auto simp: small_flash_def indices_def split: sum.splits)
qed

section \<open>Requests\<close>

text \<open>C30: A request for a superblock becomes exactly the pages of the flash that lie in this superblock, at the
  requested page, in a unit whose flag is set, in the order of the units: an address determines its
  superblock and its unit, and every address in the dimensions of the flash belongs to a superblock and a
  unit that can be requested.\<close>

theorem request_addresses:
  assumes "pal_config_ok c" "PAL_param c = Inr p" "request_ok c p req" "pr_blockIndex req < pp_superBlock p"
  shows "\<exists>as. convertCPDPBP g c p req = Inr as
      \<and> map (digits (inside c p)) as = filter (\<lambda>u. u \<in> request_units c p req) [0..<pp_pageInSuperPage p]
      \<and> set as = {a. address_in c p a \<and> ad_Page a = pr_pageIndex req \<and> block_of c p a = pr_blockIndex req
                      \<and> digits (inside c p) a \<in> request_units c p req}
      \<and> (\<forall>a. address_in c p a \<longrightarrow> block_of c p a < pp_superBlock p \<and> digits (inside c p) a < pp_pageInSuperPage p)"
proof (rule exI[of _ "request_pages g c p req"], intro conjI)
  show "convertCPDPBP g c p req = Inr (request_pages g c p req)"
    unfolding request_pages_def by (rule convertCPDPBP_ok[OF assms(1-3)])
  show "map (digits (inside c p)) (request_pages g c p req) = filter (\<lambda>u. u \<in> request_units c p req) [0..<pp_pageInSuperPage p]"
    unfolding request_pages_def map_map
    by (rule map_idI) (use page_address_in(3)[OF assms(1,2) _ assms(4)] in simp)
  show "\<forall>a. address_in c p a \<longrightarrow> block_of c p a < pp_superBlock p \<and> digits (inside c p) a < pp_pageInSuperPage p"
    using address_page(2,3)[OF assms(1,2)] by blast
  show "set (request_pages g c p req) = {a. address_in c p a \<and> ad_Page a = pr_pageIndex req
      \<and> block_of c p a = pr_blockIndex req \<and> digits (inside c p) a \<in> request_units c p req}"
  proof (intro set_eqI iffI)
    fix a assume "a \<in> {a. address_in c p a \<and> ad_Page a = pr_pageIndex req
      \<and> block_of c p a = pr_blockIndex req \<and> digits (inside c p) a \<in> request_units c p req}"
    then have a: "address_in c p a" "ad_Page a = pr_pageIndex req" "block_of c p a = pr_blockIndex req"
      "digits (inside c p) a \<in> request_units c p req" by simp_all
    from address_page(1)[OF assms(1,2) a(1), of g] address_page(3)[OF assms(1,2) a(1)] a(2-4) show "a \<in> set (request_pages g c p req)"
      unfolding request_pages_def set_map set_filter by (intro image_eqI[of a _ "digits (inside c p) a"]) simp_all
  qed (use request_pages_ok[OF assms(1,2,4)] in simp)
qed

definition small_flash_set :: pal_config where
  "small_flash_set = small_flash\<lparr>pf_PageAllocation := [INDEX_PLANE, INDEX_CHANNEL, INDEX_DIE, INDEX_PACKAGE],
     pf_superblock := INDEX_CHANNEL OR INDEX_PLANE\<rparr>"

definition small_param :: pal_param where
  "small_param = \<lparr>pp_channel = 2, pp_package = 1, pp_die = 2, pp_plane = 2, pp_block = 4, pp_page = 2, pp_pageSize = 4096,
     pp_superBlock = 8, pp_superPageSize = 16384, pp_pageInSuperPage = 2\<rparr>"

definition no_address :: cpdpbp where
  "no_address = \<lparr>ad_Channel = 99, ad_Package = 99, ad_Die = 99, ad_Plane = 99, ad_Block = 99, ad_Page = 99\<rparr>"

definition both_units :: bitset where
  "both_units = \<lparr>bs_data = [3], bs_dataSize = 2, bs_allocSize = 1\<rparr>"

lemma small_flash_facts:
  "Config_update small_flash = Inr small_flash_set" "pal_config_ok small_flash_set" "PAL_param small_flash_set = Inr small_param"
proof -
  have letters: "letters ''C-D w,P'' = [1, 4, 2, 8]" by (simp add: letters_def letter_index_def)
  have "allocation_ok [1, 4, 2, 8]" by (auto simp: allocation_ok_def)
  then have pf: "plane_first [1, 4, 2, 8] = [8, 1, 4, 2]" by (simp add: plane_first_ok(1))
  have ix: "{1, 4, 2, 8} = indices" by (auto simp: indices_def)
  show "Config_update small_flash = Inr small_flash_set"
    by (subst Config_update_ok)
      (simp_all add: small_flash_def small_flash_set_def letters pf ix parse_superblock_def letter_index_def)
  show "pal_config_ok small_flash_set"
    by (auto simp: pal_config_ok_def allocation_ok_def small_flash_set_def small_flash_def)
  show "PAL_param small_flash_set = Inr small_param"
    by (simp add: PAL_param_def small_flash_set_def small_flash_def small_param_def)
qed

lemma both_units_facts: "bs_wf both_units" "bs_size both_units = 2" "bs_elems both_units = {0, 1}"
proof -
  have b: "bit (3 :: 8 word) n \<longleftrightarrow> n = 0 \<or> n = 1" for n
  proof -
    have "bit (3 :: 8 word) n \<longleftrightarrow> bit (mask 2 :: 8 word) n" by (simp add: mask_eq_exp_minus_1)
    also have "\<dots> \<longleftrightarrow> n < 2" unfolding bit_mask_iff by auto
    finally show ?thesis by auto
  qed
  have bb: "bs_bit both_units i \<longleftrightarrow> i = 0 \<or> i = 1" if "i < 8" for i
  proof -
    have "bs_data both_units ! (i div 8) = 3" "i mod 8 = i" using that by (simp_all add: both_units_def)
    then show ?thesis by (simp only: bs_bit_def b)
  qed
  show "bs_wf both_units" "bs_size both_units = 2" "bs_elems both_units = {0, 1}"
    using bb by (auto simp: bs_wf_def bs_size_def bs_elems_def both_units_def DIVCEIL_def)
qed

definition small_request :: "nat \<Rightarrow> nat \<Rightarrow> pal_request" where
  "small_request b pg = \<lparr>pr_blockIndex = b, pr_pageIndex = pg, pr_ioFlag = both_units\<rparr>"

lemma small_request_ok: "request_ok small_flash_set small_param (small_request b pg)"
  using both_units_facts by (simp add: request_ok_def small_request_def small_param_def)

theorem request_addresses_witness:
  "\<exists>as. convertCPDPBP no_address small_flash_set small_param (small_request 5 1) = Inr as \<and> length as = 2
     \<and> (\<forall>a \<in> set as. ad_Page a = 1 \<and> block_of small_flash_set small_param a = 5)"
proof -
  have b: "pr_blockIndex (small_request 5 1) < pp_superBlock small_param" by (simp add: small_request_def small_param_def)
  have u: "request_units small_flash_set small_param (small_request 5 1) = {0, 1}"
    using both_units_facts by (simp add: request_units_def small_request_def small_param_def)
  have upt: "[0..<pp_pageInSuperPage small_param] = [0, 1]" by (simp add: small_param_def upt_rec)
  obtain as where as: "convertCPDPBP no_address small_flash_set small_param (small_request 5 1) = Inr as"
    "map (digits (inside small_flash_set small_param)) as = filter (\<lambda>u. u \<in> {0, 1}) [0, 1]"
    "set as = {a. address_in small_flash_set small_param a \<and> ad_Page a = 1 \<and> block_of small_flash_set small_param a = 5
       \<and> digits (inside small_flash_set small_param) a \<in> {0, 1}}"
    using request_addresses[OF small_flash_facts(2,3) small_request_ok b, of no_address, unfolded u upt]
    by (elim exE conjE) (rule that, simp_all only: small_request_def pal_request.simps)
  from arg_cong[OF as(2), of length] have "length as = 2" by simp
  with as(1,3) show ?thesis by blast
qed

section \<open>The time line\<close>

text \<open>C29: Every sequence of requests and flushes from the constructor on is served: no loop of the scheduler
  runs for ever and nothing is accessed out of range. Each request gets one operation for each of its
  pages, which starts at or after the tick of the request, holds the die from its command to the end of its
  data at least, and transfers its data after the time that the flash needs. Two operations never hold the
  same channel or the same die at the same tick, whenever they were requested.\<close>

theorem requests_served:
  assumes "pal_config_ok c" "PALOLD_new c = Inr (p, st)" "timing_ok timing" "\<forall>e \<in> set es. pal_event_ok c p e"
  shows "\<exists>st'. pal_session g c timing es = Inr st' \<and> sorted_wrt apart (p2_log st')
    \<and> list_all2 (serves (GetLatency (pf_nandType c) timing) p) (concat (map (event_pages g c p) es)) (p2_log st')"
proof -
  note N = PALOLD_new_inv[OF assms(2)]
  from pal_events_ok[OF N(2) assms(3,1) N(1) assms(4), of g] N(3) assms(2) show ?thesis
    by (auto simp: pal_session_def pal2_inv_def)
qed

definition small_timing :: nand_timing where
  "small_timing = \<lparr>nt_lsb = \<lparr>pt_read = 40, pt_write = 500\<rparr>, nt_csb = \<lparr>pt_read = 0, pt_write = 0\<rparr>,
     nt_msb = \<lparr>pt_read = 65, pt_write = 1300\<rparr>, nt_dma0 = \<lparr>dt_read = 7, dt_write = 70, dt_erase = 5\<rparr>,
     nt_dma1 = \<lparr>dt_read = 60, dt_write = 1, dt_erase = 1\<rparr>, nt_erase = 3500\<rparr>"

lemma small_timing_ok: "timing_ok small_timing"
proof -
  have "0 < dma_latency (nt_dma0 small_timing) op \<and> 0 < dma_latency (nt_dma1 small_timing) op" for op
    by (cases op) (simp_all add: dma_latency_def small_timing_def)
  then show ?thesis by (simp add: timing_ok_def)
qed

definition small_events :: "pal_event list" where
  "small_events = [PalRequest OPER_WRITE (small_request 5 1) 0, PalRequest OPER_READ (small_request 5 0) 10,
     PalFlush 10000000600, PalRequest OPER_ERASE (small_request 1 0) 0]"

theorem requests_served_witness:
  "\<exists>st. pal_session no_address small_flash_set small_timing small_events = Inr st \<and> length (p2_log st) = 6
     \<and> sorted_wrt apart (p2_log st)"
proof -
  obtain st0 where new: "PALOLD_new small_flash_set = Inr (small_param, st0)"
  proof -
    have "\<exists>st. PAL2_new (pf_nandType small_flash_set) (pf_dmaSpeed small_flash_set) small_param = Inr st"
      by (simp add: PAL2_new_def Let_def small_flash_set_def small_flash_def small_param_def)
    with that show thesis by (auto simp: PALOLD_new_def small_flash_facts(3))
  qed
  have es: "\<forall>e \<in> set small_events. pal_event_ok small_flash_set small_param e"
    using small_request_ok by (simp add: small_events_def) (simp add: small_request_def small_param_def)
  have u: "request_units small_flash_set small_param (small_request b pg) = {0, 1}" for b pg
    using both_units_facts by (simp add: request_units_def small_request_def small_param_def)
  have n: "length (concat (map (event_pages no_address small_flash_set small_param) small_events)) = 6"
    unfolding small_events_def list.map event_pages.simps length_map length_concat request_pages_def u
    by (simp add: small_param_def eval_nat_numeral)
  from requests_served[OF small_flash_facts(2) new small_timing_ok es, of no_address] n show ?thesis
    by (metis list_all2_lengthD)
qed

section \<open>The time that the dies are busy\<close>

lemma slot_pos_last:
  assumes "xs \<noteq> []" "\<forall>(a, b) \<in> set xs. a \<le> b \<and> b < x"
  shows "slot_pos i x xs = (i + length xs - 1, False)"
  using assms by (induction i x xs rule: slot_pos.induct) auto

text \<open>C32: When an operation takes its die after all the busy time that is recorded so far has ended, the
  record does not get a new slot: the last slot is extended to the end of the operation, so that the idle
  time in between is counted as busy.\<close>

theorem idle_gap_counts_busy:
  assumes "merged_ok xs" "xs \<noteq> []" "\<forall>(a, b) \<in> set xs. a \<le> b \<and> b < s" "s \<le> e" "e + 1 < 2 ^ 64"
  shows "merge_slot s e xs = Inr (butlast xs @ [(fst (last xs), e)])
    \<and> slot_time (fst (last xs), e) = slot_time (last xs) + (s - snd (last xs) - 1) + slot_time (s, e)"
proof -
  let ?i = "length xs - 1"
  have e: "\<forall>(a, b) \<in> set xs. a \<le> b \<and> b < e" using assms(3,4) by auto
  have p: "slot_pos 0 s xs = (?i, False)" "slot_pos 0 e xs = (?i, False)"
    using slot_pos_last[OF assms(2,3)] slot_pos_last[OF assms(2) e] by simp_all
  have "merge_slot s e xs = Inr (butlast xs @ [(fst (last xs), e)])"
    using assms(2) by (subst merge_slot_eq[OF assms(1,4,2) p]) (simp add: butlast_conv_take last_conv_nth)
  moreover obtain a b where l: "last xs = (a, b)" by (cases "last xs")
  then have "a \<le> b" "b < s" using assms(2,3) last_in_set[of xs] by auto
  moreover have "slot_time (x, y) = y - x + 1" if "x \<le> y" "y \<le> e" for x y
    using that assms(5) by (simp add: slot_time_def nat_mod_as_int of_nat_diff)
  ultimately show ?thesis using assms(4) by (simp add: l)
qed

theorem idle_gap_counts_busy_witness:
  "merge_slot 1000 1009 [(0, 9)] = Inr [(0, 1009)] \<and> slot_time (0, 9) + slot_time (1000, 1009) = 20 \<and> slot_time (0, 1009) = 1010"
  using idle_gap_counts_busy[of "[(0, 9)]" 1000 1009] by (simp add: merged_ok_def slot_time_def)

end
