(* ===== verification/Hil_Requests.thy ===== *)
theory Hil_Requests
  imports Event_Engine Icl_Cache
begin

text \<open>
  From a request of the host to the operations of the cache: the driver without an interface
  (sil/none/none.cc), the host interface layer (hil/hil.cc) with its queue of completions, and the front end
  of the internal cache layer (icl/icl.cc), which serves a request page by page. The requests are those of
  util/def.hh.

  The host interface layer runs on the event engine. Its functions that the processor model calls at the end
  of a delay are definitions of their own. \<^verbatim>\<open>std::priority_queue\<close> does not say which of several elements with
  the least tick it gives first: the queue is a list, and \<^verbatim>\<open>pick\<close> gives the position of its top.
\<close>

section \<open>Requests\<close>

record 'c hil_request =
  hr_reqID :: nat
  hr_offset :: nat
  hr_length :: nat
  hr_slpn :: nat
  hr_nlp :: nat
  hr_finishedAt :: nat
  hr_function :: 'c                   \<comment> \<open>\<^verbatim>\<open>function\<close> with its \<^verbatim>\<open>context\<close>\<close>

definition icl_request_of :: "'c hil_request \<Rightarrow> icl_request" where
  "icl_request_of r = \<lparr>rq_reqID = hr_reqID r, rq_offset = hr_offset r, rq_length = hr_length r, rq_slpn = hr_slpn r,
     rq_nlp = hr_nlp r, rq_loadedFromBlock = False\<rparr>"

section \<open>The driver without an interface\<close>

datatype bio_type = BIO_READ | BIO_WRITE | BIO_FLUSH | BIO_TRIM | BIO_NUM

record 'c bio =
  bio_id :: nat
  bio_type :: bio_type
  bio_offset :: nat
  bio_length :: nat
  bio_callback :: 'c

text \<open>\<^verbatim>\<open>DIVCEIL\<close> at 64 bits: without a length the subtraction wraps around.\<close>

definition DIVCEIL64 :: "nat \<Rightarrow> nat \<Rightarrow> nat" where
  "DIVCEIL64 x y = (x + 2 ^ 64 - 1) mod 2 ^ 64 div y + 1"

text \<open>The request for a range of bytes. \<^verbatim>\<open>log2\<close> is the logarithm of the library, rounded down; \<^verbatim>\<open>pages\<close> is
  \<^verbatim>\<open>nlogicalpagesinSSD\<close>.\<close>

definition none_request :: "(nat \<Rightarrow> nat) \<Rightarrow> nat \<Rightarrow> nat \<Rightarrow> 'c bio \<Rightarrow> 'c hil_request" where
  "none_request log2 pages logicalPageSize bio =
     (let incomingRequestAddress = bio_offset bio div logicalPageSize; mask = log2 pages + 1 in
      if incomingRequestAddress \<le> pages
      then \<lparr>hr_reqID = bio_id bio, hr_offset = bio_offset bio mod logicalPageSize, hr_length = bio_length bio,
            hr_slpn = incomingRequestAddress, hr_nlp = DIVCEIL64 (bio_length bio) logicalPageSize, hr_finishedAt = 0,
            hr_function = bio_callback bio\<rparr>
      else \<lparr>hr_reqID = bio_id bio, hr_offset = 0, hr_length = bio_length bio,
            hr_slpn = incomingRequestAddress mod 2 ^ mask mod pages,
            hr_nlp = DIVCEIL64 (bio_length bio) logicalPageSize, hr_finishedAt = 0, hr_function = bio_callback bio\<rparr>)"

section \<open>The front end of the cache\<close>

text \<open>The globals that the front end shares with the translation layer.\<close>

record 'f icl_globals =
  ig_putPagesInCache :: "'f \<Rightarrow> bool"
  ig_movePagesToCache :: "'f \<Rightarrow> nat list"
  ig_setMovePagesToCache :: "nat list \<Rightarrow> 'f \<Rightarrow> 'f"
  ig_clearPutPagesInCache :: "'f \<Rightarrow> 'f"
  ig_incIclCount :: "'f \<Rightarrow> 'f"

text \<open>The part of a request for its page \<^verbatim>\<open>i\<close>, when \<^verbatim>\<open>reqRemain\<close> bytes are left.\<close>

definition icl_piece :: "nat \<Rightarrow> icl_request \<Rightarrow> nat \<Rightarrow> nat \<Rightarrow> icl_request" where
  "icl_piece logicalPageSize req i reqRemain =
     \<lparr>rq_reqID = rq_reqID req, rq_offset = (if i = 0 then rq_offset req else 0), rq_length = min reqRemain logicalPageSize,
      rq_slpn = rq_slpn req + i, rq_nlp = 0, rq_loadedFromBlock = False\<rparr>"

definition count_icl :: "'f icl_globals \<Rightarrow> 'f gcache \<Rightarrow> 'f gcache" where
  "count_icl ig s = s\<lparr>gc_below := ig_incIclCount ig (gc_below s)\<rparr>"

definition icl_read_page ::
  "'f icl_globals \<Rightarrow> gconf \<Rightarrow> 'f below \<Rightarrow> nat \<Rightarrow> icl_request \<Rightarrow> nat \<Rightarrow> nat \<Rightarrow> nat \<times> nat \<times> 'f gcache
    \<Rightarrow> (nat \<times> nat \<times> 'f gcache) res"
where
  "icl_read_page ig g be logicalPageSize req tick i = (\<lambda>(finishedAt, reqRemain, s).
     let piece = icl_piece logicalPageSize req i reqRemain in
     rbind (gc_read g be piece tick (count_icl ig s)) (\<lambda>(hit, beginAt, s).
     Inr (max finishedAt beginAt, reqRemain - rq_length piece, s)))"

definition icl_read ::
  "'f icl_globals \<Rightarrow> (cpu_function \<Rightarrow> nat) \<Rightarrow> gconf \<Rightarrow> 'f below \<Rightarrow> nat \<Rightarrow> icl_request \<Rightarrow> nat \<Rightarrow> 'f gcache
    \<Rightarrow> (nat \<times> 'f gcache) res"
where
  "icl_read ig latency g be logicalPageSize req tick s =
     rbind (rfold (icl_read_page ig g be logicalPageSize req tick) [0..<rq_nlp req] (tick, rq_length req, s))
       (\<lambda>(finishedAt, reqRemain, s). Inr (finishedAt + latency CPU_READ, s))"

text \<open>The pages that the collection has put aside are written into the cache; evictions that this causes may
  put aside more of them.\<close>

definition mimic_request :: "nat \<Rightarrow> nat \<Rightarrow> icl_request" where
  "mimic_request logicalPageSize element = \<lparr>rq_reqID = 0, rq_offset = 0, rq_length = logicalPageSize, rq_slpn = element,
     rq_nlp = 0, rq_loadedFromBlock = True\<rparr>"

partial_function (option) mimic_loop ::
  "'f icl_globals \<Rightarrow> gconf \<Rightarrow> 'f below \<Rightarrow> nat \<Rightarrow> nat \<Rightarrow> nat \<Rightarrow> 'f gcache \<Rightarrow> (nat \<times> 'f gcache) res option"
where
  "mimic_loop ig g be logicalPageSize tick finishedAt s =
     (case ig_movePagesToCache ig (gc_below s) of
        [] \<Rightarrow> Some (Inr (finishedAt, s))
      | element # rest \<Rightarrow>
          (case writeVictimPagesToCache g be (mimic_request logicalPageSize element) tick
                  (s\<lparr>gc_below := ig_setMovePagesToCache ig rest (gc_below s)\<rparr>) of
             Inl e \<Rightarrow> Some (Inl e)
           | Inr (hit, beginAt, s) \<Rightarrow> mimic_loop ig g be logicalPageSize tick (max finishedAt beginAt) s))"

definition writeToCacheMimic ::
  "'f icl_globals \<Rightarrow> gconf \<Rightarrow> 'f below \<Rightarrow> nat \<Rightarrow> nat \<Rightarrow> 'f gcache \<Rightarrow> (nat \<times> 'f gcache) res"
where
  "writeToCacheMimic ig g be logicalPageSize tick s =
     (case mimic_loop ig g be logicalPageSize tick tick s of
        None \<Rightarrow> Inl Diverges
      | Some r \<Rightarrow> rbind r (\<lambda>(tick, s). Inr (tick, s\<lparr>gc_below := ig_clearPutPagesInCache ig (gc_below s)\<rparr>)))"

definition icl_write_page ::
  "'f icl_globals \<Rightarrow> gconf \<Rightarrow> 'f below \<Rightarrow> nat \<Rightarrow> icl_request \<Rightarrow> nat \<Rightarrow> nat \<Rightarrow> nat \<times> nat \<times> 'f gcache
    \<Rightarrow> (nat \<times> nat \<times> 'f gcache) res"
where
  "icl_write_page ig g be logicalPageSize req tick i = (\<lambda>(finishedAt, reqRemain, s).
     let piece = icl_piece logicalPageSize req i reqRemain in
     rbind (gc_write g be piece tick (count_icl ig s)) (\<lambda>(hit, beginAt, s).
     rbind (if ig_putPagesInCache ig (gc_below s) then writeToCacheMimic ig g be logicalPageSize beginAt s
            else Inr (beginAt, s)) (\<lambda>(beginAt, s).
     Inr (max finishedAt beginAt, reqRemain - rq_length piece, s))))"

definition icl_write ::
  "'f icl_globals \<Rightarrow> (cpu_function \<Rightarrow> nat) \<Rightarrow> gconf \<Rightarrow> 'f below \<Rightarrow> nat \<Rightarrow> icl_request \<Rightarrow> nat \<Rightarrow> 'f gcache
    \<Rightarrow> (nat \<times> 'f gcache) res"
where
  "icl_write ig latency g be logicalPageSize req tick s =
     rbind (rfold (icl_write_page ig g be logicalPageSize req tick) [0..<rq_nlp req] (tick, rq_length req, s))
       (\<lambda>(finishedAt, reqRemain, s). Inr (finishedAt + latency CPU_WRITE, s))"

definition icl_flush ::
  "(cpu_function \<Rightarrow> nat) \<Rightarrow> gconf \<Rightarrow> 'f below \<Rightarrow> nat \<Rightarrow> nat \<Rightarrow> nat \<Rightarrow> 'f gcache \<Rightarrow> (nat \<times> 'f gcache) res"
where
  "icl_flush latency g be slpn nlp tick s =
     rbind (gc_flush g be slpn nlp tick s) (\<lambda>(tick, s). Inr (tick + latency CPU_FLUSH, s))"

definition icl_trim ::
  "(cpu_function \<Rightarrow> nat) \<Rightarrow> gconf \<Rightarrow> 'f below \<Rightarrow> nat \<Rightarrow> nat \<Rightarrow> nat \<Rightarrow> 'f gcache \<Rightarrow> (nat \<times> 'f gcache) res"
where
  "icl_trim latency g be slpn nlp tick s =
     rbind (gc_trim g be slpn nlp tick s) (\<lambda>(tick, s). Inr (tick + latency CPU_TRIM, s))"

definition icl_format ::
  "(cpu_function \<Rightarrow> nat) \<Rightarrow> gconf \<Rightarrow> 'f below \<Rightarrow> nat \<Rightarrow> nat \<Rightarrow> nat \<Rightarrow> 'f gcache \<Rightarrow> (nat \<times> 'f gcache) res"
where
  "icl_format latency g be slpn nlp tick s =
     rbind (gc_format g be slpn nlp tick s) (\<lambda>(tick, s). Inr (tick + latency CPU_FORMAT, s))"

section \<open>The completion queue\<close>

record 'c hil =
  hl_reqCount :: nat
  hl_lastScheduled :: nat
  hl_completionEvent :: nat
  hl_completionQueue :: "'c hil_request list"
  hl_called :: "(nat \<times> 'c hil_request) list"     \<comment> \<open>the calls of \<^verbatim>\<open>function\<close>, with their ticks\<close>

definition HIL_new :: "'h \<Rightarrow> 'h engine \<Rightarrow> ('c hil \<times> 'h engine) res" where
  "HIL_new h eng = rbind (allocateEvent h eng) (\<lambda>(e, eng).
     Inr (\<lparr>hl_reqCount = 0, hl_lastScheduled = 0, hl_completionEvent = e, hl_completionQueue = [], hl_called = []\<rparr>, eng))"

definition updateCompletion ::
  "('c hil_request list \<Rightarrow> nat) \<Rightarrow> 'c hil \<times> 'h engine \<Rightarrow> ('c hil \<times> 'h engine) res"
where
  "updateCompletion pick = (\<lambda>(h, eng).
     if hl_completionQueue h \<noteq> []
     then rbind (rnth (hl_completionQueue h) (pick (hl_completionQueue h))) (\<lambda>top.
          if hl_lastScheduled h \<noteq> hr_finishedAt top
          then rbind (scheduleEvent (hl_completionEvent h) (hr_finishedAt top) eng) (\<lambda>eng.
               Inr (h\<lparr>hl_lastScheduled := hr_finishedAt top\<rparr>, eng))
          else Inr (h, eng))
     else Inr (h, eng))"

text \<open>The loop of \<^verbatim>\<open>completion\<close>. What a function that is called does comes later: with a processor for the
  host interface layer a request that it sends waits for an event of its own.\<close>

function complete_due :: "('c hil_request list \<Rightarrow> nat) \<Rightarrow> nat \<Rightarrow> 'c hil \<Rightarrow> 'c hil res" where
  "complete_due pick tick h =
     (let q = hl_completionQueue h in
      if q = [] then Inr h
      else if length q \<le> pick q then Inl OutOfBounds
      else if hr_finishedAt (q ! pick q) \<le> tick
      then complete_due pick tick (h\<lparr>hl_called := hl_called h @ [(tick, q ! pick q)],
             hl_completionQueue := list_erase (pick q) q\<rparr>)
      else Inr h)"
  by pat_completeness auto
termination by (relation "measure (\<lambda>(pick, tick, h). length (hl_completionQueue h))") (auto simp: list_erase_def)

declare complete_due.simps [simp del]

definition hil_completion :: "('c hil_request list \<Rightarrow> nat) \<Rightarrow> 'c hil \<times> 'h engine \<Rightarrow> ('c hil \<times> 'h engine) res" where
  "hil_completion pick = (\<lambda>(h, eng).
     rbind (complete_due pick (getCurrentTick eng) h) (\<lambda>h. updateCompletion pick (h, eng)))"

text \<open>The end of every operation.\<close>

definition hil_finish ::
  "('c hil_request list \<Rightarrow> nat) \<Rightarrow> 'c hil_request \<Rightarrow> nat \<Rightarrow> 'c hil \<times> 'h engine \<Rightarrow> ('c hil \<times> 'h engine) res"
where
  "hil_finish pick req tick = (\<lambda>(h, eng).
     updateCompletion pick (h\<lparr>hl_completionQueue := hl_completionQueue h @ [req\<lparr>hr_finishedAt := tick\<rparr>]\<rparr>, eng))"

section \<open>The operations\<close>

text \<open>Each operation gets the operation of the cache that it calls, up to the arguments that it gives.\<close>

definition hil_numbered :: "'c hil_request \<Rightarrow> 'c hil \<Rightarrow> 'c hil_request \<times> 'c hil" where
  "hil_numbered req h = (let n = hl_reqCount h + 1 in (req\<lparr>hr_reqID := n\<rparr>, h\<lparr>hl_reqCount := n\<rparr>))"

datatype hil_op = HIL_READ | HIL_WRITE | HIL_FLUSH | HIL_TRIM | HIL_FORMAT bool

definition hil_serve ::
  "('c hil_request list \<Rightarrow> nat) \<Rightarrow> 'f icl_globals \<Rightarrow> (cpu_function \<Rightarrow> nat) \<Rightarrow> gconf \<Rightarrow> 'f below \<Rightarrow> nat
    \<Rightarrow> hil_op \<Rightarrow> 'c hil_request \<Rightarrow> ('c hil \<times> 'f gcache) \<times> 'h engine \<Rightarrow> (('c hil \<times> 'f gcache) \<times> 'h engine) res"
where
  "hil_serve pick ig latency g be logicalPageSize op req = (\<lambda>((h, s), eng).
     let beginAt = getCurrentTick eng;
         (req, h) = (case op of HIL_FORMAT erase \<Rightarrow> (req, h) | _ \<Rightarrow> hil_numbered req h) in
     rbind (case op of
         HIL_READ \<Rightarrow> icl_read ig latency g be logicalPageSize (icl_request_of req) beginAt s
       | HIL_WRITE \<Rightarrow> icl_write ig latency g be logicalPageSize (icl_request_of req) beginAt s
       | HIL_FLUSH \<Rightarrow> icl_flush latency g be (hr_slpn req) (hr_nlp req) beginAt s
       | HIL_TRIM \<Rightarrow> icl_trim latency g be (hr_slpn req) (hr_nlp req) beginAt s
       | HIL_FORMAT erase \<Rightarrow> if erase then icl_format latency g be (hr_slpn req) (hr_nlp req) beginAt s
                            else icl_trim latency g be (hr_slpn req) (hr_nlp req) beginAt s) (\<lambda>(tick, s).
     rbind (hil_finish pick req tick (h, eng)) (\<lambda>(h, eng). Inr ((h, s), eng))))"

text \<open>What \<^verbatim>\<open>submitIO\<close> of the driver calls.\<close>

fun none_op :: "bio_type \<Rightarrow> hil_op option" where
  "none_op BIO_READ = Some HIL_READ"
| "none_op BIO_WRITE = Some HIL_WRITE"
| "none_op BIO_FLUSH = Some HIL_FLUSH"
| "none_op BIO_TRIM = Some HIL_TRIM"
| "none_op BIO_NUM = None"

end
