(* ===== verification/Ftl_Quiet.thy ===== *)
theory Ftl_Quiet
  imports Ftl_Below Icl_Props Hil_Requests
begin

text \<open>
  The pages that a collection puts aside for the cache: only a collection with the policy \<^verbatim>\<open>CACHED_GC\<close> does
  so. With any other policy the globals by which the translation layer asks the front end of the cache to
  take pages back keep their values, and the layer below the cache is one that hands no page back.
\<close>

definition handed :: "'p pmap \<Rightarrow> nat list \<times> bool" where
  "handed s = (pm_movePagesToCache s, pm_putPagesInCache s)"

lemma handed_cong:
  "pm_movePagesToCache s = pm_movePagesToCache s' \<Longrightarrow> pm_putPagesInCache s = pm_putPagesInCache s' \<Longrightarrow> handed s = handed s'"
  by (simp add: handed_def)

lemma handed_upd [simp]:
  "handed (s\<lparr>pm_table := tb\<rparr>) = handed s" "handed (s\<lparr>pm_blocks := bs\<rparr>) = handed s"
  "handed (s\<lparr>pm_freeBlocks := fb\<rparr>) = handed s" "handed (s\<lparr>pm_nFreeBlocks := n\<rparr>) = handed s"
  "handed (s\<lparr>pm_lastFreeBlock := l\<rparr>) = handed s" "handed (s\<lparr>pm_lastFreeBlockIOMap := io\<rparr>) = handed s"
  "handed (s\<lparr>pm_lastFreeBlockIndex := n\<rparr>) = handed s" "handed (s\<lparr>pm_bReclaimMore := b\<rparr>) = handed s"
  "handed (s\<lparr>pm_cmt := cm\<rparr>) = handed s" "handed (s\<lparr>pm_evictedCmt := ev\<rparr>) = handed s"
  "handed (s\<lparr>pm_shadow := cm\<rparr>) = handed s" "handed (s\<lparr>pm_optMap := om\<rparr>) = handed s"
  "handed (s\<lparr>pm_erased := l\<rparr>) = handed s" "handed (s\<lparr>pm_pal := x\<rparr>) = handed s" "handed (s\<lparr>pm_log := lg\<rparr>) = handed s"
  "handed (s\<lparr>pm_inconsistent := n\<rparr>) = handed s" "handed (s\<lparr>pm_validPageCopies := n\<rparr>) = handed s"
  "handed (s\<lparr>pm_validSuperPageCopies := n\<rparr>) = handed s" "handed (s\<lparr>pm_selections := n\<rparr>) = handed s"
  "handed (s\<lparr>pm_gcCount := n\<rparr>) = handed s" "handed (s\<lparr>pm_reclaimedBlocks := n\<rparr>) = handed s"
  "handed (s\<lparr>pm_lastUse := lu\<rparr>) = handed s" "handed (s\<lparr>pm_clusters := cl\<rparr>) = handed s"
  "handed (s\<lparr>pm_evictionFrequency := lu\<rparr>) = handed s" "handed (s\<lparr>pm_reuseMap := lu\<rparr>) = handed s"
  "handed (s\<lparr>pm_iclCount := n\<rparr>) = handed s"
  by (simp_all add: handed_def)

lemma handed_pal [simp]:
  "handed (snd (pal_read pl b p io t s)) = handed s" "handed (snd (pal_write pl b p io t s)) = handed s"
  "handed (snd (pal_erase pl b t s)) = handed s" "handed (snd (pm_dram_read pl n t s)) = handed s"
  "handed (snd (pm_dram_write pl n t s)) = handed s"
  by (simp_all add: pal_read_def pal_write_def pal_erase_def pm_dram_read_def pm_dram_write_def handed_def split: prod.split)

lemma handed_calls:
  "pal_read pl b p io t s = (t', s') \<Longrightarrow> handed s' = handed s" "pal_write pl b p io t s = (t', s') \<Longrightarrow> handed s' = handed s"
  "pal_erase pl b t s = (t', s') \<Longrightarrow> handed s' = handed s" "pm_dram_read pl n t s = (t', s') \<Longrightarrow> handed s' = handed s"
  "pm_dram_write pl n t s = (t', s') \<Longrightarrow> handed s' = handed s"
  using handed_pal by (metis snd_conv)+

lemma rfold_handed:
  assumes "rfold f xs s = Inr s'" "\<And>x s s'. f x s = Inr s' \<Longrightarrow> g s' = g s"
  shows "g s' = g s"
  using assms(1) by (induction xs arbitrary: s) (auto simp: res_simps dest: assms(2))

lemma with_block_handed: "with_block b f s = Inr s' \<Longrightarrow> handed s' = handed s"
  by (auto simp: with_block_def handed_def res_simps split: option.splits)

lemma getFreeBlock_handed: "getFreeBlock c i s = Inr (b, s') \<Longrightarrow> handed s' = handed s"
  by (auto simp: getFreeBlock_def handed_def res_simps Let_def split: if_splits)

lemma renew_free_handed: "renew_free c i s = Inr s' \<Longrightarrow> handed s' = handed s"
  by (auto simp: renew_free_def res_simps dest!: getFreeBlock_handed)

lemma usable_free_handed: "usable_free c i s = Inr (b, s') \<Longrightarrow> handed s' = handed s"
  by (auto simp: usable_free_def res_simps split: if_splits option.splits dest!: renew_free_handed)

lemma getLastFreeBlock_handed: "getLastFreeBlock c io s = Inr (b, s') \<Longrightarrow> handed s' = handed s"
  by (auto simp: getLastFreeBlock_def res_simps Let_def split: if_splits dest!: usable_free_handed)

lemma eraseInternal_handed: "eraseInternal c pl b t s = Inr (t', s') \<Longrightarrow> handed s' = handed s"
  by (auto simp: eraseInternal_def res_simps Let_def split_beta split: if_splits option.splits)

lemma cmt_handed [simp]:
  "handed (evictEntryFromCMT c s) = handed s" "handed (EvictFromShadowCache c s) = handed s"
  "handed (optimalRepalcementPolicy c s) = handed s" "handed (cmt_make_room c s) = handed s"
  "handed (cmt_update c lpn f s) = handed s" "handed (shadow_put c lpn m t s) = handed s"
  "handed (snd (cmt_load c lpn m t d s)) = handed s" "handed (snd (cmt_store c lpn m t dh s)) = handed s"
  "handed (cmt_unshadow c lpn sh t s) = handed s"
proof -
  show a: "handed (evictEntryFromCMT c s) = handed s" for s
    by (simp add: evictEntryFromCMT_def handed_def split: prod.split)
  show b: "handed (EvictFromShadowCache c s) = handed s" for s
    by (simp add: EvictFromShadowCache_def handed_def split: prod.split)
  show o: "handed (optimalRepalcementPolicy c s) = handed s" for s
    by (simp add: optimalRepalcementPolicy_def handed_def split: prod.split)
  show r: "handed (cmt_make_room c s) = handed s" for s by (simp add: cmt_make_room_def a o)
  show u: "handed (cmt_update c lpn f s) = handed s" for f s by (simp add: cmt_update_def handed_def)
  show p: "handed (shadow_put c lpn m t s) = handed s" for s
    using b[of s] by (simp add: shadow_put_def handed_def Let_def)
  show "handed (snd (cmt_load c lpn m t d s)) = handed s" by (simp add: cmt_load_def Let_def p r u)
  show "handed (snd (cmt_store c lpn m t dh s)) = handed s" by (simp add: cmt_store_def Let_def p r u split: prod.split)
  show "handed (cmt_unshadow c lpn sh t s) = handed s"
    unfolding cmt_unshadow_def Let_def u a by (simp add: handed_def)
qed

lemma cmt_store_handed: "cmt_store c lpn m t dh s = (x, s') \<Longrightarrow> handed s' = handed s"
  using cmt_handed(8) by (metis snd_conv)

lemma read_unit_handed:
  assumes "read_unit c pl req tick mapping load idx (stop, l, b, f, s) = Inr (stop', l', b', f', s')"
    and "\<And>m b l s. handed (snd (load m b l s)) = handed s"
  shows "handed s' = handed s"
proof -
  show ?thesis using assms(1)
    by (auto simp: read_unit_def res_simps Let_def split_beta assms(2) split: if_splits option.splits)
qed

lemma loop_handed:
  assumes "rfold f xs (x, s) = Inr (x', s')" "\<And>i x s x' s'. f i (x, s) = Inr (x', s') \<Longrightarrow> handed s' = handed s"
  shows "handed s' = handed s"
  using rfold_handed[OF assms(1), where g = "\<lambda>(x, s). handed s"] assms(2) by fastforce

lemma read_units_handed:
  assumes "rfold (read_unit c pl req tick mapping load) xs (stop, l, b, f, s) = Inr (stop', l', b', f', s')"
    and "\<And>m b l s. handed (snd (load m b l s)) = handed s"
  shows "handed s' = handed s"
proof -
  have "(\<lambda>(stop, l, b, f, s). handed s) (stop', l', b', f', s') = (\<lambda>(stop, l, b, f, s). handed s) (stop, l, b, f, s)"
  proof (rule rfold_handed[OF assms(1)])
    fix i x y assume "read_unit c pl req tick mapping load i x = Inr y"
    then show "(\<lambda>(stop, l, b, f, s). handed s) y = (\<lambda>(stop, l, b, f, s). handed s) x"
      by (cases x; cases y) (auto dest: read_unit_handed[OF _ assms(2)])
  qed
  then show ?thesis by simp
qed

lemma read_entry_handed: "read_entry c pl req e tick f s = Inr s' \<Longrightarrow> handed s' = handed s"
  by (auto simp: read_entry_def res_simps no_load_def dest!: read_units_handed)

lemma readInternal_handed: "readInternal c pl req tick s = Inr (t, s') \<Longrightarrow> handed s' = handed s"
  by (auto simp: readInternal_def res_simps Let_def split_beta split: if_splits option.splits
      dest!: read_entry_handed read_units_handed)

lemma note_use_handed [simp]: "handed (note_use c lpn s) = handed s"
  by (simp add: note_use_def addLbaToOptMap_def Let_def split: option.split)

lemma pm_read_handed: "pm_read c pl req tick s = Inr (t, s') \<Longrightarrow> handed s' = handed s"
  by (auto simp: pm_read_def res_simps split: if_splits dest!: readInternal_handed)

lemma invalidate_at_handed: "invalidate_at c m idx s = Inr s' \<Longrightarrow> handed s' = handed s"
  by (auto simp: invalidate_at_def split: if_splits dest!: with_block_handed)

lemma invalidate_units_handed: "invalidate_units c req mapping s = Inr s' \<Longrightarrow> handed s' = handed s"
  unfolding invalidate_units_def
  by (erule rfold_handed) (auto simp: res_simps split: if_splits dest!: invalidate_at_handed)

lemma invalidate_old_handed: "invalidate_old c req tick b s = Inr (k, h, s') \<Longrightarrow> handed s' = handed s"
  by (auto simp: invalidate_old_def res_simps Let_def split: if_splits option.splits dest!: invalidate_units_handed)

lemma run_skip: "(\<And>x. m = Inr x \<Longrightarrow> run UNIV Q (f x)) \<Longrightarrow> run UNIV Q (rbind m f)"
  by (cases m) auto

lemma write_unit_handed:
  assumes "write_unit c pl req tick sendToPAL key b rbw idx (fl, f, s) = Inr (fl', f', s')"
  shows "handed s' = handed s"
proof -
  have store: "handed (snd (if e then cmt_store c lpn m t dh s else (dh, s))) = handed s" for e lpn m t dh and s :: "'a pmap"
    by simp
  have "run UNIV (\<lambda>(fl, f, s'). handed s' = handed s) (write_unit c pl req tick sendToPAL key b rbw idx (fl, f, s))"
    unfolding write_unit_def prod.case
    by (auto intro!: run_skip simp: Let_def split_beta store simp del: run_bind dest!: with_block_handed handed_calls(1) split: if_split_asm)
  with assms show ?thesis by simp
qed

lemma write_to_block_handed:
  assumes "write_to_block c pl req tick sendToPAL key hit b s = Inr (t, s')"
  shows "handed s' = handed s"
proof -
  have loop: "handed s2 = handed s1"
    if "rfold (write_unit c pl req tk send key b rbw) xs (fl, f, s1) = Inr (fl', f', s2)" for send tk rbw xs fl f s1 fl' f' s2
  proof -
    have "(\<lambda>(fl, f, s). handed s) (fl', f', s2) = (\<lambda>(fl, f, s). handed s) (fl, f, s1)"
      by (rule rfold_handed[OF that]) (auto dest: write_unit_handed)
    then show ?thesis by simp
  qed
  show ?thesis using assms
    by (auto simp: write_to_block_def res_simps Let_def split_beta split: if_splits dest!: loop)
qed

lemma write_pages_handed: "write_pages c pl req tick sendToPAL s = Inr (t, s') \<Longrightarrow> handed s' = handed s"
  by (auto simp: write_pages_def res_simps dest!: invalidate_old_handed getLastFreeBlock_handed write_to_block_handed)

lemma run_skip2: "(\<And>x y. m = Inr (x, y) \<Longrightarrow> run UNIV Q (f x y)) \<Longrightarrow> run UNIV Q (rbind m (\<lambda>(x, y). f x y))"
  by (cases m) auto

lemma selectVictimBlock_handed:
  assumes "selectVictimBlock c tick s = Inr (vs, t, s')"
  shows "handed s' = handed s"
proof -
  have "run UNIV (\<lambda>(vs, t, s'). handed s' = handed s) (selectVictimBlock c tick s)"
    unfolding selectVictimBlock_def Let_def
    by (intro run_skip2 run_skip) (auto simp: res_simps split: if_split_asm)
  with assms show ?thesis by simp
qed

lemma move_unit_handed:
  assumes "move_unit c pl greedy beginAt victim pageIndex b idx (w, s) = Inr (w', s')"
  shows "handed s' = handed s"
  using assms
  by (auto simp: move_unit_def res_simps Let_def split_beta split: if_splits option.splits dest!: with_block_handed)

lemma move_page_handed: "move_page c pl greedy beginAt victim pageIndex b (w, s) = Inr (w', s') \<Longrightarrow> handed s' = handed s"
  unfolding move_page_def by (erule loop_handed) (rule move_unit_handed)

lemma greedy_page_handed: "greedy_page c pl beginAt victim pageIndex (w, s) = Inr (w', s') \<Longrightarrow> handed s' = handed s"
  by (auto simp: greedy_page_def page_info_def all_units_def res_simps split: if_splits
      dest!: getLastFreeBlock_handed move_page_handed)

lemma greedy_pages_handed:
  "rfold (greedy_page c pl beginAt victim) xs (w, s) = Inr (w', s') \<Longrightarrow> handed s' = handed s"
  by (erule loop_handed) (rule greedy_page_handed)

lemma collect_block_handed:
  "collect_block c pl beginAt victim (w, s) = Inr (w', s') \<Longrightarrow> pc_policy c \<noteq> CACHED_GC \<Longrightarrow> handed s' = handed s"
  by (auto simp: collect_block_def res_simps split: if_splits dest!: greedy_pages_handed)

lemma collect_blocks_handed:
  "rfold (collect_block c pl beginAt) vs (w, s) = Inr (w', s') \<Longrightarrow> pc_policy c \<noteq> CACHED_GC \<Longrightarrow> handed s' = handed s"
  by (erule loop_handed) (rule collect_block_handed)

lemma issue_handed:
  assumes "\<And>b p io t s. handed (snd (op b p io t s)) = handed s"
  shows "handed (snd (issue op beginAt reqs (f, s))) = handed s"
  unfolding issue_def
  by (induction reqs arbitrary: f s) (auto simp: Let_def split_beta assms)

lemma erase_victims_handed: "erase_victims c pl beginAt vs (f, s) = Inr (f', s') \<Longrightarrow> handed s' = handed s"
  unfolding erase_victims_def by (erule loop_handed) (auto simp: res_simps dest!: eraseInternal_handed)

lemma doGarbageCollection_handed:
  assumes "doGarbageCollection cb c pl vs tick (s, d) = Inr (t, s', d')" "pc_policy c \<noteq> CACHED_GC"
  shows "handed s' = handed s"
  using assms
  by (auto simp: doGarbageCollection_def res_simps Let_def split_beta issue_handed split: if_splits
      dest!: collect_blocks_handed erase_victims_handed)

lemma writeInternal_handed:
  assumes "writeInternal cb c pl req tick sendToPAL (s, d) = Inr (t, s', d')" "pc_policy c \<noteq> CACHED_GC"
  shows "handed s' = handed s"
  using assms
  by (auto simp: writeInternal_def res_simps split: if_splits
      dest!: write_pages_handed selectVictimBlock_handed doGarbageCollection_handed)

lemma ftl_write_handed:
  "ftl_write c pl cb req tick (s, d) = Inr (t, s', d') \<Longrightarrow> pc_policy c \<noteq> CACHED_GC \<Longrightarrow> handed s' = handed s"
  by (auto simp: ftl_write_def pm_write_def res_simps split: if_splits dest!: writeInternal_handed)

lemma ftl_read_handed: "ftl_read c pl req tick s = Inr (t, s') \<Longrightarrow> handed s' = handed s"
  by (auto simp: ftl_read_def res_simps dest!: pm_read_handed)

lemma unmap_unit_handed: "unmap_unit m idx s = Inr s' \<Longrightarrow> handed s' = handed s"
  by (auto simp: unmap_unit_def split: if_splits dest!: with_block_handed)

lemma ftl_trim_handed: "ftl_trim c pl req tick s = Inr (t, s') \<Longrightarrow> handed s' = handed s"
proof -
  have loop: "rfold (\<lambda>idx s. rbind (rnth ms idx) (\<lambda>m. unmap_unit m idx s)) xs s1 = Inr s2 \<Longrightarrow> handed s2 = handed s1"
    for ms xs and s1 s2 :: "'a pmap"
    by (erule rfold_handed) (auto simp: res_simps dest!: unmap_unit_handed)
  show "ftl_trim c pl req tick s = Inr (t, s') \<Longrightarrow> handed s' = handed s"
    by (auto simp: ftl_trim_def pm_trim_def trimInternal_def res_simps Let_def split_beta split: option.splits dest!: loop)
qed

lemma ftl_format_handed:
  assumes "ftl_format c pl cb a n tick (s, d) = Inr (t, s', d')" "pc_policy c \<noteq> CACHED_GC"
  shows "handed s' = handed s"
proof -
  have units: "rfold (\<lambda>idx (list, s). rbind (rnth ms idx) (\<lambda>m.
      rbind (unmap_unit m idx s) (\<lambda>s. Inr (list @ [fst m], s)))) xs (list, s1) = Inr (list', s2) \<Longrightarrow> handed s2 = handed s1"
    for ms xs list list' and s1 s2 :: "'a pmap"
    by (erule loop_handed) (auto simp: res_simps dest!: unmap_unit_handed)
  have pages: "rfold (\<lambda>(lpn, ms) (list, s).
      if a \<le> lpn \<and> lpn < a + n
      then rbind (rfold (\<lambda>idx (list, s). rbind (rnth ms idx) (\<lambda>m.
              rbind (unmap_unit m idx s) (\<lambda>s. Inr (list @ [fst m], s)))) [0..<pc_bitsetSize c] (list, s))
             (\<lambda>(list, s). Inr (list, s\<lparr>pm_table := um_erase lpn (pm_table s)\<rparr>))
      else Inr (list, s)) xs (list, s1) = Inr (list', s2) \<Longrightarrow> handed s2 = handed s1"
    for xs list list' and s1 s2 :: "'a pmap"
    by (erule loop_handed) (auto simp: res_simps split: if_splits dest!: units)
  show ?thesis using assms
    by (auto simp: ftl_format_def pm_format_def res_simps dest!: pages doGarbageCollection_handed)
qed

lemma DecachePage_handed: "DecachePage c lpn s = Inr s' \<Longrightarrow> handed s' = handed s"
proof -
  have loop: "rfold (\<lambda>idx s. rbind (rnth ms idx) (\<lambda>(b, p).
            if b < pc_totalPhysicalBlocks c \<and> p < pc_pagesInBlock c \<and> um_has b (pm_blocks s)
            then with_block b (\<lambda>blk. blk_deCache blk p) s else Inr s)) xs s1 = Inr s2 \<Longrightarrow> handed s2 = handed s1"
    for ms xs and s1 s2 :: "'a pmap"
    by (erule rfold_handed) (auto simp: res_simps split: if_splits prod.splits dest!: with_block_handed)
  show "DecachePage c lpn s = Inr s' \<Longrightarrow> handed s' = handed s"
    by (auto simp: DecachePage_def undoCached_def split: option.splits dest!: loop)
qed

section \<open>The cache over a layer that hands no page back\<close>

definition hands_nothing :: "'p pmap \<Rightarrow> bool" where
  "hands_nothing s \<longleftrightarrow> handed s = ([], False)"

lemma quiet_layer:
  assumes "pc_policy c \<noteq> CACHED_GC"
  shows "layer_below (ftl_below c pl) hands_nothing"
proof (unfold_locales, goal_cases)
  case (2 cb r t f d t' f' d')
  then show ?case by (auto simp: ftl_below_def hands_nothing_def dest!: ftl_write_handed[OF _ assms])
next
  case (4 cb a n t f d t' f' d')
  then show ?case by (auto simp: ftl_below_def hands_nothing_def dest!: ftl_format_handed[OF _ assms])
qed (auto simp: ftl_below_def hands_nothing_def ftl_read_handed ftl_trim_handed DecachePage_handed
    dest: ftl_write_calls ftl_format_calls)

lemma quiet_cache:
  assumes "pc_policy c \<noteq> CACHED_GC" "conf_ok g"
  shows "cache_over_ftl (ftl_below c pl) hands_nothing g"
  using quiet_layer[OF assms(1)] assms(2) by (simp add: cache_over_ftl_def cache_over_ftl_axioms_def)

text \<open>The globals by which the translation layer and the front end of the cache talk to each other.\<close>

definition ftl_globals :: "'p pmap icl_globals" where
  "ftl_globals = \<lparr>ig_putPagesInCache = pm_putPagesInCache, ig_movePagesToCache = pm_movePagesToCache,
     ig_setMovePagesToCache = (\<lambda>l s. s\<lparr>pm_movePagesToCache := l\<rparr>),
     ig_clearPutPagesInCache = (\<lambda>s. s\<lparr>pm_putPagesInCache := False\<rparr>),
     ig_incIclCount = (\<lambda>s. s\<lparr>pm_iclCount := pm_iclCount s + 1\<rparr>)\<rparr>"

text \<open>A write to the default cache over this layer, whatever its policy, ends or stops with a fault of the
  layer, or at the end of the 64-bit clock.\<close>

lemma default_write_ends:
  assumes "idle (default_cache garbage ratio cores latency) (\<lambda>_. True) n D s"
    "tick + search_time (default_cache garbage ratio cores latency) < uint64_max"
    "\<And>x. lines_in (default_cache garbage ratio cores latency) x \<Longrightarrow> ln_insertedAt (el2 (gc_data s) x) < uint64_max"
  shows "run (insert ClockOverflow (below_faults (ftl_below c pl)))
    (\<lambda>(hit, t, s'). cached (default_cache garbage ratio cores latency) s' (rq_slpn req))
    (gc_write (default_cache garbage ratio cores latency) (clocked (ftl_below c pl)) req tick s)"
proof -
  have "gf_useWriteCaching (default_cache garbage ratio cores latency)" 
    by (simp add: default_cache_def GenericCache_sizes_def default_gconfig_def)
  then show ?thesis
    by (intro run_mono[OF cache_over_ftl.clocked_write_ok[OF default.cache_over_ftl_axioms assms]]) auto
qed

end
