(* ===== verification/Hil_Props.thy ===== *)
theory Hil_Props
  imports Hil_Requests Ftl_Quiet Ftl_Props "HOL-Library.Multiset"
begin

text \<open>
  The host interface layer and the front end of the cache: every request is completed once, at the tick at
  which it is finished; and what the pages of a request are.
\<close>

section \<open>The completion queue\<close>

text \<open>What \<^verbatim>\<open>std::priority_queue\<close> promises of its top, with the order of the class \<^verbatim>\<open>Request\<close>.\<close>

definition top_ok :: "('c hil_request list \<Rightarrow> nat) \<Rightarrow> bool" where
  "top_ok pick \<longleftrightarrow> (\<forall>q. q \<noteq> [] \<longrightarrow> pick q < length q \<and> (\<forall>r\<in>set q. hr_finishedAt (q ! pick q) \<le> hr_finishedAt r))"

lemma mset_list_erase: "i < length q \<Longrightarrow> mset q = add_mset (q ! i) (mset (list_erase i q))"
proof -
  assume i: "i < length q"
  then have "q = take i q @ q ! i # drop (Suc i) q" by (rule id_take_nth_drop)
  then have "mset q = mset (take i q @ q ! i # drop (Suc i) q)" by (rule arg_cong)
  then show ?thesis by (simp add: list_erase_def)
qed

lemma complete_due_ok:
  assumes "top_ok pick"
  shows "\<exists>rs q. complete_due pick tick h = Inr (h\<lparr>hl_called := hl_called h @ map (Pair tick) rs, hl_completionQueue := q\<rparr>)
    \<and> mset (hl_completionQueue h) = mset rs + mset q \<and> (\<forall>r\<in>set rs. hr_finishedAt r \<le> tick) \<and> (\<forall>r\<in>set q. tick < hr_finishedAt r)"
  using assms
proof (induction pick tick h rule: complete_due.induct)
  case (1 pick tick h)
  let ?q = "hl_completionQueue h"
  let ?r = "?q ! pick ?q"
  show ?case
  proof (cases "?q = []")
    case True
    then have "complete_due pick tick h = Inr (h\<lparr>hl_called := hl_called h @ map (Pair tick) [], hl_completionQueue := []\<rparr>)"
      by (subst complete_due.simps) simp
    with True show ?thesis by (intro exI[of _ "[]"]) simp
  next
    case False
    have p: "pick ?q < length ?q" and least: "\<forall>r\<in>set ?q. hr_finishedAt ?r \<le> hr_finishedAt r"
      using 1(2) False by (auto simp: top_ok_def)
    show ?thesis
    proof (cases "hr_finishedAt ?r \<le> tick")
      case True
      let ?h = "h\<lparr>hl_called := hl_called h @ [(tick, ?r)], hl_completionQueue := list_erase (pick ?q) ?q\<rparr>"
      have e: "complete_due pick tick h = complete_due pick tick ?h"
        using False p True by (subst complete_due.simps) (simp add: Let_def)
      have "\<exists>rs q. complete_due pick tick ?h
          = Inr (?h\<lparr>hl_called := hl_called ?h @ map (Pair tick) rs, hl_completionQueue := q\<rparr>)
        \<and> mset (hl_completionQueue ?h) = mset rs + mset q \<and> (\<forall>r\<in>set rs. hr_finishedAt r \<le> tick) \<and> (\<forall>r\<in>set q. tick < hr_finishedAt r)"
        by (rule 1(1)[OF refl False _ True 1(2)]) (use p in simp)
      then obtain rs q where r: "complete_due pick tick ?h
          = Inr (?h\<lparr>hl_called := hl_called ?h @ map (Pair tick) rs, hl_completionQueue := q\<rparr>)"
        "mset (list_erase (pick ?q) ?q) = mset rs + mset q" "\<forall>r\<in>set rs. hr_finishedAt r \<le> tick" "\<forall>r\<in>set q. tick < hr_finishedAt r"
        by auto
      have "complete_due pick tick h = Inr (h\<lparr>hl_called := hl_called h @ map (Pair tick) (?r # rs), hl_completionQueue := q\<rparr>)"
        using e r(1) by simp
      moreover have "mset ?q = mset (?r # rs) + mset q" using mset_list_erase[OF p] r(2) by simp
      moreover have "\<forall>r\<in>set (?r # rs). hr_finishedAt r \<le> tick" using r(3) True by simp
      ultimately show ?thesis using r(4) by blast
    next
      case late: False
      then have "complete_due pick tick h = Inr h" using False p by (subst complete_due.simps) (simp add: Let_def)
      moreover have "\<forall>r\<in>set ?q. tick < hr_finishedAt r" using least late by fastforce
      ultimately show ?thesis by (intro exI[of _ "[]"] exI[of _ ?q]) simp
    qed
  qed
qed

text \<open>While requests are waiting the event is pending at the tick of the first of them, and no request of the
  queue is late.\<close>

definition hil_inv :: "'c hil \<Rightarrow> 'h engine \<Rightarrow> bool" where
  "hil_inv h eng \<longleftrightarrow> eng_inv eng \<and> hl_completionEvent h \<in> eng_registered eng
     \<and> (if hl_completionQueue h = [] then hl_lastScheduled h \<le> eng_simTick eng
        else eng_pending eng (hl_completionEvent h) = Some (hl_lastScheduled h)
          \<and> hl_lastScheduled h \<in> hr_finishedAt ` set (hl_completionQueue h)
          \<and> (\<forall>r\<in>set (hl_completionQueue h). hl_lastScheduled h \<le> hr_finishedAt r))
     \<and> sorted (map fst (hl_called h)) \<and> (\<forall>(t, r)\<in>set (hl_called h). t = hr_finishedAt r \<and> t \<le> eng_simTick eng)"

lemma pending_not_past: "eng_inv eng \<Longrightarrow> eng_pending eng e = Some t \<Longrightarrow> eng_simTick eng \<le> t"
  by (auto simp: eng_inv_def eng_pending_def dest!: map_of_SomeD)

lemma updateCompletion_ok:
  assumes pick: "top_ok pick" and eng: "eng_inv eng" "hl_completionEvent h \<in> eng_registered eng"
    and old: "sorted (map fst (hl_called h))" "\<forall>(t, r)\<in>set (hl_called h). t = hr_finishedAt r \<and> t \<le> eng_simTick eng"
    and empty: "hl_completionQueue h = [] \<Longrightarrow> hl_lastScheduled h \<le> eng_simTick eng"
    and q: "\<forall>r\<in>set (hl_completionQueue h). eng_simTick eng \<le> hr_finishedAt r"
    and same: "hl_lastScheduled h \<in> hr_finishedAt ` set (hl_completionQueue h)
      \<Longrightarrow> eng_pending eng (hl_completionEvent h) = Some (hl_lastScheduled h)"
  shows "\<exists>n eng'. updateCompletion pick (h, eng) = Inr (h\<lparr>hl_lastScheduled := n\<rparr>, eng') \<and> hil_inv (h\<lparr>hl_lastScheduled := n\<rparr>) eng'
    \<and> eng_simTick eng' = eng_simTick eng"
proof (cases "hl_completionQueue h = []")
  case True
  then have "updateCompletion pick (h, eng) = Inr (h\<lparr>hl_lastScheduled := hl_lastScheduled h\<rparr>, eng)"
    by (simp add: updateCompletion_def)
  moreover have "hil_inv (h\<lparr>hl_lastScheduled := hl_lastScheduled h\<rparr>) eng"
    using True eng old empty by (simp add: hil_inv_def)
  ultimately show ?thesis by blast
next
  case False
  let ?q = "hl_completionQueue h"
  let ?top = "?q ! pick ?q"
  have p: "pick ?q < length ?q" and least: "\<forall>r\<in>set ?q. hr_finishedAt ?top \<le> hr_finishedAt r"
    using pick False by (auto simp: top_ok_def)
  have t: "?top \<in> set ?q" using p by simp
  show ?thesis
  proof (cases "hl_lastScheduled h = hr_finishedAt ?top")
    case True
    then have "updateCompletion pick (h, eng) = Inr (h\<lparr>hl_lastScheduled := hl_lastScheduled h\<rparr>, eng)"
      using False p by (simp add: updateCompletion_def)
    moreover have "hl_lastScheduled h \<in> hr_finishedAt ` set ?q" using True t by simp
    then have "hil_inv (h\<lparr>hl_lastScheduled := hl_lastScheduled h\<rparr>) eng"
      using False eng old same least True by (simp add: hil_inv_def)
    ultimately show ?thesis by blast
  next
    case changed: False
    obtain eng' where e: "scheduleEvent (hl_completionEvent h) (hr_finishedAt ?top) eng = Inr eng'" "eng_inv eng'"
      "eng_pending eng' = (eng_pending eng)(hl_completionEvent h \<mapsto> max (hr_finishedAt ?top) (eng_simTick eng))"
      "eng_simTick eng' = eng_simTick eng" "eng_registered eng' = eng_registered eng"
      using engine.schedule_law[OF eng] by blast
    have "max (hr_finishedAt ?top) (eng_simTick eng) = hr_finishedAt ?top" using q t by (intro max_absorb1) blast
    then have "hil_inv (h\<lparr>hl_lastScheduled := hr_finishedAt ?top\<rparr>) eng'"
      using e old eng(2) False least t by (simp add: hil_inv_def)
    moreover have "updateCompletion pick (h, eng) = Inr (h\<lparr>hl_lastScheduled := hr_finishedAt ?top\<rparr>, eng')"
      using False changed p e(1) by (simp add: updateCompletion_def)
    ultimately show ?thesis using e(4) by blast
  qed
qed

text \<open>The ticks at which a request can be finished so that it is noticed: the current tick or a later one, but
  not the tick that the event had last when the queue is empty now.\<close>

definition finish_noticed :: "'c hil \<Rightarrow> 'h engine \<Rightarrow> nat \<Rightarrow> bool" where
  "finish_noticed h eng tick \<longleftrightarrow>
     eng_simTick eng \<le> tick \<and> (hl_completionQueue h = [] \<longrightarrow> hl_lastScheduled h \<noteq> tick)"

lemma later_noticed: "hil_inv h eng \<Longrightarrow> eng_simTick eng < tick \<Longrightarrow> finish_noticed h eng tick"
  by (auto simp: finish_noticed_def hil_inv_def)

lemma hil_finish_ok:
  assumes "top_ok pick" "hil_inv h eng" "finish_noticed h eng tick"
  shows "\<exists>h' eng'. hil_finish pick req tick (h, eng) = Inr (h', eng') \<and> hil_inv h' eng' \<and> eng_simTick eng' = eng_simTick eng
    \<and> hl_called h' = hl_called h \<and> hl_completionQueue h' = hl_completionQueue h @ [req\<lparr>hr_finishedAt := tick\<rparr>]
    \<and> hl_completionEvent h' = hl_completionEvent h"
proof -
  let ?h = "h\<lparr>hl_completionQueue := hl_completionQueue h @ [req\<lparr>hr_finishedAt := tick\<rparr>]\<rparr>"
  have "\<forall>r\<in>set (hl_completionQueue h). eng_simTick eng \<le> hr_finishedAt r"
    using assms(2) pending_not_past[of eng "hl_completionEvent h"] by (fastforce simp: hil_inv_def split: if_splits)
  then have "\<exists>n eng'. updateCompletion pick (?h, eng) = Inr (?h\<lparr>hl_lastScheduled := n\<rparr>, eng') \<and> hil_inv (?h\<lparr>hl_lastScheduled := n\<rparr>) eng'
    \<and> eng_simTick eng' = eng_simTick eng"
    using assms by (intro updateCompletion_ok) (auto simp: hil_inv_def finish_noticed_def split: if_splits)
  then show ?thesis by (fastforce simp: hil_finish_def)
qed

lemma hil_completion_ok:
  assumes "top_ok pick" "hil_inv h eng" "eng_eventQueue eng = (hl_completionEvent h, t) # q"
  shows "\<exists>h' eng'. hil_completion pick (h, eng\<lparr>eng_simTick := t, eng_eventQueue := q\<rparr>) = Inr (h', eng') \<and> hil_inv h' eng'
    \<and> mset (map snd (hl_called h')) + mset (hl_completionQueue h') = mset (map snd (hl_called h)) + mset (hl_completionQueue h)
    \<and> hl_completionEvent h' = hl_completionEvent h \<and> eng_simTick eng' = t"
proof -
  let ?eng = "eng\<lparr>eng_simTick := t, eng_eventQueue := q\<rparr>"
  have inv: "eng_inv eng" using assms(2) by (simp add: hil_inv_def)
  note pop = pop_inv[OF inv assms(3)]
  have pend: "eng_pending eng (hl_completionEvent h) = Some t" by (simp add: eng_pending_def assms(3))
  obtain rs w where c: "complete_due pick t h = Inr (h\<lparr>hl_called := hl_called h @ map (Pair t) rs, hl_completionQueue := w\<rparr>)"
    "mset (hl_completionQueue h) = mset rs + mset w" "\<forall>r\<in>set rs. hr_finishedAt r \<le> t" "\<forall>r\<in>set w. t < hr_finishedAt r"
    using complete_due_ok[OF assms(1)] by blast
  let ?h = "h\<lparr>hl_called := hl_called h @ map (Pair t) rs, hl_completionQueue := w\<rparr>"
  have last: "hl_lastScheduled h \<le> t \<and> (\<forall>r\<in>set rs. hr_finishedAt r = t)"
  proof (cases "hl_completionQueue h = []")
    case True
    then show ?thesis using assms(2) c(2) pop(2) by (simp add: hil_inv_def)
  next
    case False
    then have "hl_lastScheduled h = t" "\<forall>r\<in>set (hl_completionQueue h). t \<le> hr_finishedAt r"
      using assms(2) pend by (auto simp: hil_inv_def)
    moreover have "set rs \<subseteq> set (hl_completionQueue h)" using c(2) by (metis mset_subset_eq_add_left set_mset_mono set_mset_mset)
    ultimately show ?thesis using c(3) by (auto intro: antisym)
  qed
  have old: "sorted (map fst (hl_called h))" "\<forall>(s, r)\<in>set (hl_called h). s = hr_finishedAt r \<and> s \<le> t"
    using assms(2) pop(2) by (auto simp: hil_inv_def intro: order.trans)
  have "\<exists>n eng'. updateCompletion pick (?h, ?eng) = Inr (?h\<lparr>hl_lastScheduled := n\<rparr>, eng') \<and> hil_inv (?h\<lparr>hl_lastScheduled := n\<rparr>) eng'
    \<and> eng_simTick eng' = eng_simTick ?eng" (is "\<exists>n eng'. ?P n eng'")
  proof (rule updateCompletion_ok[OF assms(1) pop(1)])
    show "hl_completionEvent ?h \<in> eng_registered ?eng" using assms(2) by (simp add: hil_inv_def eng_registered_def)
    show "sorted (map fst (hl_called ?h))" using old by (auto simp: sorted_append comp_def map_replicate_const)
    show "\<forall>(s, r)\<in>set (hl_called ?h). s = hr_finishedAt r \<and> s \<le> eng_simTick ?eng" using old last by auto
    show "hl_lastScheduled ?h \<le> eng_simTick ?eng" using last by simp
    show "\<forall>r\<in>set (hl_completionQueue ?h). eng_simTick ?eng \<le> hr_finishedAt r" using c(4) by fastforce
    show "eng_pending ?eng (hl_completionEvent ?h) = Some (hl_lastScheduled ?h)"
      if "hl_lastScheduled ?h \<in> hr_finishedAt ` set (hl_completionQueue ?h)" using that c(4) last by fastforce
  qed
  then obtain n eng' where u: "?P n eng'" by blast
  have "hil_completion pick (h, ?eng) = Inr (?h\<lparr>hl_lastScheduled := n\<rparr>, eng')"
    using u c(1) by (simp add: hil_completion_def getCurrentTick_def)
  then show ?thesis using u c(2) by (intro exI[of _ "?h\<lparr>hl_lastScheduled := n\<rparr>"] exI[of _ eng']) (simp add: comp_def)
qed

section \<open>Paths\<close>

text \<open>What the simulator does around the queue: a request is finished, at the current tick or later; the event is handled;
  another event is handled; another part of the simulator calls the engine, which does not know the event.\<close>

inductive hil_step ::
  "('c hil_request list \<Rightarrow> nat) \<Rightarrow> 'c hil \<times> 'h engine \<Rightarrow> 'c hil_request list \<Rightarrow> 'c hil \<times> 'h engine \<Rightarrow> bool"
  for pick
where
  finish: "finish_noticed h eng tick \<Longrightarrow> hil_finish pick req tick (h\<lparr>hl_reqCount := n\<rparr>, eng) = Inr st
    \<Longrightarrow> hil_step pick (h, eng) [req\<lparr>hr_finishedAt := tick\<rparr>] st"
| handle: "eng_eventQueue eng = (hl_completionEvent h, t) # q
    \<Longrightarrow> hil_completion pick (h, eng\<lparr>eng_simTick := t, eng_eventQueue := q\<rparr>) = Inr st \<Longrightarrow> hil_step pick (h, eng) [] st"
| pass: "eng_eventQueue eng = (e, t) # q \<Longrightarrow> e \<noteq> hl_completionEvent h
    \<Longrightarrow> hil_step pick (h, eng) [] (h, eng\<lparr>eng_simTick := t, eng_eventQueue := q\<rparr>)"
| elsewhere: "api_step eng eng' \<Longrightarrow> eng_pending eng' (hl_completionEvent h) = eng_pending eng (hl_completionEvent h)
    \<Longrightarrow> hl_completionEvent h \<in> eng_registered eng' \<Longrightarrow> hil_step pick (h, eng) [] (h, eng')"

inductive hil_path ::
  "('c hil_request list \<Rightarrow> nat) \<Rightarrow> 'c hil \<times> 'h engine \<Rightarrow> 'c hil_request list \<Rightarrow> 'c hil \<times> 'h engine \<Rightarrow> bool"
  for pick
where
  start: "hil_path pick st [] st"
| step: "hil_path pick st rs st' \<Longrightarrow> hil_step pick st' rs' st'' \<Longrightarrow> hil_path pick st (rs @ rs') st''"

inductive_cases hil_stepE: "hil_step pick (h, eng) rs st"
lemmas hil_step_cases = hil_stepE [consumes 1, case_names finish handle pass elsewhere]

text \<open>The requests that have been finished are completed or waiting.\<close>

definition hil_accounts :: "'c hil_request list \<Rightarrow> 'c hil \<Rightarrow> bool" where
  "hil_accounts rs h \<longleftrightarrow> mset rs = mset (map snd (hl_called h)) + mset (hl_completionQueue h)"

lemma hil_step_ok:
  assumes "hil_step pick (h, eng) rs' (h', eng')" "top_ok pick" "hil_inv h eng" "hil_accounts rs h"
  shows "hil_inv h' eng' \<and> hil_accounts (rs @ rs') h'"
  using assms(1)
proof (cases rule: hil_step_cases)
  case (finish tick req n)
  have inv: "hil_inv (h\<lparr>hl_reqCount := n\<rparr>) eng" using assms(3) by (simp add: hil_inv_def)
  obtain h1 eng1 where f: "hil_finish pick req tick (h\<lparr>hl_reqCount := n\<rparr>, eng) = Inr (h1, eng1)" "hil_inv h1 eng1"
    "hl_called h1 = hl_called h" "hl_completionQueue h1 = hl_completionQueue h @ [req\<lparr>hr_finishedAt := tick\<rparr>]"
    using hil_finish_ok[OF assms(2) inv, of tick req] finish by (auto simp: finish_noticed_def)
  with finish assms(4) show ?thesis by (simp add: hil_accounts_def)
next
  case (handle t q)
  with hil_completion_ok[OF assms(2,3) handle(2)] assms(4) show ?thesis by (auto simp: hil_accounts_def)
next
  case (pass e t q)
  have inv: "eng_inv eng" using assms(3) by (simp add: hil_inv_def)
  note p = pop_inv[OF inv pass(3)]
  have "hil_inv h eng'"
    unfolding hil_inv_def
  proof (intro conjI)
    show "eng_inv eng'" using p(1) pass by simp
    show "hl_completionEvent h \<in> eng_registered eng'" using assms(3) pass by (simp add: hil_inv_def eng_registered_def)
    show "if hl_completionQueue h = [] then hl_lastScheduled h \<le> eng_simTick eng'
      else eng_pending eng' (hl_completionEvent h) = Some (hl_lastScheduled h)
        \<and> hl_lastScheduled h \<in> hr_finishedAt ` set (hl_completionQueue h)
        \<and> (\<forall>r\<in>set (hl_completionQueue h). hl_lastScheduled h \<le> hr_finishedAt r)"
      using assms(3) pass p(2) by (auto simp: hil_inv_def eng_pending_def split: if_splits)
    show "sorted (map fst (hl_called h))" using assms(3) by (simp add: hil_inv_def)
    show "\<forall>(s, r)\<in>set (hl_called h). s = hr_finishedAt r \<and> s \<le> eng_simTick eng'"
      using assms(3) pass p(2) by (auto simp: hil_inv_def intro: order.trans)
  qed
  then show ?thesis using pass assms(4) by simp
next
  case elsewhere
  have "eng_inv eng' \<and> eng_simTick eng' = eng_simTick eng"
    using api_step_inv[OF elsewhere(3)] assms(3) elsewhere(1,2) by (simp add: hil_inv_def)
  then have "hil_inv h eng'" using assms(3) elsewhere by (simp add: hil_inv_def)
  then show ?thesis using elsewhere assms(4) by simp
qed

lemma HIL_new_inv:
  assumes "eng_inv eng" "HIL_new f eng = Inr (h, eng')"
  shows "hil_inv h eng' \<and> hil_accounts [] h"
proof -
  obtain e eng1 where e: "allocateEvent f eng = Inr (e, eng1)" "eng_inv eng1" "e \<in> eng_registered eng1"
    using engine.allocate_law[OF assms(1)] by blast
  have "eng' = eng1" "h = \<lparr>hl_reqCount = 0, hl_lastScheduled = 0, hl_completionEvent = e, hl_completionQueue = [], hl_called = []\<rparr>"
    using assms(2) by (simp_all add: HIL_new_def e(1))
  then show ?thesis using e(2,3) by (simp add: hil_inv_def hil_accounts_def)
qed

lemma hil_path_ok:
  assumes "hil_path pick (h, eng) rs (h', eng')" "top_ok pick" "hil_inv h eng" "hil_accounts [] h"
  shows "hil_inv h' eng' \<and> hil_accounts rs h'"
proof -
  have "hil_inv (fst st') (snd st') \<and> hil_accounts rs (fst st')"
    if "hil_path pick st rs st'" "hil_inv (fst st) (snd st)" "hil_accounts [] (fst st)" for st rs st'
    using that
  proof (induction rule: hil_path.induct)
    case (step st rs st' rs' st'')
    then show ?case using hil_step_ok[of pick "fst st'" "snd st'" rs' "fst st''" "snd st''" rs] assms(2) by simp
  qed simp
  from this[OF assms(1)] assms(3,4) show ?thesis by simp
qed

text \<open>C36: On every path from the construction of the layer on which no request is finished in the
  past, none is finished at the tick the completion event had last while the queue is empty
  (\<^verbatim>\<open>finish_noticed\<close>; such a request does wait without an event,
  \<^verbatim>\<open>same_tick_request_waits\<close>), and the other users of the engine leave the
  completion event alone: every finished request is completed once, exactly at the tick at which it is
  finished; the calls come in the order of these ticks; a request that is not called yet is in the queue,
  and the event is pending at the first tick of the queue, so that no request waits beyond its tick. The
  queue gives a least element as its top (\<^verbatim>\<open>top_ok\<close>).\<close>

theorem requests_complete_on_time:
  assumes "top_ok pick" "eng_inv eng0" "HIL_new f eng0 = Inr (h, eng)" "hil_path pick (h, eng) rs (h', eng')"
  shows "mset rs = mset (map snd (hl_called h')) + mset (hl_completionQueue h')
    \<and> sorted (map fst (hl_called h')) \<and> (\<forall>(t, r)\<in>set (hl_called h'). t = hr_finishedAt r)
    \<and> (\<forall>r\<in>set rs. hr_finishedAt r < eng_simTick eng' \<longrightarrow> (hr_finishedAt r, r) \<in> set (hl_called h'))
    \<and> (hl_completionQueue h' \<noteq> [] \<longrightarrow>
         eng_pending eng' (hl_completionEvent h') = Some (Min (hr_finishedAt ` set (hl_completionQueue h'))))"
proof -
  have ok: "hil_inv h' eng' \<and> hil_accounts rs h'"
    using hil_path_ok[OF assms(4,1)] HIL_new_inv[OF assms(2,3)] by simp
  have "(hr_finishedAt r, r) \<in> set (hl_called h')" if r: "r \<in> set rs" "hr_finishedAt r < eng_simTick eng'" for r
  proof -
    have "r \<notin> set (hl_completionQueue h')"
    proof
      assume q: "r \<in> set (hl_completionQueue h')"
      then have "hl_completionQueue h' \<noteq> []" by auto
      then have "eng_pending eng' (hl_completionEvent h') = Some (hl_lastScheduled h')" "hl_lastScheduled h' \<le> hr_finishedAt r"
        "eng_inv eng'" using ok q by (auto simp: hil_inv_def)
      with pending_not_past[of eng'] r(2) show False by fastforce
    qed
    moreover have "set rs = set (map snd (hl_called h')) \<union> set (hl_completionQueue h')"
      using ok by (simp add: hil_accounts_def flip: set_mset_mset)
    ultimately obtain t where "(t, r) \<in> set (hl_called h')" using r(1) by auto
    then show ?thesis using ok by (auto simp: hil_inv_def)
  qed
  moreover have "eng_pending eng' (hl_completionEvent h') = Some (Min (hr_finishedAt ` set (hl_completionQueue h')))"
    if "hl_completionQueue h' \<noteq> []"
  proof -
    have p: "eng_pending eng' (hl_completionEvent h') = Some (hl_lastScheduled h')"
      "hl_lastScheduled h' \<in> hr_finishedAt ` set (hl_completionQueue h')"
      "\<forall>r\<in>set (hl_completionQueue h'). hl_lastScheduled h' \<le> hr_finishedAt r"
      using ok that by (auto simp: hil_inv_def)
    have "Min (hr_finishedAt ` set (hl_completionQueue h')) = hl_lastScheduled h'"
      by (rule Min_eqI) (use p in auto)
    with p show ?thesis by simp
  qed
  moreover have "\<forall>(t, r)\<in>set (hl_called h'). t = hr_finishedAt r" using ok by (auto simp: hil_inv_def)
  ultimately show ?thesis using ok by (simp add: hil_inv_def hil_accounts_def)
qed

text \<open>A queue whose top is the first of the elements with the least tick; a request that is finished at tick 5.\<close>

definition first_least :: "'c hil_request list \<Rightarrow> nat" where
  "first_least q = length (takeWhile (\<lambda>r. hr_finishedAt r \<noteq> Min (hr_finishedAt ` set q)) q)"

lemma first_least_ok: "top_ok first_least"
  unfolding top_ok_def
proof (intro allI impI)
  fix q :: "'c hil_request list" assume q: "q \<noteq> []"
  let ?m = "Min (hr_finishedAt ` set q)"
  have m: "?m \<in> hr_finishedAt ` set q" "\<forall>r\<in>set q. ?m \<le> hr_finishedAt r" using q by auto
  have l: "first_least q < length q"
  proof (rule ccontr)
    assume "\<not> first_least q < length q"
    then have "length q \<le> length (takeWhile (\<lambda>r. hr_finishedAt r \<noteq> ?m) q)" by (simp add: first_least_def)
    then have "takeWhile (\<lambda>r. hr_finishedAt r \<noteq> ?m) q = q" by (metis take_all takeWhile_eq_take)
    then have "\<forall>r\<in>set q. hr_finishedAt r \<noteq> ?m" by (simp add: takeWhile_eq_all_conv)
    with m(1) show False by auto
  qed
  then have "hr_finishedAt (q ! first_least q) = ?m"
    using nth_length_takeWhile[of "\<lambda>r. hr_finishedAt r \<noteq> ?m" q] by (simp add: first_least_def)
  with l m(2) show "first_least q < length q \<and> (\<forall>r\<in>set q. hr_finishedAt (q ! first_least q) \<le> hr_finishedAt r)" by simp
qed

definition plain_request :: "unit hil_request" where
  "plain_request = \<lparr>hr_reqID = 1, hr_offset = 0, hr_length = 4096, hr_slpn = 3, hr_nlp = 1, hr_finishedAt = 5, hr_function = ()\<rparr>"

theorem requests_complete_on_time_witness:
  "\<exists>h eng h' eng'. HIL_new () eng_new = Inr (h, eng) \<and> hil_path first_least (h, eng) [plain_request] (h', eng')
    \<and> (hl_completionQueue h' \<noteq> [] \<longrightarrow> eng_pending eng' (hl_completionEvent h') = Some (Min (hr_finishedAt ` set (hl_completionQueue h'))))
    \<and> {#plain_request#} = mset (map snd (hl_called h')) + mset (hl_completionQueue h')"
proof -
  obtain h :: "unit hil" and eng where n: "HIL_new () eng_new = Inr (h, eng)" "eng_simTick eng = 0"
    by (fastforce simp: HIL_new_def allocateEvent_def eng_new_def)
  have inv: "hil_inv h eng" using HIL_new_inv[OF eng_new_inv n(1)] by simp
  have "hil_inv (h\<lparr>hl_reqCount := 1\<rparr>) eng" using inv by (simp add: hil_inv_def)
  then obtain h' eng' where f: "hil_finish first_least plain_request 5 (h\<lparr>hl_reqCount := 1\<rparr>, eng) = Inr (h', eng')"
    using hil_finish_ok[OF first_least_ok, of "h\<lparr>hl_reqCount := 1\<rparr>" eng 5 plain_request] later_noticed n(2) by fastforce
  have "hil_step first_least (h, eng) [plain_request\<lparr>hr_finishedAt := 5\<rparr>] (h', eng')"
    by (rule hil_step.finish[OF _ f]) (rule later_noticed[OF inv], simp add: n(2))
  then have p: "hil_path first_least (h, eng) [plain_request] (h', eng')"
    using hil_path.step[OF hil_path.start] by (fastforce simp: plain_request_def)
  from requests_complete_on_time[OF first_least_ok eng_new_inv n(1) this] n(1) p show ?thesis by auto
qed

text \<open>A request that is finished at the tick at which the event was handled last, after the queue had become
  empty, schedules nothing: the engine is unchanged, and the request waits for the next one.\<close>

lemma same_tick_request_waits:
  assumes "top_ok pick" "hl_completionQueue h = []" "hl_lastScheduled h = tick"
  shows "hil_finish pick req tick (h, eng) = Inr (h\<lparr>hl_completionQueue := [req\<lparr>hr_finishedAt := tick\<rparr>]\<rparr>, eng)"
proof -
  have "pick [req\<lparr>hr_finishedAt := tick\<rparr>] < length [req\<lparr>hr_finishedAt := tick\<rparr>]"
    using assms(1) unfolding top_ok_def by blast
  then have "pick [req\<lparr>hr_finishedAt := tick\<rparr>] = 0" by simp
  then show ?thesis using assms(2,3) by (simp add: hil_finish_def updateCompletion_def)
qed

section \<open>Pages of a request\<close>

text \<open>The driver: the bytes of a request are in its pages unless the request ends in a page more than a request
  from the start of a page would.\<close>

definition request_bytes :: "nat \<Rightarrow> 'c hil_request \<Rightarrow> nat set" where
  "request_bytes logicalPageSize r = {hr_slpn r * logicalPageSize ..< (hr_slpn r + hr_nlp r) * logicalPageSize}"

lemma DIVCEIL64_eq:
  assumes "0 < x" "x < 2 ^ 64" "0 < y"
  shows "x \<le> DIVCEIL64 x y * y" "DIVCEIL64 x y * y < x + y"
proof -
  have "(x + 2 ^ 64 - 1) mod 2 ^ 64 = (x - 1 + 2 ^ 64) mod 2 ^ 64" using assms(1) by (intro arg_cong[where f = "\<lambda>n. n mod _"]) linarith
  also have "\<dots> = x - 1" using assms(2) by simp
  finally have d: "DIVCEIL64 x y = (x - 1) div y + 1" by (simp add: DIVCEIL64_def)
  have "x - 1 = (x - 1) div y * y + (x - 1) mod y" "(x - 1) mod y < y" using assms(3) by simp_all
  then show "x \<le> DIVCEIL64 x y * y" "DIVCEIL64 x y * y < x + y" unfolding d distrib_right using assms(1) by linarith+
qed

text \<open>C37: The request that the driver makes of a range of bytes inside the drive has the first page of the range and
  covers the range exactly if the offset in the first page and the length together fit into as many pages as
  the length alone; otherwise the last page of the range is missing, and it is the only one.\<close>

theorem none_request_pages:
  assumes "0 < p" "0 < bio_length b" "bio_length b < 2 ^ 64" "bio_offset b div p \<le> pages"
  shows "let r = none_request log2 pages p b; bytes = {bio_offset b ..< bio_offset b + bio_length b} in
     hr_slpn r = bio_offset b div p \<and> hr_slpn r * p + hr_offset r = bio_offset b \<and> hr_length r = bio_length b
     \<and> (bytes \<subseteq> request_bytes p r \<longleftrightarrow> bio_offset b mod p + bio_length b \<le> DIVCEIL64 (bio_length b) p * p)
     \<and> bytes \<subseteq> request_bytes p (r\<lparr>hr_nlp := hr_nlp r + 1\<rparr>)"
proof -
  let ?o = "bio_offset b" and ?n = "DIVCEIL64 (bio_length b) p"
  note d = DIVCEIL64_eq[OF assms(2,3,1)]
  have o: "?o = ?o div p * p + ?o mod p" "?o mod p < p" using assms(1) by simp_all
  have "{?o ..< ?o + bio_length b} \<subseteq> {?o div p * p ..< (?o div p + ?n) * p} \<longleftrightarrow> ?o + bio_length b \<le> (?o div p + ?n) * p"
    using assms(2) o(1) by (auto simp: atLeastLessThan_subset_iff)
  moreover have "?o + bio_length b \<le> (?o div p + ?n) * p \<longleftrightarrow> ?o mod p + bio_length b \<le> ?n * p"
    unfolding distrib_right using o(1) by linarith
  moreover have "?o + bio_length b \<le> (?o div p + (?n + 1)) * p"
    unfolding distrib_right using o d(1) by linarith
  then have "{?o ..< ?o + bio_length b} \<subseteq> {?o div p * p ..< (?o div p + (?n + 1)) * p}" using o(1) by auto
  ultimately show ?thesis using assms(4) by (simp add: none_request_def request_bytes_def Let_def)
qed

text \<open>512 bytes at the end of a page and 512 more.\<close>

theorem none_request_pages_witness:
  "let r = none_request (\<lambda>n. 10) 1024 4096 \<lparr>bio_id = 1, bio_type = BIO_WRITE, bio_offset = 3584, bio_length = 1024, bio_callback = ()\<rparr> in
     hr_slpn r = 0 \<and> \<not> {3584 ..< 4608} \<subseteq> request_bytes 4096 r"
  using none_request_pages[of 4096 "\<lparr>bio_id = 1, bio_type = BIO_WRITE, bio_offset = 3584, bio_length = 1024, bio_callback = ()\<rparr>" 1024 "\<lambda>n. 10"]
  by (simp add: Let_def DIVCEIL64_def)

text \<open>The front end: the tick never goes back, and the cache keeps every page it is given, unless the collection
  hands pages back.\<close>

lemma idle_with_below: "idle g ok n D s \<Longrightarrow> ok f \<Longrightarrow> idle g ok n D (s\<lparr>gc_below := f\<rparr>)"
  by (simp add: idle_def cache_wf_def dirty_pages_def)

lemma idle_gc_below: "idle g ok n D s \<Longrightarrow> ok (gc_below s)"
  by (simp add: idle_def)

definition hands_back_none :: "'f icl_globals \<Rightarrow> ('f \<Rightarrow> bool) \<Rightarrow> bool" where
  "hands_back_none ig ok \<longleftrightarrow> (\<forall>f. ok f \<longrightarrow> ok (ig_incIclCount ig f) \<and> \<not> ig_putPagesInCache ig f)"

lemma count_icl_idle: "idle g ok n D s \<Longrightarrow> hands_back_none ig ok \<Longrightarrow> idle g ok n D (count_icl ig s)"
  using idle_gc_below[of g ok n D s] by (simp add: count_icl_def idle_with_below hands_back_none_def)

abbreviation cache_faults :: "'f below \<Rightarrow> fault set" where
  "cache_faults be \<equiv> insert (Panic ''Cache corrupted!'') (below_faults be)"

lemma icl_write_ok:
  assumes "cache_over_ftl be ok g" "hands_back_none ig ok" "idle g ok n D s"
  shows "run (cache_faults be) (\<lambda>(t, s'). idle g ok n (D \<union> {rq_slpn req ..< rq_slpn req + rq_nlp req}) s' \<and> tick + latency CPU_WRITE \<le> t)
    (icl_write ig latency g be p req tick s)"
  unfolding icl_write_def
proof (rule run_bindI)
  let ?I = "\<lambda>is (t, rem :: nat, s'). idle g ok n (D \<union> (\<lambda>i. rq_slpn req + i) ` set is) s' \<and> tick \<le> t"
  show "run (cache_faults be) (?I [0..<rq_nlp req]) (rfold (icl_write_page ig g be p req tick) [0..<rq_nlp req] (tick, rq_length req, s))"
  proof (rule run_rfold_index[where I = ?I])
    fix "is" :: "nat list" and i js and x :: "nat \<times> nat \<times> 'a gcache" assume I: "?I is x"
    obtain t rem s1 where x: "x = (t, rem, s1)" by (metis prod_cases3)
    let ?r = "icl_piece p req i rem"
    let ?D = "D \<union> (\<lambda>i. rq_slpn req + i) ` set is"
    have i1: "idle g ok n ?D (count_icl ig s1)" using I x assms(2) by (simp add: count_icl_idle)
    have "run (cache_faults be) (\<lambda>(hit, t', s'). idle g ok n (insert (rq_slpn ?r) ?D) s') (gc_write g be ?r tick (count_icl ig s1))"
      by (rule run_mono[OF cache_over_ftl.gc_write_ok[OF assms(1) i1, where G = "cache_faults be"]]) auto
    then show "run (cache_faults be) (?I (is @ [i])) (icl_write_page ig g be p req tick i x)"
      unfolding icl_write_page_def x prod.case Let_def
    proof (rule run_bindI)
      fix y :: "bool \<times> nat \<times> 'a gcache" assume y: "case y of (hit, t', s') \<Rightarrow> idle g ok n (insert (rq_slpn ?r) ?D) s'"
      obtain hit b s2 where yy: "y = (hit, b, s2)" by (metis prod_cases3)
      have "\<not> ig_putPagesInCache ig (gc_below s2)"
        using y yy idle_gc_below[of g ok] assms(2) by (auto simp: hands_back_none_def)
      with y yy I x show "run (cache_faults be) (?I (is @ [i])) (case y of (hit, beginAt, s) \<Rightarrow>
          rbind (if ig_putPagesInCache ig (gc_below s) then writeToCacheMimic ig g be p beginAt s else Inr (beginAt, s))
            (\<lambda>(beginAt, s). Inr (max t beginAt, rem - rq_length ?r, s)))"
        by (simp add: icl_piece_def le_max_iff_disj)
    qed
  qed (use assms(3) in simp)
  fix x :: "nat \<times> nat \<times> 'a gcache" assume I: "?I [0..<rq_nlp req] x"
  moreover have "(\<lambda>i. rq_slpn req + i) ` set [0..<rq_nlp req] = {rq_slpn req ..< rq_slpn req + rq_nlp req}"
    by (simp add: add.commute)
  ultimately show "run (cache_faults be) (\<lambda>(t, s'). idle g ok n (D \<union> {rq_slpn req ..< rq_slpn req + rq_nlp req}) s' \<and> tick + latency CPU_WRITE \<le> t)
      (case x of (finishedAt, reqRemain, s) \<Rightarrow> Inr (finishedAt + latency CPU_WRITE, s))"
    by (cases x) simp
qed

text \<open>The lengths of the parts: page after page, without regard to the offset. With an offset in the first page,
  a first part of a whole page ends behind the page.\<close>

lemma icl_read_remaining:
  "run UNIV (\<lambda>(t, rem, s'). rem = rq_length req - length is * p)
     (rfold (icl_read_page ig g be p req tick) is (t0, rq_length req, s))"
proof (rule run_rfold_index[where I = "\<lambda>is (t, rem, s'). rem = rq_length req - length is * p"])
  fix "is" :: "nat list" and i js and x :: "nat \<times> nat \<times> 'a gcache"
  assume "case x of (t, rem, s') \<Rightarrow> rem = rq_length req - length is * p"
  then obtain t s1 where x: "x = (t, rq_length req - length is * p, s1)" by (cases x) auto
  show "run UNIV (\<lambda>(t, rem, s'). rem = rq_length req - length (is @ [i]) * p) (icl_read_page ig g be p req tick i x)"
    unfolding icl_read_page_def x prod.case Let_def
    by (simp add: run_partial icl_piece_def min_def add.commute split: prod.split)
qed simp

lemma first_piece_crosses:
  assumes "0 < rq_offset req" "p \<le> rq_length req"
  shows "p < rq_offset (icl_piece p req 0 (rq_length req)) + rq_length (icl_piece p req 0 (rq_length req))"
  using assms by (simp add: icl_piece_def)

text \<open>Over any layer below that hands no page back, a write of the host keeps its pages and is completed.\<close>

lemma hil_write_ok:
  assumes "cache_over_ftl be ok g" "hands_back_none ig ok" "idle g ok n D s"
    and "top_ok pick" "hil_inv h eng" "0 < latency CPU_WRITE"
  shows "run (cache_faults be) (\<lambda>((h', s'), eng').
      cache_wf g s' \<and> D \<union> {hr_slpn req ..< hr_slpn req + hr_nlp req} \<subseteq> dirty_pages g s' \<union> written_pages g (drop n (gc_log s'))
      \<and> hil_inv h' eng' \<and> (\<exists>t. hil_step pick (h, eng) [req\<lparr>hr_reqID := hl_reqCount h + 1, hr_finishedAt := t\<rparr>] (h', eng')))
    (hil_serve pick ig latency g be p HIL_WRITE req ((h, s), eng))"
proof -
  let ?req = "req\<lparr>hr_reqID := hl_reqCount h + 1\<rparr>"
  let ?h = "h\<lparr>hl_reqCount := hl_reqCount h + 1\<rparr>"
  have inv: "hil_inv ?h eng" using assms(5) by (simp add: hil_inv_def)
  have w: "run (cache_faults be) (\<lambda>(t, s'). idle g ok n (D \<union> {hr_slpn req ..< hr_slpn req + hr_nlp req}) s' \<and> eng_simTick eng + latency CPU_WRITE \<le> t)
    (icl_write ig latency g be p (icl_request_of ?req) (eng_simTick eng) s)"
    using icl_write_ok[OF assms(1-3), where req = "icl_request_of ?req"] by (simp add: icl_request_of_def)
  have "run (cache_faults be) (\<lambda>((h', s'), eng').
      cache_wf g s' \<and> D \<union> {hr_slpn req ..< hr_slpn req + hr_nlp req} \<subseteq> dirty_pages g s' \<union> written_pages g (drop n (gc_log s'))
      \<and> hil_inv h' eng' \<and> (\<exists>t. hil_step pick (h, eng) [?req\<lparr>hr_finishedAt := t\<rparr>] (h', eng')))
    (rbind (icl_write ig latency g be p (icl_request_of ?req) (eng_simTick eng) s) (\<lambda>(tick, s).
       rbind (hil_finish pick ?req tick (?h, eng)) (\<lambda>(h, eng). Inr ((h, s), eng))))"
  proof (rule run_bindI[OF w])
    fix x :: "nat \<times> 'a gcache"
    assume x: "case x of (t, s') \<Rightarrow> idle g ok n (D \<union> {hr_slpn req ..< hr_slpn req + hr_nlp req}) s' \<and> eng_simTick eng + latency CPU_WRITE \<le> t"
    obtain t s' where xx: "x = (t, s')" by (cases x)
    have t: "eng_simTick eng < t" using x xx assms(6) by simp
    obtain h' eng' where f: "hil_finish pick ?req t (?h, eng) = Inr (h', eng')" "hil_inv h' eng'"
      using hil_finish_ok[OF assms(4) inv later_noticed[OF inv t], of ?req] by blast
    have "hil_step pick (h, eng) [?req\<lparr>hr_finishedAt := t\<rparr>] (h', eng')"
      by (rule hil_step.finish[OF later_noticed[OF assms(5) t] f(1)])
    then show "run (cache_faults be) (\<lambda>((h', s'), eng').
      cache_wf g s' \<and> D \<union> {hr_slpn req ..< hr_slpn req + hr_nlp req} \<subseteq> dirty_pages g s' \<union> written_pages g (drop n (gc_log s'))
      \<and> hil_inv h' eng' \<and> (\<exists>t. hil_step pick (h, eng) [?req\<lparr>hr_finishedAt := t\<rparr>] (h', eng')))
      (case x of (tick, s) \<Rightarrow> rbind (hil_finish pick ?req tick (?h, eng)) (\<lambda>(h, eng). Inr ((h, s), eng)))"
      using f x xx by (auto simp: idle_def)
  qed
  then show ?thesis by (simp add: hil_serve_def hil_numbered_def Let_def getCurrentTick_def del: run_bind)
qed

text \<open>The flash translation layer hands no page back unless its policy is \<^verbatim>\<open>CACHED_GC\<close>.\<close>

lemma ftl_hands_back_none: "hands_back_none ftl_globals hands_nothing"
  by (simp add: hands_back_none_def hands_nothing_def ftl_globals_def) (simp add: handed_def)

text \<open>C38: With the flash translation layer below, under any policy of the collection but
  \<^verbatim>\<open>CACHED_GC\<close> (which puts pages of its victims into the cache), and no page
  handed back yet, a write of the host that the interface layer serves keeps its pages: each is dirty in
  the cache or has been written to the translation layer, with everything written before. The write of the
  front end takes time (\<^verbatim>\<open>latency CPU_WRITE\<close>), so the request is put into the
  queue as finished at a later tick, and the completion event is pending in time. The service stops only
  with a fault of the translation layer or, which takes a write of that layer that ends at the largest
  64-bit tick, with the panic of the cache.\<close>

theorem served_write_keeps_pages:
  assumes "pc_policy c \<noteq> CACHED_GC" "conf_ok g" "idle g hands_nothing n D s"
    and "top_ok pick" "hil_inv h eng" "0 < latency CPU_WRITE"
  shows "run (insert (Panic ''Cache corrupted!'') (below_faults (ftl_below c pl))) (\<lambda>((h', s'), eng').
      cache_wf g s' \<and> D \<union> {hr_slpn req ..< hr_slpn req + hr_nlp req} \<subseteq> dirty_pages g s' \<union> written_pages g (drop n (gc_log s'))
      \<and> hil_inv h' eng' \<and> (\<exists>t. hil_step pick (h, eng) [req\<lparr>hr_reqID := hl_reqCount h + 1, hr_finishedAt := t\<rparr>] (h', eng')))
    (hil_serve pick ftl_globals latency g (ftl_below c pl) p HIL_WRITE req ((h, s), eng))"
  using assms by (intro hil_write_ok[where ok = hands_nothing and latency = latency] quiet_cache ftl_hands_back_none)

text \<open>A cache of two ways over the flash of four blocks. The page 3 is written.\<close>

lemma small_flash_new:
  "\<exists>f. PageMapping_new small_conf () = Inr f \<and> hands_nothing f"
proof -
  have "(case PageMapping_new small_conf () of Inl e \<Rightarrow> False
    | Inr f \<Rightarrow> pm_movePagesToCache f = [] \<and> \<not> pm_putPagesInCache f)"
    by code_simp
  then show ?thesis by (auto simp: hands_nothing_def handed_def split: sum.splits)
qed

theorem served_write_keeps_pages_witness:
  "\<exists>f h eng. PageMapping_new small_conf () = Inr f \<and> HIL_new () eng_new = Inr (h, eng)
     \<and> run (insert (Panic ''Cache corrupted!'') (below_faults (ftl_below small_conf instant_pal)))
     (\<lambda>((h', s'), eng'). 3 \<in> dirty_pages small_cache s' \<union> written_pages small_cache (gc_log s'))
     (hil_serve first_least ftl_globals (\<lambda>_. 5) small_cache (ftl_below small_conf instant_pal) 4096 HIL_WRITE plain_request
        ((h, GenericCache_new small_cache f), eng))"
proof -
  obtain h :: "unit hil" and eng where n: "HIL_new () eng_new = Inr (h, eng)"
    by (fastforce simp: HIL_new_def allocateEvent_def eng_new_def)
  have inv: "hil_inv h eng" using HIL_new_inv[OF eng_new_inv n] by simp
  obtain f where f: "PageMapping_new small_conf () = Inr f" "hands_nothing f" using small_flash_new by blast
  have conf: "conf_ok small_cache" "pc_policy small_conf \<noteq> CACHED_GC" by (simp_all add: conf_ok_def small_cache_def small_conf_def)
  have three: "{3 ..< 4 :: nat} = {3}" by auto
  have idle: "idle small_cache hands_nothing 0 {} (GenericCache_new small_cache f)"
    by (rule GenericCache_new_idle[of _ hands_nothing, OF conf(1) f(2)])
  have "run (insert (Panic ''Cache corrupted!'') (below_faults (ftl_below small_conf instant_pal)))
     (\<lambda>((h', s'), eng'). 3 \<in> dirty_pages small_cache s' \<union> written_pages small_cache (gc_log s'))
     (hil_serve first_least ftl_globals (\<lambda>_. 5) small_cache (ftl_below small_conf instant_pal) 4096 HIL_WRITE plain_request
        ((h, GenericCache_new small_cache f), eng))"
    by (rule run_mono[OF served_write_keeps_pages[OF conf(2,1) idle first_least_ok inv]])
      (auto simp: plain_request_def three)
  with n f(1) show ?thesis by blast
qed

end
