(* ===== verification/Spec2Isabelle.thy ===== *)
theory Spec2Isabelle
  imports Main Prelude Bitsets Blocks Event_Engine Nvme_Queue Nvme_Driver Nvme_Controller Nvme_DmaProps Nvme_Prps
    Icl_Props Ftl_Below Ftl_Victims Pal_Props Hil_Props
begin

text \<open>
  A model of SimpleSSD (SimpleSSD-Standalone), a simulator of solid state drives, with what is proved of it.
  Paths without a directory of their own are below simplessd/; sil/ and sim/ are those of the standalone
  simulator.

  \<^bold>\<open>The program.\<close> An event engine (sim/engine.cc) calls functions at their ticks. A simulated driver
  (sil/nvme) puts commands into submission queues in the memory of the host, rings doorbells and takes
  completions at interrupts; the NVMe controller (hil/nvme) fetches the commands in the order of its
  arbitration, transfers their data from and to the memory of the host, and posts completions. Below it, the
  internal cache layer (icl) keeps pages in sets of lines and passes misses and evicted pages to the flash
  translation layer (ftl), which maps logical pages to pages of blocks and collects blocks to erase them. Its
  reads, writes and erasures go to the flash (pal), which turns the number of a superblock into addresses of
  chips and finds the ticks at which channels and dies are free.

  \<^bold>\<open>Conventions\<close> (\<^theory_text>\<open>Prelude\<close>, \<^theory_text>\<open>Runs\<close>, \<^theory_text>\<open>Grids\<close>). A computation gives \<^verbatim>\<open>Inr\<close> of a value or \<^verbatim>\<open>Inl\<close> of a
  fault: a call of \<^verbatim>\<open>panic\<close>, an access out of range, a null pointer, a loop that does not end. Arrays are
  lists with checked accesses, classes are records, methods are functions from a state to a result.
  Where the code relies on fixed widths (the words of bit sets, the 16 bits of queue indices, the fields of
  queue entries) values are words; ticks, page numbers and counters are natural numbers, so that the wrap
  around at 64 bits, which takes centuries of simulated time, is not modelled. A function that is called
  through a pointer is a parameter. \<^verbatim>\<open>run F P r\<close> says that a result is a fault in \<^verbatim>\<open>F\<close> or has the property
  \<^verbatim>\<open>P\<close>.

  \<^bold>\<open>Parts.\<close>

  \<^item> \<^theory_text>\<open>Bitsets\<close>: the class \<^verbatim>\<open>Bitset\<close> (util/bitset.cc). It refines finite sets of numbers; the locale
    \<^verbatim>\<open>bitvec\<close> states what its clients use.
  \<^item> \<^theory_text>\<open>Blocks\<close>: the class \<^verbatim>\<open>Block\<close> (ftl/common/block.cc), over bit sets. It refines a list of pages that are
    erased, valid or dirty; no page is programmed twice between erasures.
  \<^item> \<^theory_text>\<open>Event_Engine\<close>: the queue of events. The engine keeps events in the order of their ticks and time does not
    run backwards; the locale \<^verbatim>\<open>event_service\<close>.
  \<^item> \<^theory_text>\<open>Nvme_Queue\<close>, \<^theory_text>\<open>Nvme_Driver\<close>, \<^theory_text>\<open>Nvme_Controller\<close>: the rings on both sides (hil/nvme/queue.cc,
    sil/nvme/queue.cc), the submission and the completion of commands by the driver (sil/nvme/nvme.cc), and
    the controller (hil/nvme/controller.cc): doorbells, arbitration, FIFOs, interrupt coalescing. The locale
    \<^verbatim>\<open>ring_index\<close> is shared by the heads and tails. The completions of the controller reach the driver each once
    and in order; arbitration ends and is fair between the queues it serves.
  \<^item> \<^theory_text>\<open>Nvme_Dma\<close>, \<^theory_text>\<open>Nvme_DmaProps\<close>, \<^theory_text>\<open>Nvme_Prps\<close>: the data pointers of commands (sil/nvme/prp.cc,
    hil/nvme/dma.cc). A transfer accesses exactly the bytes of its range; the lists of the driver and the
    reading of them by the controller agree up to one full list, and not beyond.
  \<^item> \<^theory_text>\<open>Icl_Policy\<close>, \<^theory_text>\<open>Icl_Cache\<close>: the lines and the replacement policies, and every operation of
    \<^verbatim>\<open>GenericCache\<close> (icl/generic_cache.cc) over any layer below, a record of functions. \<^theory_text>\<open>Icl_Safety\<close>,
    \<^theory_text>\<open>Icl_Reads\<close> and \<^theory_text>\<open>Icl_Flush\<close> have the invariant and its preservation by writes, reads, flushes
    and trims, in the locales \<^verbatim>\<open>layer_below\<close> (the laws of the layer) and \<^verbatim>\<open>cache_over_ftl\<close>; the order of the
    policies is in \<^verbatim>\<open>replacement_order\<close> and \<^verbatim>\<open>replacement_policy\<close>. \<^theory_text>\<open>Icl_Props\<close> has the properties:
    no written page is lost, what is read is cached, what is flushed was written.
  \<^item> \<^theory_text>\<open>Ftl_Mapping\<close>, \<^theory_text>\<open>Ftl_Collect\<close>: \<^verbatim>\<open>PageMapping\<close> and \<^verbatim>\<open>FTL\<close> (ftl/page_mapping.cc, ftl/ftl.cc), with the
    cached mapping table and the globals shared with the cache (icl/global_point.cc). \<^theory_text>\<open>Ftl_Invariant\<close>,
    \<^theory_text>\<open>Ftl_Gc\<close> and \<^theory_text>\<open>Ftl_Ops\<close>: the mapping and the valid pages of the flash are inverse to each other, and
    every operation keeps this. \<^theory_text>\<open>Ftl_Below\<close> shows that this layer has the laws the cache relies on (the
    interpretations of \<^verbatim>\<open>layer_below\<close> and \<^verbatim>\<open>cache_over_ftl\<close>). \<^theory_text>\<open>Ftl_Props\<close> and \<^theory_text>\<open>Ftl_Victims\<close> have the
    properties.
  \<^item> \<^theory_text>\<open>Pal_Slots\<close>, \<^theory_text>\<open>Pal_Timeline\<close>, \<^theory_text>\<open>Pal_Address\<close>: the free time of channels and dies, the scheduler
    (pal/old/PAL2.cc) with the latencies of the kinds of flash, and the addresses (pal/config.cc,
    pal/pal_old.cc). \<^theory_text>\<open>Pal_Schedule\<close> and \<^theory_text>\<open>Pal_Requests\<close>: every sequence of requests is served and no two
    operations hold the same channel or die at a tick. \<^theory_text>\<open>Pal_Units\<close>: superblocks and units are the pages of
    the flash, each once. \<^theory_text>\<open>Pal_Props\<close> has the properties.

  \<^item> \<^theory_text>\<open>Hil_Requests\<close>: the driver without an interface (sil/none/none.cc), the host interface layer
    (hil/hil.cc) on the event engine, and the front end of the cache (icl/icl.cc), which splits requests into
    pages. \<^theory_text>\<open>Hil_Props\<close>: requests are completed once and at their ticks; a write that the layer serves keeps
    its pages, over any layer below with the laws of \<^verbatim>\<open>cache_over_ftl\<close>.

  \<^bold>\<open>Loops.\<close> Loops whose end is a matter of the data are proved to end. The rounds of the arbitration and the
  polling of the driver take a number of turns at most, which is the number of entries that can be waiting and
  is shown to suffice. The search for a place in the scheduler and the lists of PRP entries are
  \<^theory_text>\<open>partial_function (option)\<close>; the search is shown to return from every reachable state, the lists for every size
  up to a thousand pages.

  \<^bold>\<open>Parameters.\<close> Floating point results (weights of the policies, transfer times, the threshold of the
  prefetcher), hash functions, random draws, the delays of the processor and the DRAM, the addresses that the
  allocator gives, and what event functions and response handlers do. Hypotheses about them are named in
  the theorems that need them, and each such theorem has an instance.

  \<^bold>\<open>Not modelled.\<close> Statistics and output; the interpretation of commands (hil/nvme/subsystem.cc, namespace.cc,
  ocssd.cc), the SATA and UFS interfaces, the processor and DRAM models, which only give delays, the
  timing of PCIe (util/interface.cc) and of the FIFO (util/fifo.cc), disk images, configuration files, the
  generators of workloads (igl, bil), and the vendored libraries. Products of sizes of the flash do not wrap
  around at 32 bits. The mapping is proved for one I/O unit in a page and without the cached mapping table; the
  definitions cover both.
\<close>

end
